(* ===== verification/Prelude.thy ===== *)
theory Prelude
  imports Main "HOL-Library.Char_ord" "HOL-Library.Word"
begin

text \<open>
  Shared vocabulary of the development.

  Source text is a C++ \<open>std::string\<close>, that is a sequence of bytes: it is a \<open>string\<close> here,
  a list of \<open>char\<close>, where \<open>ub c\<close> is the byte as an unsigned number (the code's
  \<open>static_cast<unsigned char>\<close>). A \<open>const char *\<close> into a text is an index, and reading one
  past the last byte gives the terminating NUL, as \<open>c_str()\<close> guarantees (\<open>byte_at\<close>).
  Bit operations of the code on bytes and code points are the library's bit operations
  on \<open>nat\<close>; the collection \<open>mask_simps\<close> turns the masks of the code into \<open>div\<close> and \<open>mod\<close>.
\<close>

unbundle bit_operations_syntax

named_theorems mask_simps \<open>masks and shifts of the code as div and mod\<close>
named_theorems byte_simps \<open>classification of bytes\<close>

subsection \<open>Bytes\<close>

abbreviation ub :: "char \<Rightarrow> nat" where
  "ub c \<equiv> of_char c"

lemma ub_less [simp]: "ub c < 256"
  by simp

lemma ub_le [simp]: "ub c \<le> 255"
  using ub_less [of c] by linarith

lemma ub_inject [simp]: "ub c = ub d \<longleftrightarrow> c = d"
  by (simp add: of_char_eq_iff)

lemma ub_zero_iff: "ub c = 0 \<longleftrightarrow> c = CHR 0x00"
  using ub_inject [of c "CHR 0x00"] by simp

lemma ub_pos_iff: "0 < ub c \<longleftrightarrow> c \<noteq> CHR 0x00"
  using ub_zero_iff [of c] by auto

lemma ub_char_of [simp]: "n < 256 \<Longrightarrow> ub (char_of n) = n"
  by (simp add: of_char_of)

definition byte_at :: "string \<Rightarrow> nat \<Rightarrow> char" where
  "byte_at s i = (if i < length s then s ! i else CHR 0x00)"

lemma byte_at_in: "i < length s \<Longrightarrow> byte_at s i = s ! i"
  by (simp add: byte_at_def)

lemma byte_at_out [simp]: "length s \<le> i \<Longrightarrow> byte_at s i = CHR 0x00"
  by (simp add: byte_at_def)

lemma byte_at_non_nul: "byte_at s i \<noteq> CHR 0x00 \<Longrightarrow> i < length s"
  by (auto simp: byte_at_def split: if_splits)

lemma byte_at_pos: "0 < ub (byte_at s i) \<Longrightarrow> i < length s"
  by (simp add: ub_pos_iff byte_at_non_nul)

lemma byte_at_append_left [simp]: "i < length xs \<Longrightarrow> byte_at (xs @ ys) i = xs ! i"
  by (simp add: byte_at_def nth_append)

lemma byte_at_append_right: "length xs \<le> i \<Longrightarrow> byte_at (xs @ ys) i = byte_at ys (i - length xs)"
  by (auto simp: byte_at_def nth_append)

lemma byte_at_append_shift [simp]: "byte_at (xs @ ys) (length xs + i) = byte_at ys i"
  by (simp add: byte_at_append_right)

lemma byte_at_Cons_0 [simp]: "byte_at (c # s) 0 = c"
  and byte_at_Cons_Suc [simp]: "byte_at (c # s) (Suc i) = byte_at s i"
  and byte_at_Cons_numeral [simp]: "byte_at (c # s) (numeral k) = byte_at s (pred_numeral k)"
  by (simp_all add: byte_at_def numeral_eq_Suc)

lemma byte_at_append_here [simp]: "byte_at (xs @ ys) (length xs) = byte_at ys 0"
  using byte_at_append_shift [of xs ys 0] by simp

lemma byte_at_append_Suc [simp]: "byte_at (xs @ ys) (Suc (length xs)) = byte_at ys 1"
  and byte_at_append_Suc2 [simp]: "byte_at (xs @ ys) (Suc (Suc (length xs))) = byte_at ys 2"
  and byte_at_append_Suc3 [simp]: "byte_at (xs @ ys) (Suc (Suc (Suc (length xs)))) = byte_at ys 3"
  using byte_at_append_shift [of xs ys 1] byte_at_append_shift [of xs ys 2]
    byte_at_append_shift [of xs ys 3]
  by (simp_all add: numeral_eq_Suc)

subsection \<open>Masks and shifts\<close>

lemma and_mask_mod: "(x::nat) AND mask n = x mod 2 ^ n"
  by (simp add: take_bit_eq_mask [symmetric] take_bit_eq_mod)

lemma and_shifted_mask: "(x::nat) AND (mask k * 2 ^ n) = (x div 2 ^ n) mod 2 ^ k * 2 ^ n"
proof -
  have "x AND push_bit n (mask k) = push_bit n (take_bit k (drop_bit n x))"
    by (rule bit_eqI) (auto simp: bit_simps)
  then show ?thesis by (simp add: push_bit_eq_mult take_bit_eq_mod drop_bit_eq_div)
qed

lemma or_disjoint_add: "(b::nat) < 2 ^ n \<Longrightarrow> (a * 2 ^ n) OR b = a * 2 ^ n + b"
proof -
  assume "b < 2 ^ n"
  then have b: "take_bit n b = b" by (simp add: take_bit_eq_mod)
  have "push_bit n a OR take_bit n b = push_bit n a + take_bit n b"
    by (rule disjunctive_add_eq_or [symmetric]) (auto simp: bit_eq_iff bit_simps)
  with b show ?thesis by (simp add: push_bit_eq_mult)
qed

lemma and_0x3F [mask_simps]: "(x::nat) AND 0x3F = x mod 64"
  using and_mask_mod [of x 6] by (simp only: mask_eq_exp_minus_1) simp

lemma and_0x1F [mask_simps]: "(x::nat) AND 0x1F = x mod 32"
  using and_mask_mod [of x 5] by (simp only: mask_eq_exp_minus_1) simp

lemma and_0x0F [mask_simps]: "(x::nat) AND 0x0F = x mod 16"
  using and_mask_mod [of x 4] by (simp only: mask_eq_exp_minus_1) simp

lemma and_0x07 [mask_simps]: "(x::nat) AND 0x07 = x mod 8"
  using and_mask_mod [of x 3] by (simp only: mask_eq_exp_minus_1) simp

lemma and_0x80: "(x::nat) AND 0x80 = x div 128 mod 2 * 128"
  using and_shifted_mask [of x 1 7] by (simp only: mask_eq_exp_minus_1) simp

lemma and_0xC0: "(x::nat) AND 0xC0 = x div 64 mod 4 * 64"
  using and_shifted_mask [of x 2 6] by (simp only: mask_eq_exp_minus_1) simp

lemma and_0xE0: "(x::nat) AND 0xE0 = x div 32 mod 8 * 32"
  using and_shifted_mask [of x 3 5] by (simp only: mask_eq_exp_minus_1) simp

lemma and_0xF0: "(x::nat) AND 0xF0 = x div 16 mod 16 * 16"
  using and_shifted_mask [of x 4 4] by (simp only: mask_eq_exp_minus_1) simp

lemma and_0xF8: "(x::nat) AND 0xF8 = x div 8 mod 32 * 8"
  using and_shifted_mask [of x 5 3] by (simp only: mask_eq_exp_minus_1) simp

lemma high_bits_eq_iff:
  fixes x k m a :: nat
  assumes "0 < k" and "x < m * k"
  shows "x div k mod m * k = a * k \<longleftrightarrow> a * k \<le> x \<and> x < Suc a * k"
proof -
  have "x div k < m" using assms by (simp add: div_less_iff_less_mult)
  moreover have "x div k = a \<longleftrightarrow> a \<le> x div k \<and> x div k < Suc a" by auto
  ultimately show ?thesis
    using assms(1) by (simp add: less_eq_div_iff_mult_less_eq div_less_iff_less_mult del: mult_Suc)
qed

text \<open>Reassembling a code point from its six-bit groups.\<close>

lemma combine_groups:
  fixes a b c d :: nat
  shows combine2: "b < 64 \<Longrightarrow> push_bit 6 a OR b = a * 64 + b"
    and combine3: "b < 64 \<Longrightarrow> c < 64 \<Longrightarrow> push_bit 12 a OR push_bit 6 b OR c = a * 4096 + (b * 64 + c)"
    and combine4: "b < 64 \<Longrightarrow> c < 64 \<Longrightarrow> d < 64 \<Longrightarrow>
      push_bit 18 a OR push_bit 12 b OR push_bit 6 c OR d =
        a * 262144 + (b * 4096 + (c * 64 + d))"
proof -
  have two: "push_bit 6 a OR b = a * 64 + b" if "b < 64" for a b :: nat
    using or_disjoint_add [of b 6 a] that by (simp add: push_bit_eq_mult)
  have three: "push_bit 12 a OR push_bit 6 b OR c = a * 4096 + (b * 64 + c)"
    if "b < 64" "c < 64" for a b c :: nat
  proof -
    have "b * 64 + c < 2 ^ 12" using that by simp
    from or_disjoint_add [OF this, of a] two [of c b] that
    show ?thesis by (simp add: push_bit_eq_mult)
  qed
  show "b < 64 \<Longrightarrow> push_bit 6 a OR b = a * 64 + b" by (rule two)
  show "b < 64 \<Longrightarrow> c < 64 \<Longrightarrow> push_bit 12 a OR push_bit 6 b OR c = a * 4096 + (b * 64 + c)"
    by (rule three)
  assume "b < 64" "c < 64" "d < 64"
  then have "b * 4096 + (c * 64 + d) < 2 ^ 18" by simp
  from or_disjoint_add [OF this, of a] three [of c d b] \<open>c < 64\<close> \<open>d < 64\<close>
  show "push_bit 18 a OR push_bit 12 b OR push_bit 6 c OR d =
      a * 262144 + (b * 4096 + (c * 64 + d))"
    by (simp add: push_bit_eq_mult)
qed

subsection \<open>Unsigned 32-bit casts\<close>

text \<open>The code's \<open>static_cast<std::uint32_t>\<close> of a value that may not fit.\<close>

definition u32 :: "nat \<Rightarrow> nat" where
  "u32 n = n mod 2 ^ 32"

definition u32_max :: nat where
  "u32_max = 2 ^ 32 - 1"

lemma u32_id [simp]: "n \<le> u32_max \<Longrightarrow> u32 n = n"
  by (simp add: u32_def u32_max_def)

lemma u32_le [simp]: "u32 n \<le> u32_max"
  using mod_less_divisor [of "2 ^ 32" n] by (simp add: u32_def u32_max_def)

end
