(* ===== verification/TextUtils.thy ===== *)
theory TextUtils
  imports Prelude
begin

text \<open>
  The byte and UTF-8 helpers of \<open>core/utils/TextUtils.hpp\<close>, \<open>core/utils/TextUtils.cpp\<close> and
  \<open>core/text/Utf8Utf16.hpp\<close>: character-range tables, the code-point length table, decoding,
  the strict and the lossy advance, case folding and escaping. A \<open>const char *\<close> is an index
  into the text; a null pointer is \<open>None\<close>. The specification they are compared with is the
  UTF-8 encoding of a code point, \<open>utf8_encode\<close>.
\<close>

subsection \<open>Character ranges\<close>

text \<open>The inner loop of \<open>createCharacterRange\<close>: marks every byte from the range's start to its end.\<close>

definition mark_range :: "char \<Rightarrow> char \<Rightarrow> (char \<Rightarrow> bool) \<Rightarrow> (char \<Rightarrow> bool)" where
  "mark_range a b v = fold (\<lambda>n t. t(char_of n := True)) [ub a ..< Suc (ub b)] v"

fun range_loop :: "string \<Rightarrow> (char \<Rightarrow> bool) \<Rightarrow> (char \<Rightarrow> bool)" where
  "range_loop (a # d # b # rest) v =
     (if d = CHR ''-'' then range_loop rest (mark_range a b v)
      else range_loop (d # b # rest) (v(a := True)))"
| "range_loop (a # rest) v = range_loop rest (v(a := True))"
| "range_loop [] v = v"

text \<open>
  The assertions reject a byte above 0x7F and a leading \<open>^\<close>; in the constant evaluation in
  which the code runs, a failed assertion is a compilation error: \<open>None\<close>.
\<close>

definition createCharacterRange :: "string \<Rightarrow> (char \<Rightarrow> bool) option" where
  "createCharacterRange s =
     (if \<not> list_all (\<lambda>c. ub c AND 0x80 = 0) s then None
      else if s \<noteq> [] \<and> hd s = CHR ''^'' then None
      else Some (range_loop s (\<lambda>_. False)))"

definition is_word_lookup :: "char \<Rightarrow> bool" where
  "is_word_lookup = the (createCharacterRange ''a-zA-Z0-9_'')"

definition isWord :: "char \<Rightarrow> bool" where
  "isWord c = is_word_lookup c"

definition is_letter_lookup :: "char \<Rightarrow> bool" where
  "is_letter_lookup = the (createCharacterRange ''a-zA-Z'')"

definition isLetter :: "char \<Rightarrow> bool" where
  "isLetter c = is_letter_lookup c"

subsection \<open>Code points\<close>

definition size_max :: nat where
  "size_max = 2 ^ 64 - 1"

definition utf8_codepoint_length :: "char \<Rightarrow> nat" where
  "utf8_codepoint_length leadByte =
     (let byteValue = ub leadByte in
      if byteValue = 0 then 0
      else if byteValue AND 0x80 = 0 then 1
      else if byteValue AND 0xE0 = 0xC0 then 2
      else if byteValue AND 0xF0 = 0xE0 then 3
      else if byteValue AND 0xF8 = 0xF0 then 4
      else size_max)"

function utf8_codepoint_count_from :: "string \<Rightarrow> nat \<Rightarrow> nat \<Rightarrow> nat" where
  "utf8_codepoint_count_from text index count =
     (if index < length text then
        let len = utf8_codepoint_length (text ! index) in
        utf8_codepoint_count_from text
          (index + (if len = 0 \<or> length text - index < len then 1 else len)) (count + 1)
      else count)"
  by pat_completeness auto
termination
  by (relation "measure (\<lambda>(text, index, count). length text - index)") (auto simp: Let_def)

definition utf8_codepoint_count :: "string \<Rightarrow> nat" where
  "utf8_codepoint_count text = utf8_codepoint_count_from text 0 0"

definition decode_utf8_codepoint :: "string \<Rightarrow> nat \<Rightarrow> nat" where
  "decode_utf8_codepoint s cursor =
     (let lead = ub (byte_at s cursor);
          b1 = ub (byte_at s (cursor + 1)) AND 0x3F;
          b2 = ub (byte_at s (cursor + 2)) AND 0x3F;
          b3 = ub (byte_at s (cursor + 3)) AND 0x3F;
          len = utf8_codepoint_length (byte_at s cursor) in
      if lead < 0x80 then lead
      else if len = 2 then push_bit 6 (lead AND 0x1F) OR b1
      else if len = 3 then push_bit 12 (lead AND 0x0F) OR push_bit 6 b1 OR b2
      else if len = 4 then
        push_bit 18 (lead AND 0x07) OR push_bit 12 b1 OR push_bit 6 b2 OR b3
      else lead)"

definition is_identifier_like_codepoint :: "nat \<Rightarrow> bool" where
  "is_identifier_like_codepoint codepoint \<longleftrightarrow> codepoint \<ge> 0x80 \<or> isWord (char_of codepoint)"

definition is_identifier_like_codepoint_at :: "string \<Rightarrow> nat option \<Rightarrow> nat \<Rightarrow> bool" where
  "is_identifier_like_codepoint_at s p e =
     (case p of
        None \<Rightarrow> False
      | Some p \<Rightarrow>
          if p \<ge> e then False
          else let len = utf8_codepoint_length (byte_at s p) in
            if len = 0 \<or> len > e - p then False
            else is_identifier_like_codepoint (decode_utf8_codepoint s p))"

function previous_codepoint_loop :: "string \<Rightarrow> nat \<Rightarrow> nat" where
  "previous_codepoint_loop text index =
     (if index > 0 \<and> ub (byte_at text index) AND 0xC0 = 0x80
      then previous_codepoint_loop text (index - 1) else index)"
  by pat_completeness auto
termination
  by (relation "measure (\<lambda>(text, index). index)") auto

definition previous_codepoint_start :: "string \<Rightarrow> nat \<Rightarrow> nat" where
  "previous_codepoint_start text pos =
     (if pos = 0 then 0 else previous_codepoint_loop text (pos - 1))"

definition consume_utf8_codepoint_if_complete :: "string \<Rightarrow> nat \<Rightarrow> nat option" where
  "consume_utf8_codepoint_if_complete s cursor =
     (let leadByte = ub (byte_at s cursor);
          nul = (\<lambda>k. ub (byte_at s (cursor + k)) = 0);
          len = utf8_codepoint_length (byte_at s cursor) in
      if leadByte = 0 then None
      else if leadByte < 0x80 then Some (cursor + 1)
      else if len = 2 then (if nul 1 then None else Some (cursor + 2))
      else if len = 3 then (if nul 1 \<or> nul 2 then None else Some (cursor + 3))
      else if len = 4 then (if nul 1 \<or> nul 2 \<or> nul 3 then None else Some (cursor + 4))
      else None)"

definition advanceOneCodepointLossy :: "string \<Rightarrow> nat \<Rightarrow> nat" where
  "advanceOneCodepointLossy s cursor =
     (let leadByte = ub (byte_at s cursor);
          nul = (\<lambda>k. ub (byte_at s (cursor + k)) = 0);
          len = utf8_codepoint_length (byte_at s cursor) in
      if leadByte = 0 then cursor
      else if leadByte < 0x80 then cursor + 1
      else if len = 2 then (if nul 1 then cursor + 1 else cursor + 2)
      else if len = 3 then (if nul 1 \<or> nul 2 then cursor + 1 else cursor + 3)
      else if len = 4 then (if nul 1 \<or> nul 2 \<or> nul 3 then cursor + 1 else cursor + 4)
      else cursor + 1)"

subsection \<open>Case folding and escaping\<close>

definition tolower :: "char \<Rightarrow> char" where
  "tolower c = (if ub c \<ge> ub CHR ''A'' \<and> ub c \<le> ub CHR ''Z'' then char_of (ub c + 32) else c)"

definition hex_digit :: "nat \<Rightarrow> char" where
  "hex_digit n = (if n < 16 then ''0123456789ABCDEF'' ! n else CHR 0x00)"

text \<open>\<open>isprint\<close> in the C locale: the bytes from 0x20 to 0x7E.\<close>

definition isprint :: "char \<Rightarrow> bool" where
  "isprint c \<longleftrightarrow> 0x20 \<le> ub c \<and> ub c \<le> 0x7E"

definition escape_char :: "char \<Rightarrow> string" where
  "escape_char c =
     (if c = CHR 0x0A then [CHR 0x5C, CHR ''n'']
      else if c = CHR 0x0D then [CHR 0x5C, CHR ''r'']
      else if c = CHR 0x09 then [CHR 0x5C, CHR ''t'']
      else if c = CHR 0x0B then [CHR 0x5C, CHR ''v'']
      else if c = CHR 0x0C then [CHR 0x5C, CHR ''f'']
      else if c = CHR 0x08 then [CHR 0x5C, CHR ''b'']
      else if c = CHR 0x07 then [CHR 0x5C, CHR ''a'']
      else if c = CHR 0x5C then [CHR 0x5C, CHR 0x5C]
      else if c = CHR 0x27 then [CHR 0x5C, CHR 0x27]
      else if c = CHR 0x22 then [CHR 0x5C, CHR 0x22]
      else if isprint c then [c]
      else [CHR 0x5C, CHR ''x'', hex_digit (drop_bit 4 (ub c)), hex_digit (ub c AND 0x0F)])"

subsection \<open>UTF-8 to UTF-16 widths\<close>

text \<open>
  \<open>decodeOneUtf8ToUtf16Units\<close> writes two results, \<open>advance\<close> and \<open>utf16Units\<close>; it reads the
  bytes from \<open>i\<close> on, of which \<open>available\<close> may be read.
\<close>

definition expectedLength :: "nat \<Rightarrow> nat" where
  "expectedLength first =
     (if first < 0xE0 then 2 else if first < 0xF0 then 3 else if first < 0xF8 then 4 else 1)"

definition decodeOneUtf8ToUtf16Units :: "string \<Rightarrow> nat \<Rightarrow> nat \<Rightarrow> nat \<times> nat" where
  "decodeOneUtf8ToUtf16Units s i available =
     (let first = ub (byte_at s i); n = expectedLength first;
          b = (\<lambda>k. ub (byte_at s (i + k))) in
      if first < 0x80 then (1, 1)
      else if n = 1 \<or> available < n then (1, 1)
      else if \<exists>k \<in> set [1 ..< n]. b k AND 0xC0 \<noteq> 0x80 then (1, 1)
      else
        let codePoint =
          (if n = 2 then push_bit 6 (first AND 0x1F) OR (b 1 AND 0x3F)
           else if n = 3 then
             push_bit 12 (first AND 0x0F) OR push_bit 6 (b 1 AND 0x3F) OR (b 2 AND 0x3F)
           else
             push_bit 18 (first AND 0x07) OR push_bit 12 (b 1 AND 0x3F) OR
             push_bit 6 (b 2 AND 0x3F) OR (b 3 AND 0x3F)) in
        (n, if codePoint \<ge> 0x10000 then 2 else 1))"

declare utf8_codepoint_count_from.simps [simp del] previous_codepoint_loop.simps [simp del]

subsection \<open>Classification of bytes\<close>

lemma continuation_iff [byte_simps]:
  "ub c AND 0xC0 = 0x80 \<longleftrightarrow> 0x80 \<le> ub c \<and> ub c < 0xC0"
  using high_bits_eq_iff [of 64 "ub c" 4 2] by (simp add: and_0xC0)

lemma ascii_iff [byte_simps]: "ub c AND 0x80 = 0 \<longleftrightarrow> ub c < 0x80"
  using high_bits_eq_iff [of 128 "ub c" 2 0] by (simp add: and_0x80)

lemma lead_iff [byte_simps]:
  "ub c AND 0xE0 = 0xC0 \<longleftrightarrow> 0xC0 \<le> ub c \<and> ub c < 0xE0"
  "ub c AND 0xF0 = 0xE0 \<longleftrightarrow> 0xE0 \<le> ub c \<and> ub c < 0xF0"
  "ub c AND 0xF8 = 0xF0 \<longleftrightarrow> 0xF0 \<le> ub c \<and> ub c < 0xF8"
  using high_bits_eq_iff [of 32 "ub c" 8 6] high_bits_eq_iff [of 16 "ub c" 16 14]
    high_bits_eq_iff [of 8 "ub c" 32 30]
  by (simp_all only: and_0xE0 and_0xF0 and_0xF8) simp_all

lemma utf8_codepoint_length_cases:
  "utf8_codepoint_length c =
     (if ub c = 0 then 0 else if ub c < 0x80 then 1
      else if 0xC0 \<le> ub c \<and> ub c < 0xE0 then 2
      else if 0xE0 \<le> ub c \<and> ub c < 0xF0 then 3
      else if 0xF0 \<le> ub c \<and> ub c < 0xF8 then 4 else size_max)"
  unfolding utf8_codepoint_length_def Let_def byte_simps by simp

lemma utf8_codepoint_length_nul [simp]: "utf8_codepoint_length CHR 0x00 = 0"
  by (simp add: utf8_codepoint_length_cases)

subsection \<open>The UTF-8 encoding\<close>

text \<open>The specification: the encoding of one code point, and of a list of them.\<close>

definition utf8_encode :: "nat \<Rightarrow> string" where
  "utf8_encode cp =
     (if cp < 0x80 then [char_of cp]
      else if cp < 0x800 then [char_of (0xC0 + cp div 64), char_of (0x80 + cp mod 64)]
      else if cp < 0x10000 then
        [char_of (0xE0 + cp div 4096), char_of (0x80 + cp div 64 mod 64),
         char_of (0x80 + cp mod 64)]
      else
        [char_of (0xF0 + cp div 262144), char_of (0x80 + cp div 4096 mod 64),
         char_of (0x80 + cp div 64 mod 64), char_of (0x80 + cp mod 64)])"

definition utf8_text :: "nat list \<Rightarrow> string" where
  "utf8_text cps = concat (map utf8_encode cps)"

definition code_point :: "nat \<Rightarrow> bool" where
  "code_point cp \<longleftrightarrow> 0 < cp \<and> cp < 0x110000"

lemma utf8_text_Nil [simp]: "utf8_text [] = []"
  and utf8_text_Cons [simp]: "utf8_text (cp # cps) = utf8_encode cp @ utf8_text cps"
  and utf8_text_append [simp]: "utf8_text (xs @ ys) = utf8_text xs @ utf8_text ys"
  by (simp_all add: utf8_text_def)

lemma utf8_encode_ne [simp]: "utf8_encode cp \<noteq> []"
  by (simp add: utf8_encode_def)

lemma lead_bounds:
  fixes cp :: nat
  shows "cp < 0x800 \<Longrightarrow> cp div 64 < 32"
    and "cp < 0x10000 \<Longrightarrow> cp div 4096 < 16"
    and "cp < 0x110000 \<Longrightarrow> cp div 262144 < 8"
  by (simp_all add: div_less_iff_less_mult)

lemma group_arith:
  fixes cp :: nat
  shows "cp div 64 * 64 + cp mod 64 = cp"
    and "cp div 4096 * 4096 + (cp div 64 mod 64 * 64 + cp mod 64) = cp"
    and "cp div 262144 * 262144 + (cp div 4096 mod 64 * 4096 + (cp div 64 mod 64 * 64 + cp mod 64)) = cp"
proof -
  have two: "b * 64 + c = q \<Longrightarrow> q * 64 + r = x \<Longrightarrow> b * 4096 + (c * 64 + r) = x"
    for b c q r x :: nat by simp
  have three: "a * 4096 + (b * 64 + c) = q \<Longrightarrow> q * 64 + r = x \<Longrightarrow>
      a * 262144 + (b * 4096 + (c * 64 + r)) = x" for a b c q r x :: nat by simp
  show a: "cp div 64 * 64 + cp mod 64 = cp" for cp :: nat by simp
  show b: "cp div 4096 * 4096 + (cp div 64 mod 64 * 64 + cp mod 64) = cp" for cp :: nat
  proof -
    have "cp div 4096 = cp div 64 div 64" by (simp add: div_mult2_eq [symmetric])
    then show ?thesis using a [of "cp div 64"] a [of cp] two by metis
  qed
  show "cp div 262144 * 262144 + (cp div 4096 mod 64 * 4096 + (cp div 64 mod 64 * 64 + cp mod 64)) = cp"
  proof -
    have "cp div 262144 = cp div 64 div 4096" "cp div 4096 = cp div 64 div 64"
      by (simp_all add: div_mult2_eq [symmetric])
    then show ?thesis using b [of "cp div 64"] a [of cp] three by metis
  qed
qed

text \<open>
  The shape of an encoding: one of four cases, each with the class of its bytes and the
  groups of the code point they carry. Every later proof about encoded text starts from it.
\<close>

abbreviation continuation :: "char \<Rightarrow> bool" where
  "continuation c \<equiv> 0x80 \<le> ub c \<and> ub c < 0xC0"

lemma byte_intervals:
  fixes x :: nat
  shows "x < 32 \<Longrightarrow> 0xC0 \<le> ub (char_of (0xC0 + x)) \<and> ub (char_of (0xC0 + x)) < 0xE0"
  "x < 16 \<Longrightarrow> 0xE0 \<le> ub (char_of (0xE0 + x)) \<and> ub (char_of (0xE0 + x)) < 0xF0"
  "x < 8 \<Longrightarrow> 0xF0 \<le> ub (char_of (0xF0 + x)) \<and> ub (char_of (0xF0 + x)) < 0xF8"
  "x < 64 \<Longrightarrow> continuation (char_of (0x80 + x))"
  using ub_char_of [of "0xC0 + x"] ub_char_of [of "0xE0 + x"] ub_char_of [of "0xF0 + x"]
    ub_char_of [of "0x80 + x"]
  by simp_all

lemma byte_groups:
  fixes x :: nat
  shows "x < 32 \<Longrightarrow> ub (char_of (0xC0 + x)) AND 0x1F = x"
  "x < 16 \<Longrightarrow> ub (char_of (0xE0 + x)) AND 0x0F = x"
  "x < 8 \<Longrightarrow> ub (char_of (0xF0 + x)) AND 0x07 = x"
  "x < 64 \<Longrightarrow> ub (char_of (0x80 + x)) AND 0x3F = x"
proof -
  have k: "q < n \<Longrightarrow> (a * n + q) mod n = q" for a n q :: nat by simp
  show "x < 32 \<Longrightarrow> ub (char_of (0xC0 + x)) AND 0x1F = x"
    using k [of x 32 6] ub_char_of [of "0xC0 + x"] by (simp add: mask_simps)
  show "x < 16 \<Longrightarrow> ub (char_of (0xE0 + x)) AND 0x0F = x"
    using k [of x 16 14] ub_char_of [of "0xE0 + x"] by (simp add: mask_simps)
  show "x < 8 \<Longrightarrow> ub (char_of (0xF0 + x)) AND 0x07 = x"
    using k [of x 8 30] ub_char_of [of "0xF0 + x"] by (simp add: mask_simps)
  show "x < 64 \<Longrightarrow> ub (char_of (0x80 + x)) AND 0x3F = x"
    using k [of x 64 2] ub_char_of [of "0x80 + x"] by (simp add: mask_simps)
qed

lemma utf8_encode_shape:
  assumes "code_point cp"
  obtains
    (one) c where "utf8_encode cp = [c]" "ub c = cp" "0 < ub c" "ub c < 0x80"
  | (two) c d where "utf8_encode cp = [c, d]" "0xC0 \<le> ub c \<and> ub c < 0xE0"
      "ub c AND 0x1F = cp div 64" "continuation d" "ub d AND 0x3F = cp mod 64"
      "cp < 0x800"
  | (three) c d e where "utf8_encode cp = [c, d, e]" "0xE0 \<le> ub c \<and> ub c < 0xF0"
      "ub c AND 0x0F = cp div 4096" "continuation d" "ub d AND 0x3F = cp div 64 mod 64"
      "continuation e" "ub e AND 0x3F = cp mod 64" "cp < 0x10000"
  | (four) c d e f where "utf8_encode cp = [c, d, e, f]" "0xF0 \<le> ub c \<and> ub c < 0xF8"
      "ub c AND 0x07 = cp div 262144" "continuation d" "ub d AND 0x3F = cp div 4096 mod 64"
      "continuation e" "ub e AND 0x3F = cp div 64 mod 64"
      "continuation f" "ub f AND 0x3F = cp mod 64" "0x10000 \<le> cp"
proof -
  consider "cp < 0x80" | "0x80 \<le> cp" "cp < 0x800" | "0x800 \<le> cp" "cp < 0x10000"
    | "0x10000 \<le> cp" by linarith
  then show thesis
  proof cases
    case 1
    with assms show ?thesis
      by (intro one [of "char_of cp"]) (simp_all add: utf8_encode_def code_point_def)
  next
    case 2
    then show ?thesis
      by (intro two [of "char_of (0xC0 + cp div 64)" "char_of (0x80 + cp mod 64)"]
          byte_intervals byte_groups lead_bounds)
        (simp_all add: utf8_encode_def)
  next
    case 3
    then show ?thesis
      by (intro three [of "char_of (0xE0 + cp div 4096)" "char_of (0x80 + cp div 64 mod 64)"
            "char_of (0x80 + cp mod 64)"] byte_intervals byte_groups lead_bounds)
        (simp_all add: utf8_encode_def)
  next
    case 4
    with assms show ?thesis
      by (intro four [of "char_of (0xF0 + cp div 262144)" "char_of (0x80 + cp div 4096 mod 64)"
            "char_of (0x80 + cp div 64 mod 64)" "char_of (0x80 + cp mod 64)"]
          byte_intervals byte_groups lead_bounds)
        (simp_all add: utf8_encode_def code_point_def)
  qed
qed

subsection \<open>The code on encoded text\<close>

lemma utf8_codepoint_length_lead:
  assumes "code_point cp"
  shows "utf8_codepoint_length (hd (utf8_encode cp)) = length (utf8_encode cp)"
  using assms
  by (cases cp rule: utf8_encode_shape)
    (simp_all add: utf8_codepoint_length_cases)

lemma utf8_encode_length: "0 < length (utf8_encode cp)" "length (utf8_encode cp) \<le> 4"
  by (simp_all add: utf8_encode_def)

lemma decode_at_encoding:
  assumes "code_point cp"
  shows "decode_utf8_codepoint (pre @ utf8_encode cp @ post) (length pre) = cp"
  using assms
proof (cases cp rule: utf8_encode_shape)
  case (one c)
  then show ?thesis by (simp add: decode_utf8_codepoint_def)
next
  case (two c d)
  then show ?thesis
    by (simp add: decode_utf8_codepoint_def utf8_codepoint_length_cases Let_def combine2 group_arith)
next
  case (three c d e)
  then show ?thesis
    by (simp add: decode_utf8_codepoint_def utf8_codepoint_length_cases Let_def combine3 group_arith)
next
  case (four c d e f)
  then show ?thesis
    by (simp add: decode_utf8_codepoint_def utf8_codepoint_length_cases Let_def combine4 group_arith)
qed

lemma consume_at_encoding:
  assumes "code_point cp"
  shows "consume_utf8_codepoint_if_complete (pre @ utf8_encode cp @ post) (length pre) =
    Some (length pre + length (utf8_encode cp))"
  using assms
  by (cases cp rule: utf8_encode_shape)
    (simp_all add: consume_utf8_codepoint_if_complete_def utf8_codepoint_length_cases Let_def)

lemma advance_eq_consume:
  "consume_utf8_codepoint_if_complete s i = Some j \<Longrightarrow> advanceOneCodepointLossy s i = j"
  by (auto simp: consume_utf8_codepoint_if_complete_def advanceOneCodepointLossy_def Let_def
      split: if_splits)

lemma consume_bounds:
  assumes "consume_utf8_codepoint_if_complete s i = Some j"
  shows "i < j" and "j \<le> length s" and "j \<le> i + 4"
proof -
  have "i < length s"
    using assms by (intro byte_at_pos)
      (auto simp: consume_utf8_codepoint_if_complete_def Let_def split: if_splits)
  then show "i < j" "j \<le> length s" "j \<le> i + 4"
    using assms byte_at_pos [of s "i + 1"] byte_at_pos [of s "i + 2"] byte_at_pos [of s "i + 3"]
    by (auto simp: consume_utf8_codepoint_if_complete_def Let_def split: if_splits)
qed

lemma advance_bounds:
  "i \<le> advanceOneCodepointLossy s i"
  "advanceOneCodepointLossy s i \<le> i + 4"
  "i \<le> length s \<Longrightarrow> advanceOneCodepointLossy s i \<le> length s"
  "0 < ub (byte_at s i) \<Longrightarrow> i < advanceOneCodepointLossy s i"
proof -
  show "i \<le> advanceOneCodepointLossy s i" "advanceOneCodepointLossy s i \<le> i + 4"
    "0 < ub (byte_at s i) \<Longrightarrow> i < advanceOneCodepointLossy s i"
    by (auto simp: advanceOneCodepointLossy_def Let_def)
  assume "i \<le> length s"
  then show "advanceOneCodepointLossy s i \<le> length s"
    using byte_at_pos [of s i] byte_at_pos [of s "i + 1"] byte_at_pos [of s "i + 2"]
      byte_at_pos [of s "i + 3"]
    by (auto simp: advanceOneCodepointLossy_def Let_def)
qed

lemma count_from_text:
  "\<forall>cp \<in> set cps. code_point cp \<Longrightarrow>
    utf8_codepoint_count_from (pre @ utf8_text cps) (length pre) n = n + length cps"
proof (induction cps arbitrary: pre n)
  case Nil
  then show ?case by (simp add: utf8_codepoint_count_from.simps)
next
  case (Cons cp cps)
  let ?e = "utf8_encode cp"
  have len: "utf8_codepoint_length ((pre @ ?e @ utf8_text cps) ! length pre) = length ?e"
    using utf8_codepoint_length_lead [of cp] Cons.prems utf8_encode_ne [of cp]
    by (simp add: nth_append hd_conv_nth)
  have "utf8_codepoint_count_from (pre @ ?e @ utf8_text cps) (length pre) n =
      utf8_codepoint_count_from ((pre @ ?e) @ utf8_text cps) (length (pre @ ?e)) (n + 1)"
    by (subst utf8_codepoint_count_from.simps) (simp add: len)
  also have "\<dots> = n + 1 + length cps" using Cons.prems by (intro Cons.IH) simp
  finally show ?case by simp
qed

text \<open>Going back: from the end of an encoded code point to its lead byte.\<close>

lemma previous_loop_stop:
  "\<not> continuation (byte_at s i) \<Longrightarrow> previous_codepoint_loop s i = i"
  by (subst previous_codepoint_loop.simps) (simp add: byte_simps; linarith)

lemma previous_loop_step:
  "continuation (byte_at s (Suc i)) \<Longrightarrow>
    previous_codepoint_loop s (Suc i) = previous_codepoint_loop s i"
  by (subst previous_codepoint_loop.simps) (simp add: byte_simps)

lemma previous_at_encoding:
  assumes "code_point cp"
  shows "previous_codepoint_start (pre @ utf8_encode cp @ post)
    (length pre + length (utf8_encode cp)) = length pre"
  using assms
  by (cases cp rule: utf8_encode_shape)
    (simp_all add: previous_codepoint_start_def previous_loop_stop previous_loop_step)

lemma previous_bounds:
  "previous_codepoint_start s i \<le> i" "0 < i \<Longrightarrow> previous_codepoint_start s i < i"
proof -
  have le: "previous_codepoint_loop s i \<le> i" for i
  proof (induction s i rule: previous_codepoint_loop.induct)
    case (1 s i)
    then show ?case by (subst previous_codepoint_loop.simps) auto
  qed
  show "previous_codepoint_start s i \<le> i" "0 < i \<Longrightarrow> previous_codepoint_start s i < i"
    using le [of "i - 1"] by (auto simp: previous_codepoint_start_def)
qed

text \<open>The UTF-16 width decoder on encoded text, and its bounds on any bytes.\<close>

definition utf16_width :: "nat \<Rightarrow> nat" where
  "utf16_width cp = (if cp \<ge> 0x10000 then 2 else 1)"

lemma decodeOne_at_encoding:
  assumes "code_point cp" and "length (utf8_encode cp) \<le> available"
  shows "decodeOneUtf8ToUtf16Units (pre @ utf8_encode cp @ post) (length pre) available =
    (length (utf8_encode cp), utf16_width cp)"
  using assms(1)
proof (cases cp rule: utf8_encode_shape)
  case (one c)
  then show ?thesis by (simp add: decodeOneUtf8ToUtf16Units_def utf16_width_def)
next
  case (two c d)
  with assms(2) show ?thesis
    by (simp add: decodeOneUtf8ToUtf16Units_def Let_def expectedLength_def utf16_width_def
        upt_conv_Cons byte_simps combine2 group_arith)
next
  case (three c d e)
  with assms(2) show ?thesis
    by (simp add: decodeOneUtf8ToUtf16Units_def Let_def expectedLength_def utf16_width_def
        upt_conv_Cons byte_simps combine3 group_arith)
next
  case (four c d e f)
  with assms(2) show ?thesis
    by (simp add: decodeOneUtf8ToUtf16Units_def Let_def expectedLength_def utf16_width_def
        upt_conv_Cons byte_simps combine4 group_arith)
qed

lemma decodeOne_bounds:
  assumes "decodeOneUtf8ToUtf16Units s i available = (advance, units)"
  shows "1 \<le> advance" "0 < available \<Longrightarrow> advance \<le> available" "1 \<le> units" "units \<le> advance"
  using assms
  by (auto simp: decodeOneUtf8ToUtf16Units_def expectedLength_def Let_def split: if_splits)

subsection \<open>Character classes and case folding\<close>

lemma fold_mark: "fold (\<lambda>n t. t(char_of n := True)) ns v c \<longleftrightarrow> v c \<or> c \<in> char_of ` set ns"
  by (induction ns arbitrary: v) auto

lemma mark_range_iff: "mark_range a b v c \<longleftrightarrow> v c \<or> ub a \<le> ub c \<and> ub c \<le> ub b"
proof -
  have "c \<in> char_of ` {ub a ..< Suc (ub b)} \<longleftrightarrow> ub a \<le> ub c \<and> ub c \<le> ub b"
  proof
    assume "c \<in> char_of ` {ub a ..< Suc (ub b)}"
    then obtain n where n: "c = char_of n" "ub a \<le> n" "n \<le> ub b" by auto
    then have "n < 256" using ub_le [of b] by linarith
    then show "ub a \<le> ub c \<and> ub c \<le> ub b" using n by simp
  next
    assume "ub a \<le> ub c \<and> ub c \<le> ub b"
    then show "c \<in> char_of ` {ub a ..< Suc (ub b)}"
      by (intro image_eqI [of _ _ "ub c"]) auto
  qed
  then show ?thesis by (simp add: mark_range_def fold_mark del: upt_Suc)
qed

lemma range_class:
  "isLetter c \<longleftrightarrow> ub CHR ''a'' \<le> ub c \<and> ub c \<le> ub CHR ''z'' \<or> ub CHR ''A'' \<le> ub c \<and> ub c \<le> ub CHR ''Z''"
  "isWord c \<longleftrightarrow> isLetter c \<or> ub CHR ''0'' \<le> ub c \<and> ub c \<le> ub CHR ''9'' \<or> c = CHR ''_''"
  by (auto simp: isLetter_def is_letter_lookup_def isWord_def is_word_lookup_def
      createCharacterRange_def byte_simps mark_range_iff)

lemma tolower_cases:
  "tolower c = c \<or> 65 \<le> ub c \<and> ub c \<le> 90 \<and> ub (tolower c) = ub c + 32"
  by (auto simp: tolower_def)

lemma tolower_nul: "tolower c = CHR 0x00 \<longleftrightarrow> c = CHR 0x00"
  using tolower_cases [of c] by auto

lemma tolower_idem [simp]: "tolower (tolower c) = tolower c"
proof (cases "tolower c = c")
  case False
  then have "97 \<le> ub (tolower c)" using tolower_cases [of c] by auto
  then have "\<not> ub (tolower c) \<le> 90" by linarith
  then show ?thesis by (simp add: tolower_def [of "tolower c"])
qed simp

subsection \<open>Properties\<close>

text \<open>
  At the start of an encoded code point, surrounded by any bytes, the cursor operations
  agree: the lead byte tells the length, decoding gives the code point, the strict and the lossy
  advance stop right behind it, and going back from there returns to its first byte.
\<close>

theorem codepoint_cursor_roundtrip:
  fixes pre post :: string
  assumes "code_point cp"
  defines "s \<equiv> pre @ utf8_encode cp @ post" and "j \<equiv> length pre + length (utf8_encode cp)"
  shows "decode_utf8_codepoint s (length pre) = cp \<and>
    length pre + utf8_codepoint_length (byte_at s (length pre)) = j \<and>
    consume_utf8_codepoint_if_complete s (length pre) = Some j \<and>
    advanceOneCodepointLossy s (length pre) = j \<and>
    previous_codepoint_start s j = length pre"
proof -
  have "byte_at s (length pre) = hd (utf8_encode cp)"
    using utf8_encode_ne [of cp] by (cases "utf8_encode cp") (simp_all add: s_def)
  then show ?thesis
    using assms(1) consume_at_encoding [OF assms(1), of pre post]
    by (simp add: s_def j_def decode_at_encoding utf8_codepoint_length_lead previous_at_encoding
        advance_eq_consume)
qed

theorem codepoint_cursor_roundtrip_witness:
  "decode_utf8_codepoint (''a'' @ utf8_encode 0x20AC @ ''b'') 1 = 0x20AC \<and>
   advanceOneCodepointLossy (''a'' @ utf8_encode 0x20AC @ ''b'') 1 = 4"
proof -
  have "length (utf8_encode 0x20AC) = 3" by (simp add: utf8_encode_def)
  then show ?thesis
    using codepoint_cursor_roundtrip [where cp = "0x20AC" and pre = "''a''" and post = "''b''"] by (simp add: code_point_def)
qed

text \<open>The number of code points of a UTF-8 text is the number that were encoded.\<close>

theorem utf8_codepoint_count_correct:
  "\<forall>cp \<in> set cps. code_point cp \<Longrightarrow> utf8_codepoint_count (utf8_text cps) = length cps"
  using count_from_text [of cps "[]" 0] by (simp add: utf8_codepoint_count_def)

theorem utf8_codepoint_count_correct_witness:
  "utf8_codepoint_count (utf8_text [0x61, 0x20AC, 0x1F600]) = 3"
  using utf8_codepoint_count_correct [of "[0x61, 0x20AC, 0x1F600]"]
  by (simp add: code_point_def)

text \<open>
  The compile-time tables of \<open>isWord\<close> and \<open>isLetter\<close> hold exactly the ASCII word
  characters and letters, and \<open>tolower\<close> is idempotent and keeps them.
\<close>

theorem character_classes:
  "isLetter c = (97 \<le> ub c \<and> ub c \<le> 122 \<or> 65 \<le> ub c \<and> ub c \<le> 90) \<and>
   isWord c = (isLetter c \<or> 48 \<le> ub c \<and> ub c \<le> 57 \<or> ub c = 95) \<and>
   tolower (tolower c) = tolower c \<and> isWord (tolower c) = isWord c"
proof -
  have us: "c = CHR ''_'' \<longleftrightarrow> ub c = 95" for c
    using ub_inject [of c "CHR ''_''"] by (simp del: ub_inject)
  have "isWord (tolower c) = isWord c"
    using tolower_cases [of c] by (auto simp: range_class us)
  then show ?thesis by (simp add: range_class us)
qed

end
