(* ===== verification/TextDoc.thy ===== *)
theory TextDoc
  imports TextUtils "HOL-Library.Multiset"
begin

text \<open>
  The text document of \<open>core/workspace/TextDocument.cpp\<close> with \<open>core/text/Position.hpp\<close>,
  \<open>core/text/Range.hpp\<close> and \<open>core/text/TextSnapshot.hpp\<close>: the lazily built, chunked line
  index, the conversions between byte offsets and UTF-16 positions, incremental updates and
  text edits. A query may build the index, so it returns the document together with its answer.
\<close>

subsection \<open>Data\<close>

record position =
  pline :: nat
  pcharacter :: nat

record range =
  rstart :: position
  rend :: position

text \<open>
  A snapshot is a buffer at some address; \<open>own\<close> puts the text at an address the allocator
  chooses, which may be one that was used before.
\<close>

record snapshot =
  data :: nat
  view :: string

record impl =
  lineIndexData :: "nat option"
  lineIndexSize :: nat
  lineStart :: "nat list"
  chunkLineLowerBound :: "nat list"
  numChunks :: nat

record text_document =
  duri :: string
  languageId :: string
  dversion :: int
  snap :: snapshot
  dimpl :: "impl option"

record content_change =
  crange :: "range option"
  ctext :: string

record text_edit =
  erange :: range
  newText :: string

datatype text_error = OutOfRange

subsection \<open>The line index\<close>

definition newline :: char where
  "newline = CHR 0x0A"

definition kLineIndexChunkSize :: nat where
  "kLineIndexChunkSize = 64 * 1024"

definition empty_impl :: impl where
  "empty_impl = \<lparr>lineIndexData = None, lineIndexSize = 0, lineStart = [],
     chunkLineLowerBound = [], numChunks = 0\<rparr>"

definition text_size :: "string \<Rightarrow> nat" where
  "text_size text = min (length text) u32_max"

text \<open>The inner loop over the bytes of a chunk, then the loop over the chunks.\<close>

definition scan_chunk :: "string \<Rightarrow> nat \<Rightarrow> nat \<Rightarrow> nat list \<Rightarrow> nat list" where
  "scan_chunk text chunkStart chunkEnd ls =
     fold (\<lambda>offset ls. if text ! offset = newline then ls @ [offset + 1] else ls)
       [chunkStart ..< chunkEnd] ls"

definition index_chunk :: "string \<Rightarrow> nat \<Rightarrow> nat \<Rightarrow> nat list \<times> nat list \<Rightarrow> nat list \<times> nat list" where
  "index_chunk text clampedSize chunk = (\<lambda>(ls, bounds).
     let chunkStart = u32 (chunk * kLineIndexChunkSize);
         chunkEnd = min clampedSize (chunkStart + kLineIndexChunkSize) in
     (scan_chunk text chunkStart chunkEnd ls, bounds[chunk := u32 (length ls - 1)]))"

definition build_line_index :: "snapshot \<Rightarrow> impl" where
  "build_line_index sn =
     (let text = view sn;
          clampedSize = text_size text;
          n = u32 ((clampedSize + kLineIndexChunkSize - 1) div kLineIndexChunkSize);
          (ls, bounds) = fold (index_chunk text clampedSize) [0 ..< n] ([0], replicate (n + 1) 0) in
      \<lparr>lineIndexData = Some (data sn), lineIndexSize = length text, lineStart = ls,
       chunkLineLowerBound = bounds[n := (if ls = [] then 0 else u32 (length ls - 1))],
       numChunks = n\<rparr>)"

definition ensureImpl :: "text_document \<Rightarrow> impl" where
  "ensureImpl d = (case dimpl d of None \<Rightarrow> empty_impl | Some im \<Rightarrow> im)"

definition ensureLineIndex :: "text_document \<Rightarrow> text_document" where
  "ensureLineIndex d =
     (let im = ensureImpl d in
      if lineIndexData im = Some (data (snap d)) \<and> lineIndexSize im = length (view (snap d)) \<and>
         lineStart im \<noteq> []
      then d\<lparr>dimpl := Some im\<rparr>
      else d\<lparr>dimpl := Some (build_line_index (snap d))\<rparr>)"

definition invalidateLineIndex :: "text_document \<Rightarrow> text_document" where
  "invalidateLineIndex d =
     (case dimpl d of None \<Rightarrow> d
      | Some im \<Rightarrow> d\<lparr>dimpl := Some (im\<lparr>lineIndexData := None, lineIndexSize := 0, numChunks := 0,
          lineStart := [], chunkLineLowerBound := []\<rparr>)\<rparr>)"

subsection \<open>Offsets and positions\<close>

definition line_end_offset :: "nat list \<Rightarrow> nat \<Rightarrow> nat \<Rightarrow> nat" where
  "line_end_offset ls sz line = (if line + 1 < length ls then ls ! (line + 1) - 1 else sz)"

function ascii_run :: "string \<Rightarrow> nat \<Rightarrow> nat \<Rightarrow> nat \<Rightarrow> nat \<times> nat" where
  "ascii_run text e index remaining =
     (if index < e \<and> remaining > 0 \<and> ub (byte_at text index) < 0x80
      then ascii_run text e (index + 1) (remaining - 1) else (index, remaining))"
  by pat_completeness auto
termination
  by (relation "measure (\<lambda>(text, e, index, remaining). e - index)") auto

lemma ascii_run_ge: "ascii_run s e index remaining = (i, r) \<Longrightarrow> index \<le> i"
proof (induction s e index remaining rule: ascii_run.induct)
  case (1 s e index remaining)
  from "1.prems" show ?case
    by (subst (asm) ascii_run.simps) (use "1.IH" in \<open>auto split: if_splits\<close>)
qed

declare ascii_run.simps [simp del]

function offset_loop :: "string \<Rightarrow> nat \<Rightarrow> nat \<Rightarrow> nat \<Rightarrow> nat" where
  "offset_loop text e index remaining =
     (if index < e \<and> remaining > 0 then
        (case ascii_run text e index remaining of (index, remaining) \<Rightarrow>
           if remaining = 0 \<or> index \<ge> e then index
           else (case decodeOneUtf8ToUtf16Units text index (e - index) of (advance, utf16Units) \<Rightarrow>
             offset_loop text e (index + advance)
               (if remaining > utf16Units then remaining - utf16Units else 0)))
      else index)"
  by pat_completeness auto
termination
  by (relation "measure (\<lambda>(text, e, index, remaining). e - index)")
    (auto dest!: sym [of "(_, _)"] ascii_run_ge decodeOne_bounds(1))

function column_ascii_run :: "string \<Rightarrow> nat \<Rightarrow> nat \<Rightarrow> nat \<Rightarrow> nat \<times> nat" where
  "column_ascii_run text e bytes units =
     (if bytes < e \<and> ub (byte_at text bytes) < 0x80
      then column_ascii_run text e (bytes + 1) (units + 1) else (bytes, units))"
  by pat_completeness auto
termination
  by (relation "measure (\<lambda>(text, e, bytes, units). e - bytes)") auto

lemma column_ascii_run_ge: "column_ascii_run s e bytes units = (i, u) \<Longrightarrow> bytes \<le> i"
proof (induction s e bytes units rule: column_ascii_run.induct)
  case (1 s e bytes units)
  from "1.prems" show ?case
    by (subst (asm) column_ascii_run.simps) (use "1.IH" in \<open>auto split: if_splits\<close>)
qed

declare column_ascii_run.simps [simp del]

function column_loop :: "string \<Rightarrow> nat \<Rightarrow> nat \<Rightarrow> nat \<Rightarrow> nat" where
  "column_loop text e bytes units =
     (if bytes < e then
        (case column_ascii_run text e bytes units of (bytes, units) \<Rightarrow>
           if bytes \<ge> e then units
           else (case decodeOneUtf8ToUtf16Units text bytes (e - bytes) of (advance, utf16Units) \<Rightarrow>
             column_loop text e (bytes + advance) (units + utf16Units)))
      else units)"
  by pat_completeness auto
termination
  by (relation "measure (\<lambda>(text, e, bytes, units). e - bytes)")
    (auto dest!: sym [of "(_, _)"] column_ascii_run_ge decodeOne_bounds(1))

declare offset_loop.simps [simp del] column_loop.simps [simp del]

definition utf16_column :: "string \<Rightarrow> nat \<Rightarrow> nat \<Rightarrow> nat" where
  "utf16_column text ls clampedInLine = column_loop text clampedInLine ls 0"

definition offset_in :: "impl \<Rightarrow> string \<Rightarrow> nat \<Rightarrow> nat \<Rightarrow> nat" where
  "offset_in im text line character =
     (let sz = text_size text in
      if line \<ge> length (lineStart im) then sz
      else
        let start = lineStart im ! line; e = line_end_offset (lineStart im) sz line in
        min (offset_loop text e start character) e)"

definition offsetAt :: "text_document \<Rightarrow> position \<Rightarrow> nat \<times> text_document" where
  "offsetAt d p =
     (let d' = ensureLineIndex d in
      (offset_in (ensureImpl d') (view (snap d')) (pline p) (pcharacter p), d'))"

text \<open>\<open>std::ranges::upper_bound\<close> over the entries from \<open>lo\<close> to \<open>hi\<close>.\<close>

definition upper_bound :: "nat list \<Rightarrow> nat \<Rightarrow> nat \<Rightarrow> nat \<Rightarrow> nat" where
  "upper_bound ls lo hi x = lo + length (takeWhile (\<lambda>y. y \<le> x) (take (hi - lo) (drop lo ls)))"

definition position_in :: "impl \<Rightarrow> string \<Rightarrow> nat \<Rightarrow> position" where
  "position_in im text offset =
     (let sz = text_size text; clamped = min offset sz in
      if numChunks im = 0 then \<lparr>pline = 0, pcharacter = 0\<rparr>
      else
        let chunk = min (clamped div kLineIndexChunkSize) (numChunks im - 1);
            lo = chunkLineLowerBound im ! chunk;
            hi = min (chunkLineLowerBound im ! (chunk + 1) + 1) (u32 (length (lineStart im)));
            line = u32 (upper_bound (lineStart im) lo hi clamped - 1);
            ls = lineStart im ! line;
            le = line_end_offset (lineStart im) sz line;
            clampedInLine = min (max clamped ls) le in
        \<lparr>pline = line, pcharacter = utf16_column text ls clampedInLine\<rparr>)"

definition positionAt :: "text_document \<Rightarrow> nat \<Rightarrow> position \<times> text_document" where
  "positionAt d offset =
     (let d' = ensureLineIndex d in
      (position_in (ensureImpl d') (view (snap d')) offset, d'))"

definition lineCount :: "text_document \<Rightarrow> nat \<times> text_document" where
  "lineCount d = (let d' = ensureLineIndex d in (u32 (length (lineStart (ensureImpl d'))), d'))"

definition getTextRange :: "text_document \<Rightarrow> range \<Rightarrow> string \<times> text_document" where
  "getTextRange d r =
     (let (b, d) = offsetAt d (rstart r); (e, d) = offsetAt d (rend r);
          (b, e) = (if b > e then (e, b) else (b, e)) in
      (take (e - b) (drop b (view (snap d))), d))"

subsection \<open>Updates and edits\<close>

text \<open>
  \<open>std::string::replace\<close> throws \<open>std::out_of_range\<close> when the position is past the end.
\<close>

definition str_replace :: "string \<Rightarrow> nat \<Rightarrow> nat \<Rightarrow> string \<Rightarrow> text_error + string" where
  "str_replace s p n t =
     (if p > length s then Inl OutOfRange
      else Inr (take p s @ t @ drop (p + min n (length s - p)) s))"

definition create_document ::
  "(snapshot option \<Rightarrow> nat) \<Rightarrow> string \<Rightarrow> string \<Rightarrow> int \<Rightarrow> string \<Rightarrow> text_document" where
  "create_document alloc u l v content =
     \<lparr>duri = u, languageId = l, dversion = v, snap = \<lparr>data = alloc None, view = content\<rparr>,
      dimpl = None\<rparr>"

definition clone :: "text_document \<Rightarrow> text_document" where
  "clone d = d\<lparr>dimpl := None\<rparr>"

definition setText :: "(snapshot option \<Rightarrow> nat) \<Rightarrow> text_document \<Rightarrow> string \<Rightarrow> text_document" where
  "setText alloc d t =
     invalidateLineIndex (d\<lparr>snap := \<lparr>data = alloc (Some (snap d)), view = t\<rparr>\<rparr>)"

definition apply_change ::
  "(snapshot option \<Rightarrow> nat) \<Rightarrow> text_document \<Rightarrow> content_change \<Rightarrow> text_error + text_document" where
  "apply_change alloc d c =
     (case crange c of
        None \<Rightarrow> Inr (setText alloc d (ctext c))
      | Some r \<Rightarrow>
          let (b, d) = offsetAt d (rstart r); (e, d) = offsetAt d (rend r) in
          (case str_replace (view (snap d)) b (if e \<ge> b then e - b else 0) (ctext c) of
             Inl x \<Rightarrow> Inl x
           | Inr updated \<Rightarrow> Inr (setText alloc d updated)))"

fun apply_changes ::
  "(snapshot option \<Rightarrow> nat) \<Rightarrow> text_document \<Rightarrow> content_change list \<Rightarrow> text_error + text_document" where
  "apply_changes alloc d [] = Inr d"
| "apply_changes alloc d (c # cs) =
     (case apply_change alloc d c of Inl x \<Rightarrow> Inl x | Inr d' \<Rightarrow> apply_changes alloc d' cs)"

definition update_document ::
  "(snapshot option \<Rightarrow> nat) \<Rightarrow> text_document \<Rightarrow> content_change list \<Rightarrow> int \<Rightarrow>
    text_error + text_document" where
  "update_document alloc d changes v =
     (if changes = [] then Inr (d\<lparr>dversion := v\<rparr>)
      else case apply_changes alloc d changes of
          Inl x \<Rightarrow> Inl x
        | Inr d' \<Rightarrow> Inr (d'\<lparr>dversion := v\<rparr>))"

definition edit_starts_after :: "text_edit \<Rightarrow> text_edit \<Rightarrow> bool" where
  "edit_starts_after l r =
     (let ls = rstart (erange l); rs = rstart (erange r); le = rend (erange l); re = rend (erange r) in
      if pline ls \<noteq> pline rs then pline ls > pline rs
      else if pcharacter ls \<noteq> pcharacter rs then pcharacter ls > pcharacter rs
      else if pline le \<noteq> pline re then pline le > pline re
      else pcharacter le > pcharacter re)"

text \<open>
  The edits are applied from the last to the first, each at its offsets in the original
  document. \<open>std::ranges::sort\<close> is the parameter \<open>srt\<close>: it is not stable, so all the code may
  rely on is \<open>sorts_edits\<close>.
\<close>

fun apply_sorted ::
  "text_document \<Rightarrow> string \<Rightarrow> text_edit list \<Rightarrow> text_error + (string \<times> text_document)" where
  "apply_sorted d updated [] = Inr (updated, d)"
| "apply_sorted d updated (x # xs) =
     (let (b, d) = offsetAt d (rstart (erange x)); (e, d) = offsetAt d (rend (erange x)) in
      case str_replace updated b (if e \<ge> b then e - b else 0) (newText x) of
        Inl y \<Rightarrow> Inl y
      | Inr updated' \<Rightarrow> apply_sorted d updated' xs)"

definition applyEdits ::
  "(text_edit list \<Rightarrow> text_edit list) \<Rightarrow> text_document \<Rightarrow> text_edit list \<Rightarrow>
    text_error + (string \<times> text_document)" where
  "applyEdits srt d edits =
     (if edits = [] then Inr (view (snap d), d)
      else apply_sorted d (view (snap d)) (srt edits))"

definition sorts_edits :: "(text_edit list \<Rightarrow> text_edit list) \<Rightarrow> bool" where
  "sorts_edits srt \<longleftrightarrow>
     (\<forall>xs. mset (srt xs) = mset xs \<and> sorted_wrt (\<lambda>a b. \<not> edit_starts_after b a) (srt xs))"

subsection \<open>What the line index holds\<close>

definition newlines :: "string \<Rightarrow> nat \<Rightarrow> nat \<Rightarrow> nat list" where
  "newlines s a b = filter (\<lambda>i. s ! i = newline) [a ..< b]"

definition line_starts :: "string \<Rightarrow> nat \<Rightarrow> nat list" where
  "line_starts s m = 0 # map Suc (newlines s 0 m)"

lemma newlines_append: "a \<le> b \<Longrightarrow> b \<le> c \<Longrightarrow> newlines s a c = newlines s a b @ newlines s b c"
  by (metis newlines_def filter_append le_add_diff_inverse upt_add_eq_append)

lemma newlines_Suc: "a \<le> b \<Longrightarrow>
    newlines s a (Suc b) = newlines s a b @ (if s ! b = newline then [b] else [])"
  by (simp add: newlines_def)

lemma length_newlines: "length (newlines s a b) \<le> b - a"
  unfolding newlines_def by (metis length_filter_le length_upt)

lemma newlines_bounds: "x \<in> set (newlines s a b) \<Longrightarrow> a \<le> x \<and> x < b"
  by (auto simp: newlines_def)

lemma scan_chunk_eq: "a \<le> b \<Longrightarrow> scan_chunk s a b ls = ls @ map Suc (newlines s a b)"
proof (induction b arbitrary: ls rule: dec_induct)
  case base
  then show ?case by (simp add: scan_chunk_def newlines_def)
next
  case (step n)
  then show ?case by (simp add: scan_chunk_def newlines_Suc)
qed

lemma scan_chunk_starts: "a \<le> b \<Longrightarrow> scan_chunk s a b (line_starts s a) = line_starts s b"
  by (simp add: scan_chunk_eq line_starts_def newlines_append [of 0 a b])

lemma chunk_size_pos [simp]: "0 < kLineIndexChunkSize"
  by (simp add: kLineIndexChunkSize_def)

definition chunk_count :: "nat \<Rightarrow> nat" where
  "chunk_count n = (n + kLineIndexChunkSize - 1) div kLineIndexChunkSize"

lemma chunk_count_less: "c < chunk_count n \<longleftrightarrow> c * kLineIndexChunkSize < n"
proof -
  have "c < chunk_count n \<longleftrightarrow> Suc c * kLineIndexChunkSize \<le> n + kLineIndexChunkSize - 1"
    unfolding chunk_count_def Suc_le_eq [symmetric] by (rule less_eq_div_iff_mult_less_eq) simp
  also have "\<dots> \<longleftrightarrow> c * kLineIndexChunkSize < n"
    using gr0_implies_Suc [OF chunk_size_pos] by auto
  finally show ?thesis .
qed

lemma text_size_bounds: "text_size s \<le> length s" "text_size s \<le> u32_max"
  by (simp_all add: text_size_def)

lemma chunk_count_le: "chunk_count n \<le> n"
proof (rule ccontr)
  assume "\<not> chunk_count n \<le> n"
  then have "n < chunk_count n" by simp
  then have "n * kLineIndexChunkSize < n" by (simp add: chunk_count_less)
  moreover have "n * 1 \<le> n * kLineIndexChunkSize"
    using chunk_size_pos by (intro mult_le_mono2) linarith
  ultimately show False by simp
qed

definition chunk_bound :: "string \<Rightarrow> nat \<Rightarrow> nat \<Rightarrow> nat" where
  "chunk_bound s n c = length (newlines s 0 (min n (c * kLineIndexChunkSize)))"

lemma index_chunks:
  assumes n: "n \<le> u32_max" and c: "c \<le> chunk_count n"
  shows "\<exists>bounds. fold (index_chunk s n) [0 ..< c] ([0], replicate (chunk_count n + 1) 0) =
      (line_starts s (min n (c * kLineIndexChunkSize)), bounds) \<and>
    length bounds = chunk_count n + 1 \<and> (\<forall>j < c. bounds ! j = chunk_bound s n j)"
  using c
proof (induction c)
  case 0
  then show ?case by (simp add: line_starts_def newlines_def)
next
  case (Suc c)
  then obtain bounds where IH:
    "fold (index_chunk s n) [0 ..< c] ([0], replicate (chunk_count n + 1) 0) =
      (line_starts s (min n (c * kLineIndexChunkSize)), bounds)"
    "length bounds = chunk_count n + 1" "\<forall>j < c. bounds ! j = chunk_bound s n j" by auto
  let ?k = "kLineIndexChunkSize"
  have lt: "c * ?k < n" using Suc.prems by (simp add: chunk_count_less Suc_le_eq)
  have cast: "u32 (c * ?k) = c * ?k" using lt n by simp
  have len: "length (line_starts s (c * ?k)) - 1 = chunk_bound s n c"
    using lt by (simp add: line_starts_def chunk_bound_def)
  have "chunk_bound s n c \<le> u32_max"
    using length_newlines [of s 0 "min n (c * ?k)"] n by (simp add: chunk_bound_def)
  then have castb: "u32 (chunk_bound s n c) = chunk_bound s n c" by simp
  have ck: "min n (Suc c * ?k) = min n (c * ?k + ?k)" by (simp add: add.commute)
  have "index_chunk s n c (line_starts s (c * ?k), bounds) =
      (line_starts s (min n (Suc c * ?k)), bounds[c := chunk_bound s n c])"
    unfolding index_chunk_def ck
    using lt by (simp add: cast len castb scan_chunk_starts del: One_nat_def)
  then show ?case
    using IH lt Suc.prems by (auto simp: less_Suc_eq nth_list_update min_def)
qed

lemma build_line_index_eq:
  fixes sn :: snapshot
  defines "s \<equiv> view sn"
  defines "n \<equiv> text_size s"
  defines "im \<equiv> build_line_index sn"
  shows "lineStart im = line_starts s n" and "numChunks im = chunk_count n"
    and "c \<le> chunk_count n \<Longrightarrow> chunkLineLowerBound im ! c = chunk_bound s n c"
    and "lineIndexData im = Some (data sn)" and "lineIndexSize im = length s"
proof -
  let ?N = "chunk_count n"
  have n: "n \<le> u32_max" by (simp add: n_def text_size_def)
  have N: "u32 ((n + kLineIndexChunkSize - 1) div kLineIndexChunkSize) = ?N"
    using n chunk_count_le [of n] by (simp add: chunk_count_def)
  have full: "min n (?N * kLineIndexChunkSize) = n"
    using chunk_count_less [of ?N n] by simp
  obtain bounds where b:
    "fold (index_chunk s n) [0 ..< ?N] ([0], replicate (?N + 1) 0) = (line_starts s n, bounds)"
    "length bounds = ?N + 1" "\<forall>j < ?N. bounds ! j = chunk_bound s n j"
    using index_chunks [OF n order_refl, of s] full by auto
  have last: "u32 (length (line_starts s n) - 1) = chunk_bound s n ?N"
    using length_newlines [of s 0 n] n by (simp add: line_starts_def chunk_bound_def full)
  have ne: "line_starts s n \<noteq> []" by (simp add: line_starts_def)
  have im: "im = \<lparr>lineIndexData = Some (data sn), lineIndexSize = length s,
      lineStart = line_starts s n,
      chunkLineLowerBound = bounds[?N := chunk_bound s n ?N], numChunks = ?N\<rparr>"
    unfolding im_def build_line_index_def Let_def s_def [symmetric] n_def [symmetric] N
    using b(1) last by (simp add: ne)
  show "lineStart im = line_starts s n" "numChunks im = ?N"
    "lineIndexData im = Some (data sn)" "lineIndexSize im = length s"
    by (simp_all add: im)
  show "c \<le> ?N \<Longrightarrow> chunkLineLowerBound im ! c = chunk_bound s n c"
    using b(2,3) by (cases "c = ?N") (simp_all add: im)
qed

subsection \<open>The position of an offset\<close>

text \<open>
  The specification: the line is the number of newlines before the offset, the column counts
  UTF-16 units from the byte after the last of them.
\<close>

definition current_line_start :: "string \<Rightarrow> nat \<Rightarrow> nat" where
  "current_line_start s x = last (line_starts s x)"

definition position_spec :: "string \<Rightarrow> nat \<Rightarrow> position" where
  "position_spec s offset =
     (let x = min offset (text_size s) in
      \<lparr>pline = length (newlines s 0 x), pcharacter = utf16_column s (current_line_start s x) x\<rparr>)"

lemma upper_bound_split:
  assumes "\<forall>a \<in> set as. a \<le> x" and "\<forall>b \<in> set bs. x < b"
    and "lo \<le> length as" and "length as \<le> hi"
  shows "upper_bound (as @ bs) lo hi x = length as"
proof -
  have "take (hi - lo) (drop lo (as @ bs)) = drop lo as @ take (hi - length as) bs"
    using assms(3,4) by simp
  moreover have "\<forall>y \<in> set (drop lo as). y \<le> x" using assms(1) by (auto dest: in_set_dropD)
  moreover have "takeWhile (\<lambda>y. y \<le> x) (take (hi - length as) bs) = []"
    using assms(2) by (cases bs; cases "hi - length as") simp_all
  ultimately have "takeWhile (\<lambda>y. y \<le> x) (take (hi - lo) (drop lo (as @ bs))) = drop lo as"
    by (simp add: takeWhile_append)
  then show ?thesis using assms(3) by (simp add: upper_bound_def)
qed

lemma line_starts_split:
  assumes "x \<le> n"
  shows "line_starts s n = line_starts s x @ map Suc (newlines s x n)"
  using assms newlines_append [of 0 x n s] by (simp add: line_starts_def)

lemma length_line_starts: "length (line_starts s x) = Suc (length (newlines s 0 x))"
  by (simp add: line_starts_def)

lemma line_starts_le: "a \<in> set (line_starts s x) \<Longrightarrow> a \<le> x"
  by (auto simp: line_starts_def dest: newlines_bounds)

lemma line_starts_gt: "b \<in> set (map Suc (newlines s x n)) \<Longrightarrow> x < b"
  by (auto dest: newlines_bounds)

lemma newlines_mono: "x \<le> y \<Longrightarrow> length (newlines s 0 x) \<le> length (newlines s 0 y)"
  using newlines_append [of 0 x y s] by simp

lemma line_starts_nth:
  assumes "x \<le> n"
  shows "line_starts s n ! length (newlines s 0 x) = current_line_start s x"
proof -
  have "line_starts s x \<noteq> []" by (simp add: line_starts_def)
  then show ?thesis
    by (simp add: line_starts_split [OF assms] nth_append length_line_starts
        current_line_start_def last_conv_nth)
qed

lemma line_end_after:
  assumes "x \<le> n"
  shows "x \<le> line_end_offset (line_starts s n) n (length (newlines s 0 x))"
proof (cases "newlines s x n")
  case Nil
  then show ?thesis using assms
    by (simp add: line_end_offset_def line_starts_split [OF assms] length_line_starts)
next
  case (Cons b bs)
  then have "x \<le> b" using newlines_bounds [of b s x n] by simp
  then show ?thesis using Cons
    by (simp add: line_end_offset_def line_starts_split [OF assms] length_line_starts nth_append)
qed

lemma line_end_le: "line_end_offset (line_starts s n) n line \<le> n"
  using line_starts_le [of "line_starts s n ! (line + 1)" s n]
  by (auto simp: line_end_offset_def intro: le_trans [OF diff_le_self])

lemma current_line_start_le: "current_line_start s x \<le> x"
  unfolding current_line_start_def
  by (rule line_starts_le [of _ s], rule last_in_set) (simp add: line_starts_def)

lemma position_in_eq:
  fixes sn :: snapshot
  assumes "length (view sn) < u32_max"
  shows "position_in (build_line_index sn) (view sn) offset = position_spec (view sn) offset"
proof (cases "chunk_count (text_size (view sn)) = 0")
  case True
  then have "text_size (view sn) = 0"
    using chunk_count_less [of 0 "text_size (view sn)"] by simp
  then show ?thesis
    using True by (simp add: position_in_def position_spec_def build_line_index_eq newlines_def
        current_line_start_def line_starts_def utf16_column_def column_loop.simps)
next
  case False
  define s where "s = view sn"
  define n where "n = text_size s"
  define x where "x = min offset n"
  define im where "im = build_line_index sn"
  let ?K = kLineIndexChunkSize and ?N = "chunk_count n" and ?l = "length (newlines s 0 x)"
  have im: "lineStart im = line_starts s n" "numChunks im = ?N"
    "\<And>c. c \<le> ?N \<Longrightarrow> chunkLineLowerBound im ! c = chunk_bound s n c"
    by (simp_all add: im_def n_def s_def build_line_index_eq)
  have xn: "x \<le> n" by (simp add: x_def)
  have N: "0 < ?N" using False by (simp add: n_def s_def)
  have nmax: "n < u32_max" using assms by (simp add: n_def s_def text_size_def)
  define c where "c = min (x div ?K) (?N - 1)"
  have c: "c + 1 \<le> ?N" using N by (simp add: c_def)
  have lower: "c * ?K \<le> x"
    by (rule order_trans [of _ "x div ?K * ?K"]) (simp_all add: c_def)
  have upper: "x \<le> min n ((c + 1) * ?K)"
  proof (cases "x div ?K \<le> ?N - 1")
    case True
    then have "c = x div ?K" by (simp add: c_def)
    moreover have "x < (x div ?K + 1) * ?K" using dividend_less_div_times by simp
    ultimately show ?thesis using xn by simp
  next
    case False
    then have "c + 1 = ?N" using N by (simp add: c_def)
    then show ?thesis using xn chunk_count_less [of ?N n] by simp
  qed
  have lo: "chunk_bound s n c \<le> ?l"
    unfolding chunk_bound_def using lower by (intro newlines_mono) simp
  have hi: "?l \<le> chunk_bound s n (c + 1)"
    unfolding chunk_bound_def using upper by (intro newlines_mono) simp
  have ll: "length (line_starts s n) = Suc (length (newlines s 0 n))"
    "length (newlines s 0 n) \<le> n" "?l \<le> length (newlines s 0 n)"
    using length_newlines [of s 0 n] xn newlines_mono [of x n s]
    by (simp_all add: length_line_starts)
  have ub: "upper_bound (line_starts s n) (chunk_bound s n c)
      (min (chunk_bound s n (c + 1) + 1) (u32 (length (line_starts s n)))) x = Suc ?l"
    unfolding line_starts_split [OF xn] length_line_starts [symmetric]
    by (rule upper_bound_split)
      (use lo hi ll nmax line_starts_le line_starts_gt in
        \<open>auto simp: length_line_starts line_starts_split [OF xn, symmetric]\<close>)
  have l32: "u32 ?l = ?l" using ll nmax by simp
  have "position_in im s offset =
      \<lparr>pline = ?l, pcharacter = utf16_column s (current_line_start s x)
        (min (max x (current_line_start s x)) (line_end_offset (line_starts s n) n ?l))\<rparr>"
    using N c unfolding position_in_def Let_def n_def [symmetric] x_def [symmetric]
    by (simp only: im c_def [symmetric] ub if_False diff_Suc_1 l32 line_starts_nth [OF xn]
        add_leD1 simp_thms neq0_conv [symmetric] not_gr_zero)
  also have "\<dots> = position_spec s offset"
    using line_end_after [OF xn] current_line_start_le [of s x]
    by (simp add: position_spec_def n_def [symmetric] x_def [symmetric] max_absorb1 min_absorb1)
  finally show ?thesis by (simp add: im_def s_def)
qed

end
