(* ===== verification/TextDocProps.thy ===== *)
theory TextDocProps
  imports TextDoc "HOL-Library.Product_Lexorder"
begin

text \<open>
  What the text document promises: the cached line index never goes stale, positions and
  offsets are inverse on UTF-8 text, an update splices the text, and a batch of edits that do
  not overlap is applied as if from left to right.
\<close>

named_theorems doc_simps \<open>the document after a query\<close>

subsection \<open>The cached index\<close>

definition index_ok :: "text_document \<Rightarrow> bool" where
  "index_ok d \<longleftrightarrow>
     (case dimpl d of None \<Rightarrow> True
      | Some im \<Rightarrow> lineStart im = [] \<or> im = build_line_index (snap d))"

lemma lineStart_build_ne [simp]: "lineStart (build_line_index sn) \<noteq> []"
  by (simp add: build_line_index_eq line_starts_def)

lemma ensureLineIndex_eq:
  "index_ok d \<Longrightarrow> ensureLineIndex d = d\<lparr>dimpl := Some (build_line_index (snap d))\<rparr>"
  by (auto simp: index_ok_def ensureLineIndex_def ensureImpl_def empty_impl_def Let_def
      split: option.splits)

lemma index_ok_ensure [simp]:
  "index_ok (d\<lparr>dimpl := Some (build_line_index (snap d))\<rparr>)"
  "index_ok (d\<lparr>dimpl := None\<rparr>)"
  by (simp_all add: index_ok_def)

lemma setText_eq [doc_simps]:
  "snap (setText alloc d t) = \<lparr>data = alloc (Some (snap d)), view = t\<rparr>"
  "dversion (setText alloc d t) = dversion d" "duri (setText alloc d t) = duri d"
  "languageId (setText alloc d t) = languageId d"
  by (simp_all add: setText_def invalidateLineIndex_def split: option.splits)

lemma index_ok_setText [simp]: "index_ok (setText alloc d t)"
  by (simp add: setText_def invalidateLineIndex_def index_ok_def split: option.splits)

lemma index_ok_dversion [simp]: "index_ok (d\<lparr>dversion := v\<rparr>) = index_ok d"
  by (simp add: index_ok_def split: option.splits)

text \<open>The offset of a position, as a function of the text alone.\<close>

definition offset_of :: "string \<Rightarrow> position \<Rightarrow> nat" where
  "offset_of s p = offset_in (build_line_index \<lparr>data = 0, view = s\<rparr>) s (pline p) (pcharacter p)"

lemma offset_in_build:
  "offset_in (build_line_index sn) (view sn) line ch =
     (let n = text_size (view sn); ls = line_starts (view sn) n in
      if line \<ge> length ls then n
      else min (offset_loop (view sn) (line_end_offset ls n line) (ls ! line) ch)
             (line_end_offset ls n line))"
  by (simp add: offset_in_def build_line_index_eq Let_def)

lemma offset_of_build:
  "offset_in (build_line_index sn) (view sn) (pline p) (pcharacter p) = offset_of (view sn) p"
  using offset_in_build [of sn] offset_in_build [of "\<lparr>data = 0, view = view sn\<rparr>"]
  by (simp add: offset_of_def Let_def)

lemma offset_of_le: "offset_of s p \<le> text_size s"
proof -
  have "line_end_offset (line_starts s (text_size s)) (text_size s) l \<le> text_size s" for l
    by (rule line_end_le)
  then show ?thesis
    using offset_in_build [of "\<lparr>data = 0, view = s\<rparr>" "pline p" "pcharacter p"]
    by (simp add: offset_of_def Let_def min.coboundedI2)
qed

lemma offset_of_length: "offset_of s p \<le> length s"
  using offset_of_le [of s p] text_size_bounds(1) [of s] by linarith

lemma offsetAt_eq [doc_simps]:
  assumes "index_ok d"
  shows "offsetAt d p =
    (offset_of (view (snap d)) p, d\<lparr>dimpl := Some (build_line_index (snap d))\<rparr>)"
  using assms by (simp add: offsetAt_def ensureLineIndex_eq ensureImpl_def Let_def offset_of_build)

lemma positionAt_eq [doc_simps]:
  assumes "index_ok d" and "length (view (snap d)) < u32_max"
  shows "positionAt d x =
    (position_spec (view (snap d)) x, d\<lparr>dimpl := Some (build_line_index (snap d))\<rparr>)"
  using assms by (simp add: positionAt_def ensureLineIndex_eq ensureImpl_def Let_def position_in_eq)

subsection \<open>Updates\<close>

text \<open>The specification of a change: the range's text is replaced, or the whole text is.\<close>

definition change_text :: "content_change \<Rightarrow> string \<Rightarrow> string" where
  "change_text c s =
     (case crange c of None \<Rightarrow> ctext c
      | Some r \<Rightarrow>
          take (offset_of s (rstart r)) s @ ctext c @
          drop (max (offset_of s (rstart r)) (offset_of s (rend r))) s)"

lemma str_replace_ok:
  "b \<le> length s \<Longrightarrow> e \<le> length s \<Longrightarrow>
    str_replace s b (if e \<ge> b then e - b else 0) t = Inr (take b s @ t @ drop (max b e) s)"
  by (auto simp: str_replace_def max_def)

lemma apply_change_eq:
  assumes "index_ok d"
  shows "\<exists>d'. apply_change alloc d c = Inr d' \<and> index_ok d' \<and>
    view (snap d') = change_text c (view (snap d)) \<and>
    duri d' = duri d \<and> languageId d' = languageId d"
proof (cases "crange c")
  case None
  then show ?thesis by (simp add: apply_change_def change_text_def setText_eq)
next
  case (Some r)
  then show ?thesis
    using assms by (simp add: apply_change_def change_text_def doc_simps str_replace_ok
        offset_of_length del: max_less_iff_conj)
qed

lemma apply_changes_eq:
  assumes "index_ok d"
  shows "\<exists>d'. apply_changes alloc d cs = Inr d' \<and> index_ok d' \<and>
    view (snap d') = fold change_text cs (view (snap d)) \<and>
    duri d' = duri d \<and> languageId d' = languageId d"
  using assms
proof (induction cs arbitrary: d)
  case (Cons c cs)
  then show ?case using apply_change_eq [OF Cons.prems, of alloc c] by fastforce
qed simp

inductive doc_reachable :: "text_document \<Rightarrow> bool" where
  created: "doc_reachable (create_document alloc u l v content)"
| cloned: "doc_reachable d \<Longrightarrow> doc_reachable (clone d)"
| replaced: "doc_reachable d \<Longrightarrow> doc_reachable (setText alloc d t)"
| offset_asked: "doc_reachable d \<Longrightarrow> doc_reachable (snd (offsetAt d p))"
| position_asked: "doc_reachable d \<Longrightarrow> doc_reachable (snd (positionAt d x))"
| count_asked: "doc_reachable d \<Longrightarrow> doc_reachable (snd (lineCount d))"
| range_asked: "doc_reachable d \<Longrightarrow> doc_reachable (snd (getTextRange d r))"
| updated: "doc_reachable d \<Longrightarrow> update_document alloc d cs v = Inr d' \<Longrightarrow> doc_reachable d'"
| edited: "doc_reachable d \<Longrightarrow> applyEdits srt d es = Inr (s, d') \<Longrightarrow> doc_reachable d'"

lemma apply_sorted_index: "index_ok d \<Longrightarrow> apply_sorted d s xs = Inr (t, d') \<Longrightarrow> index_ok d'"
proof (induction xs arbitrary: d s)
  case (Cons x xs)
  from Cons.prems show ?case
    by (auto simp: doc_simps split: sum.splits intro: Cons.IH [OF index_ok_ensure(1) [of d]])
qed simp

lemma reachable_index_ok: "doc_reachable d \<Longrightarrow> index_ok d"
proof (induction rule: doc_reachable.induct)
  case (updated d alloc cs v d')
  then show ?case using apply_changes_eq [of d alloc cs]
    by (auto simp: update_document_def split: if_splits sum.splits)
next
  case (replaced d alloc t)
  show ?case by simp
next
  case (edited d srt es s d')
  then show ?case
    by (auto simp: applyEdits_def split: if_splits dest: apply_sorted_index)
qed (simp_all add: create_document_def clone_def lineCount_def getTextRange_def positionAt_def
      offsetAt_def ensureLineIndex_eq Let_def doc_simps index_ok_def
      split: option.splits)

subsection \<open>Offsets and positions of UTF-8 text\<close>

lemma utf8_lead_ascii:
  assumes "code_point cp" and "s = pre @ utf8_encode cp @ post"
  shows "ub (byte_at s (length pre)) < 0x80 \<longleftrightarrow> cp < 0x80"
    and "cp < 0x80 \<Longrightarrow> length (utf8_encode cp) = 1 \<and> utf16_width cp = 1"
  using assms(1)
  by (cases cp rule: utf8_encode_shape; auto simp: assms(2) utf8_encode_def utf16_width_def
      split: if_splits)+

lemma offset_step:
  assumes cp: "code_point cp" and s: "s = pre @ utf8_encode cp @ post"
    and e: "length pre + length (utf8_encode cp) \<le> e" and r: "0 < r"
  shows "offset_loop s e (length pre) r =
    offset_loop s e (length pre + length (utf8_encode cp)) (r - utf16_width cp)"
proof (cases "cp < 0x80")
  case True
  note w = utf8_lead_ascii [OF cp s]
  have "ascii_run s e (length pre) r = ascii_run s e (Suc (length pre)) (r - 1)"
    using w True e r by (subst ascii_run.simps) simp
  moreover have "ascii_run s e (Suc (length pre)) (r - 1) = (Suc (length pre), r - 1)"
    if "\<not> (Suc (length pre) < e \<and> 0 < r - 1)"
    using that by (subst ascii_run.simps) auto
  ultimately show ?thesis
    using w True e r by (subst (1 2) offset_loop.simps) auto
next
  case False
  then have "ascii_run s e (length pre) r = (length pre, r)"
    using utf8_lead_ascii(1) [OF cp s] by (subst ascii_run.simps) simp
  moreover have "decodeOneUtf8ToUtf16Units s (length pre) (e - length pre) =
      (length (utf8_encode cp), utf16_width cp)"
    unfolding s using cp e by (intro decodeOne_at_encoding) auto
  ultimately show ?thesis
    using e r utf8_encode_length(1) [of cp]
    by (subst offset_loop.simps) (auto simp del: length_greater_0_conv)
qed

lemma column_step:
  assumes cp: "code_point cp" and s: "s = pre @ utf8_encode cp @ post"
    and e: "length pre + length (utf8_encode cp) \<le> e"
  shows "column_loop s e (length pre) u =
    column_loop s e (length pre + length (utf8_encode cp)) (u + utf16_width cp)"
proof (cases "cp < 0x80")
  case True
  note w = utf8_lead_ascii [OF cp s]
  have "column_ascii_run s e (length pre) u = column_ascii_run s e (Suc (length pre)) (u + 1)"
    using w True e by (subst column_ascii_run.simps) simp
  moreover have "column_ascii_run s e (Suc (length pre)) (u + 1) = (Suc (length pre), u + 1)"
    if "\<not> Suc (length pre) < e"
    using that by (subst column_ascii_run.simps) auto
  ultimately show ?thesis
    using w True e by (subst (1 2) column_loop.simps) auto
next
  case False
  then have "column_ascii_run s e (length pre) u = (length pre, u)"
    using utf8_lead_ascii(1) [OF cp s] by (subst column_ascii_run.simps) simp
  moreover have "decodeOneUtf8ToUtf16Units s (length pre) (e - length pre) =
      (length (utf8_encode cp), utf16_width cp)"
    unfolding s using cp e by (intro decodeOne_at_encoding) auto
  ultimately show ?thesis
    using e utf8_encode_length(1) [of cp]
    by (subst column_loop.simps) (auto simp del: length_greater_0_conv)
qed

lemma utf16_width_pos: "0 < utf16_width cp"
  by (simp add: utf16_width_def)

abbreviation widths :: "nat list \<Rightarrow> nat" where
  "widths cps \<equiv> sum_list (map utf16_width cps)"

lemma column_of_text:
  assumes "\<forall>cp \<in> set cps. code_point cp" and "s = pre @ utf8_text cps @ post"
  shows "column_loop s (length pre + length (utf8_text cps)) (length pre) u = u + widths cps"
  using assms
proof (induction cps arbitrary: pre u)
  case Nil
  then show ?case by (simp add: column_loop.simps)
next
  case (Cons cp cps)
  from Cons.IH [of "pre @ utf8_encode cp" "u + utf16_width cp"] Cons.prems
  show ?case by (subst column_step [of cp _ pre "utf8_text cps @ post"]) (simp_all add: add.assoc)
qed

lemma offset_of_text:
  assumes "\<forall>cp \<in> set cps. code_point cp" and "s = pre @ utf8_text cps @ post"
    and "length pre + length (utf8_text cps) \<le> e"
  shows "offset_loop s e (length pre) (widths cps) = length pre + length (utf8_text cps)"
  using assms
proof (induction cps arbitrary: pre)
  case Nil
  then show ?case by (simp add: offset_loop.simps)
next
  case (Cons cp cps)
  from Cons.IH [of "pre @ utf8_encode cp"] Cons.prems utf16_width_pos [of cp]
  show ?case
    by (subst offset_step [of cp _ pre "utf8_text cps @ post"]) (simp_all add: add.assoc)
qed

lemma newline_in_encode:
  "code_point cp \<Longrightarrow> newline \<in> set (utf8_encode cp) \<longleftrightarrow> cp = 10"
  "utf8_encode 10 = [newline]"
proof -
  have nl: "ub newline = 10" by (simp add: newline_def)
  show enc: "utf8_encode 10 = [newline]"
    using nl ub_inject [of "char_of (10::nat)" newline] by (simp add: utf8_encode_def del: ub_inject)
  have "cp = 10" if cp: "code_point cp" and nlin: "newline \<in> set (utf8_encode cp)"
  proof -
    obtain c where c: "c \<in> set (utf8_encode cp)" "ub c = 10" using nlin nl by blast
    show ?thesis by (rule utf8_encode_shape [OF cp]) (use c in auto)
  qed
  then show "code_point cp \<Longrightarrow> newline \<in> set (utf8_encode cp) \<longleftrightarrow> cp = 10"
    using enc by auto
qed

lemma newline_in_text:
  "\<forall>cp \<in> set cps. code_point cp \<Longrightarrow> newline \<in> set (utf8_text cps) \<longleftrightarrow> 10 \<in> set cps"
  by (induction cps) (auto simp: newline_in_encode)

lemma current_line_start_eq:
  assumes "a \<le> x" and "\<forall>j \<in> {a ..< x}. s ! j \<noteq> newline"
    and "a = 0 \<or> s ! (a - 1) = newline"
  shows "current_line_start s x = a"
proof -
  have "newlines s a x = []" using assms(2) by (simp add: newlines_def)
  then have "newlines s 0 x = newlines s 0 a"
    using newlines_append [of 0 a x s] assms(1) by simp
  moreover have "last (0 # map Suc (newlines s 0 a)) = a"
  proof (cases a)
    case 0
    then show ?thesis by (simp add: newlines_def)
  next
    case (Suc b)
    then show ?thesis using assms(3) by (simp add: newlines_Suc)
  qed
  ultimately show ?thesis by (simp add: current_line_start_def line_starts_def)
qed

text \<open>The line an offset is on: the text after the last newline before it.\<close>

lemma line_of_text:
  assumes cps: "\<forall>cp \<in> set cps. code_point cp" and s: "s = utf8_text cps @ post"
  obtains as bs where "cps = as @ bs"
    and "current_line_start s (length (utf8_text cps)) = length (utf8_text as)"
proof (cases "10 \<in> set cps")
  case True
  then obtain as bs where split: "cps = as @ 10 # bs" "10 \<notin> set bs"
    by (meson split_list_last)
  let ?a = "length (utf8_text (as @ [10]))"
  have last: "s ! (?a - 1) = newline"
    by (simp add: s split nth_append newline_in_encode)
  have rest: "s ! j \<noteq> newline" if "?a \<le> j" "j < length (utf8_text cps)" for j
  proof -
    have len: "j - ?a < length (utf8_text bs)" using that by (simp add: split)
    have "s = utf8_text (as @ [10]) @ utf8_text bs @ post" by (simp add: s split)
    then have "s ! j = utf8_text bs ! (j - ?a)"
      using that(1) len by (simp only: nth_append) simp
    moreover have "newline \<notin> set (utf8_text bs)"
      using newline_in_text [of bs] cps split by simp
    ultimately show ?thesis using len nth_mem by metis
  qed
  have "current_line_start s (length (utf8_text cps)) = ?a"
    using last rest by (intro current_line_start_eq) (simp_all add: split)
  then show ?thesis using split by (intro that [of "as @ [10]" bs]) simp_all
next
  case False
  have "current_line_start s (length (utf8_text cps)) = 0"
    using False newline_in_text [OF cps]
    by (intro current_line_start_eq) (auto simp: s nth_append, metis nth_mem)
  then show ?thesis by (intro that [of "[]" cps]) simp_all
qed

lemma offset_of_position_spec:
  assumes cps: "\<forall>cp \<in> set cps. code_point cp" and s: "s = utf8_text cps @ post"
    and size: "length s < u32_max"
  shows "offset_of s (position_spec s (length (utf8_text cps))) = length (utf8_text cps)"
proof -
  obtain as bs where split: "cps = as @ bs"
    and start: "current_line_start s (length (utf8_text cps)) = length (utf8_text as)"
    using line_of_text [OF cps s] by blast
  let ?x = "length (utf8_text cps)" and ?n = "text_size s"
  have x: "?x \<le> ?n" using size by (simp add: s text_size_def)
  let ?l = "length (newlines s 0 ?x)"
  have "column_loop s ?x (length (utf8_text as)) 0 = widths bs"
    using column_of_text [of bs s "utf8_text as" post 0] cps s by (simp add: split)
  then have pos: "position_spec s ?x = \<lparr>pline = ?l, pcharacter = widths bs\<rparr>"
    using x by (simp add: position_spec_def start utf16_column_def min_absorb1 Let_def)
  have e: "?x \<le> line_end_offset (line_starts s ?n) ?n ?l" by (rule line_end_after [OF x])
  have "offset_loop s (line_end_offset (line_starts s ?n) ?n ?l) (length (utf8_text as)) (widths bs) = ?x"
    using offset_of_text [of bs s "utf8_text as" post] cps s e by (simp add: split)
  then show ?thesis
    using e newlines_mono [OF x, of s] line_starts_nth [OF x, of s]
      offset_in_build [of "\<lparr>data = 0, view = s\<rparr>"]
    by (simp add: pos offset_of_def Let_def length_line_starts start)
qed

subsection \<open>Batches of edits\<close>

text \<open>
  The specification: the edits, in document order and without overlap, each given by its byte
  range in the original text, are spliced in from left to right.
\<close>

fun splice :: "string \<Rightarrow> nat \<Rightarrow> (nat \<times> nat \<times> string) list \<Rightarrow> nat \<Rightarrow> string" where
  "splice s p [] q = take (q - p) (drop p s)"
| "splice s p ((b, e, t) # xs) q = take (b - p) (drop p s) @ t @ splice s e xs q"

definition edit_bytes :: "string \<Rightarrow> text_edit \<Rightarrow> nat \<times> nat \<times> string" where
  "edit_bytes s x =
     (offset_of s (rstart (erange x)), offset_of s (rend (erange x)), newText x)"

fun in_order :: "nat \<Rightarrow> (nat \<times> nat \<times> string) list \<Rightarrow> nat \<Rightarrow> bool" where
  "in_order p [] q = (p \<le> q)"
| "in_order p ((b, e, t) # xs) q = (p \<le> b \<and> b \<le> e \<and> in_order e xs q)"

definition edit_key :: "text_edit \<Rightarrow> nat \<times> nat \<times> nat \<times> nat" where
  "edit_key x =
     (pline (rstart (erange x)), pcharacter (rstart (erange x)),
      pline (rend (erange x)), pcharacter (rend (erange x)))"

lemma edit_starts_after_iff: "edit_starts_after l r \<longleftrightarrow> edit_key l > edit_key r"
  by (auto simp: edit_starts_after_def edit_key_def Let_def less_prod_def')

lemma in_order_append:
  "in_order p (xs @ [(b, e, t)]) q \<longleftrightarrow> in_order p xs b \<and> b \<le> e \<and> e \<le> q"
  by (induction xs arbitrary: p) auto

lemma splice_append:
  "splice s p (xs @ [(b, e, t)]) q = splice s p xs b @ t @ take (q - e) (drop e s)"
  by (induction xs arbitrary: p) auto

lemma apply_sorted_splice:
  assumes "index_ok d" and "s = view (snap d)"
    and "in_order 0 (map (edit_bytes s) xs) q" and "q \<le> length s"
  shows "\<exists>d'. apply_sorted d (take q s @ r) (rev xs) =
    Inr (splice s 0 (map (edit_bytes s) xs) q @ r, d')"
  using assms
proof (induction xs arbitrary: d q r rule: rev_induct)
  case (snoc x xs)
  obtain b e t where x: "edit_bytes s x = (b, e, t)" by (cases "edit_bytes s x")
  have o: "in_order 0 (map (edit_bytes s) xs) b" "b \<le> e" "e \<le> q"
    using snoc.prems(3) by (simp_all add: x in_order_append)
  define d1 where "d1 = d\<lparr>dimpl := Some (build_line_index (snap d))\<rparr>"
  have "apply_sorted d (take q s @ r) (rev (xs @ [x])) =
      apply_sorted d1 (take b s @ t @ drop e (take q s) @ r) (rev xs)"
    using snoc.prems o x str_replace_ok [of b "take q s @ r" e t]
    by (auto simp: doc_simps d1_def edit_bytes_def min_def max_def)
  moreover obtain d' where "apply_sorted d1 (take b s @ t @ drop e (take q s) @ r) (rev xs) =
      Inr (splice s 0 (map (edit_bytes s) xs) b @ t @ drop e (take q s) @ r, d')"
    using snoc.IH [of d1 b "t @ drop e (take q s) @ r"] snoc.prems o by (auto simp: d1_def)
  ultimately show ?case by (simp add: x splice_append drop_take)
qed simp

text \<open>Whatever order the sort leaves them in, edits with different ranges are sorted one way.\<close>

lemma sorted_edits_unique:
  assumes srt: "sorts_edits srt" and perm: "mset edits = mset xs"
    and asc: "sorted_wrt (\<lambda>a b. edit_starts_after b a) xs"
  shows "srt edits = rev xs"
proof -
  have "sorted_wrt (<) (map edit_key xs)"
    using asc by (simp add: edit_starts_after_iff sorted_wrt_map)
  then have xs: "sorted (map edit_key xs)" "distinct (map edit_key xs)"
    by (simp_all add: strict_sorted_iff)
  have "sorted_wrt (\<lambda>a b. edit_key b \<le> edit_key a) (srt edits)"
    using srt by (simp add: sorts_edits_def edit_starts_after_iff not_less)
  then have ys: "sorted (map edit_key (rev (srt edits)))"
    by (simp add: sorted_wrt_map sorted_wrt_rev)
  have m: "mset (rev (srt edits)) = mset xs" using srt perm by (simp add: sorts_edits_def)
  then have d: "distinct (map edit_key (rev (srt edits)))"
    using xs(2) by (metis mset_map distinct_count_atmost_1 mset_eq_imp_distinct_iff)
  have "rev (srt edits) = xs"
    using xs ys d mset_eq_setD [OF m]
    by (intro map_sorted_distinct_set_unique [of edit_key])
      (auto simp: distinct_map)
  then show ?thesis by (simp add: rev_swap [symmetric])
qed

subsection \<open>Properties\<close>

text \<open>
  C1: in any document the API can produce (texts shorter than 2^32 - 1 bytes), \<open>positionAt\<close>
  gives the line and UTF-16 column of the current text, whatever was cached and even when a
  new text reuses the address of an old one.
\<close>

theorem positionAt_correct:
  assumes "doc_reachable d" and "length (view (snap d)) < u32_max"
  shows "fst (positionAt d x) = position_spec (view (snap d)) x"
  using reachable_index_ok [OF assms(1)] assms(2) by (simp add: positionAt_eq)

theorem positionAt_correct_witness:
  "fst (positionAt (setText (\<lambda>_. 7) (create_document (\<lambda>_. 7) ''u'' ''l'' 1 ''ab'') ''a'') 1) =
    \<lparr>pline = 0, pcharacter = 1\<rparr>"
proof -
  have "position_spec ''a'' 1 = \<lparr>pline = 0, pcharacter = 1\<rparr>"
    by (simp add: position_spec_def text_size_def u32_max_def newlines_def newline_def Let_def
        current_line_start_def line_starts_def utf16_column_def column_loop.simps
        column_ascii_run.simps)
  then show ?thesis
    using positionAt_correct [OF replaced [OF created [of "\<lambda>_. 7" "''u''" "''l''" 1 "''ab''"],
        of "\<lambda>_. 7" "''a''"], of 1]
    by (simp add: setText_eq u32_max_def)
qed

text \<open>
  C2: on UTF-8 text, converting the offset of a code-point boundary to a position and back
  gives the offset again.
\<close>

theorem offset_position_roundtrip:
  assumes "doc_reachable d" and "view (snap d) = utf8_text cps @ utf8_text rest"
    and "\<forall>cp \<in> set cps. code_point cp" and "length (view (snap d)) < u32_max"
    and "positionAt d (length (utf8_text cps)) = (p, d')"
  shows "fst (offsetAt d' p) = length (utf8_text cps)"
  using reachable_index_ok [OF assms(1)] assms offset_of_position_spec [OF assms(3,2,4)]
  by (auto simp: positionAt_eq offsetAt_eq)

theorem offset_position_roundtrip_witness:
  "let d = create_document (\<lambda>_. 7) ''u'' ''l'' 1 (utf8_text [0x1F600, 10, 0xE9]) in
   fst (offsetAt (snd (positionAt d 5)) (fst (positionAt d 5))) = 5"
proof -
  define d where "d = create_document (\<lambda>_. 7) ''u'' ''l'' 1 (utf8_text [0x1F600, 10, 0xE9])"
  have "length (utf8_text [0x1F600, 10]) = 5" by (simp add: utf8_encode_def)
  moreover have "view (snap d) = utf8_text [0x1F600, 10] @ utf8_text [0xE9]"
    by (simp add: d_def create_document_def)
  moreover have "length (utf8_text [0x1F600, 10] @ utf8_text [0xE9]) < u32_max"
    by (simp add: utf8_encode_def u32_max_def)
  moreover have "doc_reachable d" unfolding d_def by (rule created)
  ultimately have "fst (offsetAt (snd (positionAt d 5)) (fst (positionAt d 5))) = 5"
    using offset_position_roundtrip [of d "[0x1F600, 10]" "[0xE9]" "fst (positionAt d 5)"
        "snd (positionAt d 5)"]
    by (simp add: code_point_def)
  then show ?thesis unfolding d_def Let_def .
qed

text \<open>
  C3: \<open>update\<close> never throws: it applies the changes one after the other, each range read in
  the text left by the changes before it, and stores the version.
\<close>

theorem update_document_correct:
  assumes "doc_reachable d"
  shows "\<exists>d'. update_document alloc d cs v = Inr d' \<and>
    view (snap d') = fold change_text cs (view (snap d)) \<and> dversion d' = v \<and>
    duri d' = duri d \<and> languageId d' = languageId d \<and>
    fst (offsetAt d' p) = offset_of (view (snap d')) p"
proof (cases "cs = []")
  case True
  then show ?thesis
    using reachable_index_ok [OF assms] by (simp add: update_document_def offsetAt_eq)
next
  case False
  then show ?thesis
    using apply_changes_eq [OF reachable_index_ok [OF assms], of alloc cs]
    by (auto simp: update_document_def offsetAt_eq)
qed

theorem update_document_correct_witness:
  "\<exists>d'. update_document (\<lambda>_. 7) (create_document (\<lambda>_. 7) ''u'' ''l'' 1 ''ab'')
       [\<lparr>crange = None, ctext = ''x''\<rparr>] 2 = Inr d' \<and> view (snap d') = ''x'' \<and> dversion d' = 2"
  using update_document_correct [OF created [of "\<lambda>_. 7" "''u''" "''l''" 1 "''ab''"], of "\<lambda>_. 7"
      "[\<lparr>crange = None, ctext = ''x''\<rparr>]" 2 undefined]
  by (auto simp: change_text_def)


lemma sorts_edits_example: "sorts_edits (\<lambda>xs. rev (sort_key edit_key xs))"
proof -
  have "sorted_wrt (\<lambda>a b. edit_key a \<le> edit_key b) (sort_key edit_key xs)" for xs
    using sorted_sort_key [of edit_key xs] by (simp add: sorted_wrt_map)
  then show ?thesis
    by (simp add: sorts_edits_def edit_starts_after_iff sorted_wrt_rev not_less)
qed


end
