(* ===== verification/Checkpoint.thy ===== *)
theory Checkpoint
  imports Prelude
begin

text \<open>
  The interface of speculation. The parser marks a state, runs an operation and rewinds when it
  fails; the CST builder and the parse context both offer \<open>mark\<close> and \<open>rewind\<close> with the same
  contract: rewinding is sound as long as the operations in between stayed inside what was open
  at the mark. The locale states the contract; its client lemmas are the reason why an
  expression tried and rewound leaves no trace.
\<close>

text \<open>A parse step answers whether it matched, with the state it leaves.\<close>

type_synonym 's step = "'s \<Rightarrow> bool \<times> 's"

definition attempt :: "('s \<Rightarrow> 'c) \<Rightarrow> ('s \<Rightarrow> 'c \<Rightarrow> 's) \<Rightarrow> 's step \<Rightarrow> 's step" where
  "attempt mk rw f s = (case f s of (True, s') \<Rightarrow> (True, s') | (False, s') \<Rightarrow> (False, rw s' (mk s)))"

locale checkpointing =
  fixes ok :: "'s \<Rightarrow> bool"
    and ext :: "'s \<Rightarrow> 's \<Rightarrow> bool"
    and same :: "'s \<Rightarrow> 's \<Rightarrow> bool"
    and mk :: "'s \<Rightarrow> 'c"
    and rw :: "'s \<Rightarrow> 'c \<Rightarrow> 's"
  assumes ext_refl: "ok s \<Longrightarrow> ext s s"
    and same_ok: "ok s \<Longrightarrow> same s' s \<Longrightarrow> ok s'"
    and same_ext: "ok s \<Longrightarrow> same s' s \<Longrightarrow> ext x s \<Longrightarrow> ext x s'"
    and rewind_same: "ok s \<Longrightarrow> ok s' \<Longrightarrow> ext s s' \<Longrightarrow> same (rw s' (mk s)) s"
begin

definition grows :: "'s step \<Rightarrow> bool" where
  "grows f \<longleftrightarrow> (\<forall>s x. ok s \<longrightarrow> ok (snd (f s)) \<and> (ok x \<longrightarrow> ext x s \<longrightarrow> ext x (snd (f s))))"

definition safe :: "'s step \<Rightarrow> bool" where
  "safe f \<longleftrightarrow> grows f \<and> (\<forall>s. ok s \<longrightarrow> \<not> fst (f s) \<longrightarrow> same (snd (f s)) s)"

lemma growsD: "grows f \<Longrightarrow> ok s \<Longrightarrow> ok (snd (f s))"
  "grows f \<Longrightarrow> ok s \<Longrightarrow> ok x \<Longrightarrow> ext x s \<Longrightarrow> ext x (snd (f s))"
  by (simp_all add: grows_def)

lemma attempt_safe:
  assumes "grows f"
  shows "safe (attempt mk rw f)"
proof -
  have "(fst (f s) \<or> same (rw (snd (f s)) (mk s)) s) \<and> ok (snd (f s))" if "ok s" for s
    using growsD [OF assms that] ext_refl [OF that] rewind_same [OF that] that by blast
  then show ?thesis
    using assms same_ok same_ext
    by (auto simp: safe_def grows_def attempt_def split: prod.splits bool.splits)
      (metis fst_conv snd_conv)+
qed

end

end
