(* ===== verification/Cst.thy ===== *)
theory Cst
  imports Checkpoint
begin

text \<open>
  The streaming builder of concrete syntax trees: \<open>core/syntax-tree/CstNode.hpp\<close>,
  \<open>core/syntax-tree/RootCstNode.hpp\<close> and \<open>core/syntax-tree/CstBuilder.hpp\<close>. Node storage is a
  memory indexed by node id: what lies at or above \<open>nodeCount\<close> is whatever an earlier, rewound
  parse left there. The chunked array is that memory (\<open>chunk_of\<close> is its address computation).
  The specification is a stack of forests of ordered trees, one forest per open node.
\<close>

named_theorems cst_simps \<open>fields after a builder operation\<close>

subsection \<open>Data\<close>

definition kNoNode :: nat where
  "kNoNode = u32_max"

definition kMaxNodeCount :: nat where
  "kMaxNodeCount = kNoNode"

record 'e cst_node =
  nbegin :: nat
  nend :: nat
  grammarElement :: 'e
  nextSiblingId :: nat
  nisLeaf :: bool
  nisHidden :: bool
  nisRecovered :: bool

record frame =
  parent :: nat
  lastChild :: nat

record checkpoint =
  cpNodeCount :: nat
  cpCurrent :: nat
  cpDepth :: nat
  lastAtLevel :: nat
  parentAtLevel :: nat

record 'e builder =
  nodes :: "nat \<Rightarrow> 'e cst_node"
  nodeCount :: nat
  frames :: "frame list"
  depth :: nat
  current :: nat

definition chunk_size :: nat where
  "chunk_size = push_bit 12 1"

text \<open>The chunk and the slot of a node id (\<open>chunk_shift\<close> is 12, \<open>chunk_mask\<close> is 4095).\<close>

definition chunk_of :: "nat \<Rightarrow> nat \<times> nat" where
  "chunk_of i = (drop_bit 12 i, i AND (chunk_size - 1))"

definition kInitialStackCapacity :: nat where
  "kInitialStackCapacity = 128"

subsection \<open>Operations\<close>

definition new_builder :: "(nat \<Rightarrow> 'e cst_node) \<Rightarrow> 'e builder" where
  "new_builder mem = \<lparr>nodes = mem, nodeCount = 0,
     frames = (replicate kInitialStackCapacity \<lparr>parent = 0, lastChild = 0\<rparr>)
       [0 := \<lparr>parent = kNoNode, lastChild = kNoNode\<rparr>],
     depth = 0, current = kNoNode\<rparr>"

definition reset :: "'e builder \<Rightarrow> 'e builder" where
  "reset b = b\<lparr>nodeCount := 0, current := kNoNode, depth := 0,
     frames := (frames b)[0 := \<lparr>parent = kNoNode, lastChild = kNoNode\<rparr>]\<rparr>"

definition mark :: "'e builder \<Rightarrow> checkpoint" where
  "mark b = (let f = frames b ! depth b in
     \<lparr>cpNodeCount = nodeCount b, cpCurrent = current b, cpDepth = depth b,
      lastAtLevel = lastChild f, parentAtLevel = parent f\<rparr>)"

definition rewind :: "'e builder \<Rightarrow> checkpoint \<Rightarrow> 'e builder" where
  "rewind b cp =
     (if nodeCount b = cpNodeCount cp then b
      else
        let m = (if lastAtLevel cp \<noteq> kNoNode
                 then (nodes b)(lastAtLevel cp := (nodes b (lastAtLevel cp))\<lparr>nextSiblingId := kNoNode\<rparr>)
                 else nodes b) in
        b\<lparr>nodeCount := cpNodeCount cp, current := cpCurrent cp, depth := cpDepth cp, nodes := m,
          frames := (frames b)[cpDepth cp :=
            \<lparr>parent = parentAtLevel cp, lastChild = lastAtLevel cp\<rparr>]\<rparr>)"

text \<open>\<open>alloc_node_uninitialized\<close>: the id handed out; the slot keeps what it held.\<close>

definition alloc_node :: "'e builder \<Rightarrow> nat \<times> 'e builder" where
  "alloc_node b = (nodeCount b, b\<lparr>nodeCount := nodeCount b + 1\<rparr>)"

definition enter :: "'e builder \<Rightarrow> 'e builder" where
  "enter b =
     (let (nid, b) = alloc_node b; d = depth b + 1; f = \<lparr>parent = nid, lastChild = kNoNode\<rparr> in
      b\<lparr>current := nid, depth := d,
        frames := (if d < length (frames b) then (frames b)[d := f] else frames b @ [f])\<rparr>)"

text \<open>Linking a finished node behind the last child of its depth.\<close>

definition link :: "nat \<Rightarrow> 'e builder \<Rightarrow> 'e builder" where
  "link nid b =
     (let l = lastChild (frames b ! depth b) in
      b\<lparr>nodes := (if l \<noteq> kNoNode
                  then (nodes b)(l := (nodes b l)\<lparr>nextSiblingId := nid\<rparr>) else nodes b),
        frames := (frames b)[depth b := (frames b ! depth b)\<lparr>lastChild := nid\<rparr>]\<rparr>)"

definition exit_node :: "nat \<Rightarrow> nat \<Rightarrow> 'e \<Rightarrow> 'e builder \<Rightarrow> 'e builder" where
  "exit_node beginOffset endOffset ge b =
     (let hasChildren = (lastChild (frames b ! depth b) \<noteq> kNoNode);
          c = current b;
          b = b\<lparr>nodes := (nodes b)(c :=
                \<lparr>nbegin = beginOffset, nend = endOffset, grammarElement = ge,
                 nextSiblingId = kNoNode, nisLeaf = (\<not> hasChildren), nisHidden = False,
                 nisRecovered = False\<rparr>),
                depth := depth b - 1\<rparr>;
          b = link c b in
      b\<lparr>current := parent (frames b ! depth b)\<rparr>)"

definition leaf :: "nat \<Rightarrow> nat \<Rightarrow> 'e \<Rightarrow> bool \<Rightarrow> bool \<Rightarrow> 'e builder \<Rightarrow> 'e builder" where
  "leaf beginOffset endOffset ge hidden recovered b =
     (let (nid, b) = alloc_node b in
      link nid (b\<lparr>nodes := (nodes b)(nid :=
        \<lparr>nbegin = beginOffset, nend = endOffset, grammarElement = ge, nextSiblingId = kNoNode,
         nisLeaf = True, nisHidden = hidden, nisRecovered = recovered\<rparr>)\<rparr>))"

definition override_grammar_element :: "nat \<Rightarrow> 'e \<Rightarrow> 'e builder \<Rightarrow> 'e builder" where
  "override_grammar_element nid ge b =
     b\<lparr>nodes := (nodes b)(nid := (nodes b nid)\<lparr>grammarElement := ge\<rparr>)\<rparr>"

subsection \<open>The chunked storage\<close>

text \<open>The address computation is injective: the chunked array is a memory indexed by id.\<close>

lemma chunk_of_eq: "chunk_of i = (i div 4096, i mod 4096)"
  using and_mask_mod [of i 12]
  by (simp add: chunk_of_def chunk_size_def drop_bit_eq_div push_bit_eq_mult mask_eq_exp_minus_1)

lemma chunk_of_inject: "chunk_of i = chunk_of j \<longleftrightarrow> i = j"
  unfolding chunk_of_eq by (metis Pair_inject div_mult_mod_eq)

subsection \<open>The invariant of the builder\<close>

text \<open>
  Ids below \<open>nodeCount\<close> are distinguishable from \<open>kNoNode\<close>; at each open depth the last child
  is an allocated node without a sibling; the current node is the parent of the current depth.
\<close>

definition builder_ok :: "'e builder \<Rightarrow> bool" where
  "builder_ok b \<longleftrightarrow>
     depth b < length (frames b) \<and> nodeCount b \<le> kNoNode \<and>
     current b = parent (frames b ! depth b) \<and> parent (frames b ! 0) = kNoNode \<and>
     (\<forall>k \<le> depth b. 0 < k \<longrightarrow> parent (frames b ! k) < nodeCount b) \<and>
     (\<forall>k \<le> depth b. \<forall>j < k. (lastChild (frames b ! j) = kNoNode \<or>
        lastChild (frames b ! j) < parent (frames b ! k)) \<and>
        (0 < j \<longrightarrow> parent (frames b ! j) < parent (frames b ! k))) \<and>
     (\<forall>k \<le> depth b. lastChild (frames b ! k) \<noteq> kNoNode \<longrightarrow>
        (0 < k \<longrightarrow> parent (frames b ! k) < lastChild (frames b ! k)) \<and>
        lastChild (frames b ! k) < nodeCount b \<and>
        nextSiblingId (nodes b (lastChild (frames b ! k))) = kNoNode)"

text \<open>What a rewind restores: everything but the memory above \<open>nodeCount\<close> and \<open>depth\<close>.\<close>

definition same_cst :: "'e builder \<Rightarrow> 'e builder \<Rightarrow> bool" where
  "same_cst b b' \<longleftrightarrow>
     nodeCount b = nodeCount b' \<and> depth b = depth b' \<and> current b = current b' \<and>
     depth b < length (frames b) \<and> depth b' < length (frames b') \<and>
     (\<forall>i < nodeCount b. nodes b i = nodes b' i) \<and>
     (\<forall>k \<le> depth b. frames b ! k = frames b' ! k)"

text \<open>What an operation inside a speculation may have changed since the mark.\<close>

definition extends :: "'e builder \<Rightarrow> 'e builder \<Rightarrow> bool" where
  "extends b b' \<longleftrightarrow>
     nodeCount b \<le> nodeCount b' \<and> depth b \<le> depth b' \<and>
     (\<forall>k < depth b. frames b' ! k = frames b ! k) \<and>
     parent (frames b' ! depth b) = parent (frames b ! depth b) \<and>
     (lastChild (frames b' ! depth b) = lastChild (frames b ! depth b) \<or>
      nodeCount b \<le> lastChild (frames b' ! depth b)) \<and>
     (\<forall>k. depth b < k \<and> k \<le> depth b' \<longrightarrow>
        nodeCount b \<le> parent (frames b' ! k) \<and> nodeCount b \<le> lastChild (frames b' ! k)) \<and>
     (\<forall>i < nodeCount b.
        if i = lastChild (frames b ! depth b)
        then (nodes b' i)\<lparr>nextSiblingId := kNoNode\<rparr> = nodes b i
        else nodes b' i = nodes b i) \<and>
     (nodeCount b' = nodeCount b \<longrightarrow> same_cst b' b)"

lemma same_cst_refl: "builder_ok b \<Longrightarrow> same_cst b b"
  by (simp add: same_cst_def builder_ok_def)

lemma extends_refl: "builder_ok b \<Longrightarrow> extends b b"
  by (auto simp: extends_def same_cst_def builder_ok_def)

lemma enter_simps [cst_simps]:
  "nodes (enter b) = nodes b" "nodeCount (enter b) = Suc (nodeCount b)"
  "depth (enter b) = Suc (depth b)" "current (enter b) = nodeCount b"
  "depth b < length (frames b) \<Longrightarrow> Suc (depth b) < length (frames (enter b))"
  by (auto simp: enter_def alloc_node_def Let_def)

lemma enter_frames [cst_simps]:
  "depth b < length (frames b) \<Longrightarrow> k \<le> Suc (depth b) \<Longrightarrow>
    frames (enter b) ! k =
      (if k = Suc (depth b) then \<lparr>parent = nodeCount b, lastChild = kNoNode\<rparr> else frames b ! k)"
  by (auto simp: enter_def alloc_node_def Let_def nth_list_update nth_append)

lemma leaf_simps [cst_simps]:
  "nodeCount (leaf x y ge h r b) = Suc (nodeCount b)" "depth (leaf x y ge h r b) = depth b"
  "current (leaf x y ge h r b) = current b"
  "length (frames (leaf x y ge h r b)) = length (frames b)"
  by (simp_all add: leaf_def alloc_node_def link_def Let_def)

lemma leaf_frames [cst_simps]:
  "depth b < length (frames b) \<Longrightarrow> frames (leaf x y ge h r b) ! k =
    (if k = depth b then (frames b ! k)\<lparr>lastChild := nodeCount b\<rparr> else frames b ! k)"
  by (simp add: leaf_def alloc_node_def link_def Let_def)

lemma leaf_nodes [cst_simps]:
  "lastChild (frames b ! depth b) \<noteq> nodeCount b \<Longrightarrow> nodes (leaf x y ge h r b) i =
    (if i = nodeCount b then
       \<lparr>nbegin = x, nend = y, grammarElement = ge, nextSiblingId = kNoNode, nisLeaf = True,
        nisHidden = h, nisRecovered = r\<rparr>
     else if i = lastChild (frames b ! depth b) \<and> i \<noteq> kNoNode
       then (nodes b i)\<lparr>nextSiblingId := nodeCount b\<rparr>
     else nodes b i)"
  by (auto simp: leaf_def alloc_node_def link_def Let_def)

lemma exit_simps [cst_simps]:
  "nodeCount (exit_node x y ge b) = nodeCount b" "depth (exit_node x y ge b) = depth b - 1"
  "length (frames (exit_node x y ge b)) = length (frames b)"
  by (simp_all add: exit_node_def link_def Let_def)

lemma exit_current [cst_simps]:
  "depth b < length (frames b) \<Longrightarrow>
    current (exit_node x y ge b) = parent (frames b ! (depth b - 1))"
  by (simp add: exit_node_def link_def Let_def)

lemma exit_frames [cst_simps]:
  "depth b < length (frames b) \<Longrightarrow> frames (exit_node x y ge b) ! k =
    (if k = depth b - 1 then (frames b ! k)\<lparr>lastChild := current b\<rparr> else frames b ! k)"
  by (simp add: exit_node_def link_def Let_def)

lemma exit_nodes [cst_simps]:
  "lastChild (frames b ! (depth b - 1)) \<noteq> current b \<Longrightarrow> nodes (exit_node x y ge b) i =
    (if i = current b then
       \<lparr>nbegin = x, nend = y, grammarElement = ge, nextSiblingId = kNoNode,
        nisLeaf = (lastChild (frames b ! depth b) = kNoNode),
        nisHidden = False, nisRecovered = False\<rparr>
     else if i = lastChild (frames b ! (depth b - 1)) \<and> i \<noteq> kNoNode
       then (nodes b i)\<lparr>nextSiblingId := current b\<rparr>
     else nodes b i)"
  by (auto simp: exit_node_def link_def Let_def)

lemma override_simps [cst_simps]:
  "nodeCount (override_grammar_element i ge b) = nodeCount b"
  "depth (override_grammar_element i ge b) = depth b"
  "current (override_grammar_element i ge b) = current b"
  "frames (override_grammar_element i ge b) = frames b"
  "nodes (override_grammar_element i ge b) j =
     (if j = i then (nodes b j)\<lparr>grammarElement := ge\<rparr> else nodes b j)"
  by (simp_all add: override_grammar_element_def)

subsection \<open>Every operation keeps the invariant\<close>

lemma builder_okD:
  assumes "builder_ok b"
  shows "depth b < length (frames b)" "nodeCount b \<le> kNoNode"
    "current b = parent (frames b ! depth b)" "parent (frames b ! 0) = kNoNode"
    "k \<le> depth b \<Longrightarrow> 0 < k \<Longrightarrow> parent (frames b ! k) < nodeCount b"
    "k \<le> depth b \<Longrightarrow> j < k \<Longrightarrow> lastChild (frames b ! j) = kNoNode \<or>
       lastChild (frames b ! j) < parent (frames b ! k)"
    "k \<le> depth b \<Longrightarrow> 0 < k \<Longrightarrow> lastChild (frames b ! k) = kNoNode \<or>
       parent (frames b ! k) < lastChild (frames b ! k)"
    "k \<le> depth b \<Longrightarrow> lastChild (frames b ! k) = kNoNode \<or>
       lastChild (frames b ! k) < nodeCount b \<and>
       nextSiblingId (nodes b (lastChild (frames b ! k))) = kNoNode"
    "k \<le> depth b \<Longrightarrow> j < k \<Longrightarrow> 0 < j \<Longrightarrow> parent (frames b ! j) < parent (frames b ! k)"
  using assms unfolding builder_ok_def by blast+

lemma builder_okI:
  assumes "depth b < length (frames b)" "nodeCount b \<le> kNoNode"
    "current b = parent (frames b ! depth b)" "parent (frames b ! 0) = kNoNode"
    "\<And>k. k \<le> depth b \<Longrightarrow> 0 < k \<Longrightarrow> parent (frames b ! k) < nodeCount b"
    "\<And>j k. k \<le> depth b \<Longrightarrow> j < k \<Longrightarrow> lastChild (frames b ! j) = kNoNode \<or>
       lastChild (frames b ! j) < parent (frames b ! k)"
    "\<And>k. k \<le> depth b \<Longrightarrow> 0 < k \<Longrightarrow> lastChild (frames b ! k) = kNoNode \<or>
       parent (frames b ! k) < lastChild (frames b ! k)"
    "\<And>k. k \<le> depth b \<Longrightarrow> lastChild (frames b ! k) = kNoNode \<or>
       lastChild (frames b ! k) < nodeCount b \<and>
       nextSiblingId (nodes b (lastChild (frames b ! k))) = kNoNode"
    "\<And>j k. k \<le> depth b \<Longrightarrow> j < k \<Longrightarrow> 0 < j \<Longrightarrow> parent (frames b ! j) < parent (frames b ! k)"
  shows "builder_ok b"
  using assms unfolding builder_ok_def by blast

lemma last_ne_count:
  "builder_ok b \<Longrightarrow> nodeCount b < kNoNode \<Longrightarrow> k \<le> depth b \<Longrightarrow>
    lastChild (frames b ! k) \<noteq> nodeCount b"
  using builder_okD(8) [of b k] by auto

lemma last_ne_parent:
  assumes "builder_ok b" and "k \<le> depth b" and "0 < k" and "j < k"
  shows "lastChild (frames b ! j) \<noteq> parent (frames b ! k)"
  using builder_okD(2) [OF assms(1)] builder_okD(5,6) [OF assms(1), of k] assms by fastforce

text \<open>The last children of two depths are different nodes.\<close>

lemma last_ne_last:
  assumes "builder_ok b" and "k \<le> depth b" and "j < k"
    and "lastChild (frames b ! k) \<noteq> kNoNode"
  shows "lastChild (frames b ! j) \<noteq> lastChild (frames b ! k)"
  using builder_okD(6) [OF assms(1-3)] builder_okD(7) [OF assms(1,2)] assms by fastforce

lemma enter_ok:
  assumes ok: "builder_ok b" and room: "nodeCount b < kNoNode"
  shows "builder_ok (enter b)"
proof -
  note D = builder_okD [OF ok]
  note S = cst_simps le_Suc_eq
  show ?thesis
  proof (rule builder_okI, goal_cases)
    case (5 k) then show ?case using D(1) D(5) [of k] by (auto simp: S)
  next
    case (6 j k) then show ?case using D(1) D(6) [of k j] D(8) [of j] by (auto simp: S)
  next
    case (7 k) then show ?case using D(1) D(7) [of k] by (auto simp: S)
  next
    case (8 k) then show ?case using D(1) D(8) [of k] by (auto simp: S)
  next
    case (9 j k) then show ?case using D(1) D(9) [of k j] D(5) [of j] by (auto simp: S)
  qed (use D(1,4) room in \<open>auto simp: cst_simps\<close>)
qed

lemma leaf_ok:
  assumes ok: "builder_ok b" and room: "nodeCount b < kNoNode"
  shows "builder_ok (leaf x y ge h r b)"
proof -
  note D = builder_okD [OF ok]
  have ne: "lastChild (frames b ! depth b) \<noteq> nodeCount b" using last_ne_count [OF ok room] by simp
  show ?thesis
  proof (rule builder_okI, goal_cases)
    case (8 k)
    then show ?case
      using D(1) D(8) [of k] last_ne_last [OF ok, of "depth b" k] last_ne_count [OF ok room, of k] ne
      by (cases "k = depth b") (auto simp: cst_simps)
  next
    case (5 k)
    then show ?case using D(1) D(5) [of k] by (auto simp: cst_simps)
  next
    case (7 k)
    then show ?case using D(1) D(5,7) [of k] by (auto simp: cst_simps)
  qed (use D(1-4) D(6) D(9) room in \<open>auto simp: cst_simps\<close>)
qed

lemma exit_ok:
  assumes ok: "builder_ok b" and d: "0 < depth b"
  shows "builder_ok (exit_node x y ge b)"
proof -
  note D = builder_okD [OF ok]
  let ?d = "depth b - 1"
  have ne: "lastChild (frames b ! ?d) \<noteq> current b"
    using last_ne_parent [OF ok _ d, of ?d] d D(3) by simp
  have cur: "current b < nodeCount b" using D(3) D(5) [of "depth b"] d by simp
  show ?thesis
  proof (rule builder_okI, goal_cases)
    case (7 k)
    then show ?case
      using D(1,3) D(7) [of k] D(9) [of "depth b" k] d by (auto simp: cst_simps)
  next
    case (8 k)
    then show ?case
      using D(1,3) D(8) [of k] last_ne_last [OF ok, of ?d k] ne cur d
        last_ne_parent [OF ok _ d, of k]
      by (cases "k = ?d") (auto simp: cst_simps)
  qed (use D(1-5) D(6,9) d in \<open>auto simp: cst_simps\<close>)
qed

lemma override_ok: "builder_ok b \<Longrightarrow> builder_ok (override_grammar_element i ge b)"
  by (auto simp: builder_ok_def cst_simps)

lemma new_builder_ok: "builder_ok (new_builder mem)"
  by (rule builder_okI) (simp_all add: new_builder_def kInitialStackCapacity_def)

lemma reset_ok: "0 < length (frames b) \<Longrightarrow> builder_ok (reset b)"
  by (rule builder_okI) (simp_all add: reset_def)

subsection \<open>Speculation\<close>

lemma extendsD:
  assumes "extends b b'"
  shows "nodeCount b \<le> nodeCount b'" "depth b \<le> depth b'"
    "k < depth b \<Longrightarrow> frames b' ! k = frames b ! k"
    "parent (frames b' ! depth b) = parent (frames b ! depth b)"
    "lastChild (frames b' ! depth b) = lastChild (frames b ! depth b) \<or>
      nodeCount b \<le> lastChild (frames b' ! depth b)"
    "depth b < k \<Longrightarrow> k \<le> depth b' \<Longrightarrow> nodeCount b \<le> parent (frames b' ! k)"
    "depth b < k \<Longrightarrow> k \<le> depth b' \<Longrightarrow> nodeCount b \<le> lastChild (frames b' ! k)"
    "i < nodeCount b \<Longrightarrow> i = lastChild (frames b ! depth b) \<Longrightarrow>
      (nodes b' i)\<lparr>nextSiblingId := kNoNode\<rparr> = nodes b i"
    "i < nodeCount b \<Longrightarrow> i \<noteq> lastChild (frames b ! depth b) \<Longrightarrow> nodes b' i = nodes b i"
    "nodeCount b' = nodeCount b \<Longrightarrow> same_cst b' b"
proof -
  note E = assms [unfolded extends_def]
  from E show "nodeCount b \<le> nodeCount b'" "depth b \<le> depth b'"
    "parent (frames b' ! depth b) = parent (frames b ! depth b)"
    "lastChild (frames b' ! depth b) = lastChild (frames b ! depth b) \<or>
      nodeCount b \<le> lastChild (frames b' ! depth b)" by blast+
  from E show "k < depth b \<Longrightarrow> frames b' ! k = frames b ! k" by blast
  from E show "depth b < k \<Longrightarrow> k \<le> depth b' \<Longrightarrow> nodeCount b \<le> parent (frames b' ! k)"
    "depth b < k \<Longrightarrow> k \<le> depth b' \<Longrightarrow> nodeCount b \<le> lastChild (frames b' ! k)" by blast+
  from E show "i < nodeCount b \<Longrightarrow> i = lastChild (frames b ! depth b) \<Longrightarrow>
      (nodes b' i)\<lparr>nextSiblingId := kNoNode\<rparr> = nodes b i"
    "i < nodeCount b \<Longrightarrow> i \<noteq> lastChild (frames b ! depth b) \<Longrightarrow> nodes b' i = nodes b i"
    by (auto split: if_splits)
  from E show "nodeCount b' = nodeCount b \<Longrightarrow> same_cst b' b" by blast
qed

lemma extendsI:
  assumes "nodeCount b \<le> nodeCount b'" "depth b \<le> depth b'"
    "\<And>k. k < depth b \<Longrightarrow> frames b' ! k = frames b ! k"
    "parent (frames b' ! depth b) = parent (frames b ! depth b)"
    "lastChild (frames b' ! depth b) = lastChild (frames b ! depth b) \<or>
      nodeCount b \<le> lastChild (frames b' ! depth b)"
    "\<And>k. depth b < k \<Longrightarrow> k \<le> depth b' \<Longrightarrow> nodeCount b \<le> parent (frames b' ! k)"
    "\<And>k. depth b < k \<Longrightarrow> k \<le> depth b' \<Longrightarrow> nodeCount b \<le> lastChild (frames b' ! k)"
    "\<And>i. i < nodeCount b \<Longrightarrow> i = lastChild (frames b ! depth b) \<Longrightarrow>
      (nodes b' i)\<lparr>nextSiblingId := kNoNode\<rparr> = nodes b i"
    "\<And>i. i < nodeCount b \<Longrightarrow> i \<noteq> lastChild (frames b ! depth b) \<Longrightarrow> nodes b' i = nodes b i"
    "nodeCount b' = nodeCount b \<Longrightarrow> same_cst b' b"
  shows "extends b b'"
  using assms unfolding extends_def by presburger

lemma kNoNode_ge: "builder_ok b \<Longrightarrow> nodeCount b \<le> kNoNode"
  by (rule builder_okD(2))

lemma extends_enter:
  assumes b: "builder_ok b" and b': "builder_ok b'" and e: "extends b b'"
  shows "extends b (enter b')"
proof -
  note E = extendsD [OF e]
  note d = builder_okD(1) [OF b']
  show ?thesis
  proof (rule extendsI, goal_cases)
    case (3 k) then show ?case using E(2) E(3) [of k] d by (simp add: cst_simps)
  next
    case (6 k) then show ?case using E(1,2) E(6) [of k] d by (auto simp: cst_simps le_Suc_eq)
  next
    case (7 k) then show ?case
      using E(2) E(7) [of k] d kNoNode_ge [OF b] by (auto simp: cst_simps le_Suc_eq)
  qed (use E(1,2,4,5) E(8,9) d in \<open>auto simp: cst_simps\<close>)
qed

lemma extends_leaf:
  assumes b: "builder_ok b" and b': "builder_ok b'" and e: "extends b b'"
    and room: "nodeCount b' < kNoNode"
  shows "extends b (leaf x y ge h r b')"
proof -
  note E = extendsD [OF e]
  note d = builder_okD(1) [OF b']
  have ne: "lastChild (frames b' ! depth b') \<noteq> nodeCount b'"
    using last_ne_count [OF b' room] by simp
  have l: "depth b' = depth b \<and> lastChild (frames b' ! depth b') = lastChild (frames b ! depth b) \<or>
      nodeCount b \<le> lastChild (frames b' ! depth b')"
    using E(2,5) E(7) [of "depth b'"] by (cases "depth b = depth b'") auto
  show ?thesis
  proof (rule extendsI, goal_cases)
    case (3 k) then show ?case using E(2) E(3) [of k] d by (simp add: cst_simps)
  next
    case (6 k) then show ?case using E(6) [of k] d by (auto simp: cst_simps)
  next
    case (7 k) then show ?case using E(1) E(7) [of k] d by (simp add: cst_simps)
  next
    case (8 i) then show ?case using E(1) E(8) [of i] d ne l by (auto simp: cst_simps)
  next
    case (9 i) then show ?case using E(1) E(9) [of i] d ne l by (auto simp: cst_simps)
  qed (use E(1,2,4,5) d in \<open>auto simp: cst_simps\<close>)
qed

lemma extends_exit:
  assumes b: "builder_ok b" and b': "builder_ok b'" and e: "extends b b'"
    and deeper: "depth b < depth b'"
  shows "extends b (exit_node x y ge b')"
proof -
  note E = extendsD [OF e]
  note d = builder_okD(1) [OF b']
  let ?d = "depth b' - 1"
  have cur: "nodeCount b \<le> current b'" using E(6) [of "depth b'"] deeper builder_okD(3) [OF b'] by simp
  have ne: "lastChild (frames b' ! ?d) \<noteq> current b'"
    using last_ne_parent [OF b' _ _, of "depth b'" ?d] deeper builder_okD(3) [OF b'] by simp
  have l: "?d = depth b \<and> lastChild (frames b' ! ?d) = lastChild (frames b ! depth b) \<or>
      nodeCount b \<le> lastChild (frames b' ! ?d)"
    using E(5) E(7) [of ?d] deeper by (cases "depth b = ?d") auto
  show ?thesis
  proof (rule extendsI, goal_cases)
    case (3 k) then show ?case using E(3) [of k] d deeper by (simp add: cst_simps)
  next
    case (6 k) then show ?case using E(6) [of k] d by (auto simp: cst_simps)
  next
    case (7 k) then show ?case using E(1) E(7) [of k] d cur by (simp add: cst_simps)
  next
    case (8 i) then show ?case using E(1) E(8) [of i] d ne l cur by (auto simp: cst_simps)
  next
    case (9 i) then show ?case using E(1) E(9) [of i] d ne l cur by (auto simp: cst_simps)
  next
    case 10
    then have "same_cst b' b" using E(10) by (simp add: cst_simps)
    then show ?case using deeper by (simp add: same_cst_def)
  qed (use E(1,2,4,5) d deeper cur in \<open>auto simp: cst_simps\<close>)
qed

lemma extends_override:
  assumes "extends b b'" and "nodeCount b \<le> i"
  shows "extends b (override_grammar_element i ge b')"
proof -
  note E = extendsD [OF assms(1)]
  show ?thesis
  proof (rule extendsI, goal_cases)
    case 10
    then show ?case using E(10) assms(2) by (auto simp: cst_simps same_cst_def)
  qed (use E(1-5) E(6,7) E(8,9) assms(2) in \<open>auto simp: cst_simps\<close>)
qed

lemma rewind_mark:
  assumes b: "builder_ok b" and b': "builder_ok b'" and e: "extends b b'"
  shows "same_cst (rewind b' (mark b)) b"
proof (cases "nodeCount b' = nodeCount b")
  case True
  then have "rewind b' (mark b) = b'" by (simp add: rewind_def mark_def Let_def)
  then show ?thesis using extendsD(10) [OF e True] by simp
next
  case False
  note E = extendsD [OF e]
  note D = builder_okD [OF b]
  have len: "depth b < length (frames b')" using E(2) builder_okD(1) [OF b'] by simp
  have n: "nodes (rewind b' (mark b)) i = nodes b i" if "i < nodeCount b" for i
    using that False E(8,9) [of i] D(8) [of "depth b"] D(2)
    by (auto simp: rewind_def mark_def Let_def)
  have f: "frames (rewind b' (mark b)) ! k = frames b ! k" if "k \<le> depth b" for k
    using that False E(3) [of k] len
    by (auto simp: rewind_def mark_def Let_def nth_list_update)
  show ?thesis
    using n f False D(1) len by (auto simp: same_cst_def rewind_def mark_def Let_def)
qed

lemma same_cst_ok:
  assumes b: "builder_ok b" and s: "same_cst b' b"
  shows "builder_ok b'"
proof -
  note D = builder_okD [OF b]
  have n: "nodes b' i = nodes b i" if "i < nodeCount b" for i using that s by (simp add: same_cst_def)
  have f: "frames b' ! k = frames b ! k" if "k \<le> depth b" for k using that s by (simp add: same_cst_def)
  have d: "depth b' = depth b" "nodeCount b' = nodeCount b" "current b' = current b"
    "depth b < length (frames b')" using s by (auto simp: same_cst_def)
  show ?thesis
  proof (rule builder_okI, goal_cases)
    case (8 k)
    then show ?case using D(8) [of k] by (auto simp: d f n)
  qed (use D(2-5) D(6) D(7,9) in \<open>auto simp: d f\<close>)
qed

lemma same_cst_extends:
  assumes s: "same_cst b' b" and e: "extends x b"
  shows "extends x b'"
proof -
  note E = extendsD [OF e]
  have n: "nodes b' i = nodes b i" if "i < nodeCount b" for i using that s by (simp add: same_cst_def)
  have f: "frames b' ! k = frames b ! k" if "k \<le> depth b" for k using that s by (simp add: same_cst_def)
  have d: "depth b' = depth b" "nodeCount b' = nodeCount b" "current b' = current b"
    "depth b < length (frames b')" using s by (auto simp: same_cst_def)
  show ?thesis
  proof (rule extendsI, goal_cases)
    case 10
    then have "same_cst b x" using E(10) d by simp
    then show ?case using s by (auto simp: same_cst_def)
  next
    case (8 i) then show ?case using E(1) E(8) [of i] n [of i] by auto
  next
    case (9 i) then show ?case using E(1) E(9) [of i] n [of i] by auto
  qed (use E(1,2) E(3-5) E(6,7) d f in \<open>auto simp del: not_less\<close>)
qed

interpretation builder: checkpointing builder_ok extends same_cst mark rewind
  by unfold_locales (rule extends_refl same_cst_ok same_cst_extends rewind_mark; assumption)+

end
