(* ===== verification/CstTree.thy ===== *)
theory CstTree
  imports Cst
begin

text \<open>
  The builder against its specification: a stack of forests of ordered trees, the innermost open
  node first. A run of the builder, speculation included, lays out in memory exactly the trees
  that the specification builds, in preorder and linked by their sibling ids.
\<close>

subsection \<open>Trees and their layout\<close>

datatype 'e tree = Tree (tbegin: nat) (tend: nat) (telement: 'e) (thidden: bool) (trecovered: bool)
  (kids: "'e tree list")

primrec tsize :: "'e tree \<Rightarrow> nat" where
  "tsize (Tree b e g h r ts) = Suc (sum_list (map tsize ts))"

abbreviation fsize :: "'e tree list \<Rightarrow> nat" where
  "fsize ts \<equiv> sum_list (map tsize ts)"

fun tree_at :: "(nat \<Rightarrow> 'e cst_node) \<Rightarrow> nat \<Rightarrow> 'e tree \<Rightarrow> bool"
  and forest_at :: "(nat \<Rightarrow> 'e cst_node) \<Rightarrow> nat \<Rightarrow> 'e tree list \<Rightarrow> bool" where
  "tree_at m i (Tree b e g h r ts) =
     (nbegin (m i) = b \<and> nend (m i) = e \<and> grammarElement (m i) = g \<and> nisHidden (m i) = h \<and>
      nisRecovered (m i) = r \<and> nisLeaf (m i) = (ts = []) \<and> forest_at m (Suc i) ts)"
| "forest_at m i [] = True"
| "forest_at m i (t # ts) =
     (tree_at m i t \<and> nextSiblingId (m i) = (if ts = [] then kNoNode else i + tsize t) \<and>
      forest_at m (i + tsize t) ts)"

lemma tsize_pos [simp]: "0 < tsize t"
  by (cases t) simp

lemma layout_cong:
  "(m' i)\<lparr>nextSiblingId := 0\<rparr> = (m i)\<lparr>nextSiblingId := 0\<rparr> \<Longrightarrow>
    \<forall>j. i < j \<and> j < i + tsize t \<longrightarrow> m' j = m j \<Longrightarrow> tree_at m' i t = tree_at m i t"
  "\<forall>j. i \<le> j \<and> j < i + fsize ts \<longrightarrow> m' j = m j \<Longrightarrow> forest_at m' i ts = forest_at m i ts"
proof (induction m i t and m i ts rule: tree_at_forest_at.induct)
  case (1 m i b e g h r ts)
  have "nbegin (m' i) = nbegin (m i)" "nend (m' i) = nend (m i)"
    "grammarElement (m' i) = grammarElement (m i)" "nisHidden (m' i) = nisHidden (m i)"
    "nisRecovered (m' i) = nisRecovered (m i)" "nisLeaf (m' i) = nisLeaf (m i)"
    using 1(2) by (metis cst_node.select_convs cst_node.surjective cst_node.update_convs(4))+
  then show ?case using 1(1,3) by simp
next
  case (3 m i t ts)
  have "m' i = m i" using 3(3) tsize_pos [of t] by simp
  then show ?case using 3 by simp
qed simp

text \<open>The id of the last root of a forest laid out from \<open>i\<close>.\<close>

definition last_root :: "nat \<Rightarrow> 'e tree list \<Rightarrow> nat" where
  "last_root i ts = (if ts = [] then kNoNode else i + fsize (butlast ts))"

lemma last_root_simps [simp]:
  "last_root i [] = kNoNode" "last_root i (ts @ [t]) = i + fsize ts" "last_root i [t] = i"
  "ts \<noteq> [] \<Longrightarrow> last_root i (t # ts) = last_root (i + tsize t) ts"
  by (simp_all add: last_root_def)

lemma last_root_less:
  assumes "ts \<noteq> []"
  shows "i \<le> last_root i ts" and "last_root i ts < i + fsize ts"
  using assms by (cases ts rule: rev_cases; simp)+

text \<open>Appending a tree behind a forest: its last root gets the sibling link.\<close>

lemma forest_snoc:
  assumes "forest_at m i ts" and "tree_at m' (i + fsize ts) t"
    and "nextSiblingId (m' (i + fsize ts)) = kNoNode"
    and "\<forall>j. i \<le> j \<and> j < i + fsize ts \<longrightarrow>
      m' j = (if j = last_root i ts then (m j)\<lparr>nextSiblingId := i + fsize ts\<rparr> else m j)"
  shows "forest_at m' i (ts @ [t])"
  using assms
proof (induction ts arbitrary: i)
  case (Cons u us)
  have here: "tree_at m' i u"
    using Cons.prems(1,4) layout_cong(1) [of m' i m u] last_root_less [of us "i + tsize u"] tsize_pos [of u]
    by (cases "us = []") (auto simp: add.assoc split: if_splits)
  show ?case
  proof (cases "us = []")
    case True
    then show ?thesis using Cons.prems here tsize_pos [of u] by simp
  next
    case False
    have "i < last_root (i + tsize u) us"
      using last_root_less(1) [OF False, of "i + tsize u"] tsize_pos [of u] by linarith
    then have "m' i = m i" using Cons.prems(4) False tsize_pos [of u] by simp
    moreover have "forest_at m' (i + tsize u) (us @ [t])"
      using Cons.prems False by (intro Cons.IH) (simp_all add: add.assoc)
    ultimately show ?thesis using Cons.prems(1) here False by simp
  qed
qed simp

subsection \<open>The stack of open forests\<close>

fun start_of :: "'e tree list list \<Rightarrow> nat" where
  "start_of [] = 0"
| "start_of (ts # us) = Suc (start_of us + fsize ts)"

fun open_at :: "(nat \<Rightarrow> 'e cst_node) \<Rightarrow> frame list \<Rightarrow> 'e tree list list \<Rightarrow> bool" where
  "open_at m fr [] = True"
| "open_at m fr (ts # us) =
     (parent (fr ! length us) = (if us = [] then kNoNode else start_of us - 1) \<and>
      lastChild (fr ! length us) = last_root (start_of us) ts \<and>
      forest_at m (start_of us) ts \<and> open_at m fr us)"

definition represents :: "'e builder \<Rightarrow> 'e tree list list \<Rightarrow> bool" where
  "represents b st \<longleftrightarrow>
     st \<noteq> [] \<and> depth b = length st - 1 \<and> nodeCount b = start_of st - 1 \<and>
     open_at (nodes b) (frames b) st"

lemma start_of_pos: "st \<noteq> [] \<Longrightarrow> 0 < start_of st"
  by (cases st) auto

lemma open_at_cong:
  "\<forall>i. Suc i < start_of st \<longrightarrow> m' i = m i \<Longrightarrow> \<forall>k < length st. fr' ! k = fr ! k \<Longrightarrow>
    open_at m' fr' st = open_at m fr st"
proof (induction st)
  case (Cons ts us)
  have "forest_at m' (start_of us) ts = forest_at m (start_of us) ts"
    using Cons.prems(1) by (intro layout_cong(2)) simp
  then show ?case using Cons by simp
qed simp

lemma represents_same:
  assumes "represents b st" and "same_cst b' b"
  shows "represents b' st"
proof -
  have "open_at (nodes b') (frames b') st = open_at (nodes b) (frames b) st"
    using assms by (intro open_at_cong) (auto simp: represents_def same_cst_def)
  then show ?thesis using assms by (simp add: represents_def same_cst_def)
qed

lemma represents_new: "represents (new_builder m) [[]]"
  by (simp add: represents_def new_builder_def kInitialStackCapacity_def)

lemma new_builder_count: "nodeCount (new_builder m) = 0"
  by (simp add: new_builder_def)

lemma represents_enter:
  assumes b: "builder_ok b" and r: "represents b st"
  shows "represents (enter b) ([] # st)"
proof -
  have d: "depth b < length (frames b)" by (rule builder_okD(1) [OF b])
  have st: "st \<noteq> []" "depth b = length st - 1" "nodeCount b = start_of st - 1"
    "open_at (nodes b) (frames b) st" using r by (simp_all add: represents_def)
  have "open_at (nodes (enter b)) (frames (enter b)) st"
    using st d by (subst open_at_cong [of _ _ "nodes b" _ "frames b"]) (auto simp: cst_simps)
  moreover have "Suc (depth b) = length st" using st by simp
  ultimately show ?thesis
    using st d start_of_pos [of st] enter_frames [OF d, of "Suc (depth b)"]
    by (simp add: represents_def cst_simps)
qed

lemma represents_leaf:
  assumes b: "builder_ok b" and r: "represents b (ts # us)" and room: "nodeCount b < kNoNode"
  shows "represents (leaf x y g h rc b) ((ts @ [Tree x y g h rc []]) # us)"
proof -
  let ?b = "leaf x y g h rc b"
  have d: "depth b < length (frames b)" by (rule builder_okD(1) [OF b])
  have ne: "lastChild (frames b ! depth b) \<noteq> nodeCount b" using last_ne_count [OF b room] by simp
  have st: "depth b = length us" "nodeCount b = start_of us + fsize ts"
    "lastChild (frames b ! length us) = last_root (start_of us) ts"
    "parent (frames b ! length us) = (if us = [] then kNoNode else start_of us - 1)"
    "forest_at (nodes b) (start_of us) ts" "open_at (nodes b) (frames b) us"
    using r by (simp_all add: represents_def)
  have n: "nodes ?b i = (if i = nodeCount b then
       \<lparr>nbegin = x, nend = y, grammarElement = g, nextSiblingId = kNoNode, nisLeaf = True,
        nisHidden = h, nisRecovered = rc\<rparr>
     else if i = last_root (start_of us) ts \<and> i \<noteq> kNoNode
       then (nodes b i)\<lparr>nextSiblingId := nodeCount b\<rparr>
     else nodes b i)" for i
    using leaf_nodes [OF ne] st by simp
  have lr: "start_of us \<le> last_root (start_of us) ts"
    using last_root_less(1) [of ts "start_of us"] builder_okD(2) [OF b] st(2)
    by (cases "ts = []") auto
  have "forest_at (nodes ?b) (start_of us) (ts @ [Tree x y g h rc []])"
    using st room by (intro forest_snoc [where m = "nodes b"]) (auto simp: n)
  moreover have "open_at (nodes ?b) (frames ?b) us"
    using st lr d by (subst open_at_cong [of _ _ "nodes b" _ "frames b"]) (auto simp: n cst_simps)
  ultimately show ?thesis
    using st d by (simp add: represents_def cst_simps)
qed

lemma represents_exit:
  assumes b: "builder_ok b" and r: "represents b (ts # us # rest)"
  shows "represents (exit_node x y g b) ((us @ [Tree x y g False False ts]) # rest)"
proof -
  let ?b = "exit_node x y g b" and ?c = "start_of rest + fsize us"
  have d: "depth b < length (frames b)" by (rule builder_okD(1) [OF b])
  have st: "depth b = Suc (length rest)" "nodeCount b = Suc (?c + fsize ts)"
    "lastChild (frames b ! Suc (length rest)) = last_root (Suc ?c) ts"
    "parent (frames b ! Suc (length rest)) = ?c"
    "lastChild (frames b ! length rest) = last_root (start_of rest) us"
    "parent (frames b ! length rest) = (if rest = [] then kNoNode else start_of rest - 1)"
    "forest_at (nodes b) (Suc ?c) ts"
    "forest_at (nodes b) (start_of rest) us" "open_at (nodes b) (frames b) rest"
    using r by (simp_all add: represents_def)
  have cur: "current b = ?c" using builder_okD(3) [OF b] st by simp
  have cmax: "?c < kNoNode" using builder_okD(2) [OF b] st by simp
  have lr: "us = [] \<or> start_of rest \<le> last_root (start_of rest) us \<and> last_root (start_of rest) us < ?c"
    using last_root_less [of us "start_of rest"] by blast
  have ne: "lastChild (frames b ! (depth b - 1)) \<noteq> current b"
    using lr cmax cur st by auto
  have n: "nodes ?b i = (if i = ?c then
       \<lparr>nbegin = x, nend = y, grammarElement = g, nextSiblingId = kNoNode, nisLeaf = (ts = []),
        nisHidden = False, nisRecovered = False\<rparr>
     else if i = last_root (start_of rest) us \<and> i \<noteq> kNoNode
       then (nodes b i)\<lparr>nextSiblingId := ?c\<rparr>
     else nodes b i)" for i
  proof -
    have "last_root (Suc ?c) ts = kNoNode \<longleftrightarrow> ts = []"
      using last_root_less(2) [of ts "Suc ?c"] builder_okD(2) [OF b] st(2)
      by (cases "ts = []") auto
    then show ?thesis using exit_nodes [OF ne] st cur by simp
  qed
  have "forest_at (nodes ?b) (Suc ?c) ts"
    using st(7) lr by (subst layout_cong(2) [of _ _ _ "nodes b"]) (auto simp: n)
  then have "tree_at (nodes ?b) ?c (Tree x y g False False ts)" by (simp add: n)
  then have "forest_at (nodes ?b) (start_of rest) (us @ [Tree x y g False False ts])"
    using st(8) cmax by (intro forest_snoc [where m = "nodes b"]) (auto simp: n)
  moreover have "open_at (nodes ?b) (frames ?b) rest"
    using st lr d cmax
    by (subst open_at_cong [of _ _ "nodes b" _ "frames b"]) (auto simp: n cst_simps)
  ultimately show ?thesis
    using st d cur by (simp add: represents_def cst_simps)
qed

subsection \<open>Builder programs\<close>

text \<open>
  What a parser does with the builder: open, close, add leaves, and speculate (\<open>Try\<close>): mark,
  run a program that closes only what it opened itself, rewind.
\<close>

datatype 'e build =
  Enter
| Leaf nat nat 'e bool bool
| Exit nat nat 'e
| Try "'e build list"

fun build_step :: "'e build \<Rightarrow> 'e builder \<Rightarrow> 'e builder"
  and build_all :: "'e build list \<Rightarrow> 'e builder \<Rightarrow> 'e builder" where
  "build_step Enter b = enter b"
| "build_step (Leaf x y g h r) b = leaf x y g h r b"
| "build_step (Exit x y g) b = exit_node x y g b"
| "build_step (Try ps) b = rewind (build_all ps b) (mark b)"
| "build_all [] b = b"
| "build_all (p # ps) b = build_all ps (build_step p b)"

fun tree_step :: "'e build \<Rightarrow> 'e tree list list \<Rightarrow> 'e tree list list" where
  "tree_step Enter st = [] # st"
| "tree_step (Leaf x y g h r) (ts # us) = (ts @ [Tree x y g h r []]) # us"
| "tree_step (Exit x y g) (ts # us # st) = (us @ [Tree x y g False False ts]) # st"
| "tree_step _ st = st"

definition tree_all :: "'e build list \<Rightarrow> 'e tree list list \<Rightarrow> 'e tree list list" where
  "tree_all ps st = fold tree_step ps st"

text \<open>\<open>fits d ps\<close>: with \<open>d\<close> nodes that it may close open, \<open>ps\<close> closes no more than that.\<close>

fun fits :: "nat \<Rightarrow> 'e build list \<Rightarrow> bool" where
  "fits d [] = True"
| "fits d (Enter # ps) = fits (Suc d) ps"
| "fits d (Leaf x y g h r # ps) = fits d ps"
| "fits d (Exit x y g # ps) = (0 < d \<and> fits (d - 1) ps)"
| "fits d (Try qs # ps) = (fits 0 qs \<and> fits d ps)"

fun room :: "'e build list \<Rightarrow> nat" where
  "room [] = 0"
| "room (Try qs # ps) = room qs + room ps"
| "room (_ # ps) = Suc (room ps)"

text \<open>
  One induction over programs gives everything: the invariant, the trees, the contract of the
  marks taken at or below the depth the program may come back to, and the space used.
\<close>

lemma build_all_represents:
  assumes "fits d ps" and "builder_ok b" and "represents b st" and "d < length st"
    and "nodeCount b + room ps \<le> kNoNode"
  shows "builder_ok (build_all ps b) \<and> represents (build_all ps b) (tree_all ps st) \<and>
    nodeCount (build_all ps b) \<le> nodeCount b + room ps \<and>
    (\<forall>x. builder_ok x \<longrightarrow> extends x b \<longrightarrow> depth x + d \<le> depth b \<longrightarrow> extends x (build_all ps b))"
  using assms
proof (induction d ps arbitrary: b st rule: fits.induct)
  case (1 d)
  then show ?case by (simp add: tree_all_def)
next
  case (2 d ps)
  have r: "builder_ok (enter b)" "represents (enter b) ([] # st)"
    using 2 by (simp_all add: enter_ok represents_enter)
  show ?case
    using 2(1) [OF _ r] 2(2-) extends_enter [of _ b]
    by (auto simp: tree_all_def cst_simps)
next
  case (3 d x y g h rc ps)
  obtain ts us where st: "st = ts # us" using 3(5) by (cases st) auto
  have r: "builder_ok (leaf x y g h rc b)"
    "represents (leaf x y g h rc b) ((ts @ [Tree x y g h rc []]) # us)"
    using 3 st by (simp_all add: leaf_ok represents_leaf)
  show ?case
    using 3(1) [OF _ r] 3(2-) extends_leaf [of _ b]
    by (auto simp: tree_all_def cst_simps st)
next
  case (4 d x y g ps)
  obtain ts us rest where st: "st = ts # us # rest"
    using 4(2,5) by (cases st; cases "tl st") auto
  have d: "depth b = Suc (length rest)" using 4(4) st by (simp add: represents_def)
  have r: "builder_ok (exit_node x y g b)"
    "represents (exit_node x y g b) ((us @ [Tree x y g False False ts]) # rest)"
    using 4 st d by (simp_all add: exit_ok represents_exit)
  have "d - Suc 0 < Suc (length rest)" using 4(5) st by simp
  then show ?case
    using 4(1) [OF _ r] 4(2-) extends_exit [of _ b] d
    by (auto simp: tree_all_def cst_simps st)
next
  case (5 d qs ps)
  have "0 < length st" using 5(6) by linarith
  then have q: "builder_ok (build_all qs b)" "extends b (build_all qs b)"
    using 5(1) [OF _ 5(4,5)] 5(3,6,7) extends_refl [OF 5(4)] 5(4) by (auto simp: add.assoc)
  have same: "same_cst (rewind (build_all qs b) (mark b)) b"
    by (rule rewind_mark [OF 5(4) q])
  then have r: "builder_ok (rewind (build_all qs b) (mark b))"
    "represents (rewind (build_all qs b) (mark b)) st"
    "depth (rewind (build_all qs b) (mark b)) = depth b"
    "nodeCount (rewind (build_all qs b) (mark b)) = nodeCount b"
    using same_cst_ok [OF 5(4) same] represents_same [OF 5(5) same] by (simp_all add: same_cst_def)
  show ?case
    using 5(2) [OF _ r(1,2)] 5(3,6,7) r(3,4) same_cst_extends [OF same]
    by (auto simp: tree_all_def)
qed

subsection \<open>Properties\<close>

text \<open>
  C5: any well-nested run of the builder, with any amount of speculation, lays out in memory
  exactly the trees of the specification in preorder with their sibling links, whatever the
  memory held before.
\<close>

theorem builder_refines_trees:
  assumes "fits 0 ps" and "room ps \<le> kNoNode"
  shows "represents (build_all ps (new_builder m)) (tree_all ps [[]])"
  using build_all_represents [OF assms(1) new_builder_ok represents_new] assms(2)
  by (simp add: new_builder_def)

theorem builder_refines_trees_witness:
  "represents
     (build_all [Enter, Leaf 0 1 (7 :: nat) False False, Try [Enter, Leaf 1 2 8 False False],
        Leaf 1 3 9 True False, Exit 0 3 5] (new_builder (\<lambda>_. undefined)))
     [[Tree 0 3 5 False False [Tree 0 1 7 False False [], Tree 1 3 9 True False []]]]"
  using builder_refines_trees [of "[Enter, Leaf 0 1 (7 :: nat) False False,
      Try [Enter, Leaf 1 2 8 False False], Leaf 1 3 9 True False, Exit 0 3 5]" "\<lambda>_. undefined"]
  by (simp add: tree_all_def kNoNode_def u32_max_def)

text \<open>
  whatever a speculation does inside the node that was open at the mark, opening, closing
  and adding nodes or speculating further, rewinding restores the builder: the count, depth,
  current node, every frame up to the depth and every node below the count.
\<close>

theorem rewind_restores:
  assumes "builder_ok b" and "represents b st" and "fits 0 ps"
    and "nodeCount b + room ps \<le> kNoNode"
  shows "same_cst (rewind (build_all ps b) (mark b)) b"
  using build_all_represents [OF assms(3,1,2) _ assms(4)] rewind_mark [OF assms(1)]
    extends_refl [OF assms(1)] assms(1,2)
  by (simp add: represents_def)

theorem rewind_restores_witness:
  "same_cst
     (rewind (build_all [Leaf 0 1 (7 :: nat) False False, Enter] (enter (new_builder (\<lambda>_. undefined))))
        (mark (enter (new_builder (\<lambda>_. undefined :: nat cst_node)))))
     (enter (new_builder (\<lambda>_. undefined)))"
  using rewind_restores [of "enter (new_builder (\<lambda>_. undefined :: nat cst_node))" "[[], []]"
      "[Leaf 0 1 7 False False, Enter]"]
    enter_ok [OF new_builder_ok, of "\<lambda>_. undefined :: nat cst_node"]
    represents_enter [OF new_builder_ok represents_new, of "\<lambda>_. undefined :: nat cst_node"]
  by (simp add: kNoNode_def u32_max_def cst_simps new_builder_count)

end
