(* ===== verification/CstView.thy ===== *)
theory CstView
  imports CstTree TextUtils
begin

text \<open>
  Reading a concrete syntax tree: \<open>core/syntax-tree/CstNodeView.hpp\<close> and the queries of
  \<open>core/syntax-tree/CstUtils.cpp\<close>. A view is a node id of a root; the invalid view is \<open>kNoNode\<close>.
  Loops over siblings follow the links, with the node count as fuel; on the trees the builder
  lays out that is enough, and the loop visits exactly the children.
\<close>

subsection \<open>Roots and views\<close>

datatype grammar_element =
  ELiteral string bool
| EInfixOperator "grammar_element option"
| EAssignment string
| ETerminalRule string
| EOther nat

record root =
  rnodes :: "nat \<Rightarrow> grammar_element cst_node"
  rcount :: nat
  rtext :: string

definition valid :: "root \<Rightarrow> nat \<Rightarrow> bool" where
  "valid r v \<longleftrightarrow> v \<noteq> kNoNode \<and> v < rcount r"

definition next_view :: "root \<Rightarrow> nat \<Rightarrow> nat" where
  "next_view r v = (if u32 (v + 1) < rcount r then u32 (v + 1) else kNoNode)"

definition nextSibling :: "root \<Rightarrow> nat \<Rightarrow> nat" where
  "nextSibling r v = nextSiblingId (rnodes r v)"

definition previous_view :: "nat \<Rightarrow> nat" where
  "previous_view v = (if v > 0 then v - 1 else kNoNode)"

text \<open>The backward scan of \<open>previousSibling\<close>.\<close>

fun previousSibling_scan :: "root \<Rightarrow> nat \<Rightarrow> nat \<Rightarrow> nat" where
  "previousSibling_scan r v 0 = (if nextSiblingId (rnodes r 0) = v then 0 else kNoNode)"
| "previousSibling_scan r v (Suc i) =
     (if nextSiblingId (rnodes r (Suc i)) = v then Suc i else previousSibling_scan r v i)"

definition previousSibling :: "root \<Rightarrow> nat \<Rightarrow> nat" where
  "previousSibling r v = (if v = 0 then kNoNode else previousSibling_scan r v (v - 1))"

definition hasGapAfter :: "root \<Rightarrow> nat \<Rightarrow> bool" where
  "hasGapAfter r v =
     (if u32 (v + 1) < rcount r then nend (rnodes r v) < nbegin (rnodes r (u32 (v + 1)))
      else nend (rnodes r v) < length (rtext r))"

definition hasGapBefore :: "root \<Rightarrow> nat \<Rightarrow> bool" where
  "hasGapBefore r v =
     (if v > 0 then nbegin (rnodes r v) > nend (rnodes r (v - 1)) else nbegin (rnodes r v) > 0)"

definition view_text :: "root \<Rightarrow> nat \<Rightarrow> string" where
  "view_text r v =
     (let n = rnodes r v in take (nend n - nbegin n) (drop (nbegin n) (rtext r)))"

definition view_begin :: "root \<Rightarrow> nat \<Rightarrow> nat" where
  "view_begin r v = (if nisLeaf (rnodes r v) then kNoNode else v + 1)"

definition root_begin :: "root \<Rightarrow> nat" where
  "root_begin r = (if rcount r = 0 then kNoNode else 0)"

definition root_get :: "root \<Rightarrow> nat \<Rightarrow> nat" where
  "root_get r i = (if i = kNoNode \<or> i \<ge> rcount r then kNoNode else i)"

text \<open>\<open>ChildIterator::operator++\<close>, and the ids a range-based loop visits.\<close>

definition iter_next :: "root \<Rightarrow> nat \<Rightarrow> nat" where
  "iter_next r cur = (if cur = kNoNode then cur else nextSiblingId (rnodes r cur))"

fun visit :: "root \<Rightarrow> nat \<Rightarrow> nat \<Rightarrow> nat list" where
  "visit r 0 cur = []"
| "visit r (Suc n) cur = (if cur = kNoNode then [] else cur # visit r n (iter_next r cur))"

definition view_children :: "root \<Rightarrow> nat \<Rightarrow> nat list" where
  "view_children r v = visit r (rcount r) (view_begin r v)"

definition root_children :: "root \<Rightarrow> nat list" where
  "root_children r = visit r (rcount r) (root_begin r)"

subsection \<open>Queries\<close>

text \<open>The ids from \<open>v\<close>'s successor to the last one: what stepping by \<open>next\<close> visits.\<close>

definition following :: "root \<Rightarrow> nat \<Rightarrow> nat list" where
  "following r v = [Suc v ..< rcount r]"

definition next_after_subtree :: "root \<Rightarrow> nat \<Rightarrow> nat option" where
  "next_after_subtree r v = find (\<lambda>c. nbegin (rnodes r c) \<ge> nend (rnodes r v)) (following r v)"

lemma next_after_subtree_gt: "next_after_subtree r v = Some c \<Longrightarrow> v < c \<and> c < rcount r"
  by (auto simp: next_after_subtree_def following_def find_Some_iff)

function first_visible_from :: "root \<Rightarrow> nat \<Rightarrow> nat \<Rightarrow> nat option" where
  "first_visible_from r v c =
     (if c < rcount r \<and> nbegin (rnodes r c) < nend (rnodes r v) then
        (if nisHidden (rnodes r c) then
           (case next_after_subtree r c of None \<Rightarrow> None | Some c' \<Rightarrow> first_visible_from r v c')
         else if nisLeaf (rnodes r c) then Some c
         else first_visible_from r v (c + 1))
      else None)"
  by pat_completeness auto
termination
  by (relation "measure (\<lambda>(r, v, c). rcount r - c)") (auto dest: next_after_subtree_gt)

declare first_visible_from.simps [simp del]

definition first_visible_descendant :: "root \<Rightarrow> nat \<Rightarrow> nat option" where
  "first_visible_descendant r v =
     (if \<not> valid r v \<or> nisLeaf (rnodes r v) then None else first_visible_from r v (v + 1))"

definition text_matches_keyword :: "string \<Rightarrow> string \<Rightarrow> bool" where
  "text_matches_keyword text keyword \<longleftrightarrow>
     length text = length keyword \<and>
     (\<forall>i \<in> set [0 ..< length text]. tolower (text ! i) = tolower (keyword ! i))"

fun literal_matches_keyword :: "grammar_element \<Rightarrow> string \<Rightarrow> bool" where
  "literal_matches_keyword (ELiteral expected caseSensitive) keyword =
     (if caseSensitive then expected = keyword else text_matches_keyword expected keyword)"
| "literal_matches_keyword _ keyword = False"

definition terminal_rule_name :: "root \<Rightarrow> nat \<Rightarrow> string option" where
  "terminal_rule_name r v =
     (if \<not> valid r v \<or> \<not> nisLeaf (rnodes r v) then None
      else case grammarElement (rnodes r v) of ETerminalRule name \<Rightarrow> Some name | _ \<Rightarrow> None)"

definition child_assigns_feature :: "root \<Rightarrow> nat \<Rightarrow> string \<Rightarrow> bool" where
  "child_assigns_feature r c feature \<longleftrightarrow>
     \<not> nisHidden (rnodes r c) \<and>
     (case grammarElement (rnodes r c) of EAssignment f \<Rightarrow> f = feature | _ \<Rightarrow> False)"

definition find_nodes_for_feature :: "root \<Rightarrow> nat \<Rightarrow> string \<Rightarrow> nat list" where
  "find_nodes_for_feature r v feature =
     (if \<not> valid r v then []
      else filter (\<lambda>c. child_assigns_feature r c feature) (view_children r v))"

fun nth_assigned :: "root \<Rightarrow> string \<Rightarrow> nat \<Rightarrow> nat \<Rightarrow> nat list \<Rightarrow> nat option" where
  "nth_assigned r feature index seen [] = None"
| "nth_assigned r feature index seen (c # cs) =
     (if child_assigns_feature r c feature then
        (if seen = index then Some c else nth_assigned r feature index (seen + 1) cs)
      else nth_assigned r feature index seen cs)"

definition find_node_for_feature :: "root \<Rightarrow> nat \<Rightarrow> string \<Rightarrow> nat \<Rightarrow> nat option" where
  "find_node_for_feature r v feature index =
     (if \<not> valid r v then None else nth_assigned r feature index 0 (view_children r v))"

text \<open>The candidate of a child, and whether it matches the keyword.\<close>

definition keyword_candidate :: "root \<Rightarrow> nat \<Rightarrow> nat option" where
  "keyword_candidate r c =
     (if nisHidden (rnodes r c) then None
      else if nisLeaf (rnodes r c) then Some c else first_visible_descendant r c)"

definition keyword_matches :: "root \<Rightarrow> string \<Rightarrow> nat \<Rightarrow> bool" where
  "keyword_matches r keyword c \<longleftrightarrow>
     \<not> nisHidden (rnodes r c) \<and>
     (case grammarElement (rnodes r c) of
        ELiteral t cs \<Rightarrow> literal_matches_keyword (ELiteral t cs) keyword
      | EInfixOperator op \<Rightarrow>
          (case op of Some (ELiteral t cs) \<Rightarrow> literal_matches_keyword (ELiteral t cs) keyword | _ \<Rightarrow> False) \<or>
          text_matches_keyword (view_text r c) keyword
      | _ \<Rightarrow> False)"

definition find_nodes_for_keyword :: "root \<Rightarrow> nat \<Rightarrow> string \<Rightarrow> nat list" where
  "find_nodes_for_keyword r v keyword =
     (if \<not> valid r v then []
      else filter (keyword_matches r keyword) (List.map_filter (keyword_candidate r) (view_children r v)))"

definition find_node_for_keyword :: "root \<Rightarrow> nat \<Rightarrow> string \<Rightarrow> nat \<Rightarrow> nat option" where
  "find_node_for_keyword r v keyword index =
     (let matches = find_nodes_for_keyword r v keyword in
      if index \<ge> length matches then None else Some (matches ! index))"

text \<open>The loop over children that stops behind the offset.\<close>

fun child_at :: "root \<Rightarrow> nat \<Rightarrow> nat list \<Rightarrow> nat option" where
  "child_at r offset [] = None"
| "child_at r offset (c # cs) =
     (if offset < nbegin (rnodes r c) then None
      else if \<not> nisHidden (rnodes r c) \<and> offset \<le> nend (rnodes r c) then Some c
      else child_at r offset cs)"

definition find_direct_child_at_offset :: "root \<Rightarrow> nat \<Rightarrow> nat \<Rightarrow> nat option" where
  "find_direct_child_at_offset r v offset =
     (if \<not> valid r v \<or> nisLeaf (rnodes r v) then None else child_at r offset (view_children r v))"

text \<open>The \<open>while (true)\<close> of \<open>find_node_at_offset\<close>, with the node count as fuel.\<close>

fun descend_at :: "root \<Rightarrow> nat \<Rightarrow> nat \<Rightarrow> nat \<Rightarrow> nat" where
  "descend_at r offset 0 v = v"
| "descend_at r offset (Suc n) v =
     (case find_direct_child_at_offset r v offset of
        None \<Rightarrow> v | Some c \<Rightarrow> descend_at r offset n c)"

definition find_node_at_offset :: "root \<Rightarrow> nat \<Rightarrow> nat \<Rightarrow> nat option" where
  "find_node_at_offset r v offset =
     (if \<not> valid r v \<or> nisHidden (rnodes r v) \<or> offset < nbegin (rnodes r v) \<or>
         offset > nend (rnodes r v)
      then None else Some (descend_at r offset (rcount r) v))"

definition find_root_node_at_offset :: "root \<Rightarrow> nat \<Rightarrow> nat option" where
  "find_root_node_at_offset r offset =
     (case child_at r offset (root_children r) of
        None \<Rightarrow> None | Some c \<Rightarrow> find_node_at_offset r c offset)"

definition find_declaration_node_at_offset :: "root \<Rightarrow> nat \<Rightarrow> nat option" where
  "find_declaration_node_at_offset r offset =
     (let sz = u32 (length (rtext r)); adjusted = min offset sz;
          adjusted' =
            (if adjusted > 0 \<and>
                (adjusted \<ge> sz \<or> \<not> is_identifier_like_codepoint_at (rtext r) (Some adjusted) sz)
             then u32 (previous_codepoint_start (rtext r) adjusted) else adjusted) in
      find_root_node_at_offset r adjusted')"

definition find_first_leaf :: "root \<Rightarrow> nat option" where
  "find_first_leaf r = find (\<lambda>c. nisLeaf (rnodes r c)) [0 ..< rcount r]"

definition find_next_leaf :: "root \<Rightarrow> nat \<Rightarrow> nat option" where
  "find_next_leaf r v =
     (if \<not> valid r v then None
      else find (\<lambda>c. \<not> nbegin (rnodes r c) < nend (rnodes r v) \<and> nisLeaf (rnodes r c))
             (following r v))"

definition contains :: "root \<Rightarrow> nat \<Rightarrow> nat \<Rightarrow> bool" where
  "contains r p c \<longleftrightarrow>
     valid r p \<and> valid r c \<and> nbegin (rnodes r p) \<le> nbegin (rnodes r c) \<and>
     nend (rnodes r c) \<le> nend (rnodes r p)"

fun first_containing :: "root \<Rightarrow> nat \<Rightarrow> nat list \<Rightarrow> nat option" where
  "first_containing r target [] = None"
| "first_containing r target (c # cs) =
     (if nbegin (rnodes r target) < nbegin (rnodes r c) then None
      else if contains r c target then Some c else first_containing r target cs)"

definition find_first_direct_child_containing :: "root \<Rightarrow> nat \<Rightarrow> nat \<Rightarrow> nat option" where
  "find_first_direct_child_containing r v target =
     (if \<not> valid r v \<or> nisLeaf (rnodes r v) \<or> \<not> contains r v target then None
      else first_containing r target (view_children r v))"

text \<open>
  \<open>get_interior_nodes\<close>: the descent into a common container, then the siblings strictly
  between. Both loops go to larger ids, so the node count is enough fuel.
\<close>

fun common_descent :: "root \<Rightarrow> nat \<Rightarrow> nat \<Rightarrow> nat \<Rightarrow> nat option \<Rightarrow> nat option \<Rightarrow> (nat \<times> nat) option" where
  "common_descent r s e 0 left right = None"
| "common_descent r s e (Suc n) left right =
     (case (left, right) of
        (Some a, Some b) \<Rightarrow>
          if a = b then
            (if nisLeaf (rnodes r a) then None
             else common_descent r s e n (find_first_direct_child_containing r a s)
                    (find_first_direct_child_containing r b e))
          else Some (a, b)
      | _ \<Rightarrow> None)"

fun siblings_until :: "root \<Rightarrow> nat \<Rightarrow> nat \<Rightarrow> nat \<Rightarrow> nat list" where
  "siblings_until r stop 0 v = []"
| "siblings_until r stop (Suc n) v =
     (if valid r v \<and> v \<noteq> stop then v # siblings_until r stop n (nextSibling r v) else [])"

definition get_interior_nodes :: "root \<Rightarrow> nat \<Rightarrow> nat \<Rightarrow> nat list" where
  "get_interior_nodes r a b =
     (if \<not> valid r a \<or> \<not> valid r b then []
      else
        let (s, e) = (if nbegin (rnodes r b) < nbegin (rnodes r a) then (b, a) else (a, b)) in
        case common_descent r s e (rcount r + 1) (first_containing r s (root_children r))
               (first_containing r e (root_children r)) of
          None \<Rightarrow> []
        | Some (left, right) \<Rightarrow> siblings_until r right (rcount r) (nextSibling r left))"

subsection \<open>Reading a tree that was built\<close>

text \<open>The ids of the roots of a forest laid out from \<open>i\<close>, and where its subtrees are.\<close>

fun root_ids :: "nat \<Rightarrow> 'e tree list \<Rightarrow> nat list" where
  "root_ids i [] = []"
| "root_ids i (t # ts) = i # root_ids (i + tsize t) ts"

inductive located :: "nat \<Rightarrow> 'e tree list \<Rightarrow> nat \<Rightarrow> 'e tree \<Rightarrow> bool" where
  here: "located i (t # ts) i t"
| below: "located (Suc i) (kids t) v u \<Longrightarrow> located i (t # ts) v u"
| later: "located (i + tsize t) ts v u \<Longrightarrow> located i (t # ts) v u"

inductive_simps located_simps: "located i [] v u" "located i (t # ts) v u"

definition root_holds :: "root \<Rightarrow> grammar_element tree list \<Rightarrow> bool" where
  "root_holds r ts \<longleftrightarrow> forest_at (rnodes r) 0 ts \<and> rcount r = fsize ts \<and> rcount r \<le> kNoNode"

lemma root_of_builder:
  "builder_ok b \<Longrightarrow> represents b [ts] \<Longrightarrow>
    root_holds \<lparr>rnodes = nodes b, rcount = nodeCount b, rtext = src\<rparr> ts"
  using builder_okD(2) [of b] by (simp add: root_holds_def represents_def)

lemma kids_Tree: "tsize t = Suc (fsize (kids t))"
  by (cases t) simp

lemma tree_at_kids: "tree_at m i t \<Longrightarrow> forest_at m (Suc i) (kids t) \<and> nisLeaf (m i) = (kids t = []) \<and>
    nbegin (m i) = tbegin t \<and> nend (m i) = tend t \<and> grammarElement (m i) = telement t \<and>
    nisHidden (m i) = thidden t \<and> nisRecovered (m i) = trecovered t"
  by (cases t) simp

lemma located_tree_at:
  "located i ts v u \<Longrightarrow> forest_at m i ts \<Longrightarrow>
    tree_at m v u \<and> i \<le> v \<and> v + tsize u \<le> i + fsize ts"
proof (induction rule: located.induct)
  case (below i t v u ts)
  then show ?case using tree_at_kids [of m i t] kids_Tree [of t] by fastforce
qed (auto simp: add.assoc)

lemma visit_forest:
  "forest_at (rnodes r) i ts \<Longrightarrow> i + fsize ts \<le> kNoNode \<Longrightarrow> length ts \<le> n \<Longrightarrow>
    visit r n (if ts = [] then kNoNode else i) = root_ids i ts"
proof (induction ts arbitrary: i n)
  case Nil
  then show ?case by (cases n) simp_all
next
  case (Cons t ts)
  obtain k where n: "n = Suc k" "length ts \<le> k" using Cons.prems(3) by (cases n) auto
  have "iter_next r i = (if ts = [] then kNoNode else i + tsize t)"
    using Cons.prems kids_Tree [of t] by (simp add: iter_next_def)
  then show ?case
    using Cons.IH [of "i + tsize t" k] Cons.prems n kids_Tree [of t] by (simp add: add.assoc)
qed

lemma length_le_fsize: "length ts \<le> fsize ts"
proof (induction ts)
  case (Cons t ts)
  then show ?case using kids_Tree [of t] by simp
qed simp

lemma view_children_eq:
  assumes r: "root_holds r ts" and l: "located 0 ts v u"
  shows "view_children r v = root_ids (Suc v) (kids u)"
proof -
  have t: "tree_at (rnodes r) v u" "v + tsize u \<le> rcount r" "rcount r \<le> kNoNode"
    using located_tree_at [OF l] r by (auto simp: root_holds_def)
  have "length (kids u) \<le> rcount r"
    using length_le_fsize [of "kids u"] t(2) kids_Tree [of u] by linarith
  then show ?thesis
    using visit_forest [of r "Suc v" "kids u" "rcount r"] tree_at_kids [OF t(1)] t kids_Tree [of u]
    by (simp add: view_children_def view_begin_def split: if_splits)
qed

lemma root_children_eq: "root_holds r ts \<Longrightarrow> root_children r = root_ids 0 ts"
  using visit_forest [of r 0 ts "rcount r"] length_le_fsize [of ts] kids_Tree [of "hd ts"]
  by (cases ts) (simp_all add: root_holds_def root_children_def root_begin_def)

subsection \<open>The node at an offset\<close>

text \<open>
  The specification on trees: among the children, up to the first that begins behind the
  offset, the first visible one that reaches it; then the same inside it.
\<close>

fun deepest :: "nat \<Rightarrow> nat \<Rightarrow> 'e tree \<Rightarrow> nat"
  and deepest_in :: "nat \<Rightarrow> nat \<Rightarrow> 'e tree list \<Rightarrow> nat option" where
  "deepest off v (Tree b e g h rc ts) =
     (case deepest_in off (Suc v) ts of None \<Rightarrow> v | Some w \<Rightarrow> w)"
| "deepest_in off i [] = None"
| "deepest_in off i (t # ts) =
     (if off < tbegin t then None
      else if \<not> thidden t \<and> off \<le> tend t then Some (deepest off i t)
      else deepest_in off (i + tsize t) ts)"

lemma deepest_kids: "deepest off v t =
    (case deepest_in off (Suc v) (kids t) of None \<Rightarrow> v | Some w \<Rightarrow> w)"
  by (cases t) simp

lemma fsize_Cons_le: "n \<le> fsize ts \<Longrightarrow> n \<le> fsize (t # ts)"
  by simp

lemma child_at_forest:
  assumes "forest_at (rnodes r) i ts"
  shows "(child_at r off (root_ids i ts) = None \<and> deepest_in off i ts = None) \<or>
    (\<exists>c u. child_at r off (root_ids i ts) = Some c \<and> located i ts c u \<and>
      deepest_in off i ts = Some (deepest off c u) \<and> tsize u \<le> fsize ts \<and>
      tbegin u \<le> off \<and> off \<le> tend u \<and> \<not> thidden u)"
  using assms
proof (induction ts arbitrary: i)
  case (Cons t ts)
  have t: "nbegin (rnodes r i) = tbegin t" "nend (rnodes r i) = tend t" "nisHidden (rnodes r i) = thidden t"
    using Cons.prems tree_at_kids [of "rnodes r" i t] by simp_all
  have IH: "(child_at r off (root_ids (i + tsize t) ts) = None \<and> deepest_in off (i + tsize t) ts = None) \<or>
    (\<exists>c u. child_at r off (root_ids (i + tsize t) ts) = Some c \<and> located (i + tsize t) ts c u \<and>
      deepest_in off (i + tsize t) ts = Some (deepest off c u) \<and> tsize u \<le> fsize ts \<and>
      tbegin u \<le> off \<and> off \<le> tend u \<and> \<not> thidden u)"
    using Cons.IH Cons.prems by simp
  consider "off < tbegin t" | "tbegin t \<le> off" "\<not> thidden t" "off \<le> tend t"
    | "tbegin t \<le> off" "thidden t \<or> \<not> off \<le> tend t" by linarith
  then show ?case
  proof cases
    case 2
    then show ?thesis using t located.here [of i t ts] by (auto intro: exI [of _ t])
  next
    case 3
    then have "child_at r off (root_ids i (t # ts)) = child_at r off (root_ids (i + tsize t) ts)"
      "deepest_in off i (t # ts) = deepest_in off (i + tsize t) ts" using t by auto
    then show ?thesis using IH located.later [of i t ts] by (metis fsize_Cons_le)
  qed (use t in simp)
qed simp

lemma located_trans: "located i ts v t \<Longrightarrow> located (Suc v) (kids t) w u \<Longrightarrow> located i ts w u"
  by (induction rule: located.induct) (auto intro: located.intros)

lemma descend_at_eq:
  assumes r: "root_holds r ts"
  shows "located 0 ts v u \<Longrightarrow> tsize u \<le> n \<Longrightarrow> descend_at r off n v = deepest off v u"
proof (induction n arbitrary: v u)
  case 0
  then show ?case using kids_Tree [of u] by simp
next
  case (Suc n)
  have t: "tree_at (rnodes r) v u" "v + tsize u \<le> rcount r" "rcount r \<le> kNoNode"
    using located_tree_at [OF Suc.prems(1)] r by (auto simp: root_holds_def)
  then have "valid r v" using kids_Tree [of u] by (simp add: valid_def)
  then have f: "find_direct_child_at_offset r v off = child_at r off (root_ids (Suc v) (kids u))"
    using tree_at_kids [OF t(1)] view_children_eq [OF r Suc.prems(1)]
    by (auto simp: find_direct_child_at_offset_def)
  consider "child_at r off (root_ids (Suc v) (kids u)) = None" "deepest_in off (Suc v) (kids u) = None"
    | c w where "child_at r off (root_ids (Suc v) (kids u)) = Some c" "located (Suc v) (kids u) c w"
        "deepest_in off (Suc v) (kids u) = Some (deepest off c w)" "tsize w \<le> fsize (kids u)"
    using child_at_forest [of r "Suc v" "kids u" off] tree_at_kids [OF t(1)] by metis
  then show ?case
  proof cases
    case 1
    then show ?thesis by (simp add: f deepest_kids)
  next
    case (2 c w)
    then have "descend_at r off n c = deepest off c w"
      using Suc.IH [of c w] located_trans [OF Suc.prems(1)] Suc.prems(2) kids_Tree [of u] by simp
    then show ?thesis using 2 by (simp add: f deepest_kids)
  qed
qed

lemma find_root_node_eq:
  assumes r: "root_holds r ts"
  shows "find_root_node_at_offset r off = deepest_in off 0 ts"
proof -
  have f: "forest_at (rnodes r) 0 ts" "fsize ts = rcount r" using r by (simp_all add: root_holds_def)
  consider "child_at r off (root_ids 0 ts) = None" "deepest_in off 0 ts = None"
    | c u where "child_at r off (root_ids 0 ts) = Some c" "located 0 ts c u"
        "deepest_in off 0 ts = Some (deepest off c u)" "tsize u \<le> fsize ts"
        "tbegin u \<le> off" "off \<le> tend u" "\<not> thidden u"
    using child_at_forest [OF f(1), of off] by metis
  then show ?thesis
  proof cases
    case 1
    then show ?thesis by (simp add: find_root_node_at_offset_def root_children_eq [OF r])
  next
    case (2 c u)
    have t: "tree_at (rnodes r) c u" "c + tsize u \<le> rcount r" "rcount r \<le> kNoNode"
      using located_tree_at [OF 2(2) f(1)] r by (auto simp: root_holds_def)
    have "find_node_at_offset r c off = Some (descend_at r off (rcount r) c)"
      using 2 t tree_at_kids [OF t(1)] kids_Tree [of u]
      by (simp add: find_node_at_offset_def valid_def)
    then show ?thesis
      using 2 f by (simp add: find_root_node_at_offset_def root_children_eq [OF r] descend_at_eq [OF r])
  qed
qed

subsection \<open>Properties\<close>

text \<open>
  Iterating over the children of a view, on the root that a builder run produced, visits
  exactly the ids of the node's subtrees in order, and stops.
\<close>

theorem children_of_built_tree:
  assumes "builder_ok b" and "represents b [ts]"
    and "r = \<lparr>rnodes = nodes b, rcount = nodeCount b, rtext = src\<rparr>"
  shows "root_children r = root_ids 0 ts \<and>
    (\<forall>v u. located 0 ts v u \<longrightarrow> view_children r v = root_ids (Suc v) (kids u))"
  using root_of_builder [OF assms(1,2), of src] root_children_eq view_children_eq
  by (auto simp: assms(3))

abbreviation sample_build :: "grammar_element build list" where
  "sample_build \<equiv> [Enter, Leaf 0 1 (EOther 7) False False, Leaf 1 3 (EOther 9) True False,
     Leaf 3 4 (EOther 7) False False, Exit 0 4 (EOther 5)]"

abbreviation sample_trees :: "grammar_element tree list" where
  "sample_trees \<equiv> [Tree 0 4 (EOther 5) False False
     [Tree 0 1 (EOther 7) False False [], Tree 1 3 (EOther 9) True False [],
      Tree 3 4 (EOther 7) False False []]]"

lemma sample_builder:
  "builder_ok (build_all sample_build (new_builder m)) \<and>
   represents (build_all sample_build (new_builder m)) [sample_trees]"
  using build_all_represents [OF _ new_builder_ok represents_new, of 0 sample_build m]
  by (simp add: tree_all_def kNoNode_def u32_max_def new_builder_count)

theorem children_of_built_tree_witness:
  "view_children \<lparr>rnodes = nodes (build_all sample_build (new_builder (\<lambda>_. undefined))),
     rcount = nodeCount (build_all sample_build (new_builder (\<lambda>_. undefined))), rtext = ''abcd''\<rparr> 0 =
   [1, 2, 3]"
  using children_of_built_tree [OF conjunct1 [OF sample_builder] conjunct2 [OF sample_builder] refl,
      of "\<lambda>_. undefined" "''abcd''"] located.here [of 0 "hd sample_trees" "[]"]
  by simp

text \<open>
  C6: the node found at an offset of a tree that was built is the deepest visible one by the
  specification on trees; the search always ends.
\<close>

theorem find_node_at_offset_correct:
  assumes "builder_ok b" and "represents b [ts]"
    and "r = \<lparr>rnodes = nodes b, rcount = nodeCount b, rtext = src\<rparr>"
  shows "find_root_node_at_offset r off = deepest_in off 0 ts"
  using root_of_builder [OF assms(1,2), of src] find_root_node_eq by (simp add: assms(3))

theorem find_node_at_offset_correct_witness:
  "find_root_node_at_offset
     \<lparr>rnodes = nodes (build_all sample_build (new_builder (\<lambda>_. undefined))),
      rcount = nodeCount (build_all sample_build (new_builder (\<lambda>_. undefined))), rtext = ''abcd''\<rparr> 3 =
   Some 3"
  using find_node_at_offset_correct
    [OF conjunct1 [OF sample_builder] conjunct2 [OF sample_builder] refl,
      of "\<lambda>_. undefined" "''abcd''" 3]
  by simp

end
