(* ===== verification/Outcome.thy ===== *)
theory Outcome
  imports Prelude
begin

text \<open>
  Results of code that may not return. The parser's loops and rule calls are bounded by nothing
  in the code, so the model runs them with fuel: \<open>Out_of_fuel\<close> is not a behaviour of the program
  but of the bound, and the theorems say when enough fuel gives \<open>Done\<close>. Giving more fuel never
  changes a result (\<open>refines\<close>), which is what makes the result independent of the bound.
\<close>

named_theorems refines_intros \<open>congruence of the combinators for more fuel\<close>

datatype 'a outcome = Out_of_fuel | Done (the_done: 'a)

fun bind_out :: "'a outcome \<Rightarrow> ('a \<Rightarrow> 'b outcome) \<Rightarrow> 'b outcome" where
  "bind_out Out_of_fuel f = Out_of_fuel"
| "bind_out (Done a) f = f a"

definition refines :: "'a outcome \<Rightarrow> 'a outcome \<Rightarrow> bool" where
  "refines a b \<longleftrightarrow> a = Out_of_fuel \<or> a = b"

lemma refines_refl [simp, intro]: "refines a a"
  by (simp add: refines_def)

lemma refines_out [simp]: "refines Out_of_fuel b"
  by (simp add: refines_def)

lemma refines_Done [simp]: "refines (Done a) b \<longleftrightarrow> b = Done a"
  by (auto simp: refines_def)

lemma refines_trans: "refines a b \<Longrightarrow> refines b c \<Longrightarrow> refines a c"
  by (auto simp: refines_def)

lemma refines_DoneD: "refines a b \<Longrightarrow> a = Done x \<Longrightarrow> b = Done x"
  by simp

lemma refines_bind [refines_intros]:
  "refines a b \<Longrightarrow> (\<And>x. refines (f x) (g x)) \<Longrightarrow> refines (bind_out a f) (bind_out b g)"
  by (cases a) auto

lemma bind_out_Done_iff: "bind_out a f = Done y \<longleftrightarrow> (\<exists>x. a = Done x \<and> f x = Done y)"
  by (cases a) auto

text \<open>The code's test for a null result, and what a result of it means.\<close>

lemma bind_option_Done_iff:
  "bind_out a (\<lambda>m. case m of None \<Rightarrow> x | Some k \<Rightarrow> h k) = Done y \<longleftrightarrow>
    a = Done None \<and> x = Done y \<or> (\<exists>k. a = Done (Some k) \<and> h k = Done y)"
  by (cases a) (auto split: option.splits)

lemma bind_option_out_iff:
  "bind_out a (\<lambda>m. case m of None \<Rightarrow> x | Some k \<Rightarrow> h k) = Out_of_fuel \<longleftrightarrow>
    a = Out_of_fuel \<or> a = Done None \<and> x = Out_of_fuel \<or> (\<exists>k. a = Done (Some k) \<and> h k = Out_of_fuel)"
  by (cases a) (auto split: option.splits)

lemma bind_out_out_iff:
  "bind_out a h = Out_of_fuel \<longleftrightarrow> a = Out_of_fuel \<or> (\<exists>x. a = Done x \<and> h x = Out_of_fuel)"
  by (cases a) auto

lemma bind_out_cong [fundef_cong]:
  "a = b \<Longrightarrow> (\<And>x. b = Done x \<Longrightarrow> f x = g x) \<Longrightarrow> bind_out a f = bind_out b g"
  by (cases b) auto

text \<open>Fuelled functions: more fuel refines the result.\<close>

lemma refines_mono:
  fixes f :: "nat \<Rightarrow> 'a outcome"
  assumes "\<And>n. refines (f n) (f (Suc n))" and "m \<le> n"
  shows "refines (f m) (f n)"
  using assms(2)
proof (induction n rule: dec_induct)
  case (step n)
  then show ?case using assms(1) refines_trans by blast
qed simp

lemma Done_unique:
  fixes f :: "nat \<Rightarrow> 'a outcome"
  assumes "\<And>n. refines (f n) (f (Suc n))" and "f m = Done x" and "f n = Done y"
  shows "x = y"
proof -
  have mono: "i \<le> j \<Longrightarrow> refines (f i) (f j)" for i j by (rule refines_mono) (rule assms(1))
  show ?thesis using mono [of m n] mono [of n m] assms(2,3) by (cases "m \<le> n") auto
qed

end
