(* ===== verification/Grammar.thy ===== *)
theory Grammar
  imports Outcome TextUtils
begin

text \<open>
  Grammar expressions, the types of \<open>core/parser\<close>: \<open>AnyCharacter\<close>, \<open>CharacterRange\<close>,
  \<open>Literal\<close>, \<open>Group\<close>, \<open>OrderedChoice\<close>, \<open>UnorderedGroup\<close>, \<open>Repetition\<close>, the predicates,
  the rules, \<open>Create\<close>, \<open>Nest\<close>, \<open>Assignment\<close> and \<open>SkipperWrapped\<close>. What the C++ types compute at
  compile time (\<open>nullable\<close>, \<open>isFailureSafe\<close>, the static assertions) are functions here. A
  reference to a rule is its index in an environment of rules, because rules refer to each
  other recursively; the maximum of an unbounded repetition is \<open>size_max\<close>.
\<close>

datatype expr =
  AnyCharacter
| CharacterRange string
| Literal string bool
| Group "expr list"
| OrderedChoice "expr list"
| UnorderedGroup "expr list"
| Repetition nat nat expr
| AndPredicate expr
| NotPredicate expr
| RuleRef nat
| Create nat
| Nest nat
| Assignment nat expr
| SkipperWrapped expr "expr list" "expr list"

datatype rule_kind = TerminalKind | ParserKind | DataTypeKind

record rule =
  rkind :: rule_kind
  rbody :: expr
  rnullable :: bool
  rskipper :: "(expr list \<times> expr list) option"

type_synonym grammar = "nat \<Rightarrow> rule"

subsection \<open>What the types know statically\<close>

fun nullable :: "grammar \<Rightarrow> expr \<Rightarrow> bool" where
  "nullable g AnyCharacter = False"
| "nullable g (CharacterRange r) = False"
| "nullable g (Literal l cs) = (l = [])"
| "nullable g (Group es) = list_all (nullable g) es"
| "nullable g (OrderedChoice es) = list_ex (nullable g) es"
| "nullable g (UnorderedGroup es) = False"
| "nullable g (Repetition mn mx e) = (mn = 0)"
| "nullable g (AndPredicate e) = True"
| "nullable g (NotPredicate e) = True"
| "nullable g (RuleRef r) = rnullable (g r)"
| "nullable g (Create t) = True"
| "nullable g (Nest t) = True"
| "nullable g (Assignment a e) = False"
| "nullable g (SkipperWrapped e hid ign) = nullable g e"

fun isOrderedChoice :: "expr \<Rightarrow> bool" where
  "isOrderedChoice (OrderedChoice es) = True"
| "isOrderedChoice _ = False"

fun isFailureSafe :: "grammar \<Rightarrow> expr \<Rightarrow> bool" where
  "isFailureSafe g AnyCharacter = True"
| "isFailureSafe g (CharacterRange r) = True"
| "isFailureSafe g (Literal l cs) = True"
| "isFailureSafe g (Group es) = False"
| "isFailureSafe g (OrderedChoice es) = True"
| "isFailureSafe g (UnorderedGroup es) = True"
| "isFailureSafe g (Repetition mn mx e) =
     (mn = 0 \<or> (mn = 1 \<and> (mx \<noteq> 1 \<or> isFailureSafe g e)))"
| "isFailureSafe g (AndPredicate e) = True"
| "isFailureSafe g (NotPredicate e) = True"
| "isFailureSafe g (RuleRef r) = (rkind (g r) = TerminalKind)"
| "isFailureSafe g (Create t) = True"
| "isFailureSafe g (Nest t) = True"
| "isFailureSafe g (Assignment a e) = (\<not> isOrderedChoice e \<and> isFailureSafe g e)"
| "isFailureSafe g (SkipperWrapped e hid ign) = isFailureSafe g e"

text \<open>\<open>TerminalCapableExpression\<close>: the type has a \<open>terminal\<close> member.\<close>

fun terminal_capable :: "grammar \<Rightarrow> expr \<Rightarrow> bool" where
  "terminal_capable g (Group es) = list_all (terminal_capable g) es"
| "terminal_capable g (OrderedChoice es) = list_all (terminal_capable g) es"
| "terminal_capable g (UnorderedGroup es) = list_all (terminal_capable g) es"
| "terminal_capable g (Repetition mn mx e) = terminal_capable g e"
| "terminal_capable g (AndPredicate e) = terminal_capable g e"
| "terminal_capable g (NotPredicate e) = terminal_capable g e"
| "terminal_capable g (RuleRef r) = (rkind (g r) = TerminalKind)"
| "terminal_capable g (Create t) = False"
| "terminal_capable g (Nest t) = False"
| "terminal_capable g (Assignment a e) = False"
| "terminal_capable g (SkipperWrapped e hid ign) = terminal_capable g e"
| "terminal_capable g _ = True"

definition nullable_only_last :: "grammar \<Rightarrow> expr list \<Rightarrow> bool" where
  "nullable_only_last g es \<longleftrightarrow> list_all (\<lambda>e. \<not> nullable g e) (butlast es)"

definition ok_skip_rule :: "grammar \<Rightarrow> expr \<Rightarrow> bool" where
  "ok_skip_rule g e \<longleftrightarrow> \<not> nullable g e \<and> terminal_capable g e"

text \<open>The static assertions and concept constraints of the expression types.\<close>

fun wf_expr :: "grammar \<Rightarrow> expr \<Rightarrow> bool" where
  "wf_expr g AnyCharacter = True"
| "wf_expr g (CharacterRange r) =
     (case createCharacterRange r of None \<Rightarrow> False | Some t \<Rightarrow> \<not> t CHR 0x00)"
| "wf_expr g (Literal l cs) = list_all (\<lambda>c. c \<noteq> CHR 0x00) l"
| "wf_expr g (Group es) = (2 \<le> length es \<and> list_all (wf_expr g) es)"
| "wf_expr g (OrderedChoice es) =
     (2 \<le> length es \<and> list_all (wf_expr g) es \<and> nullable_only_last g es)"
| "wf_expr g (UnorderedGroup es) =
     (2 \<le> length es \<and> list_all (wf_expr g) es \<and> list_all (\<lambda>e. \<not> nullable g e) es)"
| "wf_expr g (Repetition mn mx e) =
     (wf_expr g e \<and> \<not> nullable g e \<and> \<not> (mn = 0 \<and> mx = 0))"
| "wf_expr g (AndPredicate e) = wf_expr g e"
| "wf_expr g (NotPredicate e) = wf_expr g e"
| "wf_expr g (RuleRef r) = True"
| "wf_expr g (Create t) = True"
| "wf_expr g (Nest t) = True"
| "wf_expr g (Assignment a e) = (wf_expr g e \<and> \<not> nullable g e)"
| "wf_expr g (SkipperWrapped e hid ign) =
     (wf_expr g e \<and> list_all (wf_expr g) hid \<and> list_all (wf_expr g) ign \<and>
      list_all (ok_skip_rule g) hid \<and> list_all (ok_skip_rule g) ign)"

text \<open>
  The constraints on a rule's body: its nullability is the rule's, a terminal rule is not
  nullable and wraps a terminal-capable expression.
\<close>

definition wf_rule :: "grammar \<Rightarrow> rule \<Rightarrow> bool" where
  "wf_rule g r \<longleftrightarrow>
     wf_expr g (rbody r) \<and> nullable g (rbody r) = rnullable r \<and>
     (rkind r = TerminalKind \<longrightarrow> \<not> rnullable r \<and> terminal_capable g (rbody r)) \<and>
     (case rskipper r of None \<Rightarrow> True
      | Some (hid, ign) \<Rightarrow> list_all (wf_expr g) hid \<and> list_all (wf_expr g) ign \<and>
          list_all (ok_skip_rule g) hid \<and> list_all (ok_skip_rule g) ign)"

definition wf_grammar :: "grammar \<Rightarrow> bool" where
  "wf_grammar g \<longleftrightarrow> (\<forall>r. wf_rule g (g r))"

lemma wf_grammarD:
  assumes "wf_grammar g"
  shows "wf_expr g (rbody (g r))" "nullable g (rbody (g r)) = rnullable (g r)"
    "rkind (g r) = TerminalKind \<Longrightarrow> \<not> rnullable (g r)"
    "rkind (g r) = TerminalKind \<Longrightarrow> terminal_capable g (rbody (g r))"
  using assms by (auto simp: wf_grammar_def wf_rule_def)

subsection \<open>Left calls\<close>

text \<open>
  The rules an expression may call before anything is consumed, with the static \<open>nullable\<close> as
  the test whether an element may have consumed nothing. A grammar is not left-recursive when
  its rules can be ranked so that left calls go down.
\<close>

fun left_calls :: "grammar \<Rightarrow> expr \<Rightarrow> nat set"
  and left_calls_group :: "grammar \<Rightarrow> expr list \<Rightarrow> nat set"
  and left_calls_any :: "grammar \<Rightarrow> expr list \<Rightarrow> nat set" where
  "left_calls g (Group es) = left_calls_group g es"
| "left_calls g (OrderedChoice es) = left_calls_any g es"
| "left_calls g (UnorderedGroup es) = left_calls_any g es"
| "left_calls g (Repetition mn mx e) = left_calls g e"
| "left_calls g (AndPredicate e) = left_calls g e"
| "left_calls g (NotPredicate e) = left_calls g e"
| "left_calls g (RuleRef r) = {r}"
| "left_calls g (Assignment a e) = left_calls g e"
| "left_calls g (SkipperWrapped e hid ign) = left_calls g e"
| "left_calls g _ = {}"
| "left_calls_group g [] = {}"
| "left_calls_group g (e # es) =
     left_calls g e \<union> (if nullable g e then left_calls_group g es else {})"
| "left_calls_any g [] = {}"
| "left_calls_any g (e # es) = left_calls g e \<union> left_calls_any g es"

definition not_left_recursive :: "grammar \<Rightarrow> (nat \<Rightarrow> nat) \<Rightarrow> bool" where
  "not_left_recursive g rk \<longleftrightarrow> (\<forall>r. \<forall>q \<in> left_calls g (rbody (g r)). rk q < rk r)"

lemma finite_left_calls:
  "finite (left_calls g e)" "finite (left_calls_group g es)" "finite (left_calls_any g es)"
  by (induction g e and g es and g es rule: left_calls_left_calls_group_left_calls_any.induct)
    simp_all

lemma left_calls_any_subset: "e \<in> set es \<Longrightarrow> left_calls g e \<subseteq> left_calls_any g es"
  by (induction es) auto

lemma expr_size_less: "e \<in> set es \<Longrightarrow> size e < Suc (size_list size es)"
  by (induction es) auto

end
