(* ===== verification/Terminal.thy ===== *)
theory Terminal
  imports Grammar
begin

text \<open>
  Terminal matching: the \<open>terminal\<close> members of the expression types and the skipping of hidden
  and ignored rules (\<open>core/parser/SkipperContext.hpp\<close>). A match is the index behind it, no match
  is \<open>None\<close>. The loops and the rule calls of the code run with fuel.
\<close>

subsection \<open>Atoms\<close>

definition range_lookup :: "string \<Rightarrow> char \<Rightarrow> bool" where
  "range_lookup r = (case createCharacterRange r of None \<Rightarrow> (\<lambda>_. False) | Some t \<Rightarrow> t)"

definition any_terminal :: "string \<Rightarrow> nat \<Rightarrow> nat option" where
  "any_terminal s i = consume_utf8_codepoint_if_complete s i"

definition range_terminal :: "string \<Rightarrow> string \<Rightarrow> nat \<Rightarrow> nat option" where
  "range_terminal r s i = (if range_lookup r (byte_at s i) then Some (i + 1) else None)"

fun literal_terminal :: "bool \<Rightarrow> string \<Rightarrow> string \<Rightarrow> nat \<Rightarrow> nat option" where
  "literal_terminal cs [] s i = Some i"
| "literal_terminal cs (l # ls) s i =
     (if (if cs then byte_at s i else tolower (byte_at s i)) \<noteq> l then None
      else literal_terminal cs ls s (i + 1))"

subsection \<open>Combinators\<close>

text \<open>Each takes the matcher of its elements, \<open>f\<close>.\<close>

fun group_terminal :: "(expr \<Rightarrow> nat \<Rightarrow> nat option outcome) \<Rightarrow> expr list \<Rightarrow> nat \<Rightarrow> nat option outcome" where
  "group_terminal f [] i = Done (Some i)"
| "group_terminal f (e # es) i =
     bind_out (f e i) (\<lambda>m. case m of None \<Rightarrow> Done None | Some j \<Rightarrow> group_terminal f es j)"

fun choice_terminal :: "(expr \<Rightarrow> nat \<Rightarrow> nat option outcome) \<Rightarrow> expr list \<Rightarrow> nat \<Rightarrow> nat option outcome" where
  "choice_terminal f [] i = Done None"
| "choice_terminal f (e # es) i =
     bind_out (f e i) (\<lambda>m. case m of None \<Rightarrow> choice_terminal f es i | Some j \<Rightarrow> Done (Some j))"

text \<open>The \<open>while (true)\<close> of a star or a plus.\<close>

fun star_terminal :: "(expr \<Rightarrow> nat \<Rightarrow> nat option outcome) \<Rightarrow> nat \<Rightarrow> expr \<Rightarrow> nat \<Rightarrow> nat option outcome" where
  "star_terminal f 0 e i = Out_of_fuel"
| "star_terminal f (Suc n) e i =
     bind_out (f e i) (\<lambda>m. case m of None \<Rightarrow> Done (Some i) | Some j \<Rightarrow> star_terminal f n e j)"

text \<open>The counted loops: exactly \<open>c\<close> times, and at most \<open>c\<close> times.\<close>

fun times_terminal :: "(expr \<Rightarrow> nat \<Rightarrow> nat option outcome) \<Rightarrow> nat \<Rightarrow> expr \<Rightarrow> nat \<Rightarrow> nat option outcome" where
  "times_terminal f 0 e i = Done (Some i)"
| "times_terminal f (Suc c) e i =
     bind_out (f e i) (\<lambda>m. case m of None \<Rightarrow> Done None | Some j \<Rightarrow> times_terminal f c e j)"

fun upto_terminal :: "(expr \<Rightarrow> nat \<Rightarrow> nat option outcome) \<Rightarrow> nat \<Rightarrow> expr \<Rightarrow> nat \<Rightarrow> nat option outcome" where
  "upto_terminal f 0 e i = Done (Some i)"
| "upto_terminal f (Suc c) e i =
     bind_out (f e i) (\<lambda>m. case m of None \<Rightarrow> Done (Some i) | Some j \<Rightarrow> upto_terminal f c e j)"

definition repetition_terminal ::
  "(expr \<Rightarrow> nat \<Rightarrow> nat option outcome) \<Rightarrow> nat \<Rightarrow> nat \<Rightarrow> nat \<Rightarrow> expr \<Rightarrow> nat \<Rightarrow> nat option outcome" where
  "repetition_terminal f n mn mx e i =
     (if mn = 0 \<and> mx = 1 then
        bind_out (f e i) (\<lambda>m. Done (case m of None \<Rightarrow> Some i | Some j \<Rightarrow> Some j))
      else if mn = 0 \<and> mx = size_max then star_terminal f n e i
      else if mn = 1 \<and> mx = size_max then
        bind_out (f e i) (\<lambda>m. case m of None \<Rightarrow> Done None | Some j \<Rightarrow> star_terminal f n e j)
      else if mn = mx \<and> mn > 0 then times_terminal f mn e i
      else
        bind_out (times_terminal f mn e i)
          (\<lambda>m. case m of None \<Rightarrow> Done None | Some j \<Rightarrow> upto_terminal f (mx - mn) e j))"

text \<open>
  One pass of an unordered group over its elements, in order, each matched at most once, and
  the loop over passes. A state is the matched flags, the cursor and whether the pass matched.
\<close>

fun unordered_pass ::
  "(expr \<Rightarrow> nat \<Rightarrow> nat option outcome) \<Rightarrow> (expr \<times> bool) list \<Rightarrow> nat \<Rightarrow>
    ((expr \<times> bool) list \<times> nat \<times> bool) outcome" where
  "unordered_pass f [] i = Done ([], i, False)"
| "unordered_pass f ((e, matched) # es) i =
     (if matched then
        bind_out (unordered_pass f es i) (\<lambda>(fl, j, any). Done ((e, True) # fl, j, any))
      else
        bind_out (f e i) (\<lambda>m. case m of
            None \<Rightarrow> bind_out (unordered_pass f es i) (\<lambda>(fl, j, any). Done ((e, False) # fl, j, any))
          | Some k \<Rightarrow> bind_out (unordered_pass f es k) (\<lambda>(fl, j, any). Done ((e, True) # fl, j, True))))"

fun unordered_loop ::
  "(expr \<Rightarrow> nat \<Rightarrow> nat option outcome) \<Rightarrow> nat \<Rightarrow> (expr \<times> bool) list \<Rightarrow> nat \<Rightarrow> nat option outcome" where
  "unordered_loop f 0 fl i = Out_of_fuel"
| "unordered_loop f (Suc n) fl i =
     bind_out (unordered_pass f fl i) (\<lambda>(fl', j, any).
       if any then unordered_loop f n fl' j
       else Done (if list_all snd fl' then Some j else None))"

definition unordered_terminal ::
  "(expr \<Rightarrow> nat \<Rightarrow> nat option outcome) \<Rightarrow> nat \<Rightarrow> expr list \<Rightarrow> nat \<Rightarrow> nat option outcome" where
  "unordered_terminal f n es i = unordered_loop f n (map (\<lambda>e. (e, False)) es) i"

subsection \<open>The matcher\<close>

text \<open>
  A rule that is not a terminal rule, \<open>Create\<close>, \<open>Nest\<close> and \<open>Assignment\<close> have no \<open>terminal\<close>
  member: there is no result for them (\<open>terminal_capable\<close> excludes them).
\<close>

fun terminal :: "grammar \<Rightarrow> string \<Rightarrow> nat \<Rightarrow> expr \<Rightarrow> nat \<Rightarrow> nat option outcome" where
  "terminal g s 0 e i = Out_of_fuel"
| "terminal g s (Suc n) e i =
     (case e of
        AnyCharacter \<Rightarrow> Done (any_terminal s i)
      | CharacterRange r \<Rightarrow> Done (range_terminal r s i)
      | Literal l cs \<Rightarrow> Done (literal_terminal cs l s i)
      | Group es \<Rightarrow> group_terminal (terminal g s n) es i
      | OrderedChoice es \<Rightarrow> choice_terminal (terminal g s n) es i
      | UnorderedGroup es \<Rightarrow> unordered_terminal (terminal g s n) n es i
      | Repetition mn mx x \<Rightarrow> repetition_terminal (terminal g s n) n mn mx x i
      | AndPredicate x \<Rightarrow>
          bind_out (terminal g s n x i) (\<lambda>m. Done (case m of None \<Rightarrow> None | Some _ \<Rightarrow> Some i))
      | NotPredicate x \<Rightarrow>
          bind_out (terminal g s n x i) (\<lambda>m. Done (case m of None \<Rightarrow> Some i | Some _ \<Rightarrow> None))
      | RuleRef r \<Rightarrow>
          (if rkind (g r) = TerminalKind then terminal g s n (rbody (g r)) i else Out_of_fuel)
      | SkipperWrapped x hid ign \<Rightarrow> terminal g s n x i
      | _ \<Rightarrow> Out_of_fuel)"

subsection \<open>Skipping\<close>

definition skip_any :: "grammar \<Rightarrow> string \<Rightarrow> nat \<Rightarrow> expr list \<Rightarrow> nat \<Rightarrow> nat option outcome" where
  "skip_any g s n es i = choice_terminal (terminal g s n) es i"

text \<open>
  \<open>skip\<close> with a builder: all ignored matches, then one hidden match with its leaf, again and
  again. The leaves are returned as the list of (element, begin, end).
\<close>

fun parse_any_hidden :: "grammar \<Rightarrow> string \<Rightarrow> nat \<Rightarrow> expr list \<Rightarrow> nat \<Rightarrow> (expr \<times> nat) option outcome" where
  "parse_any_hidden g s n [] i = Done None"
| "parse_any_hidden g s n (e # es) i =
     bind_out (terminal g s n e i) (\<lambda>m. case m of
         None \<Rightarrow> parse_any_hidden g s n es i | Some j \<Rightarrow> Done (Some (e, j)))"

fun skip_ignored :: "grammar \<Rightarrow> string \<Rightarrow> nat \<Rightarrow> nat \<Rightarrow> expr list \<Rightarrow> nat \<Rightarrow> nat outcome" where
  "skip_ignored g s n 0 ign i = Out_of_fuel"
| "skip_ignored g s n (Suc k) ign i =
     bind_out (skip_any g s n ign i) (\<lambda>m. case m of
         None \<Rightarrow> Done i | Some j \<Rightarrow> skip_ignored g s n k ign j)"

fun skip_with :: "grammar \<Rightarrow> string \<Rightarrow> nat \<Rightarrow> nat \<Rightarrow> expr list \<Rightarrow> expr list \<Rightarrow> nat \<Rightarrow>
    (nat \<times> (expr \<times> nat \<times> nat) list) outcome" where
  "skip_with g s n 0 hid ign i = Out_of_fuel"
| "skip_with g s n (Suc k) hid ign i =
     bind_out (skip_ignored g s n n ign i) (\<lambda>i'.
       bind_out (parse_any_hidden g s n hid i') (\<lambda>m. case m of
           None \<Rightarrow> Done (i', [])
         | Some (e, j) \<Rightarrow> bind_out (skip_with g s n k hid ign j)
             (\<lambda>(i'', leaves). Done (i'', (e, i', j) # leaves))))"

text \<open>\<open>skip\<close> without a builder: the ignored rules, then the hidden ones, at each position.\<close>

fun skip_without :: "grammar \<Rightarrow> string \<Rightarrow> nat \<Rightarrow> nat \<Rightarrow> expr list \<Rightarrow> expr list \<Rightarrow> nat \<Rightarrow> nat outcome" where
  "skip_without g s n 0 hid ign i = Out_of_fuel"
| "skip_without g s n (Suc k) hid ign i =
     bind_out (skip_any g s n (ign @ hid) i) (\<lambda>m. case m of
         None \<Rightarrow> Done i | Some j \<Rightarrow> skip_without g s n k hid ign j)"

subsection \<open>More fuel\<close>

lemma refines_option [refines_intros]:
  "refines a a' \<Longrightarrow> (\<And>x. refines (f x) (f' x)) \<Longrightarrow>
    refines (case m of None \<Rightarrow> a | Some x \<Rightarrow> f x) (case m of None \<Rightarrow> a' | Some x \<Rightarrow> f' x)"
  by (cases m) auto

lemma refines_prod [refines_intros]:
  "(\<And>x y. refines (f x y) (f' x y)) \<Longrightarrow> refines (case p of (x, y) \<Rightarrow> f x y) (case p of (x, y) \<Rightarrow> f' x y)"
  by (cases p) auto

lemma refines_if [refines_intros]:
  "refines a a' \<Longrightarrow> refines b b' \<Longrightarrow> refines (if c then a else b) (if c then a' else b')"
  by simp

lemma combinators_refine:
  assumes f: "\<And>e i. refines (f e i) (f' e i)"
  shows "refines (group_terminal f es i) (group_terminal f' es i)"
    and "refines (choice_terminal f es i) (choice_terminal f' es i)"
    and "refines (times_terminal f c e i) (times_terminal f' c e i)"
    and "refines (upto_terminal f c e i) (upto_terminal f' c e i)"
    and "refines (unordered_pass f fl i) (unordered_pass f' fl i)"
proof -
  show "refines (group_terminal f es i) (group_terminal f' es i)"
    by (induction es arbitrary: i) (auto intro!: refines_intros f)
  show "refines (choice_terminal f es i) (choice_terminal f' es i)"
    by (induction es arbitrary: i) (auto intro!: refines_intros f)
  show "refines (times_terminal f c e i) (times_terminal f' c e i)"
    by (induction c arbitrary: i) (auto intro!: refines_intros f)
  show "refines (upto_terminal f c e i) (upto_terminal f' c e i)"
    by (induction c arbitrary: i) (auto intro!: refines_intros f)
  show "refines (unordered_pass f fl i) (unordered_pass f' fl i)"
  proof (induction fl arbitrary: i)
    case (Cons x fl)
    then show ?case by (cases x) (auto intro!: refines_intros f)
  qed simp
qed

lemma loops_refine:
  assumes f: "\<And>e i. refines (f e i) (f' e i)"
  shows "refines (star_terminal f n e i) (star_terminal f' (Suc n) e i)"
    and "refines (unordered_loop f n fl i) (unordered_loop f' (Suc n) fl i)"
proof -
  show "refines (star_terminal f n e i) (star_terminal f' (Suc n) e i)"
    by (induction n arbitrary: i) (auto intro!: refines_intros f simp del: star_terminal.simps(2)
        simp: star_terminal.simps(2) [of f] star_terminal.simps(2) [of f'])
  show "refines (unordered_loop f n fl i) (unordered_loop f' (Suc n) fl i)"
    by (induction n arbitrary: fl i)
      (auto intro!: refines_intros combinators_refine f split: prod.splits)
qed

lemma terminal_mono: "refines (terminal g s n e i) (terminal g s (Suc n) e i)"
proof (induction n arbitrary: e i)
  case (Suc n)
  then have f: "\<And>e i. refines (terminal g s n e i) (terminal g s (Suc n) e i)" .
  show ?case
  proof (cases e)
    case (Repetition mn mx x)
    then show ?thesis
      by (simp del: terminal.simps add: terminal.simps(2) [of g s n] terminal.simps(2) [of g s "Suc n"])
        (auto simp: repetition_terminal_def simp del: terminal.simps star_terminal.simps
          intro!: refines_intros f combinators_refine loops_refine)
  qed (use f in \<open>auto simp: terminal.simps(2) [of g s n] terminal.simps(2) [of g s "Suc n"]
      unordered_terminal_def simp del: terminal.simps unordered_loop.simps
      intro!: refines_intros combinators_refine loops_refine\<close>)
qed simp

end
