(* ===== verification/TerminalProps.thy ===== *)
theory TerminalProps
  imports Terminal
begin

text \<open>
  What terminal matching promises. The locale \<open>matcher\<close> states the contract of an element's
  matcher: a match stays inside the text, and a non-nullable element consumes something. The
  combinators keep the contract and their loops end on it; \<open>terminal\<close> has it on well-formed
  grammars. \<open>left_part\<close> is the part of a group that may be tried before anything is consumed.
\<close>

fun left_part :: "(expr \<Rightarrow> bool) \<Rightarrow> expr list \<Rightarrow> expr list" where
  "left_part nul [] = []"
| "left_part nul (e # es) = e # (if nul e then left_part nul es else [])"

lemma left_part_subset: "set (left_part nul es) \<subseteq> set es"
  by (induction es) auto

locale matcher =
  fixes f :: "expr \<Rightarrow> nat \<Rightarrow> nat option outcome"
    and ok :: "expr \<Rightarrow> bool"
    and nul :: "expr \<Rightarrow> bool"
    and len :: nat
  assumes bounds: "ok e \<Longrightarrow> i \<le> len \<Longrightarrow> f e i = Done (Some j) \<Longrightarrow> i \<le> j \<and> j \<le> len"
    and progress: "ok e \<Longrightarrow> \<not> nul e \<Longrightarrow> i \<le> len \<Longrightarrow> f e i = Done (Some j) \<Longrightarrow> i < j"
begin

lemma step:
  assumes "ok e" "i \<le> len" "f e i = Done (Some j)"
  shows "i \<le> j \<and> j \<le> len \<and> (\<not> nul e \<longrightarrow> i < j)"
  using bounds [OF assms] progress [OF assms(1) _ assms(2,3)] by blast

lemma group_bounds:
  "list_all ok es \<Longrightarrow> i \<le> len \<Longrightarrow> group_terminal f es i = Done (Some j) \<Longrightarrow>
    i \<le> j \<and> j \<le> len \<and> (\<not> list_all nul es \<longrightarrow> i < j)"
proof (induction es arbitrary: i)
  case (Cons e es)
  from Cons.prems(3) obtain k where k: "f e i = Done (Some k)" "group_terminal f es k = Done (Some j)"
    by (auto simp: bind_option_Done_iff)
  have e: "ok e" "list_all ok es" using Cons.prems(1) by simp_all
  have st: "i \<le> k \<and> k \<le> len \<and> (\<not> nul e \<longrightarrow> i < k)" by (rule step [OF e(1) Cons.prems(2) k(1)])
  then have "k \<le> j \<and> j \<le> len \<and> (\<not> list_all nul es \<longrightarrow> k < j)"
    by (intro Cons.IH [OF e(2) _ k(2)]) simp
  with st show ?case by auto
qed simp

lemma choice_bounds:
  "list_all ok es \<Longrightarrow> i \<le> len \<Longrightarrow> choice_terminal f es i = Done (Some j) \<Longrightarrow>
    i \<le> j \<and> j \<le> len \<and> (\<not> list_ex nul es \<longrightarrow> i < j)"
proof (induction es)
  case (Cons e es)
  have e: "ok e" "list_all ok es" using Cons.prems(1) by simp_all
  from Cons.prems(3) consider "f e i = Done (Some j)" | "choice_terminal f es i = Done (Some j)"
    by (auto simp: bind_option_Done_iff)
  then show ?case
  proof cases
    case 1
    then show ?thesis using step [OF e(1) Cons.prems(2)] by auto
  next
    case 2
    then show ?thesis using Cons.IH [OF e(2) Cons.prems(2)] by auto
  qed
qed simp

lemma times_bounds:
  "ok e \<Longrightarrow> i \<le> len \<Longrightarrow> times_terminal f c e i = Done (Some j) \<Longrightarrow>
    i \<le> j \<and> j \<le> len \<and> (0 < c \<longrightarrow> \<not> nul e \<longrightarrow> i < j)"
proof (induction c arbitrary: i)
  case (Suc c)
  from Suc.prems(3) obtain k where k: "f e i = Done (Some k)" "times_terminal f c e k = Done (Some j)"
    by (auto simp: bind_option_Done_iff)
  have st: "i \<le> k \<and> k \<le> len \<and> (\<not> nul e \<longrightarrow> i < k)" by (rule step [OF Suc.prems(1,2) k(1)])
  then have "k \<le> j \<and> j \<le> len" using Suc.IH [OF Suc.prems(1) _ k(2)] by blast
  with st show ?case by auto
qed simp

lemma upto_bounds:
  "ok e \<Longrightarrow> i \<le> len \<Longrightarrow> upto_terminal f c e i = Done (Some j) \<Longrightarrow> i \<le> j \<and> j \<le> len"
proof (induction c arbitrary: i)
  case (Suc c)
  from Suc.prems(3) consider "i = j"
    | k where "f e i = Done (Some k)" "upto_terminal f c e k = Done (Some j)"
    by (auto simp: bind_option_Done_iff)
  then show ?case
  proof cases
    case (2 k)
    then have st: "i \<le> k \<and> k \<le> len \<and> (\<not> nul e \<longrightarrow> i < k)"
      using step [OF Suc.prems(1,2)] by blast
    then have "k \<le> j \<and> j \<le> len" using Suc.IH [OF Suc.prems(1) _ 2(2)] by blast
    with st show ?thesis by auto
  qed (use Suc.prems in simp)
qed simp

lemma star_bounds:
  "ok e \<Longrightarrow> i \<le> len \<Longrightarrow> star_terminal f n e i = Done (Some j) \<Longrightarrow> i \<le> j \<and> j \<le> len"
proof (induction n arbitrary: i)
  case (Suc n)
  from Suc.prems(3) consider "i = j"
    | k where "f e i = Done (Some k)" "star_terminal f n e k = Done (Some j)"
    by (auto simp: bind_option_Done_iff)
  then show ?case
  proof cases
    case (2 k)
    then have st: "i \<le> k \<and> k \<le> len \<and> (\<not> nul e \<longrightarrow> i < k)"
      using step [OF Suc.prems(1,2)] by blast
    then have "k \<le> j \<and> j \<le> len" using Suc.IH [OF Suc.prems(1) _ 2(2)] by blast
    with st show ?thesis by auto
  qed (use Suc.prems in simp)
qed simp

lemma repetition_bounds:
  assumes "ok e" "\<not> nul e" "i \<le> len" "\<not> (mn = 0 \<and> mx = 0)"
    and m: "repetition_terminal f n mn mx e i = Done (Some j)"
  shows "i \<le> j \<and> j \<le> len \<and> (0 < mn \<longrightarrow> i < j)"
proof -
  consider (opt) "mn = 0" "i = j \<or> f e i = Done (Some j)"
    | (star) "mn = 0" "star_terminal f n e i = Done (Some j)"
    | (plus) k where "f e i = Done (Some k)" "star_terminal f n e k = Done (Some j)"
    | (fixed) "times_terminal f mn e i = Done (Some j)"
    | (general) k where "times_terminal f mn e i = Done (Some k)" "upto_terminal f (mx - mn) e k = Done (Some j)"
    using m by (auto simp: repetition_terminal_def bind_option_Done_iff bind_out_Done_iff
        split: if_splits option.splits)
  then show ?thesis
  proof cases
    case opt
    then show ?thesis using step [OF assms(1,3)] assms(3) by auto
  next
    case star
    then show ?thesis using star_bounds [OF assms(1,3)] by auto
  next
    case (plus k)
    have st: "i \<le> k \<and> k \<le> len \<and> (\<not> nul e \<longrightarrow> i < k)" by (rule step [OF assms(1,3) plus(1)])
    then have "k \<le> j \<and> j \<le> len" using star_bounds [OF assms(1) _ plus(2)] by blast
    then show ?thesis using st assms(2) by auto
  next
    case fixed
    then show ?thesis using times_bounds [OF assms(1,3)] assms(2) by auto
  next
    case (general k)
    have st: "i \<le> k \<and> k \<le> len \<and> (0 < mn \<longrightarrow> \<not> nul e \<longrightarrow> i < k)"
      by (rule times_bounds [OF assms(1,3) general(1)])
    then have "k \<le> j \<and> j \<le> len" using upto_bounds [OF assms(1) _ general(2)] by blast
    then show ?thesis using st assms(2) by auto
  qed
qed

abbreviation candidates :: "(expr \<times> bool) list \<Rightarrow> bool" where
  "candidates fl \<equiv> \<forall>e \<in> fst ` set fl. ok e \<and> \<not> nul e"

abbreviation matched_count :: "(expr \<times> bool) list \<Rightarrow> nat" where
  "matched_count fl \<equiv> length (filter snd fl)"

lemma unordered_pass_bounds:
  "candidates fl \<Longrightarrow> i \<le> len \<Longrightarrow> unordered_pass f fl i = Done (fl', j, any) \<Longrightarrow>
    i \<le> j \<and> j \<le> len \<and> any = (i < j) \<and> map fst fl' = map fst fl \<and> (\<not> any \<longrightarrow> fl' = fl)"
proof (induction fl arbitrary: i fl' j any)
  case (Cons x fl)
  obtain e b where x: "x = (e, b)" by (cases x)
  have e: "ok e" "\<not> nul e" "candidates fl" using Cons.prems(1) by (simp_all add: x)
  consider fs where "b" "unordered_pass f fl i = Done (fs, j, any)" "fl' = (e, True) # fs"
    | fs where "\<not> b" "unordered_pass f fl i = Done (fs, j, any)" "fl' = (e, False) # fs"
    | fs k any' where "f e i = Done (Some k)" "unordered_pass f fl k = Done (fs, j, any')"
        "fl' = (e, True) # fs" "any"
    using Cons.prems(3)
    by (cases "f e i") (auto simp: x bind_out_Done_iff split: if_splits option.splits)
  then show ?case
  proof cases
    case (3 fs k any')
    have st: "i < k" "k \<le> len" using step [OF e(1) Cons.prems(2) 3(1)] e(2) by auto
    then show ?thesis using Cons.IH [OF e(3) st(2) 3(2)] 3 x by auto
  next
    case (1 fs)
    then show ?thesis using Cons.IH [OF e(3) Cons.prems(2) 1(2)] x by auto
  next
    case (2 fs)
    then show ?thesis using Cons.IH [OF e(3) Cons.prems(2) 2(2)] x by auto
  qed
qed simp

lemma unordered_loop_bounds:
  "candidates fl \<Longrightarrow> i \<le> len \<Longrightarrow> unordered_loop f n fl i = Done (Some j) \<Longrightarrow>
    i \<le> j \<and> j \<le> len \<and> (\<not> list_all snd fl \<longrightarrow> i < j)"
proof (induction n arbitrary: fl i)
  case (Suc n)
  obtain fl' k any where p: "unordered_pass f fl i = Done (fl', k, any)"
    and m: "(if any then unordered_loop f n fl' k
       else Done (if list_all snd fl' then Some k else None)) = Done (Some j)"
    using Suc.prems(3) by (auto simp: bind_out_Done_iff)
  note b = unordered_pass_bounds [OF Suc.prems(1,2) p]
  have "fst ` set fl' = fst ` set fl" using b by (metis list.set_map)
  then have ok': "candidates fl'" using Suc.prems(1) by simp
  show ?case
  proof (cases any)
    case True
    then have "k \<le> j \<and> j \<le> len" using Suc.IH [OF ok', of k] b m by auto
    then show ?thesis using b True by auto
  next
    case False
    then show ?thesis using b m by (auto split: if_splits)
  qed
qed simp

lemma unordered_bounds:
  assumes "list_all ok es" "list_all (\<lambda>e. \<not> nul e) es" "es \<noteq> []" "i \<le> len"
    and "unordered_terminal f n es i = Done (Some j)"
  shows "i < j \<and> j \<le> len"
proof -
  have "candidates (map (\<lambda>e. (e, False)) es)" using assms(1,2) by (auto simp: list_all_iff)
  moreover have "\<not> list_all snd (map (\<lambda>e. (e, False)) es)" using assms(3) by (cases es) auto
  ultimately show ?thesis
    using unordered_loop_bounds [of "map (\<lambda>e. (e, False)) es" i n j] assms(4,5)
    by (auto simp: unordered_terminal_def)
qed

abbreviation returns_on :: "expr \<Rightarrow> nat \<Rightarrow> bool" where
  "returns_on e i \<equiv> \<forall>k. i \<le> k \<and> k \<le> len \<longrightarrow> f e k \<noteq> Out_of_fuel"

text \<open>The loops end: each round consumes, or matches one more element.\<close>

lemma star_returns:
  "ok e \<Longrightarrow> \<not> nul e \<Longrightarrow> i \<le> len \<Longrightarrow> returns_on e i \<Longrightarrow> len - i < n \<Longrightarrow>
    star_terminal f n e i \<noteq> Out_of_fuel"
proof (induction n arbitrary: i)
  case (Suc n)
  have "star_terminal f n e k \<noteq> Out_of_fuel" if k: "f e i = Done (Some k)" for k
    using step [OF Suc.prems(1,3) k] Suc.prems by (intro Suc.IH) auto
  then show ?case using Suc.prems(3,4) by (auto simp: bind_option_out_iff)
qed simp

lemma times_returns:
  "ok e \<Longrightarrow> i \<le> len \<Longrightarrow> returns_on e i \<Longrightarrow> times_terminal f c e i \<noteq> Out_of_fuel"
proof (induction c arbitrary: i)
  case (Suc c)
  have "times_terminal f c e k \<noteq> Out_of_fuel" if k: "f e i = Done (Some k)" for k
    using step [OF Suc.prems(1,2) k] Suc.prems by (intro Suc.IH) auto
  then show ?case using Suc.prems(2,3) by (auto simp: bind_option_out_iff)
qed simp

lemma upto_returns:
  "ok e \<Longrightarrow> i \<le> len \<Longrightarrow> returns_on e i \<Longrightarrow> upto_terminal f c e i \<noteq> Out_of_fuel"
proof (induction c arbitrary: i)
  case (Suc c)
  have "upto_terminal f c e k \<noteq> Out_of_fuel" if k: "f e i = Done (Some k)" for k
    using step [OF Suc.prems(1,2) k] Suc.prems by (intro Suc.IH) auto
  then show ?case using Suc.prems(2,3) by (auto simp: bind_option_out_iff)
qed simp

lemma repetition_returns:
  assumes "ok e" "\<not> nul e" "i \<le> len" "returns_on e i" "len < n"
  shows "repetition_terminal f n mn mx e i \<noteq> Out_of_fuel"
proof -
  have fe: "f e i \<noteq> Out_of_fuel" using assms by simp
  have star: "star_terminal f n e i \<noteq> Out_of_fuel" using assms by (intro star_returns) auto
  have plus: "star_terminal f n e k \<noteq> Out_of_fuel" if k: "f e i = Done (Some k)" for k
    using step [OF assms(1,3) k] assms by (intro star_returns) auto
  have times: "times_terminal f mn e i \<noteq> Out_of_fuel" by (rule times_returns [OF assms(1,3,4)])
  have upto: "upto_terminal f c e k \<noteq> Out_of_fuel" if k: "times_terminal f mn e i = Done (Some k)" for k c
    using times_bounds [OF assms(1,3) k] assms by (intro upto_returns) auto
  show ?thesis
    using fe star plus times upto
    by (auto simp: repetition_terminal_def bind_out_out_iff split: option.splits)
qed

lemma unordered_pass_returns:
  "\<forall>e \<in> fst ` set fl. ok e \<and> returns_on e i \<Longrightarrow> i \<le> len \<Longrightarrow> unordered_pass f fl i \<noteq> Out_of_fuel"
proof (induction fl arbitrary: i)
  case (Cons x fl)
  obtain e b where x: "x = (e, b)" by (cases x)
  have e: "ok e" "returns_on e i" using Cons.prems(1) by (simp_all add: x)
  have here: "unordered_pass f fl i \<noteq> Out_of_fuel" using Cons.prems by (intro Cons.IH) simp_all
  have there: "unordered_pass f fl k \<noteq> Out_of_fuel" if k: "f e i = Done (Some k)" for k
    using step [OF e(1) Cons.prems(2) k] Cons.prems by (intro Cons.IH) auto
  show ?case
    using here there e(2) Cons.prems(2)
    by (cases "f e i") (auto simp: x bind_out_out_iff split: prod.splits option.splits)
qed simp

lemma unordered_loop_returns:
  "candidates fl \<Longrightarrow> i \<le> len \<Longrightarrow> \<forall>e \<in> fst ` set fl. returns_on e i \<Longrightarrow> len - i < n \<Longrightarrow>
    unordered_loop f n fl i \<noteq> Out_of_fuel"
proof (induction n arbitrary: fl i)
  case (Suc n)
  have "unordered_pass f fl i \<noteq> Out_of_fuel"
    using Suc.prems by (intro unordered_pass_returns) auto
  then obtain fl' k any where p: "unordered_pass f fl i = Done (fl', k, any)"
    by (cases "unordered_pass f fl i") auto
  note b = unordered_pass_bounds [OF Suc.prems(1,2) p]
  have s: "fst ` set fl' = fst ` set fl" using b by (metis list.set_map)
  have "unordered_loop f n fl' k \<noteq> Out_of_fuel" if any
    using b s Suc.prems that by (intro Suc.IH) auto
  then show ?case using p by simp
qed simp

lemma group_returns:
  "list_all ok es \<Longrightarrow> i \<le> len \<Longrightarrow> \<forall>e \<in> set (left_part nul es). f e i \<noteq> Out_of_fuel \<Longrightarrow>
    \<forall>e \<in> set es. returns_on e (Suc i) \<Longrightarrow> group_terminal f es i \<noteq> Out_of_fuel"
proof (induction es arbitrary: i)
  case (Cons e es)
  have "group_terminal f es k \<noteq> Out_of_fuel" if k: "f e i = Done (Some k)" for k
  proof -
    have e: "ok e" "list_all ok es" using Cons.prems(1) by simp_all
    have st: "i \<le> k" "k \<le> len" "\<not> nul e \<longrightarrow> i < k" using step [OF e(1) Cons.prems(2) k] by auto
    have later: "\<forall>e \<in> set es. returns_on e (Suc k)" using Cons.prems(4) st(1) by auto
    have "\<forall>e \<in> set (left_part nul es). f e k \<noteq> Out_of_fuel"
    proof (cases "i = k")
      case True
      then show ?thesis using st(3) Cons.prems(3) by auto
    next
      case False
      then have "\<forall>e \<in> set es. f e k \<noteq> Out_of_fuel" using Cons.prems(4) st by auto
      then show ?thesis using left_part_subset [of nul es] by blast
    qed
    then show ?thesis by (rule Cons.IH [OF e(2) st(2) _ later])
  qed
  then show ?case using Cons.prems(3) by (auto simp: bind_option_out_iff)
qed simp

lemma choice_returns:
  "\<forall>e \<in> set es. f e i \<noteq> Out_of_fuel \<Longrightarrow> choice_terminal f es i \<noteq> Out_of_fuel"
  by (induction es) (auto simp: bind_option_out_iff)

end

subsection \<open>The matcher of the code keeps the contract\<close>

lemma literal_length:
  "list_all (\<lambda>c. c \<noteq> CHR 0x00) l \<Longrightarrow> i \<le> length s \<Longrightarrow> literal_terminal cs l s i = Some j \<Longrightarrow>
    j = i + length l \<and> j \<le> length s"
proof (induction cs l s i rule: literal_terminal.induct)
  case (2 cs l ls s i)
  have "byte_at s i \<noteq> CHR 0x00" using 2(2,4) tolower_nul by (auto split: if_splits)
  then have "i < length s" by (rule byte_at_non_nul)
  then show ?case using 2 by (auto split: if_splits)
qed simp

lemma range_bounds:
  assumes "wf_expr g (CharacterRange r)" "range_terminal r s i = Some j"
  shows "i < j \<and> j \<le> length s"
proof -
  have "range_lookup r (byte_at s i)" "j = i + 1" using assms(2)
    by (simp_all add: range_terminal_def split: if_splits)
  moreover have "\<not> range_lookup r (CHR 0x00)"
    using assms(1) by (auto simp: range_lookup_def split: option.splits)
  ultimately have "byte_at s i \<noteq> CHR 0x00" by metis
  then show ?thesis using byte_at_non_nul [of s i] \<open>j = i + 1\<close> by simp
qed

abbreviation well_formed :: "grammar \<Rightarrow> expr \<Rightarrow> bool" where
  "well_formed g e \<equiv> wf_grammar g \<and> wf_expr g e"

lemma terminal_is_matcher:
  "matcher (terminal g s n) (well_formed g) (nullable g) (length s)"
proof (induction n)
  case (Suc n)
  note bs = matcher.group_bounds [OF Suc] matcher.choice_bounds [OF Suc]
    matcher.repetition_bounds [OF Suc] matcher.unordered_bounds [OF Suc]
  have "i \<le> j \<and> j \<le> length s \<and> (\<not> nullable g e \<longrightarrow> i < j)"
    if wf: "wf_grammar g" and e: "wf_expr g e" and i: "i \<le> length s"
      and m: "terminal g s (Suc n) e i = Done (Some j)" for e i j
  proof (cases e)
    case AnyCharacter
    then show ?thesis using m consume_bounds [of s i j] by (simp add: any_terminal_def)
  next
    case (CharacterRange r)
    then show ?thesis using m e range_bounds [of g r s i j] by simp
  next
    case (Literal l cs)
    then show ?thesis using m e literal_length [of l i s cs j] i by auto
  next
    case (Group es)
    then have "list_all (well_formed g) es" using e wf by (simp add: list_all_iff)
    then show ?thesis using bs(1) [OF _ i, of es j] m Group by simp
  next
    case (OrderedChoice es)
    then have "list_all (well_formed g) es" using e wf by (simp add: list_all_iff)
    then show ?thesis using bs(2) [OF _ i, of es j] m OrderedChoice by simp
  next
    case (UnorderedGroup es)
    then have "list_all (well_formed g) es" "list_all (\<lambda>e. \<not> nullable g e) es" "es \<noteq> []"
      using e wf by (auto simp: list_all_iff)
    from bs(4) [OF this i, of n j] show ?thesis using m UnorderedGroup by simp
  next
    case (Repetition mn mx x)
    then have "wf_grammar g \<and> wf_expr g x" "\<not> nullable g x" "\<not> (mn = 0 \<and> mx = 0)" using e wf by auto
    from bs(3) [OF this(1,2) i this(3), of n j] show ?thesis using m Repetition by simp
  next
    case (RuleRef r)
    have "wf_grammar g \<and> wf_expr g (rbody (g r))" using wf wf_grammarD by blast
    moreover have "terminal g s n (rbody (g r)) i = Done (Some j)"
      using m RuleRef by (simp split: if_splits)
    ultimately have "i \<le> j \<and> j \<le> length s \<and> (\<not> nullable g (rbody (g r)) \<longrightarrow> i < j)"
      by (intro matcher.step [OF Suc _ i])
    then show ?thesis using RuleRef wf_grammarD(2) [OF wf, of r] by simp
  next
    case (SkipperWrapped x hid ign)
    then have "wf_grammar g \<and> wf_expr g x" "terminal g s n x i = Done (Some j)" using e wf m by auto
    from matcher.step [OF Suc this(1) i this(2)] show ?thesis using SkipperWrapped by simp
  qed (use m i in \<open>auto simp: bind_out_Done_iff split: option.splits\<close>)
  then show ?case by unfold_locales blast+
qed (unfold_locales, simp_all)

interpretation terminal_matcher: matcher "terminal g s n" "well_formed g" "nullable g" "length s"
  for g s n
  by (rule terminal_is_matcher)

end
