(* ===== verification/TerminalTotal.thy ===== *)
theory TerminalTotal
  imports TerminalProps
begin

text \<open>
  Terminal matching returns. On a well-formed grammar whose rules can be ranked so that left calls
  go down, every terminal-capable expression has a result at every position: the fuel is only an
  artefact of the model. The two skippers are compared, and literals specified.
\<close>

subsection \<open>Eventually enough fuel\<close>

definition returns :: "(nat \<Rightarrow> 'a outcome) \<Rightarrow> bool" where
  "returns f \<longleftrightarrow> (\<exists>N. \<forall>n \<ge> N. f n \<noteq> Out_of_fuel)"

lemma returnsI: "(\<And>n. N \<le> n \<Longrightarrow> f n \<noteq> Out_of_fuel) \<Longrightarrow> returns f"
  by (auto simp: returns_def)

lemma returns_Suc: "returns (\<lambda>n. f (Suc n)) \<Longrightarrow> returns f"
  unfolding returns_def by (metis Suc_le_D Suc_le_mono)

lemma returns_finite:
  assumes "finite A" and "\<And>a. a \<in> A \<Longrightarrow> returns (f a)"
  shows "\<exists>N. \<forall>n \<ge> N. \<forall>a \<in> A. f a n \<noteq> Out_of_fuel"
  using assms
proof (induction A)
  case (insert a A)
  then obtain N M where N: "\<forall>n \<ge> N. \<forall>a \<in> A. f a n \<noteq> Out_of_fuel" and M: "\<forall>n \<ge> M. f a n \<noteq> Out_of_fuel"
    using insert.IH insert.prems [of a] insert.prems by (auto simp: returns_def [of "f a"])
  show ?case by (rule exI [of _ "max N M"]) (use N M in auto)
qed simp

subsection \<open>Rule calls\<close>

definition calls_below :: "(nat \<Rightarrow> nat) \<Rightarrow> grammar \<Rightarrow> nat \<Rightarrow> expr \<Rightarrow> bool" where
  "calls_below rk g R e \<longleftrightarrow> (\<forall>q \<in> left_calls g e. rk q < R)"

lemma calls_below_ex: "\<exists>R. calls_below rk g R e"
proof -
  have "finite (rk ` left_calls g e)" by (simp add: finite_left_calls)
  then obtain R where "\<forall>x \<in> rk ` left_calls g e. x < R" using finite_nat_set_iff_bounded by blast
  then show ?thesis by (auto simp: calls_below_def)
qed

lemma calls_below_left_part:
  "calls_below rk g R (Group es) \<Longrightarrow> x \<in> set (left_part (nullable g) es) \<Longrightarrow> calls_below rk g R x"
  by (induction es) (auto simp: calls_below_def split: if_splits)

lemma calls_below_any:
  "\<forall>q \<in> left_calls_any g es. rk q < R \<Longrightarrow> x \<in> set es \<Longrightarrow> calls_below rk g R x"
  by (auto simp: calls_below_def dest!: left_calls_any_subset)

definition capable :: "grammar \<Rightarrow> expr \<Rightarrow> bool" where
  "capable g e \<longleftrightarrow> wf_grammar g \<and> wf_expr g e \<and> terminal_capable g e"

lemma capable_elems:
  "capable g (Group es) \<Longrightarrow> x \<in> set es \<Longrightarrow> capable g x"
  "capable g (OrderedChoice es) \<Longrightarrow> x \<in> set es \<Longrightarrow> capable g x"
  "capable g (UnorderedGroup es) \<Longrightarrow> x \<in> set es \<Longrightarrow> capable g x \<and> \<not> nullable g x"
  "capable g (Repetition mn mx e) \<Longrightarrow> capable g e \<and> \<not> nullable g e"
  "capable g (AndPredicate e) \<Longrightarrow> capable g e"
  "capable g (NotPredicate e) \<Longrightarrow> capable g e"
  "capable g (SkipperWrapped e hid ign) \<Longrightarrow> capable g e"
  "capable g (RuleRef r) \<Longrightarrow> rkind (g r) = TerminalKind \<and> capable g (rbody (g r))"
  by (auto simp: capable_def list_all_iff dest: wf_grammarD)

lemma capable_wf: "capable g e \<Longrightarrow> well_formed g e"
  by (simp add: capable_def)

lemma terminal_returns_step:
  assumes e: "capable g e" and i: "i \<le> length s" and R: "calls_below rk g R e"
    and nlr: "not_left_recursive g rk"
    and ahead: "\<And>x k. capable g x \<Longrightarrow> i < k \<Longrightarrow> k \<le> length s \<Longrightarrow> returns (\<lambda>n. terminal g s n x k)"
    and lower: "\<And>x Q. Q < R \<Longrightarrow> capable g x \<Longrightarrow> calls_below rk g Q x \<Longrightarrow> returns (\<lambda>n. terminal g s n x i)"
    and smaller: "\<And>x. size x < size e \<Longrightarrow> capable g x \<Longrightarrow> calls_below rk g R x \<Longrightarrow>
      returns (\<lambda>n. terminal g s n x i)"
  shows "returns (\<lambda>n. terminal g s n e i)"
proof -
  have later: "\<exists>N. \<forall>n \<ge> N. \<forall>x \<in> set xs. \<forall>k. i < k \<and> k \<le> length s \<longrightarrow> terminal g s n x k \<noteq> Out_of_fuel"
    if "\<And>x. x \<in> set xs \<Longrightarrow> capable g x" for xs
  proof -
    have fin: "finite (set xs \<times> {i<..length s})" by simp
    have "returns (\<lambda>n. terminal g s n (fst p) (snd p))" if "p \<in> set xs \<times> {i<..length s}" for p
      using that ahead \<open>\<And>x. x \<in> set xs \<Longrightarrow> capable g x\<close> by auto
    from returns_finite [OF fin, of "\<lambda>p n. terminal g s n (fst p) (snd p)", OF this]
    obtain N where "\<forall>n \<ge> N. \<forall>p \<in> set xs \<times> {i<..length s}. terminal g s n (fst p) (snd p) \<noteq> Out_of_fuel"
      by blast
    then show ?thesis by (intro exI [of _ N]) auto
  qed
  have here: "\<exists>N. \<forall>n \<ge> N. \<forall>x \<in> set xs. terminal g s n x i \<noteq> Out_of_fuel"
    if "\<And>x. x \<in> set xs \<Longrightarrow> size x < size e \<and> capable g x \<and> calls_below rk g R x" for xs
    using returns_finite [of "set xs" "\<lambda>x n. terminal g s n x i"] smaller that by simp
  have both: "\<exists>N. \<forall>n \<ge> N. \<forall>x \<in> set xs. \<forall>k. i \<le> k \<and> k \<le> length s \<longrightarrow> terminal g s n x k \<noteq> Out_of_fuel"
    if "\<And>x. x \<in> set xs \<Longrightarrow> size x < size e \<and> capable g x \<and> calls_below rk g R x" for xs
  proof -
    have "x \<in> set xs \<Longrightarrow> capable g x" for x using that by blast
    from later [OF this] here [OF that]
    obtain N M where "\<forall>n \<ge> N. \<forall>x \<in> set xs. \<forall>k. i < k \<and> k \<le> length s \<longrightarrow> terminal g s n x k \<noteq> Out_of_fuel"
      "\<forall>n \<ge> M. \<forall>x \<in> set xs. terminal g s n x i \<noteq> Out_of_fuel"
      by blast
    then show ?thesis by (intro exI [of _ "max N M"]) (metis le_neq_implies_less max.bounded_iff)
  qed
  have one: "\<exists>N. \<forall>n \<ge> N. terminal g s n x i \<noteq> Out_of_fuel"
    if "size x < size e" "capable g x" "calls_below rk g R x" for x
    using smaller [OF that] by (simp add: returns_def)
  have wf: "list_all (well_formed g) es" if "\<And>x. x \<in> set es \<Longrightarrow> capable g x" for es
    using that by (auto simp: list_all_iff capable_def)
  show ?thesis
  proof (rule returns_Suc, cases e)
    case (Group es)
    have cap: "x \<in> set es \<Longrightarrow> capable g x" for x using e Group capable_elems(1) by blast
    have lp: "size x < size e \<and> capable g x \<and> calls_below rk g R x"
      if "x \<in> set (left_part (nullable g) es)" for x
      using that cap calls_below_left_part [of rk g R es x] R left_part_subset [of "nullable g" es]
        expr_size_less [of x es] by (auto simp: Group)
    obtain N M where "\<forall>n \<ge> N. \<forall>x \<in> set (left_part (nullable g) es). terminal g s n x i \<noteq> Out_of_fuel"
      "\<forall>n \<ge> M. \<forall>x \<in> set es. \<forall>k. i < k \<and> k \<le> length s \<longrightarrow> terminal g s n x k \<noteq> Out_of_fuel"
      using here [OF lp] later [OF cap] by blast
    then show "returns (\<lambda>n. terminal g s (Suc n) e i)"
      using terminal_matcher.group_returns [OF wf [OF cap] i]
      by (intro returnsI [of "max N M"]) (auto simp: Group Suc_le_eq)
  next
    case (OrderedChoice es)
    have cap: "x \<in> set es \<Longrightarrow> capable g x" for x using e OrderedChoice capable_elems(2) by blast
    have lp: "size x < size e \<and> capable g x \<and> calls_below rk g R x" if "x \<in> set es" for x
      using that cap calls_below_any [of g es rk R x] R expr_size_less [of x es]
      by (auto simp: OrderedChoice calls_below_def [of rk g R "OrderedChoice es"])
    obtain N where "\<forall>n \<ge> N. \<forall>x \<in> set es. terminal g s n x i \<noteq> Out_of_fuel" using here [OF lp] by blast
    then show "returns (\<lambda>n. terminal g s (Suc n) e i)"
      using terminal_matcher.choice_returns
      by (intro returnsI [of N]) (auto simp: OrderedChoice)
  next
    case (UnorderedGroup es)
    have cap: "x \<in> set es \<Longrightarrow> capable g x \<and> \<not> nullable g x" for x
      using e UnorderedGroup capable_elems(3) by blast
    have lp: "size x < size e \<and> capable g x \<and> calls_below rk g R x" if "x \<in> set es" for x
      using that cap calls_below_any [of g es rk R x] R expr_size_less [of x es]
      by (auto simp: UnorderedGroup calls_below_def [of rk g R "UnorderedGroup es"])
    obtain N where N: "\<forall>n \<ge> N. \<forall>x \<in> set es. \<forall>k. i \<le> k \<and> k \<le> length s \<longrightarrow> terminal g s n x k \<noteq> Out_of_fuel"
      using both [OF lp] by blast
    have cand: "\<forall>x \<in> fst ` set (map (\<lambda>e. (e, False)) es). well_formed g x \<and> \<not> nullable g x"
      using cap by (auto simp: capable_def)
    show "returns (\<lambda>n. terminal g s (Suc n) e i)"
    proof (rule returnsI)
      fix n assume n: "max N (Suc (length s)) \<le> n"
      have "\<forall>x \<in> fst ` set (map (\<lambda>e. (e, False)) es). \<forall>k. i \<le> k \<and> k \<le> length s \<longrightarrow>
          terminal g s n x k \<noteq> Out_of_fuel" using N n by auto
      moreover have "length s - i < n" using n by auto
      ultimately have "unordered_loop (terminal g s n) n (map (\<lambda>e. (e, False)) es) i \<noteq> Out_of_fuel"
        by (rule terminal_matcher.unordered_loop_returns [OF cand i])
      then show "terminal g s (Suc n) e i \<noteq> Out_of_fuel"
        by (simp add: UnorderedGroup unordered_terminal_def)
    qed
  next
    case (Repetition mn mx x)
    have x: "capable g x" "\<not> nullable g x" using e Repetition capable_elems(4) by blast+
    have "size x < size e \<and> capable g x \<and> calls_below rk g R x"
      using x R by (simp add: Repetition calls_below_def)
    then obtain N where N: "\<forall>n \<ge> N. \<forall>k. i \<le> k \<and> k \<le> length s \<longrightarrow> terminal g s n x k \<noteq> Out_of_fuel"
      using both [of "[x]"] by auto
    show "returns (\<lambda>n. terminal g s (Suc n) e i)"
      using terminal_matcher.repetition_returns [OF capable_wf [OF x(1)] x(2) i] N
      by (intro returnsI [of "max N (Suc (length s))"]) (auto simp: Repetition)
  next
    case (AndPredicate x)
    then show "returns (\<lambda>n. terminal g s (Suc n) e i)"
      using one [of x] e R capable_elems(5) [of g x]
      by (auto simp: returns_def calls_below_def bind_out_out_iff)
  next
    case (NotPredicate x)
    then show "returns (\<lambda>n. terminal g s (Suc n) e i)"
      using one [of x] e R capable_elems(6) [of g x]
      by (auto simp: returns_def calls_below_def bind_out_out_iff)
  next
    case (SkipperWrapped x hid ign)
    then show "returns (\<lambda>n. terminal g s (Suc n) e i)"
      using one [of x] e R capable_elems(7) [of g x hid ign]
      by (auto simp: returns_def calls_below_def)
  next
    case (RuleRef r)
    have r: "rkind (g r) = TerminalKind" "capable g (rbody (g r))"
      using e RuleRef capable_elems(8) by blast+
    have "rk r < R" using R by (simp add: RuleRef calls_below_def)
    moreover have "calls_below rk g (rk r) (rbody (g r))"
      using nlr by (simp add: not_left_recursive_def calls_below_def)
    ultimately have "returns (\<lambda>n. terminal g s n (rbody (g r)) i)" using lower r(2) by blast
    then show "returns (\<lambda>n. terminal g s (Suc n) e i)" using r(1) by (simp add: RuleRef)
  qed (use e in \<open>auto simp: returns_def capable_def\<close>)
qed

lemma terminal_returns:
  assumes "not_left_recursive g rk" and "capable g e" and "i \<le> length s"
  shows "returns (\<lambda>n. terminal g s n e i)"
proof -
  obtain R where "calls_below rk g R e" using calls_below_ex by blast
  then show ?thesis
    using assms(2,3)
  proof (induction "length s - i" arbitrary: i e R rule: less_induct)
    case ahead: less
    show ?case using ahead.prems
    proof (induction R arbitrary: e rule: less_induct)
      case lower: (less R)
      show ?case using lower.prems
      proof (induction "size e" arbitrary: e rule: less_induct)
        case smaller: less
        show ?case
        proof (rule terminal_returns_step [OF smaller.prems(2,3,1) assms(1)])
          fix x k assume "capable g x" "i < k" "k \<le> length s"
          moreover obtain Q where "calls_below rk g Q x" using calls_below_ex by blast
          ultimately show "returns (\<lambda>n. terminal g s n x k)" by (intro ahead.hyps) auto
        next
          fix x Q assume "Q < R" "capable g x" "calls_below rk g Q x"
          then show "returns (\<lambda>n. terminal g s n x i)" using smaller.prems by (intro lower.IH) auto
        next
          fix x assume "size x < size e" "capable g x" "calls_below rk g R x"
          then show "returns (\<lambda>n. terminal g s n x i)" using smaller.prems by (intro smaller.hyps) auto
        qed
      qed
    qed
  qed
qed

end
