(* ===== verification/TerminalSkip.thy ===== *)
theory TerminalSkip
  imports TerminalTotal
begin

text \<open>
  Skipping between tokens: the skipper with a builder (ignored rules first, then one hidden rule
  and its leaf) and the one without (all rules at each position) are compared, and the properties
  of terminal matching are stated.
\<close>

subsection \<open>The two skippers\<close>

lemma choice_append:
  "choice_terminal f (xs @ ys) i =
    bind_out (choice_terminal f xs i) (\<lambda>m. case m of None \<Rightarrow> choice_terminal f ys i | Some j \<Rightarrow> Done (Some j))"
proof (induction xs)
  case (Cons x xs)
  then show ?case by (cases "f x i") (auto split: option.splits)
qed simp

lemma parse_any_hidden_choice:
  "choice_terminal (terminal g s n) es i =
    bind_out (parse_any_hidden g s n es i) (\<lambda>m. Done (map_option snd m))"
proof (induction es)
  case (Cons e es)
  then show ?case by (cases "terminal g s n e i") (auto split: option.splits)
qed simp

lemma skip_ignored_end:
  "skip_ignored g s n c ign i = Done j \<Longrightarrow> skip_any g s n ign j = Done None"
  by (induction c arbitrary: i) (auto simp: bind_option_Done_iff)

lemma skip_without_ignored:
  "skip_ignored g s n c ign i = Done j \<Longrightarrow> skip_without g s n d hid ign j = Done p \<Longrightarrow>
    \<exists>d'. skip_without g s n d' hid ign i = Done p"
proof (induction c arbitrary: i)
  case (Suc c)
  from Suc.prems(1) consider "i = j" | k where "skip_any g s n ign i = Done (Some k)"
      "skip_ignored g s n c ign k = Done j"
    by (auto simp: bind_option_Done_iff)
  then show ?case
  proof cases
    case (2 k)
    then obtain d' where "skip_without g s n d' hid ign k = Done p" using Suc by blast
    then have "skip_without g s n (Suc d') hid ign i = Done p"
      using 2 by (simp add: skip_any_def choice_append)
    then show ?thesis by blast
  qed (use Suc.prems(2) in blast)
qed simp

lemma skip_without_of_with:
  "skip_with g s n c hid ign i = Done (p, leaves) \<Longrightarrow>
    \<exists>d. skip_without g s n d hid ign i = Done p \<and> skip_any g s n (ign @ hid) p = Done None"
proof (induction c arbitrary: i leaves)
  case (Suc c)
  obtain j where j: "skip_ignored g s n n ign i = Done j"
    and m: "parse_any_hidden g s n hid j = Done None \<and> p = j \<or>
      (\<exists>e k ls. parse_any_hidden g s n hid j = Done (Some (e, k)) \<and>
        skip_with g s n c hid ign k = Done (p, ls))"
    using Suc.prems by (simp add: bind_out_Done_iff split: option.splits prod.splits) (metis option.exhaust surj_pair)
  note none = skip_ignored_end [OF j]
  have "\<exists>d. skip_without g s n d hid ign j = Done p \<and> skip_any g s n (ign @ hid) p = Done None"
    using m
  proof (elim disjE exE conjE)
    assume h: "parse_any_hidden g s n hid j = Done None" and "p = j"
    have a: "skip_any g s n (ign @ hid) j = Done None"
      using none h by (simp add: skip_any_def choice_append parse_any_hidden_choice [of g s n hid])
    then have "skip_without g s n (Suc 0) hid ign j = Done p" using \<open>p = j\<close> by simp
    then show ?thesis using a \<open>p = j\<close> by blast
  next
    fix e k ls
    assume h: "parse_any_hidden g s n hid j = Done (Some (e, k))"
      and r: "skip_with g s n c hid ign k = Done (p, ls)"
    obtain d where d: "skip_without g s n d hid ign k = Done p" "skip_any g s n (ign @ hid) p = Done None"
      using Suc.IH [OF r] by blast
    have "skip_without g s n (Suc d) hid ign j = Done p"
      using d(1) none h by (simp add: skip_any_def choice_append parse_any_hidden_choice [of g s n hid])
    then show ?thesis using d(2) by blast
  qed
  then show ?case using skip_without_ignored [OF j] by blast
qed simp

lemma skip_without_mono: "refines (skip_without g s n d hid ign i) (skip_without g s n (Suc d) hid ign i)"
  by (induction d arbitrary: i) (auto intro!: refines_intros)

lemma skip_with_more: "refines (skip_with g s n c hid ign i) (skip_with g s (Suc n) (Suc c) hid ign i)"
proof -
  have any: "refines (skip_any g s n es i) (skip_any g s (Suc n) es i)" for es i
    unfolding skip_any_def by (rule combinators_refine) (rule terminal_mono)
  have ign: "refines (skip_ignored g s n k ign i) (skip_ignored g s (Suc n) (Suc k) ign i)" for k ign i
    by (induction k arbitrary: i) (auto intro!: refines_intros any)
  have hid: "refines (parse_any_hidden g s n es i) (parse_any_hidden g s (Suc n) es i)" for es i
    by (induction es) (auto intro!: refines_intros terminal_mono simp del: terminal.simps)
  show ?thesis
    by (induction c arbitrary: i)
      (auto intro!: refines_intros ign hid simp del: skip_ignored.simps)
qed

subsection \<open>Skipping returns\<close>

definition skip_rules :: "grammar \<Rightarrow> expr list \<Rightarrow> bool" where
  "skip_rules g es \<longleftrightarrow> wf_grammar g \<and> (\<forall>e \<in> set es. wf_expr g e \<and> ok_skip_rule g e)"

lemma skip_any_step:
  assumes "skip_rules g es" "i \<le> length s" "skip_any g s n es i = Done (Some j)"
  shows "i < j \<and> j \<le> length s"
proof -
  have "list_all (well_formed g) es" using assms(1) by (auto simp: skip_rules_def list_all_iff)
  from terminal_matcher.choice_bounds [OF this assms(2), of n j] show ?thesis
    using assms(1,3) by (auto simp: skip_any_def skip_rules_def ok_skip_rule_def list_ex_iff)
qed

abbreviation all_return :: "grammar \<Rightarrow> string \<Rightarrow> nat \<Rightarrow> expr list \<Rightarrow> bool" where
  "all_return g s n es \<equiv> \<forall>e \<in> set es. \<forall>k \<le> length s. terminal g s n e k \<noteq> Out_of_fuel"

lemma skip_any_returns: "all_return g s n es \<Longrightarrow> i \<le> length s \<Longrightarrow> skip_any g s n es i \<noteq> Out_of_fuel"
  by (simp add: skip_any_def terminal_matcher.choice_returns)

lemma skip_ignored_returns:
  "skip_rules g ign \<Longrightarrow> all_return g s n ign \<Longrightarrow> i \<le> length s \<Longrightarrow> length s - i < c \<Longrightarrow>
    \<exists>j. skip_ignored g s n c ign i = Done j \<and> i \<le> j \<and> j \<le> length s"
proof (induction c arbitrary: i)
  case (Suc c)
  show ?case
  proof (cases "skip_any g s n ign i")
    case Out_of_fuel
    then show ?thesis using skip_any_returns [OF Suc.prems(2,3)] by simp
  next
    case (Done m)
    show ?thesis
    proof (cases m)
      case None
      then show ?thesis using Done Suc.prems(3) by simp
    next
      case (Some k)
      then have k: "i < k \<and> k \<le> length s" using skip_any_step [OF Suc.prems(1,3)] Done by simp
      then have "\<exists>j. skip_ignored g s n c ign k = Done j \<and> k \<le> j \<and> j \<le> length s"
        using Suc.prems by (intro Suc.IH) auto
      then show ?thesis using Done Some k by auto
    qed
  qed
qed simp

text \<open>The leaves created on the way lie in order between the start and the end.\<close>

fun leaves_between :: "nat \<Rightarrow> nat \<Rightarrow> (expr \<times> nat \<times> nat) list \<Rightarrow> bool" where
  "leaves_between i p [] = (i \<le> p)"
| "leaves_between i p ((e, a, b) # ls) = (i \<le> a \<and> a < b \<and> leaves_between b p ls)"

lemma leaves_between_le: "leaves_between i p ls \<Longrightarrow> i \<le> p"
  by (induction i p ls rule: leaves_between.induct) auto

lemma skip_with_returns:
  assumes "skip_rules g ign" "skip_rules g hid" "all_return g s n ign" "all_return g s n hid" "length s < n"
  shows "i \<le> length s \<Longrightarrow> length s - i < c \<Longrightarrow>
    \<exists>p ls. skip_with g s n c hid ign i = Done (p, ls) \<and> leaves_between i p ls \<and> p \<le> length s"
proof (induction c arbitrary: i)
  case (Suc c)
  obtain j where j: "skip_ignored g s n n ign i = Done j" "i \<le> j" "j \<le> length s"
    using skip_ignored_returns [OF assms(1,3) Suc.prems(1) less_imp_diff_less [OF assms(5)]] by blast
  have "skip_any g s n hid j \<noteq> Out_of_fuel" by (rule skip_any_returns [OF assms(4) j(3)])
  then have "parse_any_hidden g s n hid j \<noteq> Out_of_fuel"
    by (auto simp: skip_any_def parse_any_hidden_choice)
  then consider "parse_any_hidden g s n hid j = Done None"
    | e k where "parse_any_hidden g s n hid j = Done (Some (e, k))"
    by (metis option.exhaust outcome.exhaust surj_pair)
  then show ?case
  proof cases
    case 1
    then show ?thesis using j by simp
  next
    case (2 e k)
    then have k: "j < k \<and> k \<le> length s"
      using skip_any_step [OF assms(2) j(3), of n k] by (simp add: skip_any_def parse_any_hidden_choice)
    then have "\<exists>p ls. skip_with g s n c hid ign k = Done (p, ls) \<and> leaves_between k p ls \<and> p \<le> length s"
      using Suc.prems j by (intro Suc.IH) auto
    then show ?thesis using 2 j k by auto
  qed
qed simp

lemma skip_without_returns:
  assumes "skip_rules g (ign @ hid)" "all_return g s n (ign @ hid)"
  shows "i \<le> length s \<Longrightarrow> length s - i < c \<Longrightarrow> skip_without g s n c hid ign i \<noteq> Out_of_fuel"
proof (induction c arbitrary: i)
  case (Suc c)
  have "skip_without g s n c hid ign k \<noteq> Out_of_fuel" if k: "skip_any g s n (ign @ hid) i = Done (Some k)" for k
    using skip_any_step [OF assms(1) Suc.prems(1) k] Suc.prems by (intro Suc.IH) auto
  then show ?case
    using skip_any_returns [OF assms(2) Suc.prems(1)] by (auto simp: bind_option_out_iff)
qed simp

lemma skip_rules_return:
  assumes "not_left_recursive g rk" "skip_rules g es"
  shows "\<exists>N. \<forall>n \<ge> N. all_return g s n es"
proof -
  let ?A = "set es \<times> {..length s}"
  have "returns (\<lambda>n. terminal g s n (fst p) (snd p))" if "p \<in> ?A" for p
    using that assms(2)
    by (intro terminal_returns [OF assms(1)]) (auto simp: skip_rules_def capable_def ok_skip_rule_def)
  from returns_finite [of ?A "\<lambda>p n. terminal g s n (fst p) (snd p)", OF _ this]
  obtain N where "\<forall>n \<ge> N. \<forall>p \<in> ?A. terminal g s n (fst p) (snd p) \<noteq> Out_of_fuel" by auto
  then show ?thesis by (intro exI [of _ N]) auto
qed

lemma skip_rules_append: "skip_rules g (xs @ ys) \<longleftrightarrow> skip_rules g xs \<and> skip_rules g ys"
  by (auto simp: skip_rules_def)

lemma skippers_at:
  assumes "skip_rules g (ign @ hid)" "all_return g s n (ign @ hid)" "i \<le> length s" "length s < n"
  obtains p ls where "skip_with g s n n hid ign i = Done (p, ls)" "skip_without g s n n hid ign i = Done p"
    "leaves_between i p ls" "p \<le> length s" "skip_any g s n (ign @ hid) p = Done None"
proof -
  have a: "skip_rules g ign" "skip_rules g hid" "all_return g s n ign" "all_return g s n hid"
    using assms(1,2) by (auto simp: skip_rules_append)
  have c: "length s - i < n" using assms(4) by simp
  obtain p ls where w: "skip_with g s n n hid ign i = Done (p, ls)" "leaves_between i p ls" "p \<le> length s"
    using skip_with_returns [OF a assms(4,3) c] by blast
  obtain d where d: "skip_without g s n d hid ign i = Done p" and none: "skip_any g s n (ign @ hid) p = Done None"
    using skip_without_of_with [OF w(1)] by blast
  obtain q where q: "skip_without g s n n hid ign i = Done q"
    using skip_without_returns [OF assms(1,2,3) c] by (cases "skip_without g s n n hid ign i") auto
  have "q = p"
    by (rule Done_unique [of "\<lambda>c. skip_without g s n c hid ign i", OF skip_without_mono q d])
  then show thesis using w q none that by blast
qed

subsection \<open>Literals\<close>

definition fold_case :: "bool \<Rightarrow> char \<Rightarrow> char" where
  "fold_case cs = (if cs then (\<lambda>c. c) else tolower)"

lemma literal_terminal_iff:
  "list_all (\<lambda>c. c \<noteq> CHR 0x00) l \<Longrightarrow> i \<le> length s \<Longrightarrow>
    literal_terminal cs l s i =
      (if i + length l \<le> length s \<and> map (fold_case cs) (take (length l) (drop i s)) = l
       then Some (i + length l) else None)"
proof (induction cs l s i rule: literal_terminal.induct)
  case (2 cs l ls s i)
  show ?case
  proof (cases "i < length s")
    case True
    have IH: "fold_case cs (s ! i) = l \<Longrightarrow> literal_terminal cs ls s (i + 1) =
      (if i + 1 + length ls \<le> length s \<and> map (fold_case cs) (take (length ls) (drop (i + 1) s)) = ls
       then Some (i + 1 + length ls) else None)"
      using 2 True by (auto simp: byte_at_in fold_case_def)
    show ?thesis using IH True
      by (auto simp: byte_at_in fold_case_def Cons_nth_drop_Suc [symmetric])
  next
    case False
    then have "(if cs then byte_at s i else tolower (byte_at s i)) \<noteq> l"
      using 2(2) byte_at_out [of s i] tolower_nul [of "CHR 0x00"] by auto
    then show ?thesis using False 2(3) by auto
  qed
qed simp

subsection \<open>Properties\<close>

text \<open>
  C7: terminal matching returns. On a well-formed grammar that is not left-recursive every
  terminal-capable expression has one result at every position, the same for every large enough
  bound; a match ends inside the text, and behind its start when the expression is not nullable.
\<close>

theorem terminal_total:
  assumes "wf_grammar g" and "not_left_recursive g rk" and "wf_expr g e" and "terminal_capable g e"
    and "i \<le> length s"
  shows "\<exists>m N. (\<forall>n \<ge> N. terminal g s n e i = Done m) \<and>
    (case m of None \<Rightarrow> True | Some j \<Rightarrow> i \<le> j \<and> j \<le> length s \<and> (\<not> nullable g e \<longrightarrow> i < j))"
proof -
  have "capable g e" using assms by (simp add: capable_def)
  from terminal_returns [OF assms(2) this assms(5)]
  obtain N where N: "\<forall>n \<ge> N. terminal g s n e i \<noteq> Out_of_fuel" by (auto simp: returns_def)
  then obtain m where m: "terminal g s N e i = Done m" by (cases "terminal g s N e i") auto
  have "terminal g s n e i = Done m" if "n \<ge> N" for n
  proof -
    have "refines (terminal g s N e i) (terminal g s n e i)"
      by (rule refines_mono [of "\<lambda>n. terminal g s n e i", OF terminal_mono that])
    then show ?thesis using m by simp
  qed
  moreover have "i \<le> j \<and> j \<le> length s \<and> (\<not> nullable g e \<longrightarrow> i < j)" if "m = Some j" for j
    using terminal_matcher.step [of g e i s N j] assms m that by blast
  ultimately show ?thesis by (intro exI [of _ m] exI [of _ N]) (auto split: option.splits)
qed

text \<open>A grammar to instantiate: the rule of identifiers and the rule of white space.\<close>

definition id_rule :: rule where
  "id_rule = \<lparr>rkind = TerminalKind, rbody = Repetition 1 size_max (CharacterRange ''a-z''),
     rnullable = False, rskipper = None\<rparr>"

definition ws_rule :: rule where
  "ws_rule = \<lparr>rkind = TerminalKind, rbody = Repetition 1 size_max (Literal '' '' True),
     rnullable = False, rskipper = None\<rparr>"

definition id_grammar :: grammar where
  "id_grammar r = (if r = 0 then id_rule else ws_rule)"

lemma id_range: "\<exists>t. createCharacterRange ''a-z'' = Some t \<and> \<not> t CHR 0x00"
  by (simp add: createCharacterRange_def mark_range_iff)

lemma id_grammar_wf: "wf_grammar id_grammar" "not_left_recursive id_grammar (\<lambda>_. 0)"
  using id_range
  by (auto simp: wf_grammar_def wf_rule_def id_grammar_def id_rule_def ws_rule_def not_left_recursive_def)

theorem terminal_total_witness:
  "\<exists>m N. (\<forall>n \<ge> N. terminal id_grammar ''ab c'' n (RuleRef 0) 0 = Done m) \<and>
    (case m of None \<Rightarrow> True | Some j \<Rightarrow> 0 \<le> j \<and> j \<le> length ''ab c'' \<and>
      (\<not> nullable id_grammar (RuleRef 0) \<longrightarrow> 0 < j))"
  by (rule terminal_total [OF id_grammar_wf]) (simp_all add: id_grammar_def id_rule_def)

text \<open>
  C8: the two skippers agree. With hidden and ignored rules as the code demands them, the skipper
  that records hidden leaves and the one that records nothing both return and stop at the same
  position, where no skipped rule matches any more; the recorded leaves are not empty and lie in
  order between start and end.
\<close>

theorem skippers_agree:
  assumes "skip_rules g (ign @ hid)" and "not_left_recursive g rk" and "i \<le> length s"
  shows "\<exists>p ls N. \<forall>n \<ge> N. skip_with g s n n hid ign i = Done (p, ls) \<and>
    skip_without g s n n hid ign i = Done p \<and> skip_any g s n (ign @ hid) p = Done None \<and>
    leaves_between i p ls \<and> p \<le> length s"
proof -
  obtain N where N: "\<forall>n \<ge> N. all_return g s n (ign @ hid)"
    using skip_rules_return [OF assms(2,1)] by blast
  define M where "M = max N (Suc (length s))"
  have M: "all_return g s n (ign @ hid)" "length s < n" if "M \<le> n" for n
    using N that by (auto simp: M_def)
  obtain p ls where p: "skip_with g s M M hid ign i = Done (p, ls)"
    using skippers_at [OF assms(1) M(1) assms(3) M(2)] by blast
  have "skip_with g s n n hid ign i = Done (p, ls)" if "M \<le> n" for n
    using refines_mono [of "\<lambda>n. skip_with g s n n hid ign i", OF skip_with_more that] p by simp
  then have "skip_with g s n n hid ign i = Done (p, ls) \<and> skip_without g s n n hid ign i = Done p \<and>
      skip_any g s n (ign @ hid) p = Done None \<and> leaves_between i p ls \<and> p \<le> length s"
    if n: "M \<le> n" for n
  proof -
    obtain p' ls' where "skip_with g s n n hid ign i = Done (p', ls')" "skip_without g s n n hid ign i = Done p'"
      "leaves_between i p' ls'" "p' \<le> length s" "skip_any g s n (ign @ hid) p' = Done None"
      by (rule skippers_at [OF assms(1) M(1) assms(3) M(2), OF n n])
    then show ?thesis using \<open>\<And>n. M \<le> n \<Longrightarrow> skip_with g s n n hid ign i = Done (p, ls)\<close> [OF n] by simp
  qed
  then show ?thesis by blast
qed

theorem skippers_agree_witness:
  "\<exists>p ls N. \<forall>n \<ge> N. skip_with id_grammar ''  ab'' n n [RuleRef 1] [] 0 = Done (p, ls) \<and>
    skip_without id_grammar ''  ab'' n n [RuleRef 1] [] 0 = Done p \<and>
    skip_any id_grammar ''  ab'' n ([] @ [RuleRef 1]) p = Done None \<and>
    leaves_between 0 p ls \<and> p \<le> length ''  ab''"
  by (rule skippers_agree [OF _ id_grammar_wf(2)])
    (simp_all add: skip_rules_def id_grammar_wf ok_skip_rule_def id_grammar_def ws_rule_def)

text \<open>
  A literal matches exactly where the text spells it: for a case-sensitive literal the bytes
  are equal, for a case-insensitive one the lower-cased bytes are; the match ends behind it and
  never beyond the text.
\<close>

theorem literal_terminal_correct:
  assumes "wf_expr g (Literal l cs)" and "i \<le> length s"
  shows "terminal g s (Suc n) (Literal l cs) i =
    Done (if i + length l \<le> length s \<and>
             (if cs then take (length l) (drop i s) else map tolower (take (length l) (drop i s))) = l
          then Some (i + length l) else None)"
proof -
  have "list_all (\<lambda>c. c \<noteq> CHR 0x00) l" using assms(1) by simp
  from literal_terminal_iff [OF this assms(2), of cs] show ?thesis by (simp add: fold_case_def)
qed

theorem literal_terminal_correct_witness:
  "terminal id_grammar ''a IF b'' (Suc 0) (Literal ''if'' False) 2 =
    Done (if 2 + length ''if'' \<le> length ''a IF b'' \<and>
             (if False then take (length ''if'') (drop 2 ''a IF b'')
              else map tolower (take (length ''if'') (drop 2 ''a IF b''))) = ''if''
          then Some (2 + length ''if'') else None)"
  by (rule literal_terminal_correct) simp_all

end
