(* ===== verification/Peg.thy ===== *)
theory Peg
  imports TerminalSkip CstTree
begin

text \<open>
  The specification of strict parsing: what an expression matches from a position, as a parsing
  expression grammar over positions and forests, without builder, checkpoints or shared memory.
  A position is a cursor with the end of the last visible token. The lookahead of the predicates
  is the code's: what \<open>probe\<close> and \<open>attempt_fast_probe\<close> (\<open>ParseMode.hpp\<close>, \<open>ParseAttempt.hpp\<close>)
  look at.
\<close>

type_synonym pegged = "(nat \<times> nat \<times> expr tree list) option outcome"
type_synonym skip_fun = "nat \<Rightarrow> (nat \<times> expr tree list) outcome"
text \<open>A skipper: its hidden and its ignored rules (\<open>SkipperContext\<close>).\<close>

datatype skipper = Skipper (hiddenRules: "expr list") (ignoredRules: "expr list")

subsection \<open>Tokens\<close>

text \<open>\<open>is_word_like_terminal\<close>: the literal is a sequence of identifier-like code points.\<close>

function word_like_from :: "string \<Rightarrow> nat \<Rightarrow> bool" where
  "word_like_from value cursor =
     (if cursor < length value then
        (let len = utf8_codepoint_length (byte_at value cursor) in
         if len = 0 \<or> length value - cursor < len then False
         else if \<not> is_identifier_like_codepoint (decode_utf8_codepoint value cursor) then False
         else word_like_from value (cursor + len))
      else True)"
  by pat_completeness auto
termination by (relation "measure (\<lambda>(value, cursor). length value - cursor)") auto

declare word_like_from.simps [simp del]

definition is_word_like_terminal :: "string \<Rightarrow> bool" where
  "is_word_like_terminal value = (value \<noteq> [] \<and> word_like_from value 0)"

definition has_word_boundary_violation :: "string \<Rightarrow> string \<Rightarrow> nat \<Rightarrow> bool" where
  "has_word_boundary_violation l s matchedEnd =
     (is_word_like_terminal l \<and> is_identifier_like_codepoint_at s (Some matchedEnd) (length s))"

definition literal_token :: "bool \<Rightarrow> string \<Rightarrow> string \<Rightarrow> nat \<Rightarrow> nat option" where
  "literal_token cs l s i = (case literal_terminal cs l s i of None \<Rightarrow> None
     | Some j \<Rightarrow> if has_word_boundary_violation l s j then None else Some j)"

definition token :: "expr \<Rightarrow> nat \<Rightarrow> nat option \<Rightarrow> (nat \<times> nat \<times> expr tree list) option" where
  "token e i m = (case m of None \<Rightarrow> None | Some j \<Rightarrow> Some (j, j, [Tree i j e False False []]))"

subsection \<open>Combinators\<close>

definition hidden_trees :: "(expr \<times> nat \<times> nat) list \<Rightarrow> expr tree list" where
  "hidden_trees ls = map (\<lambda>(e, a, b). Tree a b e True False []) ls"

definition peg_skip :: "grammar \<Rightarrow> string \<Rightarrow> nat \<Rightarrow> skipper \<Rightarrow> skip_fun" where
  "peg_skip g s n sk i =
     bind_out (skip_with g s n n (hiddenRules sk) (ignoredRules sk) i) (\<lambda>(j, ls). Done (j, hidden_trees ls))"

definition in_front :: "expr tree list \<Rightarrow> pegged \<Rightarrow> pegged" where
  "in_front fs r = bind_out r (\<lambda>m. Done (map_option (\<lambda>(j, w, gs). (j, w, fs @ gs)) m))"

definition maybe_skip :: "skip_fun \<Rightarrow> bool \<Rightarrow> skip_fun" where
  "maybe_skip skp first i = (if first then Done (i, []) else skp i)"

fun peg_seq :: "(expr \<Rightarrow> nat \<Rightarrow> nat \<Rightarrow> pegged) \<Rightarrow> skip_fun \<Rightarrow> bool \<Rightarrow> expr list \<Rightarrow> nat \<Rightarrow> nat \<Rightarrow> pegged" where
  "peg_seq p skp first [] i v = Done (Some (i, v, []))"
| "peg_seq p skp first (e # es) i v =
     bind_out (maybe_skip skp first i) (\<lambda>(k, hs). bind_out (p e k v) (\<lambda>m. case m of
         None \<Rightarrow> Done None
       | Some (j, w, fs) \<Rightarrow> in_front (hs @ fs) (peg_seq p skp False es j w)))"

fun peg_choice :: "(expr \<Rightarrow> nat \<Rightarrow> nat \<Rightarrow> pegged) \<Rightarrow> expr list \<Rightarrow> nat \<Rightarrow> nat \<Rightarrow> pegged" where
  "peg_choice p [] i v = Done None"
| "peg_choice p (e # es) i v =
     bind_out (p e i v) (\<lambda>m. case m of None \<Rightarrow> peg_choice p es i v | Some r \<Rightarrow> Done (Some r))"

text \<open>Further items of a repetition: as many as there are, up to \<open>c\<close>, or exactly \<open>c\<close>.\<close>

fun peg_star :: "(nat \<Rightarrow> nat \<Rightarrow> pegged) \<Rightarrow> skip_fun \<Rightarrow> nat \<Rightarrow> nat \<Rightarrow> nat \<Rightarrow> pegged" where
  "peg_star p skp 0 i v = Out_of_fuel"
| "peg_star p skp (Suc n) i v =
     bind_out (skp i) (\<lambda>(k, hs). bind_out (p k v) (\<lambda>m. case m of
         None \<Rightarrow> Done (Some (i, v, []))
       | Some (j, w, fs) \<Rightarrow> in_front (hs @ fs) (peg_star p skp n j w)))"

fun peg_upto :: "(nat \<Rightarrow> nat \<Rightarrow> pegged) \<Rightarrow> skip_fun \<Rightarrow> nat \<Rightarrow> nat \<Rightarrow> nat \<Rightarrow> pegged" where
  "peg_upto p skp 0 i v = Done (Some (i, v, []))"
| "peg_upto p skp (Suc c) i v =
     bind_out (skp i) (\<lambda>(k, hs). bind_out (p k v) (\<lambda>m. case m of
         None \<Rightarrow> Done (Some (i, v, []))
       | Some (j, w, fs) \<Rightarrow> in_front (hs @ fs) (peg_upto p skp c j w)))"

fun peg_times :: "(nat \<Rightarrow> nat \<Rightarrow> pegged) \<Rightarrow> skip_fun \<Rightarrow> nat \<Rightarrow> nat \<Rightarrow> nat \<Rightarrow> pegged" where
  "peg_times p skp 0 i v = Done (Some (i, v, []))"
| "peg_times p skp (Suc c) i v =
     bind_out (skp i) (\<lambda>(k, hs). bind_out (p k v) (\<lambda>m. case m of
         None \<Rightarrow> Done None
       | Some (j, w, fs) \<Rightarrow> in_front (hs @ fs) (peg_times p skp c j w)))"

definition peg_then :: "pegged \<Rightarrow> pegged \<Rightarrow> (nat \<Rightarrow> nat \<Rightarrow> pegged) \<Rightarrow> pegged" where
  "peg_then r none f = bind_out r (\<lambda>m. case m of None \<Rightarrow> none | Some (j, w, fs) \<Rightarrow> in_front fs (f j w))"

definition peg_repetition ::
  "(nat \<Rightarrow> nat \<Rightarrow> pegged) \<Rightarrow> skip_fun \<Rightarrow> nat \<Rightarrow> nat \<Rightarrow> nat \<Rightarrow> nat \<Rightarrow> nat \<Rightarrow> pegged" where
  "peg_repetition p skp n mn mx i v =
     (let empty = Done (Some (i, v, [])) in
      if mn = 0 \<and> mx = 1 then peg_then (p i v) empty (\<lambda>j w. Done (Some (j, w, [])))
      else if mn = 0 \<and> mx = size_max then peg_then (p i v) empty (peg_star p skp n)
      else if mn = 1 \<and> mx = size_max then peg_then (p i v) (Done None) (peg_star p skp n)
      else if mn = mx \<and> mn > 0 then peg_then (p i v) (Done None) (peg_times p skp (mn - 1))
      else if mn = 0 then peg_then (p i v) empty (peg_upto p skp (mx - 1))
      else peg_then (p i v) (Done None) (\<lambda>j w.
        peg_then (peg_times p skp (mn - 1) j w) (Done None) (peg_upto p skp (mx - mn))))"

text \<open>Unordered groups: the first unmatched element that matches, until all have.\<close>

fun peg_one_of :: "(expr \<Rightarrow> nat \<Rightarrow> nat \<Rightarrow> pegged) \<Rightarrow> (expr \<times> bool) list \<Rightarrow> nat \<Rightarrow> nat \<Rightarrow>
    ((nat \<times> nat \<times> expr tree list) \<times> (expr \<times> bool) list) option outcome" where
  "peg_one_of p [] i v = Done None"
| "peg_one_of p ((e, matched) # fl) i v =
     bind_out (if matched then Done None else p e i v) (\<lambda>m. case m of
         None \<Rightarrow> bind_out (peg_one_of p fl i v)
           (\<lambda>r. Done (map_option (\<lambda>(x, fl'). (x, (e, matched) # fl')) r))
       | Some x \<Rightarrow> Done (Some (x, (e, True) # fl)))"

fun peg_unordered :: "(expr \<Rightarrow> nat \<Rightarrow> nat \<Rightarrow> pegged) \<Rightarrow> skip_fun \<Rightarrow> bool \<Rightarrow> nat \<Rightarrow>
    (expr \<times> bool) list \<Rightarrow> nat \<Rightarrow> nat \<Rightarrow> pegged" where
  "peg_unordered p skp first 0 fl i v = Done (Some (i, v, []))"
| "peg_unordered p skp first (Suc c) fl i v =
     bind_out (maybe_skip skp first i) (\<lambda>(k, hs). bind_out (peg_one_of p fl k v) (\<lambda>m. case m of
         None \<Rightarrow> Done None
       | Some ((j, w, fs), fl') \<Rightarrow> in_front (hs @ fs) (peg_unordered p skp False c fl' j w)))"

definition unmatched :: "expr list \<Rightarrow> (expr \<times> bool) list" where
  "unmatched es = map (\<lambda>e. (e, False)) es"

subsection \<open>Nodes\<close>

definition node :: "expr \<Rightarrow> nat \<Rightarrow> pegged \<Rightarrow> pegged" where
  "node e i r = bind_out r (\<lambda>m. Done (map_option (\<lambda>(j, w, fs). (j, w, [Tree i w e False False fs])) m))"

fun set_element :: "'e \<Rightarrow> 'e tree \<Rightarrow> 'e tree" where
  "set_element e (Tree b n x h r ts) = Tree b n e h r ts"

definition override_first :: "'e \<Rightarrow> 'e tree list \<Rightarrow> 'e tree list" where
  "override_first e fs = (case fs of [] \<Rightarrow> [] | t # ts \<Rightarrow> set_element e t # ts)"

definition overriding :: "expr \<Rightarrow> pegged \<Rightarrow> pegged" where
  "overriding e r = bind_out r (\<lambda>m. Done (map_option (\<lambda>(j, w, fs). (j, w, override_first e fs)) m))"

definition local_skipper :: "grammar \<Rightarrow> nat \<Rightarrow> skipper \<Rightarrow> skipper" where
  "local_skipper g r sk = (case rskipper (g r) of None \<Rightarrow> sk | Some p \<Rightarrow> Skipper (fst p) (snd p))"

subsection \<open>Lookahead\<close>

fun any_outcome :: "(expr \<Rightarrow> bool outcome) \<Rightarrow> expr list \<Rightarrow> bool outcome" where
  "any_outcome p [] = Done False"
| "any_outcome p (e # es) = bind_out (p e) (\<lambda>m. if m then Done True else any_outcome p es)"

text \<open>\<open>fast_probe_elements\<close>: the elements up to the first that is not nullable.\<close>

fun group_starts :: "grammar \<Rightarrow> (expr \<Rightarrow> bool outcome) \<Rightarrow> expr list \<Rightarrow> bool outcome" where
  "group_starts g p [] = Done False"
| "group_starts g p (e # es) =
     bind_out (p e) (\<lambda>m. if m then Done True else if nullable g e then group_starts g p es else Done False)"

definition matches_outcome :: "pegged \<Rightarrow> bool outcome" where
  "matches_outcome r = bind_out r (\<lambda>m. Done (m \<noteq> None))"

text \<open>Whether the C++ types offer \<open>probe_impl\<close> and \<open>fast_probe_impl\<close>.\<close>

fun has_fast_probe :: "expr \<Rightarrow> bool" where
  "has_fast_probe (Group es) = True"
| "has_fast_probe (OrderedChoice es) = True"
| "has_fast_probe (Repetition mn mx e) = True"
| "has_fast_probe (Create t) = True"
| "has_fast_probe (Assignment a e) = True"
| "has_fast_probe (SkipperWrapped e hid ign) = has_fast_probe e"
| "has_fast_probe _ = False"

fun has_probe :: "expr \<Rightarrow> bool" where
  "has_probe (UnorderedGroup es) = False"
| "has_probe (RuleRef r) = False"
| "has_probe (Nest t) = False"
| "has_probe (Assignment a e) = False"
| "has_probe (SkipperWrapped e hid ign) = has_probe e"
| "has_probe _ = True"

subsection \<open>The grammar's meaning\<close>

text \<open>
  \<open>fast_probe_impl\<close> of a parser rule does not compile for the strict context (its wrapper only
  takes a tracked one), so there is no result for it.
\<close>

text \<open>One call, given the calls it makes: \<open>P\<close> parses, \<open>Q\<close> probes and \<open>F\<close> probes fast.\<close>

type_synonym peg_fun = "skipper \<Rightarrow> expr \<Rightarrow> nat \<Rightarrow> nat \<Rightarrow> pegged"
type_synonym probe_fun = "skipper \<Rightarrow> nat \<Rightarrow> nat \<Rightarrow> expr \<Rightarrow> bool outcome"

definition peg_step :: "grammar \<Rightarrow> string \<Rightarrow> nat \<Rightarrow> peg_fun \<Rightarrow> probe_fun \<Rightarrow> peg_fun" where
  "peg_step g s n P Q sk e i v =
     (case e of
        AnyCharacter \<Rightarrow> Done (token e i (any_terminal s i))
      | CharacterRange r \<Rightarrow> Done (token e i (range_terminal r s i))
      | Literal l cs \<Rightarrow> Done (token e i (literal_token cs l s i))
      | Group es \<Rightarrow> peg_seq (P sk) (peg_skip g s n sk) True es i v
      | OrderedChoice es \<Rightarrow> peg_choice (P sk) es i v
      | UnorderedGroup es \<Rightarrow>
          peg_unordered (P sk) (peg_skip g s n sk) True (length es) (unmatched es) i v
      | Repetition mn mx x \<Rightarrow> peg_repetition (P sk x) (peg_skip g s n sk) n mn mx i v
      | AndPredicate x \<Rightarrow> bind_out (Q sk i v x) (\<lambda>m. Done (if m then Some (i, v, []) else None))
      | NotPredicate x \<Rightarrow> bind_out (Q sk i v x) (\<lambda>m. Done (if m then None else Some (i, v, [])))
      | RuleRef r \<Rightarrow>
          (if rkind (g r) = TerminalKind
           then bind_out (terminal g s n (rbody (g r)) i) (\<lambda>m. Done (token e i m))
           else node e i (P (local_skipper g r sk) (rbody (g r)) i v))
      | Create t \<Rightarrow> Done (token e i (Some i))
      | Nest t \<Rightarrow> Done (token e i (Some i))
      | Assignment a x \<Rightarrow>
          (if isOrderedChoice x then node e i (P sk x i v) else overriding e (P sk x i v))
      | SkipperWrapped x hid ign \<Rightarrow> P (Skipper hid ign) x i v)"

definition peg_probe_step :: "grammar \<Rightarrow> string \<Rightarrow> peg_fun \<Rightarrow> probe_fun \<Rightarrow> probe_fun \<Rightarrow> probe_fun" where
  "peg_probe_step g s P Q F sk i v e =
     (if \<not> has_probe e then matches_outcome (P sk e i v)
      else case e of
        AnyCharacter \<Rightarrow> Done (any_terminal s i \<noteq> None)
      | CharacterRange r \<Rightarrow> Done (range_terminal r s i \<noteq> None)
      | Literal l cs \<Rightarrow> Done (literal_token cs l s i \<noteq> None)
      | Group es \<Rightarrow> group_starts g (F sk i v) es
      | OrderedChoice es \<Rightarrow> any_outcome (Q sk i v) es
      | Repetition mn mx x \<Rightarrow> F sk i v x
      | AndPredicate x \<Rightarrow> Q sk i v x
      | NotPredicate x \<Rightarrow> bind_out (Q sk i v x) (\<lambda>m. Done (\<not> m))
      | Create t \<Rightarrow> Done False
      | SkipperWrapped x hid ign \<Rightarrow> Q sk i v x
      | _ \<Rightarrow> matches_outcome (P sk e i v))"

definition peg_fast_step :: "grammar \<Rightarrow> probe_fun \<Rightarrow> probe_fun \<Rightarrow> probe_fun" where
  "peg_fast_step g Q F sk i v e =
     (case e of
        Group es \<Rightarrow> group_starts g (F sk i v) es
      | OrderedChoice es \<Rightarrow> any_outcome (F sk i v) es
      | Repetition mn mx x \<Rightarrow> F sk i v x
      | Create t \<Rightarrow> Done False
      | Assignment a x \<Rightarrow> F sk i v x
      | SkipperWrapped x hid ign \<Rightarrow> if has_fast_probe x then F sk i v x else Q sk i v e
      | RuleRef r \<Rightarrow> if rkind (g r) = ParserKind then Out_of_fuel else Q sk i v e
      | _ \<Rightarrow> Q sk i v e)"

fun peg :: "grammar \<Rightarrow> string \<Rightarrow> nat \<Rightarrow> peg_fun"
  and peg_probe :: "grammar \<Rightarrow> string \<Rightarrow> nat \<Rightarrow> probe_fun"
  and peg_fast :: "grammar \<Rightarrow> string \<Rightarrow> nat \<Rightarrow> probe_fun" where
  "peg g s 0 = (\<lambda>_ _ _ _. Out_of_fuel)"
| "peg g s (Suc n) = peg_step g s n (peg g s n) (peg_probe g s n)"
| "peg_probe g s 0 = (\<lambda>_ _ _ _. Out_of_fuel)"
| "peg_probe g s (Suc n) = peg_probe_step g s (peg g s n) (peg_probe g s n) (peg_fast g s n)"
| "peg_fast g s 0 = (\<lambda>_ _ _ _. Out_of_fuel)"
| "peg_fast g s (Suc n) = peg_fast_step g (peg_probe g s n) (peg_fast g s n)"

end
