(* ===== verification/StrictParse.thy ===== *)
theory StrictParse
  imports Peg
begin

text \<open>
  Strict parsing as the code does it: a context (\<open>ParseContext\<close>) with a cursor over the text, the
  CST builder and the active skipper, mutated by every \<open>parse_impl\<close>, \<open>probe_impl\<close> and
  \<open>fast_probe_impl\<close>, with checkpoints taken and rewound where the code does. \<open>highWater\<close> is a ghost:
  the largest node count reached, to say that the capacity assertion of
  \<open>alloc_node_uninitialized\<close> never fired. Offsets are within the limit \<open>PegiumParser::parse\<close>
  enforces, so the casts to \<open>TextOffset\<close> are the identity.
\<close>

subsection \<open>The context\<close>

record pctx =
  cst :: "expr builder"
  cursor :: nat
  lastVisibleCursor :: nat
  activeSkipper :: skipper
  highWater :: nat

record ctx_checkpoint =
  cpCursor :: nat
  cpLastVisible :: nat
  cpBuilder :: checkpoint

type_synonym parse_fun = "pctx \<Rightarrow> (bool \<times> pctx) outcome"

definition new_context :: "(nat \<Rightarrow> expr cst_node) \<Rightarrow> skipper \<Rightarrow> pctx" where
  "new_context m sk = \<lparr>cst = new_builder m, cursor = 0, lastVisibleCursor = 0, activeSkipper = sk, highWater = 0\<rparr>"

definition ctx_mark :: "pctx \<Rightarrow> ctx_checkpoint" where
  "ctx_mark c = \<lparr>cpCursor = cursor c, cpLastVisible = lastVisibleCursor c, cpBuilder = mark (cst c)\<rparr>"

definition ctx_rewind :: "pctx \<Rightarrow> ctx_checkpoint \<Rightarrow> pctx" where
  "ctx_rewind c cp = c\<lparr>cst := rewind (cst c) (cpBuilder cp), cursor := cpCursor cp,
     lastVisibleCursor := cpLastVisible cp\<rparr>"

definition ctx_enter :: "pctx \<Rightarrow> pctx" where
  "ctx_enter c = c\<lparr>cst := enter (cst c), highWater := max (highWater c) (nodeCount (cst c) + 1)\<rparr>"

definition ctx_exit :: "nat \<Rightarrow> expr \<Rightarrow> pctx \<Rightarrow> pctx" where
  "ctx_exit start e c = c\<lparr>cst := exit_node start (lastVisibleCursor c) e (cst c)\<rparr>"

definition ctx_leaf :: "nat \<Rightarrow> expr \<Rightarrow> pctx \<Rightarrow> pctx" where
  "ctx_leaf endPos e c = c\<lparr>cst := leaf (cursor c) endPos e False False (cst c), cursor := endPos,
     lastVisibleCursor := endPos, highWater := max (highWater c) (nodeCount (cst c) + 1)\<rparr>"

definition ctx_override :: "nat \<Rightarrow> expr \<Rightarrow> pctx \<Rightarrow> pctx" where
  "ctx_override nid e c = c\<lparr>cst := override_grammar_element nid e (cst c)\<rparr>"

definition hidden_leaves :: "(expr \<times> nat \<times> nat) list \<Rightarrow> expr builder \<Rightarrow> expr builder" where
  "hidden_leaves ls b = fold (\<lambda>(e, x, y). leaf x y e True False) ls b"

definition ctx_skip :: "grammar \<Rightarrow> string \<Rightarrow> nat \<Rightarrow> pctx \<Rightarrow> pctx outcome" where
  "ctx_skip g s n c =
     bind_out (skip_with g s n n (hiddenRules (activeSkipper c)) (ignoredRules (activeSkipper c)) (cursor c))
       (\<lambda>(j, ls). Done (c\<lparr>cst := hidden_leaves ls (cst c), cursor := j,
          highWater := max (highWater c) (nodeCount (cst c) + length ls)\<rparr>))"

definition with_skipper :: "skipper \<Rightarrow> parse_fun \<Rightarrow> parse_fun" where
  "with_skipper sk f c = bind_out (f (c\<lparr>activeSkipper := sk\<rparr>))
     (\<lambda>(m, c'). Done (m, c'\<lparr>activeSkipper := activeSkipper c\<rparr>))"

subsection \<open>Combinators\<close>

definition bind_ok :: "(bool \<times> pctx) outcome \<Rightarrow> parse_fun \<Rightarrow> (bool \<times> pctx) outcome" where
  "bind_ok r f = bind_out r (\<lambda>(m, c). if m then f c else Done (False, c))"

definition token_parse :: "expr \<Rightarrow> nat option \<Rightarrow> pctx \<Rightarrow> (bool \<times> pctx) outcome" where
  "token_parse e m c = Done (case m of None \<Rightarrow> (False, c) | Some j \<Rightarrow> (True, ctx_leaf j e c))"

text \<open>\<open>attempt_parse_strict\<close>: a checkpoint unless the expression restores the context itself.\<close>

definition attempt_parse_strict :: "bool \<Rightarrow> parse_fun \<Rightarrow> parse_fun" where
  "attempt_parse_strict safe f c =
     (if safe then f c
      else bind_out (f c) (\<lambda>(m, c'). Done (if m then (True, c') else (False, ctx_rewind c' (ctx_mark c)))))"

definition skip_unless_first :: "(pctx \<Rightarrow> pctx outcome) \<Rightarrow> bool \<Rightarrow> pctx \<Rightarrow> pctx outcome" where
  "skip_unless_first skp first c = (if first then Done c else skp c)"

fun parse_elements :: "(expr \<Rightarrow> parse_fun) \<Rightarrow> (pctx \<Rightarrow> pctx outcome) \<Rightarrow> bool \<Rightarrow> expr list \<Rightarrow> parse_fun" where
  "parse_elements f skp first [] c = Done (True, c)"
| "parse_elements f skp first (e # es) c =
     bind_out (skip_unless_first skp first c)
       (\<lambda>c1. bind_ok (f e c1) (\<lambda>c2. parse_elements f skp False es c2))"

fun match_choice :: "(expr \<Rightarrow> parse_fun) \<Rightarrow> expr list \<Rightarrow> parse_fun" where
  "match_choice a [] c = Done (False, c)"
| "match_choice a (e # es) c =
     bind_out (a e c) (\<lambda>(m, c'). if m then Done (True, c') else match_choice a es c')"

text \<open>
  The loops of a repetition behind its first item: unbounded; counted with a rewind to behind
  the last item and the answer \<open>ans\<close>; counted without.
\<close>

fun star_loop :: "parse_fun \<Rightarrow> (pctx \<Rightarrow> pctx outcome) \<Rightarrow> nat \<Rightarrow> parse_fun" where
  "star_loop a skp 0 c = Out_of_fuel"
| "star_loop a skp (Suc n) c =
     bind_out (skp c) (\<lambda>c1. bind_out (a c1) (\<lambda>(m, c2).
       if m then star_loop a skp n c2 else Done (True, ctx_rewind c2 (ctx_mark c))))"

fun counted_loop :: "bool \<Rightarrow> parse_fun \<Rightarrow> (pctx \<Rightarrow> pctx outcome) \<Rightarrow> nat \<Rightarrow> parse_fun" where
  "counted_loop ans a skp 0 c = Done (True, c)"
| "counted_loop ans a skp (Suc k) c =
     bind_out (skp c) (\<lambda>c1. bind_out (a c1) (\<lambda>(m, c2).
       if m then counted_loop ans a skp k c2 else Done (ans, ctx_rewind c2 (ctx_mark c))))"

fun fixed_loop :: "parse_fun \<Rightarrow> (pctx \<Rightarrow> pctx outcome) \<Rightarrow> nat \<Rightarrow> parse_fun" where
  "fixed_loop f skp 0 c = Done (True, c)"
| "fixed_loop f skp (Suc k) c =
     bind_out (skp c) (\<lambda>c1. bind_ok (f c1) (\<lambda>c2. fixed_loop f skp k c2))"

definition or_true :: "(bool \<times> pctx) outcome \<Rightarrow> parse_fun \<Rightarrow> (bool \<times> pctx) outcome" where
  "or_true r f = bind_out r (\<lambda>(m, c). if m then f c else Done (True, c))"

definition parse_repetition ::
  "bool \<Rightarrow> parse_fun \<Rightarrow> (pctx \<Rightarrow> pctx outcome) \<Rightarrow> nat \<Rightarrow> nat \<Rightarrow> nat \<Rightarrow> parse_fun" where
  "parse_repetition safe f skp n mn mx c =
     (let a = attempt_parse_strict safe f in
      if mn = 0 \<and> mx = 1 then bind_out (a c) (\<lambda>(m, c'). Done (True, c'))
      else if mn = 0 \<and> mx = size_max then or_true (a c) (star_loop a skp n)
      else if mn = 1 \<and> mx = size_max then bind_ok (a c) (star_loop a skp n)
      else if mn = mx \<and> mn > 0 then bind_ok (f c) (fixed_loop f skp (mn - 1))
      else if mn = 0 then or_true (a c) (counted_loop True a skp (mx - 1))
      else bind_ok (a c) (\<lambda>c. bind_ok (counted_loop False a skp (mn - 1) c)
        (counted_loop True a skp (mx - mn))))"

fun try_match_one :: "(expr \<Rightarrow> parse_fun) \<Rightarrow> (expr \<times> bool) list \<Rightarrow> pctx \<Rightarrow>
    (bool \<times> (expr \<times> bool) list \<times> pctx) outcome" where
  "try_match_one a [] c = Done (False, [], c)"
| "try_match_one a ((e, matched) # fl) c =
     bind_out (if matched then Done (False, c) else a e c) (\<lambda>(m, c1).
       if m then Done (True, (e, True) # fl, c1)
       else bind_out (try_match_one a fl c1) (\<lambda>(m', fl', c2). Done (m', (e, matched) # fl', c2)))"

text \<open>\<open>parse_group\<close>: \<open>k\<close> elements are still to be matched; \<open>cp\<close> is \<open>groupCheckpoint\<close>.\<close>

fun parse_group_loop :: "(expr \<Rightarrow> parse_fun) \<Rightarrow> (pctx \<Rightarrow> pctx outcome) \<Rightarrow> ctx_checkpoint \<Rightarrow> bool \<Rightarrow> nat \<Rightarrow>
    (expr \<times> bool) list \<Rightarrow> parse_fun" where
  "parse_group_loop a skp cp first 0 fl c = Done (True, c)"
| "parse_group_loop a skp cp first (Suc k) fl c =
     bind_out (skip_unless_first skp first c) (\<lambda>c1. bind_out (try_match_one a fl c1) (\<lambda>(m, fl', c2).
       if m then parse_group_loop a skp cp False k fl' c2
       else Done (False, ctx_rewind (if first then c2 else ctx_rewind c2 (ctx_mark c)) cp)))"

definition parse_group :: "(expr \<Rightarrow> parse_fun) \<Rightarrow> (pctx \<Rightarrow> pctx outcome) \<Rightarrow> expr list \<Rightarrow> parse_fun" where
  "parse_group a skp es c = parse_group_loop a skp (ctx_mark c) True (length es) (unmatched es) c"

definition parse_wrapped_node :: "expr \<Rightarrow> parse_fun \<Rightarrow> parse_fun" where
  "parse_wrapped_node e f c = bind_ok (f (ctx_enter c)) (\<lambda>c'. Done (True, ctx_exit (cursor c) e c'))"

definition parse_overriding_first_child :: "expr \<Rightarrow> parse_fun \<Rightarrow> parse_fun" where
  "parse_overriding_first_child e f c = bind_ok (f c) (\<lambda>c'. Done (True,
     if nodeCount (cst c) < nodeCount (cst c') then ctx_override (nodeCount (cst c)) e c' else c'))"

text \<open>The local skipper of a rule, when it has one, is in force while its body is parsed.\<close>

definition with_local_skipper :: "grammar \<Rightarrow> nat \<Rightarrow> parse_fun \<Rightarrow> parse_fun" where
  "with_local_skipper g r f = (case rskipper (g r) of None \<Rightarrow> f | Some p \<Rightarrow> with_skipper (Skipper (fst p) (snd p)) f)"

subsection \<open>Lookahead\<close>

text \<open>\<open>ProbeAccess::probe\<close> without a \<open>probe_impl\<close>: parse and rewind.\<close>

definition generic_probe :: "parse_fun \<Rightarrow> parse_fun" where
  "generic_probe f c = bind_out (f c) (\<lambda>(m, c'). Done (m, ctx_rewind c' (ctx_mark c)))"

fun any_choice :: "(expr \<Rightarrow> parse_fun) \<Rightarrow> expr list \<Rightarrow> parse_fun" where
  "any_choice q [] c = Done (False, c)"
| "any_choice q (e # es) c = bind_out (q e c) (\<lambda>(m, c'). if m then Done (True, c') else any_choice q es c')"

fun fast_probe_elements :: "grammar \<Rightarrow> (expr \<Rightarrow> parse_fun) \<Rightarrow> expr list \<Rightarrow> parse_fun" where
  "fast_probe_elements g q [] c = Done (False, c)"
| "fast_probe_elements g q (e # es) c =
     bind_out (q e c) (\<lambda>(m, c'). if m then Done (True, c')
       else if nullable g e then fast_probe_elements g q es c' else Done (False, c'))"

subsection \<open>Parsing an expression\<close>

text \<open>The \<open>parse_impl\<close> of each type; \<open>P\<close> parses an element and \<open>Q\<close> probes it.\<close>

definition any_parse :: "string \<Rightarrow> expr \<Rightarrow> parse_fun" where
  "any_parse s e c = token_parse e (any_terminal s (cursor c)) c"

definition range_parse :: "string \<Rightarrow> string \<Rightarrow> expr \<Rightarrow> parse_fun" where
  "range_parse r s e c = token_parse e (range_terminal r s (cursor c)) c"

definition literal_parse :: "bool \<Rightarrow> string \<Rightarrow> string \<Rightarrow> expr \<Rightarrow> parse_fun" where
  "literal_parse cs l s e c = token_parse e (literal_token cs l s (cursor c)) c"

definition and_parse :: "(expr \<Rightarrow> parse_fun) \<Rightarrow> expr \<Rightarrow> parse_fun" where
  "and_parse Q x c = Q x c"

definition not_parse :: "(expr \<Rightarrow> parse_fun) \<Rightarrow> expr \<Rightarrow> parse_fun" where
  "not_parse Q x c = bind_out (Q x c) (\<lambda>(m, c'). Done (\<not> m, c'))"

definition terminal_rule_parse :: "grammar \<Rightarrow> string \<Rightarrow> nat \<Rightarrow> nat \<Rightarrow> expr \<Rightarrow> parse_fun" where
  "terminal_rule_parse g s n r e c =
     bind_out (terminal g s n (rbody (g r)) (cursor c)) (\<lambda>m. token_parse e m c)"

definition parser_rule_parse :: "grammar \<Rightarrow> (expr \<Rightarrow> parse_fun) \<Rightarrow> nat \<Rightarrow> expr \<Rightarrow> parse_fun" where
  "parser_rule_parse g P r e c = parse_wrapped_node e (with_local_skipper g r (P (rbody (g r)))) c"

definition data_type_rule_parse :: "grammar \<Rightarrow> (expr \<Rightarrow> parse_fun) \<Rightarrow> nat \<Rightarrow> expr \<Rightarrow> parse_fun" where
  "data_type_rule_parse g P r e c = parse_wrapped_node e (with_local_skipper g r (P (rbody (g r)))) c"

definition create_parse :: "expr \<Rightarrow> parse_fun" where
  "create_parse e c = Done (True, ctx_leaf (cursor c) e c)"

definition nest_parse :: "expr \<Rightarrow> parse_fun" where
  "nest_parse e c = Done (True, ctx_leaf (cursor c) e c)"

definition assignment_parse :: "(expr \<Rightarrow> parse_fun) \<Rightarrow> expr \<Rightarrow> expr \<Rightarrow> parse_fun" where
  "assignment_parse P x e c =
     (if isOrderedChoice x then parse_wrapped_node e (P x) c else parse_overriding_first_child e (P x) c)"

definition skipper_wrapped_parse :: "(expr \<Rightarrow> parse_fun) \<Rightarrow> expr \<Rightarrow> expr list \<Rightarrow> expr list \<Rightarrow> parse_fun" where
  "skipper_wrapped_parse P x hid ign c = with_skipper (Skipper hid ign) (P x) c"

lemmas element_parse_defs = any_parse_def range_parse_def literal_parse_def and_parse_def not_parse_def
  terminal_rule_parse_def parser_rule_parse_def data_type_rule_parse_def create_parse_def nest_parse_def
  assignment_parse_def skipper_wrapped_parse_def

definition parse_step :: "grammar \<Rightarrow> string \<Rightarrow> nat \<Rightarrow> (expr \<Rightarrow> parse_fun) \<Rightarrow> (expr \<Rightarrow> parse_fun) \<Rightarrow> expr \<Rightarrow> parse_fun" where
  "parse_step g s n P Q e c =
     (let a = (\<lambda>x. attempt_parse_strict (isFailureSafe g x) (P x)); skp = ctx_skip g s n in
      case e of
        AnyCharacter \<Rightarrow> any_parse s e c
      | CharacterRange r \<Rightarrow> range_parse r s e c
      | Literal l cs \<Rightarrow> literal_parse cs l s e c
      | Group es \<Rightarrow> parse_elements P skp True es c
      | OrderedChoice es \<Rightarrow> match_choice a es c
      | UnorderedGroup es \<Rightarrow> parse_group a skp es c
      | Repetition mn mx x \<Rightarrow> parse_repetition (isFailureSafe g x) (P x) skp n mn mx c
      | AndPredicate x \<Rightarrow> and_parse Q x c
      | NotPredicate x \<Rightarrow> not_parse Q x c
      | RuleRef r \<Rightarrow>
          (case rkind (g r) of
             TerminalKind \<Rightarrow> terminal_rule_parse g s n r e c
           | ParserKind \<Rightarrow> parser_rule_parse g P r e c
           | DataTypeKind \<Rightarrow> data_type_rule_parse g P r e c)
      | Create t \<Rightarrow> create_parse e c
      | Nest t \<Rightarrow> nest_parse e c
      | Assignment f x \<Rightarrow> assignment_parse P x e c
      | SkipperWrapped x hid ign \<Rightarrow> skipper_wrapped_parse P x hid ign c)"

text \<open>The \<open>probe_impl\<close> of the tokens.\<close>

definition any_probe :: "string \<Rightarrow> parse_fun" where
  "any_probe s c = Done (any_terminal s (cursor c) \<noteq> None, c)"

definition range_probe :: "string \<Rightarrow> string \<Rightarrow> parse_fun" where
  "range_probe r s c = Done (range_terminal r s (cursor c) \<noteq> None, c)"

definition literal_probe :: "bool \<Rightarrow> string \<Rightarrow> string \<Rightarrow> parse_fun" where
  "literal_probe cs l s c = Done (literal_token cs l s (cursor c) \<noteq> None, c)"

definition create_probe :: parse_fun where
  "create_probe c = Done (False, c)"

lemmas token_probe_defs = any_probe_def range_probe_def literal_probe_def create_probe_def

definition probe_step :: "grammar \<Rightarrow> string \<Rightarrow> (expr \<Rightarrow> parse_fun) \<Rightarrow> (expr \<Rightarrow> parse_fun) \<Rightarrow> (expr \<Rightarrow> parse_fun) \<Rightarrow>
    expr \<Rightarrow> parse_fun" where
  "probe_step g s P Q F e c =
     (case e of
        AnyCharacter \<Rightarrow> any_probe s c
      | CharacterRange r \<Rightarrow> range_probe r s c
      | Literal l cs \<Rightarrow> literal_probe cs l s c
      | Group es \<Rightarrow> fast_probe_elements g F es c
      | OrderedChoice es \<Rightarrow> any_choice Q es c
      | Repetition mn mx x \<Rightarrow> F x c
      | AndPredicate x \<Rightarrow> Q x c
      | NotPredicate x \<Rightarrow> not_parse Q x c
      | Create t \<Rightarrow> create_probe c
      | SkipperWrapped x hid ign \<Rightarrow> (if has_probe x then Q x c else generic_probe (P e) c)
      | _ \<Rightarrow> generic_probe (P e) c)"

definition fast_probe_step :: "grammar \<Rightarrow> (expr \<Rightarrow> parse_fun) \<Rightarrow> (expr \<Rightarrow> parse_fun) \<Rightarrow> expr \<Rightarrow> parse_fun" where
  "fast_probe_step g Q F e c =
     (case e of
        Group es \<Rightarrow> fast_probe_elements g F es c
      | OrderedChoice es \<Rightarrow> any_choice F es c
      | Repetition mn mx x \<Rightarrow> F x c
      | Create t \<Rightarrow> create_probe c
      | Assignment a x \<Rightarrow> F x c
      | SkipperWrapped x hid ign \<Rightarrow> (if has_fast_probe x then F x c else Q e c)
      | RuleRef r \<Rightarrow> (if rkind (g r) = ParserKind then Out_of_fuel else Q e c)
      | _ \<Rightarrow> Q e c)"

fun parse :: "grammar \<Rightarrow> string \<Rightarrow> nat \<Rightarrow> expr \<Rightarrow> parse_fun"
  and probe :: "grammar \<Rightarrow> string \<Rightarrow> nat \<Rightarrow> expr \<Rightarrow> parse_fun"
  and attempt_fast_probe :: "grammar \<Rightarrow> string \<Rightarrow> nat \<Rightarrow> expr \<Rightarrow> parse_fun" where
  "parse g s 0 = (\<lambda>_ _. Out_of_fuel)"
| "parse g s (Suc n) = parse_step g s n (parse g s n) (probe g s n)"
| "probe g s 0 = (\<lambda>_ _. Out_of_fuel)"
| "probe g s (Suc n) = probe_step g s (parse g s n) (probe g s n) (attempt_fast_probe g s n)"
| "attempt_fast_probe g s 0 = (\<lambda>_ _. Out_of_fuel)"
| "attempt_fast_probe g s (Suc n) = fast_probe_step g (probe g s n) (attempt_fast_probe g s n)"

subsection \<open>A strict run over a text\<close>

record strict_summary =
  inputSize :: nat
  parsedLength :: nat
  summaryLastVisible :: nat
  entryRuleMatched :: bool
  fullMatch :: bool

definition run_strict_parse :: "grammar \<Rightarrow> string \<Rightarrow> nat \<Rightarrow> skipper \<Rightarrow> nat \<Rightarrow> (nat \<Rightarrow> expr cst_node) \<Rightarrow>
    (strict_summary \<times> pctx) outcome" where
  "run_strict_parse g s n sk entry m =
     bind_out (ctx_skip g s n (new_context m sk)) (\<lambda>c0.
       bind_out (parse g s n (RuleRef entry) c0) (\<lambda>(matched, c1).
         let failureParsedLength = cursor c1;
             c2 = (if matched then c1 else ctx_rewind c1 (ctx_mark c0)) in
         bind_out (ctx_skip g s n c2) (\<lambda>c3.
           let len = (if matched then cursor c3 else failureParsedLength) in
           Done (\<lparr>inputSize = length s, parsedLength = len, summaryLastVisible = lastVisibleCursor c3,
             entryRuleMatched = matched, fullMatch = (matched \<and> len = length s)\<rparr>, c3))))"

end
