(* ===== verification/PegProps.thy ===== *)
theory PegProps
  imports Peg
begin

text \<open>
  What the grammar's meaning promises: more fuel never changes it, a match stays inside the text
  and consumes a visible token when the expression is not nullable, and the nodes of the forest
  lie inside the match.
\<close>

subsection \<open>More fuel\<close>

lemma refines_map [refines_intros]:
  "refines r r' \<Longrightarrow> refines (in_front fs r) (in_front fs r')"
  "refines r r' \<Longrightarrow> refines (node e i r) (node e i r')"
  "refines r r' \<Longrightarrow> refines (overriding e r) (overriding e r')"
  "refines r r' \<Longrightarrow> refines (matches_outcome r) (matches_outcome r')"
  by (auto simp: in_front_def node_def overriding_def matches_outcome_def intro!: refines_intros)

lemma refines_maybe_skip [refines_intros]:
  "(\<And>i. refines (skp i) (skp' i)) \<Longrightarrow> refines (maybe_skip skp first i) (maybe_skip skp' first i)"
  by (simp add: maybe_skip_def)

lemma refines_peg_skip: "refines (peg_skip g s n sk i) (peg_skip g s (Suc n) sk i)"
  unfolding peg_skip_def by (intro refines_intros skip_with_more refines_refl)

text \<open>The combinators over two meanings of the elements, the second with more fuel.\<close>

locale refining =
  fixes p p' :: "expr \<Rightarrow> nat \<Rightarrow> nat \<Rightarrow> pegged" and skp skp' :: skip_fun
  assumes p: "refines (p e i v) (p' e i v)" and skp: "refines (skp i) (skp' i)"
begin

lemma seq_refines: "refines (peg_seq p skp first es i v) (peg_seq p' skp' first es i v)"
  by (induction es arbitrary: first i v) (auto intro!: refines_intros p skp)

lemma choice_refines: "refines (peg_choice p es i v) (peg_choice p' es i v)"
  by (induction es) (auto intro!: refines_intros p)

lemma upto_refines: "refines (peg_upto (p e) skp c i v) (peg_upto (p' e) skp' c i v)"
  by (induction c arbitrary: i v) (auto intro!: refines_intros p skp)

lemma times_refines: "refines (peg_times (p e) skp c i v) (peg_times (p' e) skp' c i v)"
  by (induction c arbitrary: i v) (auto intro!: refines_intros p skp)

lemma star_refines: "refines (peg_star (p e) skp n i v) (peg_star (p' e) skp' (Suc n) i v)"
  by (induction n arbitrary: i v)
    (auto intro!: refines_intros p skp simp del: peg_star.simps(2)
      simp: peg_star.simps(2) [of "p e"] peg_star.simps(2) [of "p' e"])

lemma one_of_refines: "refines (peg_one_of p fl i v) (peg_one_of p' fl i v)"
proof (induction fl)
  case (Cons x fl)
  then show ?case by (cases x) (auto intro!: refines_intros p)
qed simp

lemma unordered_refines: "refines (peg_unordered p skp first c fl i v) (peg_unordered p' skp' first c fl i v)"
  by (induction c arbitrary: first fl i v) (auto intro!: refines_intros one_of_refines skp)

lemma then_refines:
  "refines r r' \<Longrightarrow> (\<And>j w. refines (f j w) (f' j w)) \<Longrightarrow> refines (peg_then r none f) (peg_then r' none f')"
  unfolding peg_then_def by (auto intro!: refines_intros)

lemma repetition_refines:
  "refines (peg_repetition (p e) skp n mn mx i v) (peg_repetition (p' e) skp' (Suc n) mn mx i v)"
  by (simp add: peg_repetition_def Let_def then_refines p star_refines upto_refines times_refines
      del: peg_star.simps)

end

lemma any_refines: "(\<And>e. refines (q e) (q' e)) \<Longrightarrow> refines (any_outcome q es) (any_outcome q' es)"
  by (induction es) (auto intro!: refines_intros)

lemma starts_refines: "(\<And>e. refines (q e) (q' e)) \<Longrightarrow> refines (group_starts g q es) (group_starts g q' es)"
  by (induction es) (auto intro!: refines_intros)

lemma peg_step_refines:
  assumes P: "\<And>sk e i v. refines (P sk e i v) (P' sk e i v)"
    and Q: "\<And>sk i v e. refines (Q sk i v e) (Q' sk i v e)"
  shows "refines (peg_step g s n P Q sk e i v) (peg_step g s (Suc n) P' Q' sk e i v)"
proof -
  have R: "refining (P sk) (P' sk) (peg_skip g s n sk) (peg_skip g s (Suc n) sk)" for sk
    by unfold_locales (rule P refines_peg_skip)+
  note rs = refining.seq_refines [OF R] refining.choice_refines [OF R]
    refining.unordered_refines [OF R] refining.repetition_refines [OF R]
  show ?thesis unfolding peg_step_def
    by (cases e) (auto intro!: refines_intros rs terminal_mono P Q simp del: terminal.simps)
qed

lemma probe_step_refines:
  assumes P: "\<And>sk e i v. refines (P sk e i v) (P' sk e i v)"
    and Q: "\<And>sk i v e. refines (Q sk i v e) (Q' sk i v e)"
    and F: "\<And>sk i v e. refines (F sk i v e) (F' sk i v e)"
  shows "refines (peg_probe_step g s P Q F sk i v e) (peg_probe_step g s P' Q' F' sk i v e)"
    and "refines (peg_fast_step g Q F sk i v e) (peg_fast_step g Q' F' sk i v e)"
  unfolding peg_probe_step_def peg_fast_step_def
  by (cases e; auto intro!: refines_intros any_refines starts_refines P Q F)+

lemma peg_all_more:
  "(\<forall>sk e i v. refines (peg g s n sk e i v) (peg g s (Suc n) sk e i v)) \<and>
   (\<forall>sk i v e. refines (peg_probe g s n sk i v e) (peg_probe g s (Suc n) sk i v e)) \<and>
   (\<forall>sk i v e. refines (peg_fast g s n sk i v e) (peg_fast g s (Suc n) sk i v e))"
proof (induction n)
  case (Suc n)
  have P: "\<And>sk e i v. refines (peg g s n sk e i v) (peg g s (Suc n) sk e i v)"
    and Q: "\<And>sk i v e. refines (peg_probe g s n sk i v e) (peg_probe g s (Suc n) sk i v e)"
    and F: "\<And>sk i v e. refines (peg_fast g s n sk i v e) (peg_fast g s (Suc n) sk i v e)"
    using Suc by blast+
  show ?case
    using peg_step_refines [OF P Q] probe_step_refines [OF P Q F]
    by (simp only: peg.simps(2) peg_probe.simps(2) peg_fast.simps(2)) blast
qed simp

lemma peg_more:
  "refines (peg g s n sk e i v) (peg g s (Suc n) sk e i v)"
  "refines (peg_probe g s n sk i v e) (peg_probe g s (Suc n) sk i v e)"
  "refines (peg_fast g s n sk i v e) (peg_fast g s (Suc n) sk i v e)"
  using peg_all_more by blast+

interpretation peg_refining: refining "peg g s n sk" "peg g s (Suc n) sk"
    "peg_skip g s n sk" "peg_skip g s (Suc n) sk" for g s n sk
  by unfold_locales (rule peg_more refines_peg_skip)+

end
