(* ===== verification/PegBounds.thy ===== *)
theory PegBounds
  imports PegProps
begin

text \<open>
  Positions of a match. The locale \<open>pegging\<close> states the contract of the meaning of an element:
  where a match may end, that it moves behind a visible token when the element is not nullable,
  and where the nodes of its forest lie. The combinators keep the contract, and end on it.
\<close>

subsection \<open>Spans\<close>

fun tree_within :: "nat \<Rightarrow> nat \<Rightarrow> 'e tree \<Rightarrow> bool"
  and forest_within :: "nat \<Rightarrow> nat \<Rightarrow> 'e tree list \<Rightarrow> bool" where
  "tree_within lo hi (Tree b e x h r ts) = (lo \<le> b \<and> b \<le> e \<and> e \<le> hi \<and> forest_within b hi ts)"
| "forest_within lo hi [] = (lo \<le> hi)"
| "forest_within lo hi (t # ts) = (tree_within lo hi t \<and> forest_within (tend t) hi ts)"

lemma within_mono:
  fixes t :: "'e tree" and ts :: "'e tree list"
  shows "tree_within lo hi t \<Longrightarrow> lo' \<le> lo \<Longrightarrow> hi \<le> hi' \<Longrightarrow> tree_within lo' hi' t"
  "forest_within lo hi ts \<Longrightarrow> lo' \<le> lo \<Longrightarrow> hi \<le> hi' \<Longrightarrow> forest_within lo' hi' ts"
  by (induction lo hi t and lo hi ts arbitrary: lo' hi' and lo' hi'
      rule: tree_within_forest_within.induct) auto

lemma tree_within_end: "tree_within lo hi t \<Longrightarrow> lo \<le> tend t \<and> tend t \<le> hi"
  by (cases t) auto

lemma within_le: "forest_within lo hi ts \<Longrightarrow> lo \<le> hi"
  by (cases ts) (auto dest!: tree_within_end)

lemma within_append:
  "forest_within lo m xs \<Longrightarrow> forest_within m hi ys \<Longrightarrow> forest_within lo hi (xs @ ys)"
proof (induction xs arbitrary: lo)
  case Nil
  then show ?case by (auto intro: within_mono(2))
next
  case (Cons t ts)
  have "m \<le> hi" using Cons.prems(2) by (rule within_le)
  then have "tree_within lo hi t" using Cons.prems(1) within_mono(1) [of lo m t lo hi] by simp
  then show ?case using Cons by simp
qed

lemma within_set_element [simp]:
  "tree_within lo hi (set_element e t) = tree_within lo hi t" "tend (set_element e t) = tend t"
  by (cases t; simp)+

lemma within_override [simp]: "forest_within lo hi (override_first e fs) = forest_within lo hi fs"
  by (auto simp: override_first_def split: list.splits)

lemma within_hidden: "leaves_between i p ls \<Longrightarrow> forest_within i p (hidden_trees ls)"
proof (induction i p ls rule: leaves_between.induct)
  case (2 i p e a b ls)
  then have "b \<le> p" using leaves_between_le [of b p ls] by simp
  then show ?case using 2 by (simp add: hidden_trees_def)
qed (simp add: hidden_trees_def)

subsection \<open>The contract\<close>

text \<open>\<open>tidy\<close> says whether the spans of the nodes are claimed too.\<close>

definition moved :: "bool \<Rightarrow> nat \<Rightarrow> bool \<Rightarrow> nat \<Rightarrow> nat \<Rightarrow> nat \<Rightarrow> nat \<Rightarrow> expr tree list \<Rightarrow> bool" where
  "moved tidy len nul i v j w fs \<longleftrightarrow>
     i \<le> j \<and> j \<le> len \<and> w \<le> j \<and> (w = v \<or> i \<le> w) \<and> (\<not> nul \<longrightarrow> i < j \<and> i < w) \<and>
     (tidy \<longrightarrow> forest_within i j fs)"

lemma moved_here: "i \<le> len \<Longrightarrow> v \<le> i \<Longrightarrow> moved tidy len True i v i v []"
  by (simp add: moved_def)

lemma moved_weaken: "moved tidy len a i v j w fs \<Longrightarrow> (a \<longrightarrow> b) \<Longrightarrow> moved tidy len b i v j w fs"
  by (auto simp: moved_def)

lemma moved_append:
  assumes "moved tidy len a i v j w fs" and "moved tidy len b j w k x gs"
  shows "moved tidy len (a \<and> b) i v k x (fs @ gs)"
  using assms within_append [of i j fs k gs] by (auto simp: moved_def)

lemma in_front_Done: "in_front hs r = Done (Some (j, w, fs)) \<longleftrightarrow>
    (\<exists>gs. r = Done (Some (j, w, gs)) \<and> fs = hs @ gs)"
  by (cases r) (auto simp: in_front_def split: option.splits)

lemma in_front_out [simp]: "in_front hs r = Out_of_fuel \<longleftrightarrow> r = Out_of_fuel"
  by (cases r) (auto simp: in_front_def)

locale pegging =
  fixes p :: "expr \<Rightarrow> nat \<Rightarrow> nat \<Rightarrow> pegged" and skp :: skip_fun
    and ok nul :: "expr \<Rightarrow> bool" and tidy :: bool and len :: nat
  assumes elem: "ok e \<Longrightarrow> i \<le> len \<Longrightarrow> v \<le> i \<Longrightarrow> p e i v = Done (Some (j, w, fs)) \<Longrightarrow>
      moved tidy len (nul e) i v j w fs"
    and skip_forward: "ok e \<Longrightarrow> i \<le> len \<Longrightarrow> skp i = Done (k, hs) \<Longrightarrow> k \<le> len \<and> forest_within i k hs"
begin

lemma movedD: "moved tidy len a i v j w fs \<Longrightarrow> i \<le> j \<and> j \<le> len \<and> w \<le> j"
  by (simp add: moved_def)

lemma skip_moved:
  "ok e \<Longrightarrow> i \<le> len \<Longrightarrow> v \<le> i \<Longrightarrow> skp i = Done (k, hs) \<Longrightarrow> moved tidy len True i v k v hs"
  using skip_forward [of e i k hs] within_le [of i k hs] by (auto simp: moved_def)

lemma maybe_skip_moved:
  "ok e \<Longrightarrow> i \<le> len \<Longrightarrow> v \<le> i \<Longrightarrow> maybe_skip skp first i = Done (k, hs) \<Longrightarrow> moved tidy len True i v k v hs"
  using skip_moved by (cases first) (auto simp: maybe_skip_def moved_here)

text \<open>One skipped element, with the skip in front of it.\<close>

lemma item_moved:
  assumes e: "ok e" and i: "i \<le> len" "v \<le> i" and s: "maybe_skip skp first i = Done (k, hs)"
    and q: "p e k v = Done (Some (j, w, fs))"
  shows "moved tidy len (nul e) i v j w (hs @ fs)"
proof -
  have h: "moved tidy len True i v k v hs" by (rule maybe_skip_moved [OF e i s])
  have "moved tidy len (nul e) k v j w fs"
    by (rule elem [OF e _ _ q]) (use movedD [OF h] i(2) in auto)
  from moved_append [OF h this] show ?thesis by simp
qed

lemma skip_first: "skp i = maybe_skip skp False i"
  by (simp add: maybe_skip_def)

lemma seq_moved:
  "list_all ok es \<Longrightarrow> i \<le> len \<Longrightarrow> v \<le> i \<Longrightarrow> peg_seq p skp first es i v = Done (Some (j, w, fs)) \<Longrightarrow>
    moved tidy len (list_all nul es) i v j w fs"
proof (induction es arbitrary: first i v fs)
  case (Cons e es)
  obtain k hs l x gs rs where s: "maybe_skip skp first i = Done (k, hs)"
    and q: "p e k v = Done (Some (l, x, gs))" and r: "peg_seq p skp False es l x = Done (Some (j, w, rs))"
    and fs: "fs = (hs @ gs) @ rs"
    using Cons.prems(4) by (auto simp: bind_out_Done_iff in_front_Done split: option.splits)
  have m: "moved tidy len (nul e) i v l x (hs @ gs)"
    using Cons.prems(1) by (intro item_moved [OF _ Cons.prems(2,3) s q]) simp
  have "moved tidy len (list_all nul es) l x j w rs"
    using Cons.prems(1) movedD [OF m] by (intro Cons.IH [OF _ _ _ r]) auto
  from moved_append [OF m this] show ?case by (simp add: fs)
qed (simp add: moved_here)

lemma choice_moved:
  "list_all ok es \<Longrightarrow> i \<le> len \<Longrightarrow> v \<le> i \<Longrightarrow> peg_choice p es i v = Done (Some (j, w, fs)) \<Longrightarrow>
    moved tidy len (list_ex nul es) i v j w fs"
proof (induction es)
  case (Cons e es)
  consider "p e i v = Done (Some (j, w, fs))" | "peg_choice p es i v = Done (Some (j, w, fs))"
    using Cons.prems(4) by (auto simp: bind_out_Done_iff split: option.splits)
  then show ?case
  proof cases
    case 1
    have "moved tidy len (nul e) i v j w fs" using Cons.prems(1) by (intro elem [OF _ Cons.prems(2,3) 1]) simp
    then show ?thesis by (rule moved_weaken) simp
  next
    case 2
    have "moved tidy len (list_ex nul es) i v j w fs" using Cons.prems(1) by (intro Cons.IH [OF _ Cons.prems(2,3) 2]) simp
    then show ?thesis by (rule moved_weaken) simp
  qed
qed simp

lemma star_moved:
  "ok e \<Longrightarrow> i \<le> len \<Longrightarrow> v \<le> i \<Longrightarrow> peg_star (p e) skp n i v = Done (Some (j, w, fs)) \<Longrightarrow>
    moved tidy len True i v j w fs"
proof (induction n arbitrary: i v fs)
  case (Suc n)
  consider "(j, w, fs) = (i, v, [])"
    | k hs l x gs rs where "maybe_skip skp False i = Done (k, hs)" "p e k v = Done (Some (l, x, gs))"
        "peg_star (p e) skp n l x = Done (Some (j, w, rs))" "fs = (hs @ gs) @ rs"
    using Suc.prems(4)
    by (auto simp: skip_first [of i] bind_out_Done_iff in_front_Done simp del: peg_star.simps(1) split: option.splits)
  then show ?case
  proof cases
    case (2 k hs l x gs rs)
    have m: "moved tidy len (nul e) i v l x (hs @ gs)" by (rule item_moved [OF Suc.prems(1-3) 2(1,2)])
    have "moved tidy len True l x j w rs" using movedD [OF m] by (intro Suc.IH [OF Suc.prems(1) _ _ 2(3)]) auto
    from moved_weaken [OF moved_append [OF m this]] show ?thesis by (simp add: 2(4))
  qed (use Suc.prems in \<open>simp add: moved_here\<close>)
qed simp

lemma upto_moved:
  "ok e \<Longrightarrow> i \<le> len \<Longrightarrow> v \<le> i \<Longrightarrow> peg_upto (p e) skp c i v = Done (Some (j, w, fs)) \<Longrightarrow>
    moved tidy len True i v j w fs"
proof (induction c arbitrary: i v fs)
  case (Suc n)
  consider "(j, w, fs) = (i, v, [])"
    | k hs l x gs rs where "maybe_skip skp False i = Done (k, hs)" "p e k v = Done (Some (l, x, gs))"
        "peg_upto (p e) skp n l x = Done (Some (j, w, rs))" "fs = (hs @ gs) @ rs"
    using Suc.prems(4) by (auto simp: skip_first [of i] bind_out_Done_iff in_front_Done split: option.splits)
  then show ?case
  proof cases
    case (2 k hs l x gs rs)
    have m: "moved tidy len (nul e) i v l x (hs @ gs)" by (rule item_moved [OF Suc.prems(1-3) 2(1,2)])
    have "moved tidy len True l x j w rs" using movedD [OF m] by (intro Suc.IH [OF Suc.prems(1) _ _ 2(3)]) auto
    from moved_weaken [OF moved_append [OF m this]] show ?thesis by (simp add: 2(4))
  qed (use Suc.prems in \<open>simp add: moved_here\<close>)
qed (simp add: moved_here)

lemma times_moved:
  "ok e \<Longrightarrow> i \<le> len \<Longrightarrow> v \<le> i \<Longrightarrow> peg_times (p e) skp c i v = Done (Some (j, w, fs)) \<Longrightarrow>
    moved tidy len True i v j w fs"
proof (induction c arbitrary: i v fs)
  case (Suc n)
  obtain k hs l x gs rs where a: "maybe_skip skp False i = Done (k, hs)" "p e k v = Done (Some (l, x, gs))"
      "peg_times (p e) skp n l x = Done (Some (j, w, rs))" "fs = (hs @ gs) @ rs"
    using Suc.prems(4) by (auto simp: skip_first [of i] bind_out_Done_iff in_front_Done split: option.splits)
  have m: "moved tidy len (nul e) i v l x (hs @ gs)" by (rule item_moved [OF Suc.prems(1-3) a(1,2)])
  have "moved tidy len True l x j w rs" using movedD [OF m] by (intro Suc.IH [OF Suc.prems(1) _ _ a(3)]) auto
  from moved_weaken [OF moved_append [OF m this]] show ?case by (simp add: a(4))
qed (simp add: moved_here)

lemma then_moved:
  assumes r: "peg_then r none f = Done (Some (j, w, fs))"
    and a: "\<And>l x gs. r = Done (Some (l, x, gs)) \<Longrightarrow> moved tidy len a i v l x gs"
    and b: "\<And>l x gs. l \<le> len \<Longrightarrow> x \<le> l \<Longrightarrow> f l x = Done (Some (j, w, gs)) \<Longrightarrow> moved tidy len True l x j w gs"
    and n: "none = Done None \<or> none = Done (Some (i, v, [])) \<and> i \<le> len \<and> v \<le> i"
  shows "moved tidy len (a \<or> none \<noteq> Done None) i v j w fs"
proof -
  consider "none = Done (Some (i, v, []))" "(j, w, fs) = (i, v, [])"
    | l x gs rs where "r = Done (Some (l, x, gs))" "f l x = Done (Some (j, w, rs))" "fs = gs @ rs"
    using r n by (auto simp: peg_then_def bind_out_Done_iff in_front_Done split: option.splits)
  then show ?thesis
  proof cases
    case 1
    then show ?thesis using n moved_here [of i len v tidy] by simp
  next
    case (2 l x gs rs)
    have "moved tidy len True l x j w rs" using movedD [OF a [OF 2(1)]] b [OF _ _ 2(2)] by blast
    from moved_weaken [OF moved_append [OF a [OF 2(1)] this]] show ?thesis by (simp add: 2(3))
  qed
qed

lemma repetition_moved:
  assumes e: "ok e" and i: "i \<le> len" "v \<le> i"
    and r: "peg_repetition (p e) skp n mn mx i v = Done (Some (j, w, fs))"
    and nz: "\<not> nul e"
  shows "moved tidy len (mn = 0) i v j w fs"
proof -
  have first: "p e i v = Done (Some (l, x, gs)) \<Longrightarrow> moved tidy len False i v l x gs" for l x gs
    using elem [OF e i] nz by simp
  note loops = star_moved [OF e] upto_moved [OF e] times_moved [OF e]
  have rest: "moved tidy len True l x j w gs"
    if "l \<le> len" "x \<le> l" "peg_then (peg_times (p e) skp c l x) (Done None) (peg_upto (p e) skp d) = Done (Some (j, w, gs))"
    for l x gs c d
    using then_moved [OF that(3) loops(3) [OF that(1,2)] loops(2)] by simp
  define none :: pegged where "none = (if mn = 0 then Done (Some (i, v, [])) else Done None)"
  define f where "f = (if mn = 0 \<and> mx = 1 then (\<lambda>j w. Done (Some (j, w, [])))
       else if mn = 0 \<and> mx = size_max \<or> mn = 1 \<and> mx = size_max then peg_star (p e) skp n
       else if mn = mx \<and> mn > 0 then peg_times (p e) skp (mn - 1)
       else if mn = 0 then peg_upto (p e) skp (mx - 1)
       else (\<lambda>j w. peg_then (peg_times (p e) skp (mn - 1) j w) (Done None) (peg_upto (p e) skp (mx - mn))))"
  have r': "peg_then (p e i v) none f = Done (Some (j, w, fs))"
    using r by (auto simp: peg_repetition_def Let_def none_def f_def split: if_splits)
  have fm: "moved tidy len True l x j w gs" if "l \<le> len" "x \<le> l" "f l x = Done (Some (j, w, gs))" for l x gs
    using that loops rest moved_here by (auto simp: f_def split: if_splits)
  have "moved tidy len (False \<or> none \<noteq> Done None) i v j w fs"
    by (rule then_moved [OF r' first fm]) (use i in \<open>auto simp: none_def\<close>)
  then show ?thesis by (rule moved_weaken) (auto simp: none_def)
qed

lemma one_of_moved:
  "\<forall>e \<in> fst ` set fl. ok e \<and> \<not> nul e \<Longrightarrow> i \<le> len \<Longrightarrow> v \<le> i \<Longrightarrow>
    peg_one_of p fl i v = Done (Some ((j, w, fs), fl')) \<Longrightarrow>
    moved tidy len False i v j w fs \<and> map fst fl' = map fst fl"
proof (induction fl arbitrary: fl')
  case (Cons a fl)
  obtain e b where a: "a = (e, b)" by (cases a)
  consider "p e i v = Done (Some (j, w, fs))" "fl' = (e, True) # fl"
    | gl where "peg_one_of p fl i v = Done (Some ((j, w, fs), gl))" "fl' = (e, b) # gl"
    using Cons.prems(4) by (auto simp: a bind_out_Done_iff split: option.splits if_splits)
  then show ?case
  proof cases
    case 1
    then show ?thesis using Cons.prems elem [of e i v j w fs] by (simp add: a)
  next
    case (2 gl)
    then show ?thesis using Cons.IH [OF _ Cons.prems(2,3) 2(1)] Cons.prems(1) by (simp add: a)
  qed
qed simp

lemma unordered_moved:
  "\<forall>e \<in> fst ` set fl. ok e \<and> \<not> nul e \<Longrightarrow> i \<le> len \<Longrightarrow> v \<le> i \<Longrightarrow>
    peg_unordered p skp first c fl i v = Done (Some (j, w, fs)) \<Longrightarrow>
    moved tidy len (c = 0) i v j w fs"
proof (induction c arbitrary: first fl i v fs)
  case (Suc c)
  obtain k hs l x gs fl' rs where s: "maybe_skip skp first i = Done (k, hs)"
    and q: "peg_one_of p fl k v = Done (Some ((l, x, gs), fl'))"
    and r: "peg_unordered p skp False c fl' l x = Done (Some (j, w, rs))" and fs: "fs = (hs @ gs) @ rs"
    using Suc.prems(4) by (auto simp: bind_out_Done_iff in_front_Done split: option.splits)
  obtain e where "ok e" using Suc.prems(1) q by (cases fl) auto
  from maybe_skip_moved [OF this Suc.prems(2,3) s] have h: "moved tidy len True i v k v hs" .
  have one: "moved tidy len False k v l x gs \<and> map fst fl' = map fst fl"
    by (rule one_of_moved [OF Suc.prems(1) _ _ q]) (use movedD [OF h] in auto)
  have m: "moved tidy len False i v l x (hs @ gs)" using moved_append [OF h conjunct1 [OF one]] by simp
  have "fst ` set fl' = fst ` set fl" using one by (metis list.set_map)
  then have "moved tidy len (c = 0) l x j w rs"
    using Suc.prems(1) movedD [OF m] by (intro Suc.IH [OF _ _ _ r]) auto
  from moved_append [OF m this] show ?case by (simp add: fs)
qed (simp add: moved_here)

end

subsection \<open>The grammar's meaning keeps the contract\<close>

definition skipper_ok :: "grammar \<Rightarrow> skipper \<Rightarrow> bool" where
  "skipper_ok g sk \<longleftrightarrow> skip_rules g (hiddenRules sk) \<and> skip_rules g (ignoredRules sk)"

definition no_nullable_rule :: "grammar \<Rightarrow> bool" where
  "no_nullable_rule g \<longleftrightarrow> (\<forall>r. \<not> rnullable (g r))"

definition peg_ok :: "grammar \<Rightarrow> skipper \<Rightarrow> expr \<Rightarrow> bool" where
  "peg_ok g sk e \<longleftrightarrow> well_formed g e \<and> skipper_ok g sk"

lemma skip_ignored_between:
  "skip_rules g ign \<Longrightarrow> i \<le> length s \<Longrightarrow> skip_ignored g s n c ign i = Done j \<Longrightarrow> i \<le> j \<and> j \<le> length s"
proof (induction c arbitrary: i)
  case (Suc c)
  from Suc.prems(3) consider "i = j" | k where "skip_any g s n ign i = Done (Some k)"
      "skip_ignored g s n c ign k = Done j"
    by (auto simp: bind_option_Done_iff)
  then show ?case
  proof cases
    case (2 k)
    have k: "i < k \<and> k \<le> length s" by (rule skip_any_step [OF Suc.prems(1,2) 2(1)])
    then have "k \<le> j \<and> j \<le> length s" using Suc.IH [OF Suc.prems(1) _ 2(2)] by blast
    then show ?thesis using k by auto
  qed (use Suc.prems in simp)
qed simp

lemma skip_with_between:
  "skip_rules g ign \<Longrightarrow> skip_rules g hid \<Longrightarrow> i \<le> length s \<Longrightarrow> skip_with g s n c hid ign i = Done (p, ls) \<Longrightarrow>
    leaves_between i p ls \<and> p \<le> length s"
proof (induction c arbitrary: i ls)
  case (Suc c)
  obtain j m where j: "skip_ignored g s n n ign i = Done j" and h: "parse_any_hidden g s n hid j = Done m"
    and m: "(m = None \<and> p = j \<and> ls = []) \<or> (\<exists>e k ls'. m = Some (e, k) \<and>
      skip_with g s n c hid ign k = Done (p, ls') \<and> ls = (e, j, k) # ls')"
  proof -
    from Suc.prems(4) obtain j m where a: "skip_ignored g s n n ign i = Done j"
        "parse_any_hidden g s n hid j = Done m"
        "(case m of None \<Rightarrow> Done (j, []) | Some (e, k) \<Rightarrow> bind_out (skip_with g s n c hid ign k)
          (\<lambda>(i'', leaves). Done (i'', (e, j, k) # leaves))) = Done (p, ls)"
      by (auto simp: bind_out_Done_iff)
    then show thesis by (intro that [OF a(1,2)]) (auto simp: bind_out_Done_iff split: option.splits)
  qed
  have b: "i \<le> j \<and> j \<le> length s" by (rule skip_ignored_between [OF Suc.prems(1,3) j])
  from m show ?case
  proof (elim disjE exE conjE)
    assume "p = j" "ls = []"
    then show ?thesis using b by simp
  next
    fix e k ls' assume a: "m = Some (e, k)" "skip_with g s n c hid ign k = Done (p, ls')" "ls = (e, j, k) # ls'"
    have "skip_any g s n hid j = Done (Some k)" using h a(1) by (simp add: skip_any_def parse_any_hidden_choice)
    then have k: "j < k \<and> k \<le> length s" using skip_any_step [OF Suc.prems(2)] b by blast
    then have "leaves_between k p ls' \<and> p \<le> length s" using Suc.IH [OF Suc.prems(1,2) _ a(2)] by blast
    then show ?thesis using a(3) b k by simp
  qed
qed simp

lemma peg_skip_forward:
  assumes "skipper_ok g sk" "i \<le> length s" "peg_skip g s n sk i = Done (k, hs)"
  shows "k \<le> length s \<and> forest_within i k hs"
  using assms skip_with_between [of g "ignoredRules sk" "hiddenRules sk" i s n n k] within_hidden
  by (auto simp: skipper_ok_def peg_skip_def bind_out_Done_iff)

lemma token_Done: "token e i m = Some (j, w, fs) \<longleftrightarrow> m = Some j \<and> w = j \<and> fs = [Tree i j e False False []]"
  by (auto simp: token_def split: option.splits)

lemma token_moved: "i \<le> j \<Longrightarrow> j \<le> len \<Longrightarrow> v \<le> i \<Longrightarrow> (\<not> nul \<longrightarrow> i < j) \<Longrightarrow>
    moved tidy len nul i v j j [Tree i j e False False []]"
  by (auto simp: moved_def)

lemma node_Done: "node e i r = Done (Some (j, w, fs)) \<longleftrightarrow>
    (\<exists>gs. r = Done (Some (j, w, gs)) \<and> fs = [Tree i w e False False gs])"
  by (cases r) (auto simp: node_def split: option.splits)

lemma overriding_Done: "overriding e r = Done (Some (j, w, fs)) \<longleftrightarrow>
    (\<exists>gs. r = Done (Some (j, w, gs)) \<and> fs = override_first e gs)"
  by (cases r) (auto simp: overriding_def split: option.splits)

lemma node_moved:
  "moved tidy len nul i v j w gs \<Longrightarrow> (tidy \<longrightarrow> \<not> nul) \<Longrightarrow>
    moved tidy len nul i v j w [Tree i w e False False gs]"
  by (auto simp: moved_def)

lemma peg_ok_parts:
  "peg_ok g sk (Group es) \<Longrightarrow> list_all (peg_ok g sk) es"
  "peg_ok g sk (OrderedChoice es) \<Longrightarrow> list_all (peg_ok g sk) es"
  "peg_ok g sk (UnorderedGroup es) \<Longrightarrow> \<forall>e \<in> fst ` set (unmatched es). peg_ok g sk e \<and> \<not> nullable g e"
  "peg_ok g sk (UnorderedGroup es) \<Longrightarrow> 0 < length es"
  "peg_ok g sk (Repetition mn mx e) \<Longrightarrow> peg_ok g sk e" "peg_ok g sk (Repetition mn mx e) \<Longrightarrow> \<not> nullable g e"
  "peg_ok g sk (Assignment a e) \<Longrightarrow> peg_ok g sk e" "peg_ok g sk (Assignment a e) \<Longrightarrow> \<not> nullable g e"
  "peg_ok g sk (SkipperWrapped e hid ign) \<Longrightarrow> peg_ok g (Skipper hid ign) e"
  "peg_ok g sk (AndPredicate e) \<Longrightarrow> peg_ok g sk e"
  "peg_ok g sk (NotPredicate e) \<Longrightarrow> peg_ok g sk e"
  by (auto simp: peg_ok_def list_all_iff skipper_ok_def skip_rules_def unmatched_def)

lemma peg_ok_rule: "peg_ok g sk (RuleRef r) \<Longrightarrow> peg_ok g (local_skipper g r sk) (rbody (g r))"
  by (auto simp: peg_ok_def wf_grammar_def wf_rule_def skipper_ok_def skip_rules_def local_skipper_def
      list_all_iff split: option.splits prod.splits)

lemma peg_step_moved:
  assumes P: "\<And>sk. pegging (P sk) (peg_skip g s n sk) (peg_ok g sk) (nullable g) (no_nullable_rule g) (length s)"
    and ok: "peg_ok g sk e" and i: "i \<le> length s" "v \<le> i"
    and r: "peg_step g s n P Q sk e i v = Done (Some (j, w, fs))"
  shows "moved (no_nullable_rule g) (length s) (nullable g e) i v j w fs"
proof (cases e)
  case AnyCharacter
  then show ?thesis using r i consume_bounds [of s i j]
    by (auto simp: peg_step_def token_Done any_terminal_def intro!: token_moved)
next
  case (CharacterRange r)
  then show ?thesis using \<open>peg_step g s n P Q sk e i v = _\<close> ok i range_bounds [of g r s i j]
    by (auto simp: peg_step_def token_Done peg_ok_def intro!: token_moved)
next
  case (Literal l cs)
  then show ?thesis using r ok i literal_length [of l i s cs j]
    by (auto simp: peg_step_def token_Done peg_ok_def literal_token_def intro!: token_moved
        split: option.splits if_splits)
next
  case (Group es)
  then show ?thesis using r pegging.seq_moved [OF P peg_ok_parts(1) i] ok
    by (auto simp: peg_step_def)
next
  case (OrderedChoice es)
  then show ?thesis using r pegging.choice_moved [OF P peg_ok_parts(2) i] ok
    by (auto simp: peg_step_def)
next
  case (UnorderedGroup es)
  then have "peg_ok g sk (UnorderedGroup es)" "peg_unordered (P sk) (peg_skip g s n sk) True (length es)
      (unmatched es) i v = Done (Some (j, w, fs))" using ok r by (simp_all add: peg_step_def)
  from pegging.unordered_moved [OF P peg_ok_parts(3) [OF this(1)] i this(2)] peg_ok_parts(4) [OF this(1)]
  show ?thesis by (simp add: UnorderedGroup)
next
  case (Repetition mn mx x)
  then show ?thesis using r pegging.repetition_moved [OF P peg_ok_parts(5) i _ peg_ok_parts(6)] ok
    by (auto simp: peg_step_def)
next
  case (RuleRef q)
  show ?thesis
  proof (cases "rkind (g q) = TerminalKind")
    case True
    have wf: "well_formed g (rbody (g q))" using ok by (auto simp: peg_ok_def dest: wf_grammarD)
    show ?thesis
      using r ok True i terminal_matcher.step [OF wf i(1), of n j] wf_grammarD(2,3) [of g q]
      by (auto simp: peg_step_def RuleRef token_Done bind_out_Done_iff peg_ok_def intro!: token_moved)
  next
    case False
    then obtain gs where gs: "P (local_skipper g q sk) (rbody (g q)) i v = Done (Some (j, w, gs))"
      and fs: "fs = [Tree i w e False False gs]"
      using r by (auto simp: peg_step_def RuleRef node_Done)
    have "peg_ok g (local_skipper g q sk) (rbody (g q))" using ok RuleRef peg_ok_rule by blast
    from pegging.elem [OF P this i gs] show ?thesis
      using ok wf_grammarD(2) [of g q]
      by (auto simp: fs RuleRef peg_ok_def no_nullable_rule_def intro!: node_moved)
  qed
next
  case (Assignment a x)
  then have x: "peg_ok g sk x" "\<not> nullable g x" using ok peg_ok_parts(7,8) by blast+
  obtain gs where gs: "P sk x i v = Done (Some (j, w, gs))"
    and fs: "fs = [Tree i w e False False gs] \<or> fs = override_first e gs"
    using r by (auto simp: peg_step_def Assignment node_Done overriding_Done split: if_splits)
  have m: "moved (no_nullable_rule g) (length s) False i v j w gs"
    using pegging.elem [OF P x(1) i gs] x(2) by simp
  show ?thesis using fs node_moved [OF m] m by (auto simp: Assignment moved_def)
next
  case (SkipperWrapped x hid ign)
  then have "peg_ok g (Skipper hid ign) x" using ok peg_ok_parts(9) by blast
  from pegging.elem [OF P this i] show ?thesis using r by (simp add: peg_step_def SkipperWrapped)
qed (use r i in \<open>auto simp: peg_step_def token_Done bind_out_Done_iff intro: token_moved moved_here
    split: if_splits\<close>)

lemma peg_is_pegging:
  "pegging (peg g s n sk) (peg_skip g s n sk) (peg_ok g sk) (nullable g) (no_nullable_rule g) (length s)"
proof (induction n arbitrary: sk)
  case 0
  show ?case by unfold_locales (auto simp: peg_ok_def dest: peg_skip_forward)
next
  case (Suc n)
  show ?case
  proof unfold_locales
    fix e i v j w fs
    assume a: "peg_ok g sk e" "i \<le> length s" "v \<le> i" "peg g s (Suc n) sk e i v = Done (Some (j, w, fs))"
    show "moved (no_nullable_rule g) (length s) (nullable g e) i v j w fs"
      by (rule peg_step_moved [OF Suc a(1-3)]) (use a(4) in simp)
  qed (auto simp: peg_ok_def dest: peg_skip_forward)
qed

interpretation peg_matches: pegging "peg g s n sk" "peg_skip g s n sk" "peg_ok g sk" "nullable g"
    "no_nullable_rule g" "length s" for g s n sk
  by (rule peg_is_pegging)

end
