(* ===== verification/StrictRefines.thy ===== *)
theory StrictRefines
  imports StrictParse PegBounds
begin

text \<open>
  Strict parsing against the grammar's meaning. \<open>ran\<close> and \<open>failed\<close> say what a call did to the
  context, \<open>agrees\<close> that it did what the meaning says. Every combinator keeps the agreement, so
  the whole parser refines the meaning: the same answer, the same position, and the trees of the
  meaning appended in the builder's memory, whatever was tried and rewound in between.
\<close>

subsection \<open>What calls do to the builder\<close>

definition grown :: "'e builder \<Rightarrow> 'e builder \<Rightarrow> bool" where
  "grown b b' \<longleftrightarrow> builder_ok b' \<and> (\<forall>x. builder_ok x \<longrightarrow> extends x b \<longrightarrow> extends x b')"

definition builds :: "expr builder \<Rightarrow> expr tree list \<Rightarrow> expr builder \<Rightarrow> bool" where
  "builds b fs b' \<longleftrightarrow> (\<forall>ts us. builder_ok b \<longrightarrow> represents b (ts # us) \<longrightarrow>
     grown b b' \<and> represents b' ((ts @ fs) # us))"

definition undone :: "expr builder \<Rightarrow> bool \<Rightarrow> expr builder \<Rightarrow> bool" where
  "undone b safe b' \<longleftrightarrow> (\<forall>ts us. builder_ok b \<longrightarrow> represents b (ts # us) \<longrightarrow>
     grown b b' \<and> (safe \<longrightarrow> same_cst b' b))"

lemma grown_refl: "builder_ok b \<Longrightarrow> grown b b"
  by (simp add: grown_def)

lemma grown_trans: "grown a b \<Longrightarrow> grown b c \<Longrightarrow> grown a c"
  by (auto simp: grown_def)

lemma grown_same: "builder_ok b \<Longrightarrow> same_cst b' b \<Longrightarrow> grown b b'"
  by (auto simp: grown_def intro: same_cst_ok same_cst_extends)

lemma same_cst_trans: "same_cst a b \<Longrightarrow> same_cst b c \<Longrightarrow> same_cst a c"
  by (auto simp: same_cst_def)

lemma builds_refl: "builds b [] b"
  by (simp add: builds_def grown_refl)

lemma builds_trans: "builds a fs b \<Longrightarrow> builds b gs c \<Longrightarrow> builds a (fs @ gs) c"
  unfolding builds_def by (metis append.assoc grown_def grown_trans)

lemma builds_undone: "builds a fs b \<Longrightarrow> undone b safe c \<Longrightarrow> undone a False c"
  unfolding builds_def undone_def by (metis grown_def grown_trans)

lemma undone_represents:
  "undone a True b \<Longrightarrow> builder_ok a \<Longrightarrow> represents a (ts # us) \<Longrightarrow>
    builder_ok b \<and> represents b (ts # us) \<and> grown a b \<and> same_cst b a"
  unfolding undone_def using represents_same grown_def by blast

lemma undone_builds: "undone a True b \<Longrightarrow> builds b fs c \<Longrightarrow> builds a fs c"
  unfolding builds_def by (metis undone_represents grown_trans)

lemma undone_undone: "undone a True b \<Longrightarrow> undone b safe c \<Longrightarrow> undone a safe c"
  unfolding undone_def [of a safe] by (metis undone_def undone_represents grown_trans same_cst_trans)

lemma undone_refl: "undone b safe b"
  by (simp add: undone_def grown_refl same_cst_refl)

lemma undone_weaken: "undone a True b \<Longrightarrow> undone a safe b" and undone_lose: "undone a safe b \<Longrightarrow> undone a False b"
  by (auto simp: undone_def)

lemma rewind_undone:
  assumes "undone a safe b"
  shows "undone a True (rewind b (mark a))"
  unfolding undone_def
proof (intro allI impI)
  fix ts us assume a: "builder_ok a" "represents a (ts # us)"
  then have "grown a b" using assms by (auto simp: undone_def)
  then have "builder_ok b" "extends a b" using a(1) extends_refl by (auto simp: grown_def)
  then have "same_cst (rewind b (mark a)) a" by (rule rewind_mark [OF a(1)])
  then show "grown a (rewind b (mark a)) \<and> (True \<longrightarrow> same_cst (rewind b (mark a)) a)"
    using grown_same [OF a(1)] by blast
qed

lemma builds_then_rewind: "builds a fs b \<Longrightarrow> undone a True (rewind b (mark a))"
  by (rule rewind_undone) (rule builds_undone [OF _ undone_refl])

lemma leaf_builds:
  "nodeCount b < kNoNode \<Longrightarrow> builds b [Tree x y e h r []] (leaf x y e h r b)"
  by (auto simp: builds_def grown_def leaf_ok represents_leaf intro: extends_leaf)

lemma hidden_leaves_builds:
  "nodeCount b + length ls \<le> kNoNode \<Longrightarrow> builds b (hidden_trees ls) (hidden_leaves ls b)"
proof (induction ls arbitrary: b)
  case Nil
  then show ?case by (simp add: hidden_leaves_def hidden_trees_def builds_refl)
next
  case (Cons l ls)
  obtain e x y where l: "l = (e, x, y)" by (cases l)
  have "builds b [Tree x y e True False []] (leaf x y e True False b)"
    by (rule leaf_builds) (use Cons.prems in simp)
  moreover have "builds (leaf x y e True False b) (hidden_trees ls) (hidden_leaves ls (leaf x y e True False b))"
    by (rule Cons.IH) (use Cons.prems in \<open>simp add: cst_simps\<close>)
  ultimately show ?case
    using builds_trans by (fastforce simp: l hidden_leaves_def hidden_trees_def)
qed

subsection \<open>Nodes and overridden elements\<close>

lemma enter_builds_inside:
  assumes b: "builder_ok b" and r: "represents b (ts # us)" and room: "nodeCount b < kNoNode"
  shows "builder_ok (enter b)" "represents (enter b) ([] # ts # us)"
    "\<forall>x. builder_ok x \<longrightarrow> extends x b \<longrightarrow> extends x (enter b)"
  using assms enter_ok represents_enter extends_enter by blast+

lemma node_builds:
  assumes inner: "builds (enter b) fs b'" and room: "nodeCount b < kNoNode"
  shows "builds b [Tree x y e False False fs] (exit_node x y e b')"
  unfolding builds_def
proof (intro allI impI)
  fix ts us assume b: "builder_ok b" and r: "represents b (ts # us)"
  note E = enter_builds_inside [OF b r room]
  have g: "grown (enter b) b'" and r': "represents b' (fs # ts # us)"
    using inner E(1,2) by (force simp: builds_def)+
  have ok': "builder_ok b'" using g by (simp add: grown_def)
  have d: "depth b' = Suc (length us)" "depth b = length us" using r r' by (simp_all add: represents_def)
  have "extends x' (exit_node x y e b')" if "builder_ok x'" "extends x' b" for x'
  proof (rule extends_exit [OF that(1) ok'])
    show "extends x' b'" using that E(1,3) g by (auto simp: grown_def)
    show "depth x' < depth b'" using extendsD(2) [OF that(2)] d by simp
  qed
  then show "grown b (exit_node x y e b') \<and>
      represents (exit_node x y e b') ((ts @ [Tree x y e False False fs]) # us)"
    using exit_ok [OF ok'] represents_exit [OF ok' r'] d by (simp add: grown_def)
qed

lemma enter_undone:
  assumes inner: "undone (enter b) safe b' \<or> builds (enter b) fs b'" and room: "nodeCount b < kNoNode"
  shows "undone b False b'"
  unfolding undone_def
proof (intro allI impI)
  fix ts us assume b: "builder_ok b" and r: "represents b (ts # us)"
  note E = enter_builds_inside [OF b r room]
  have "grown (enter b) b'" using inner E(1,2) by (auto simp: builds_def undone_def)
  then show "grown b b' \<and> (False \<longrightarrow> same_cst b' b)" using E(3) by (auto simp: grown_def)
qed

lemma tsize_set_element [simp]: "tsize (set_element e t) = tsize t"
  by (cases t) simp

lemma forest_override:
  "forest_at m i (xs @ t # ys) \<Longrightarrow> j = i + fsize xs \<Longrightarrow> m' j = (m j)\<lparr>grammarElement := e\<rparr> \<Longrightarrow>
    \<forall>k. k \<noteq> j \<longrightarrow> m' k = m k \<Longrightarrow> forest_at m' i (xs @ set_element e t # ys)"
proof (induction xs arbitrary: i)
  case Nil
  obtain b n x h r ks where t: "t = Tree b n x h r ks" by (cases t)
  have "forest_at m' (Suc i) ks = forest_at m (Suc i) ks" using Nil.prems(2,4) by (intro layout_cong(2)) auto
  moreover have "forest_at m' (i + tsize t) ys = forest_at m (i + tsize t) ys"
    using Nil.prems(2,4) by (intro layout_cong(2)) (auto simp: t)
  ultimately show ?case using Nil.prems by (simp add: t)
next
  case (Cons u us)
  have j: "i \<noteq> j" "i + tsize u \<le> j" using Cons.prems(2) tsize_pos [of u] by simp_all
  have "tree_at m' i u = tree_at m i u"
    using Cons.prems(4) j by (intro layout_cong(1)) auto
  moreover have "m' i = m i" using Cons.prems(4) j by blast
  moreover have "forest_at m' (i + tsize u) (us @ set_element e t # ys)"
    using Cons.prems by (intro Cons.IH) (auto simp: add.assoc)
  ultimately show ?case using Cons.prems(1) by simp
qed

lemma last_root_override:
  "last_root i (xs @ set_element e t # ys) = last_root i (xs @ t # ys)"
  by (cases ys rule: rev_cases) (simp_all add: last_root_def butlast_append)

lemma represents_override:
  assumes r: "represents b ((ts @ t # fs) # us)"
  shows "represents (override_grammar_element (start_of us + fsize ts) e b) ((ts @ set_element e t # fs) # us)"
proof -
  let ?i = "start_of us + fsize ts"
  have "open_at (nodes (override_grammar_element ?i e b)) (frames b) us = open_at (nodes b) (frames b) us"
    by (rule open_at_cong) (auto simp: override_grammar_element_def)
  then show ?thesis using r forest_override [of "nodes b" "start_of us" ts t fs ?i
      "nodes (override_grammar_element ?i e b)" e]
    by (simp add: represents_def override_grammar_element_def last_root_override)
qed

lemma override_builds:
  assumes "builds b fs b'"
  shows "builds b (override_first e fs)
    (if fs \<noteq> [] then override_grammar_element (nodeCount b) e b' else b')"
proof (cases fs)
  case Nil
  then show ?thesis using assms by (simp add: override_first_def)
next
  case (Cons t fs')
  have "grown b (override_grammar_element (nodeCount b) e b') \<and>
      represents (override_grammar_element (nodeCount b) e b') ((ts @ set_element e t # fs') # us)"
    if b: "builder_ok b" and r: "represents b (ts # us)" for ts us
  proof -
    have g: "grown b b'" and r': "represents b' ((ts @ t # fs') # us)"
      using assms b r Cons by (auto simp: builds_def)
    have n: "nodeCount b = start_of us + fsize ts" using r by (simp add: represents_def)
    have "extends x (override_grammar_element (nodeCount b) e b')" if "builder_ok x" "extends x b" for x
      using that g extendsD(1) [OF that(2)] by (intro extends_override) (auto simp: grown_def)
    then show ?thesis
      using g represents_override [OF r', of e] n by (simp add: grown_def override_ok)
  qed
  then show ?thesis by (simp add: builds_def Cons override_first_def)
qed

lemma builds_count: "builds b fs b' \<Longrightarrow> builder_ok b \<Longrightarrow> represents b (ts # us) \<Longrightarrow>
    nodeCount b < nodeCount b' \<longleftrightarrow> fs \<noteq> []"
proof -
  assume a: "builds b fs b'" "builder_ok b" "represents b (ts # us)"
  then have "represents b' ((ts @ fs) # us)" by (auto simp: builds_def)
  then have "nodeCount b' = nodeCount b + fsize fs" using a(3) by (simp add: represents_def)
  then show ?thesis by (cases fs) (simp_all add: add_pos_nonneg)
qed

subsection \<open>What calls do to the context\<close>

definition ran :: "pctx \<Rightarrow> pctx \<Rightarrow> nat \<Rightarrow> nat \<Rightarrow> expr tree list \<Rightarrow> bool" where
  "ran c c' j w fs \<longleftrightarrow> cursor c' = j \<and> lastVisibleCursor c' = w \<and> activeSkipper c' = activeSkipper c \<and>
     highWater c \<le> highWater c' \<and> (highWater c' \<le> kNoNode \<longrightarrow> builds (cst c) fs (cst c'))"

definition failed :: "bool \<Rightarrow> pctx \<Rightarrow> pctx \<Rightarrow> bool" where
  "failed safe c c' \<longleftrightarrow> activeSkipper c' = activeSkipper c \<and> highWater c \<le> highWater c' \<and>
     (safe \<longrightarrow> cursor c' = cursor c \<and> lastVisibleCursor c' = lastVisibleCursor c) \<and>
     (highWater c' \<le> kNoNode \<longrightarrow> undone (cst c) safe (cst c'))"

lemma ran_refl: "ran c c (cursor c) (lastVisibleCursor c) []"
  by (simp add: ran_def builds_refl)

lemma failed_refl: "failed safe c c"
  by (simp add: failed_def undone_refl)

lemma ran_trans: "ran c c1 j w fs \<Longrightarrow> ran c1 c2 k x gs \<Longrightarrow> ran c c2 k x (fs @ gs)"
  by (auto simp: ran_def intro: builds_trans)

lemma ran_failed: "ran c c1 j w fs \<Longrightarrow> failed safe c1 c2 \<Longrightarrow> failed False c c2"
  by (auto simp: ran_def failed_def intro: builds_undone)

lemma failed_ran: "failed True c c1 \<Longrightarrow> ran c1 c2 j w fs \<Longrightarrow> ran c c2 j w fs"
  by (auto simp: ran_def failed_def intro: undone_builds)

lemma failed_failed: "failed True c c1 \<Longrightarrow> failed safe c1 c2 \<Longrightarrow> failed safe c c2"
  by (auto simp: failed_def intro: undone_undone)

lemma failed_weaken: "failed True c c' \<Longrightarrow> failed safe c c'" and failed_lose: "failed safe c c' \<Longrightarrow> failed False c c'"
  by (auto simp: failed_def intro: undone_weaken undone_lose)

lemma failed_rewind: "failed safe c c' \<Longrightarrow> failed True c (ctx_rewind c' (ctx_mark c))"
  by (auto simp: failed_def ctx_rewind_def ctx_mark_def intro: rewind_undone)

lemma ran_rewind: "ran c c' j w fs \<Longrightarrow> failed True c (ctx_rewind c' (ctx_mark c))"
  by (auto simp: ran_def failed_def ctx_rewind_def ctx_mark_def intro: builds_then_rewind)

subsection \<open>Agreement\<close>

definition agrees :: "bool \<Rightarrow> pctx \<Rightarrow> pegged \<Rightarrow> (bool \<times> pctx) outcome \<Rightarrow> bool" where
  "agrees safe c r out \<longleftrightarrow> (case r of
     Out_of_fuel \<Rightarrow> out = Out_of_fuel
   | Done None \<Rightarrow> \<exists>c'. out = Done (False, c') \<and> failed safe c c'
   | Done (Some (j, w, fs)) \<Rightarrow> \<exists>c'. out = Done (True, c') \<and> ran c c' j w fs)"

definition skip_agrees_with :: "skip_fun \<Rightarrow> (pctx \<Rightarrow> pctx outcome) \<Rightarrow> pctx \<Rightarrow> bool" where
  "skip_agrees_with skp cskp c \<longleftrightarrow> (case skp (cursor c) of
     Out_of_fuel \<Rightarrow> cskp c = Out_of_fuel
   | Done (k, hs) \<Rightarrow> \<exists>c'. cskp c = Done c' \<and> ran c c' k (lastVisibleCursor c) hs)"

definition look_agrees :: "pctx \<Rightarrow> bool outcome \<Rightarrow> (bool \<times> pctx) outcome \<Rightarrow> bool" where
  "look_agrees c r out \<longleftrightarrow> (case r of
     Out_of_fuel \<Rightarrow> out = Out_of_fuel
   | Done m \<Rightarrow> \<exists>c'. out = Done (m, c') \<and> failed True c c')"

lemma agrees_simps [simp]:
  "agrees safe c Out_of_fuel out \<longleftrightarrow> out = Out_of_fuel"
  "agrees safe c (Done None) out \<longleftrightarrow> (\<exists>c'. out = Done (False, c') \<and> failed safe c c')"
  "agrees safe c (Done (Some (j, w, fs))) out \<longleftrightarrow> (\<exists>c'. out = Done (True, c') \<and> ran c c' j w fs)"
  by (simp_all add: agrees_def)

lemma look_agrees_simps [simp]:
  "look_agrees c Out_of_fuel out \<longleftrightarrow> out = Out_of_fuel"
  "look_agrees c (Done m) out \<longleftrightarrow> (\<exists>c'. out = Done (m, c') \<and> failed True c c')"
  by (simp_all add: look_agrees_def)

lemma agrees_cases:
  assumes "agrees safe c r out"
  obtains (Out) "r = Out_of_fuel" "out = Out_of_fuel"
    | (Fail) c' where "r = Done None" "out = Done (False, c')" "failed safe c c'"
    | (Match) j w fs c' where "r = Done (Some (j, w, fs))" "out = Done (True, c')" "ran c c' j w fs"
  using assms by (auto simp: agrees_def split: outcome.splits option.splits)

lemma look_cases:
  assumes "look_agrees c r out"
  obtains (Out) "r = Out_of_fuel" "out = Out_of_fuel"
    | (Look) m c' where "r = Done m" "out = Done (m, c')" "failed True c c'"
  using assms by (auto simp: look_agrees_def split: outcome.splits)

lemma skip_cases:
  assumes "skip_agrees_with skp cskp c"
  obtains (Out) "skp (cursor c) = Out_of_fuel" "cskp c = Out_of_fuel"
    | (Skip) k hs c' where "skp (cursor c) = Done (k, hs)" "cskp c = Done c'"
        "ran c c' k (lastVisibleCursor c) hs"
  using assms by (auto simp: skip_agrees_with_def split: outcome.splits prod.splits)

lemma agrees_lose: "agrees safe c r out \<Longrightarrow> agrees False c r out"
  by (erule agrees_cases) (auto intro: failed_lose)

text \<open>Coming from a context that has the same position and nothing changed, or more behind it.\<close>

lemma agrees_after_failed: "failed True c c1 \<Longrightarrow> agrees safe c1 r out \<Longrightarrow> agrees safe c r out"
  by (erule agrees_cases) (auto intro: failed_ran failed_failed)

lemma agrees_after_ran: "ran c c1 j w hs \<Longrightarrow> agrees safe c1 r out \<Longrightarrow> agrees False c (in_front hs r) out"
  by (erule agrees_cases) (auto simp: in_front_def intro: ran_trans ran_failed)

lemma ran_position: "ran c c' j w fs \<Longrightarrow> cursor c' = j \<and> lastVisibleCursor c' = w \<and> activeSkipper c' = activeSkipper c"
  by (simp add: ran_def)

lemma failed_position: "failed True c c' \<Longrightarrow>
    cursor c' = cursor c \<and> lastVisibleCursor c' = lastVisibleCursor c \<and> activeSkipper c' = activeSkipper c"
  by (simp add: failed_def)

lemma in_front_in_front: "in_front xs (in_front ys r) = in_front (xs @ ys) r"
  by (cases r) (auto simp: in_front_def option.map_comp comp_def split: prod.splits intro!: option.map_cong0)

lemma in_front_Nil: "in_front [] r = r"
  by (cases r) (auto simp: in_front_def option.map_id)

lemma attempt_agrees:
  assumes "agrees safe c r (f c)"
  shows "agrees True c r (attempt_parse_strict safe f c)"
proof (cases safe)
  case True
  then show ?thesis using assms by (simp add: attempt_parse_strict_def)
next
  case False
  from assms show ?thesis
    by (rule agrees_cases) (use False in \<open>auto simp: attempt_parse_strict_def intro: failed_rewind\<close>)
qed

end
