(* ===== verification/PegTotal.thy ===== *)
theory PegTotal
  imports PegBounds
begin

text \<open>
  Strict parsing returns: on a well-formed grammar that is not left-recursive and whose lookaheads
  compile, every expression has a meaning at every position.
\<close>

subsection \<open>Lookaheads that compile\<close>

fun probe_ok :: "grammar \<Rightarrow> expr \<Rightarrow> bool"
  and fast_ok :: "grammar \<Rightarrow> expr \<Rightarrow> bool"
  and fast_ok_group :: "grammar \<Rightarrow> expr list \<Rightarrow> bool"
  and fast_ok_any :: "grammar \<Rightarrow> expr list \<Rightarrow> bool"
  and probe_ok_any :: "grammar \<Rightarrow> expr list \<Rightarrow> bool" where
  "probe_ok g (Group es) = fast_ok_group g es"
| "probe_ok g (OrderedChoice es) = probe_ok_any g es"
| "probe_ok g (Repetition mn mx e) = fast_ok g e"
| "probe_ok g (AndPredicate e) = probe_ok g e"
| "probe_ok g (NotPredicate e) = probe_ok g e"
| "probe_ok g (SkipperWrapped e hid ign) = (has_probe e \<longrightarrow> probe_ok g e)"
| "probe_ok g _ = True"
| "fast_ok g (Group es) = fast_ok_group g es"
| "fast_ok g (OrderedChoice es) = fast_ok_any g es"
| "fast_ok g (Repetition mn mx e) = fast_ok g e"
| "fast_ok g (Assignment a e) = fast_ok g e"
| "fast_ok g (SkipperWrapped e hid ign) =
     (if has_fast_probe e then fast_ok g e else has_probe e \<longrightarrow> probe_ok g e)"
| "fast_ok g (RuleRef r) = (rkind (g r) \<noteq> ParserKind)"
| "fast_ok g (AndPredicate e) = probe_ok g e"
| "fast_ok g (NotPredicate e) = probe_ok g e"
| "fast_ok g _ = True"
| "fast_ok_group g [] = True"
| "fast_ok_group g (e # es) = (fast_ok g e \<and> (nullable g e \<longrightarrow> fast_ok_group g es))"
| "fast_ok_any g [] = True"
| "fast_ok_any g (e # es) = (fast_ok g e \<and> fast_ok_any g es)"
| "probe_ok_any g [] = True"
| "probe_ok_any g (e # es) = (probe_ok g e \<and> probe_ok_any g es)"

fun compiles :: "grammar \<Rightarrow> expr \<Rightarrow> bool" where
  "compiles g (Group es) = list_all (compiles g) es"
| "compiles g (OrderedChoice es) = list_all (compiles g) es"
| "compiles g (UnorderedGroup es) = list_all (compiles g) es"
| "compiles g (Repetition mn mx e) = compiles g e"
| "compiles g (AndPredicate e) = (probe_ok g e \<and> compiles g e)"
| "compiles g (NotPredicate e) = (probe_ok g e \<and> compiles g e)"
| "compiles g (Assignment a e) = compiles g e"
| "compiles g (SkipperWrapped e hid ign) = compiles g e"
| "compiles g _ = True"

lemma fast_ok_left: "fast_ok_group g es \<Longrightarrow> x \<in> set (left_part (nullable g) es) \<Longrightarrow> fast_ok g x"
  by (induction es) (auto split: if_splits)

lemma fast_ok_any_iff: "fast_ok_any g es \<longleftrightarrow> (\<forall>x \<in> set es. fast_ok g x)"
  and probe_ok_any_iff: "probe_ok_any g es \<longleftrightarrow> (\<forall>x \<in> set es. probe_ok g x)"
  by (induction es) auto

subsection \<open>The combinators return\<close>

lemma maybe_skip_out: "skp i \<noteq> Out_of_fuel \<Longrightarrow> maybe_skip skp first i \<noteq> Out_of_fuel"
  by (simp add: maybe_skip_def)

text \<open>A bound step, the way the combinators use it.\<close>

lemma bind_pair_out_iff:
  "bind_out a (\<lambda>(x, y). h x y) = Out_of_fuel \<longleftrightarrow>
    a = Out_of_fuel \<or> (\<exists>x y. a = Done (x, y) \<and> h x y = Out_of_fuel)"
  by (cases a) auto

lemma bind_match_out_iff:
  "bind_out a (\<lambda>m. case m of None \<Rightarrow> r | Some (x, y, z) \<Rightarrow> h x y z) = Out_of_fuel \<longleftrightarrow>
    a = Out_of_fuel \<or> a = Done None \<and> r = Out_of_fuel \<or>
    (\<exists>x y z. a = Done (Some (x, y, z)) \<and> h x y z = Out_of_fuel)"
  by (cases a) (auto split: option.splits)

lemma if_returns: "a \<noteq> Out_of_fuel \<Longrightarrow> b \<noteq> Out_of_fuel \<Longrightarrow> (if c then a else b) \<noteq> Out_of_fuel"
  by simp

context pegging
begin

abbreviation ret :: "expr \<Rightarrow> nat \<Rightarrow> bool" where
  "ret e k \<equiv> \<forall>v \<le> k. p e k v \<noteq> Out_of_fuel"

abbreviation skips_from :: "nat \<Rightarrow> bool" where
  "skips_from i \<equiv> \<forall>k. i \<le> k \<and> k \<le> len \<longrightarrow> skp k \<noteq> Out_of_fuel"

abbreviation ret_from :: "expr \<Rightarrow> nat \<Rightarrow> bool" where
  "ret_from e i \<equiv> \<forall>k. i \<le> k \<and> k \<le> len \<longrightarrow> ret e k"

text \<open>
  An item, the skip in front of it and what comes behind: the rest is asked from where the item
  ended, strictly later when the item is not nullable.
\<close>

lemma item_returns:
  assumes e: "ok e" and i: "i \<le> len" "v \<le> i" and s: "skp i \<noteq> Out_of_fuel"
    and q: "\<And>k hs. maybe_skip skp first i = Done (k, hs) \<Longrightarrow> i \<le> k \<Longrightarrow> k \<le> len \<Longrightarrow> p e k v \<noteq> Out_of_fuel"
    and none: "none \<noteq> Out_of_fuel"
    and rest: "\<And>j w. i \<le> j \<Longrightarrow> j \<le> len \<Longrightarrow> w \<le> j \<Longrightarrow> (\<not> nul e \<longrightarrow> i < j) \<Longrightarrow> r j w \<noteq> Out_of_fuel"
  shows "bind_out (maybe_skip skp first i) (\<lambda>(k, hs). bind_out (p e k v) (\<lambda>m. case m of
         None \<Rightarrow> none | Some (j, w, fs) \<Rightarrow> in_front (hs @ fs) (r j w))) \<noteq> Out_of_fuel"
proof -
  have "p e k v \<noteq> Out_of_fuel" if k: "maybe_skip skp first i = Done (k, hs)" for k hs
    using q [OF k] movedD [OF maybe_skip_moved [OF e i k]] by blast
  moreover have "r j w \<noteq> Out_of_fuel"
    if k: "maybe_skip skp first i = Done (k, hs)" and m: "p e k v = Done (Some (j, w, fs))" for k hs j w fs
    using rest item_moved [OF e i k m] by (auto simp: moved_def)
  ultimately show ?thesis
    using maybe_skip_out [of skp i first] s none
    by (auto simp: bind_pair_out_iff bind_match_out_iff)
qed

lemma seq_returns:
  "list_all ok es \<Longrightarrow> i \<le> len \<Longrightarrow> v \<le> i \<Longrightarrow> skips_from i \<Longrightarrow>
    \<forall>e \<in> set (left_part nul es). ret e i \<Longrightarrow> \<forall>e \<in> set es. ret_from e (Suc i) \<Longrightarrow>
    peg_seq p skp first es i v \<noteq> Out_of_fuel"
proof (induction es arbitrary: first i v)
  case (Cons e es)
  have e: "ok e" "list_all ok es" using Cons.prems(1) by simp_all
  have "p e k v \<noteq> Out_of_fuel" if "i \<le> k" "k \<le> len" for k
    using Cons.prems(3,5,6) that by (cases "i = k") auto
  moreover have "peg_seq p skp False es j w \<noteq> Out_of_fuel"
    if j: "i \<le> j" "j \<le> len" "w \<le> j" "\<not> nul e \<longrightarrow> i < j" for j w
  proof (rule Cons.IH [OF e(2) j(2,3)])
    show "\<forall>e \<in> set (left_part nul es). ret e j"
    proof (cases "i = j")
      case True
      then show ?thesis using j(4) Cons.prems(5) by auto
    next
      case False
      then have "\<forall>e \<in> set es. ret e j" using Cons.prems(6) j by auto
      then show ?thesis using left_part_subset [of nul es] by blast
    qed
  qed (use Cons.prems(4,6) j in auto)
  ultimately show ?case using Cons.prems(2-4) by (simp only: peg_seq.simps) (rule item_returns [OF e(1)]; simp)
qed simp

lemma choice_returns: "\<forall>e \<in> set es. ret e i \<Longrightarrow> v \<le> i \<Longrightarrow> peg_choice p es i v \<noteq> Out_of_fuel"
  by (induction es) (auto simp: bind_option_out_iff)

lemma star_returns:
  "ok e \<Longrightarrow> \<not> nul e \<Longrightarrow> i \<le> len \<Longrightarrow> v \<le> i \<Longrightarrow> skips_from i \<Longrightarrow> ret_from e i \<Longrightarrow> len - i < n \<Longrightarrow>
    peg_star (p e) skp n i v \<noteq> Out_of_fuel"
proof (induction n arbitrary: i v)
  case (Suc n)
  have "peg_star (p e) skp n j w \<noteq> Out_of_fuel" if "i < j" "j \<le> len" "w \<le> j" for j w
    using that Suc.prems by (intro Suc.IH) auto
  then show ?case using Suc.prems
    unfolding peg_star.simps skip_first [of i] by (intro item_returns [OF Suc.prems(1)]) auto
qed simp

lemma upto_returns:
  "ok e \<Longrightarrow> i \<le> len \<Longrightarrow> v \<le> i \<Longrightarrow> skips_from i \<Longrightarrow> ret_from e i \<Longrightarrow> peg_upto (p e) skp c i v \<noteq> Out_of_fuel"
proof (induction c arbitrary: i v)
  case (Suc n)
  have "peg_upto (p e) skp n j w \<noteq> Out_of_fuel" if "i \<le> j" "j \<le> len" "w \<le> j" for j w
    using that Suc.prems by (intro Suc.IH) auto
  then show ?case using Suc.prems
    unfolding peg_upto.simps skip_first [of i] by (intro item_returns [OF Suc.prems(1)]) auto
qed simp

lemma times_returns:
  "ok e \<Longrightarrow> i \<le> len \<Longrightarrow> v \<le> i \<Longrightarrow> skips_from i \<Longrightarrow> ret_from e i \<Longrightarrow> peg_times (p e) skp c i v \<noteq> Out_of_fuel"
proof (induction c arbitrary: i v)
  case (Suc n)
  have "peg_times (p e) skp n j w \<noteq> Out_of_fuel" if "i \<le> j" "j \<le> len" "w \<le> j" for j w
    using that Suc.prems by (intro Suc.IH) auto
  then show ?case using Suc.prems
    unfolding peg_times.simps skip_first [of i] by (intro item_returns [OF Suc.prems(1)]) auto
qed simp

lemma then_returns:
  "r \<noteq> Out_of_fuel \<Longrightarrow> none \<noteq> Out_of_fuel \<Longrightarrow> (\<And>j w fs. r = Done (Some (j, w, fs)) \<Longrightarrow> f j w \<noteq> Out_of_fuel) \<Longrightarrow>
    peg_then r none f \<noteq> Out_of_fuel"
  by (auto simp: peg_then_def bind_match_out_iff)

lemma repetition_returns:
  assumes e: "ok e" "\<not> nul e" and i: "i \<le> len" "v \<le> i" and s: "skips_from i" "ret_from e i" and n: "len < n"
  shows "peg_repetition (p e) skp n mn mx i v \<noteq> Out_of_fuel"
proof -
  have later: "skips_from j" "ret_from e j" if "i \<le> j" for j using s that by auto
  have star: "peg_star (p e) skp n j w \<noteq> Out_of_fuel" if "i \<le> j" "j \<le> len" "w \<le> j" for j w
    using star_returns [OF e that(2,3) later [OF that(1)]] n by auto
  note upto = upto_returns [OF e(1)] and times = times_returns [OF e(1)]
  have item: "p e i v \<noteq> Out_of_fuel" using s(2) i by auto
  have after: "i \<le> j \<and> j \<le> len \<and> w \<le> j" if "p e i v = Done (Some (j, w, fs))" for j w fs
    using movedD [OF elem [OF e(1) i that]] .
  have both: "peg_then (peg_times (p e) skp c j w) (Done None) (peg_upto (p e) skp d) \<noteq> Out_of_fuel"
    if "i \<le> j" "j \<le> len" "w \<le> j" for c d j w
  proof (rule then_returns [OF times [OF that(2,3) later [OF that(1)]]])
    fix k x fs assume "peg_times (p e) skp c j w = Done (Some (k, x, fs))"
    from movedD [OF times_moved [OF e(1) that(2,3) this]] that(1)
    show "peg_upto (p e) skp d k x \<noteq> Out_of_fuel" by (intro upto later) auto
  qed simp
  have T: "peg_then (p e i v) none f \<noteq> Out_of_fuel"
    if "none \<noteq> Out_of_fuel" "\<forall>j w. i \<le> j \<and> j \<le> len \<and> w \<le> j \<longrightarrow> f j w \<noteq> Out_of_fuel" for none f
    using that item after by (intro then_returns) blast+
  have F: "\<forall>j w. i \<le> j \<and> j \<le> len \<and> w \<le> j \<longrightarrow> peg_star (p e) skp n j w \<noteq> Out_of_fuel"
    "\<forall>j w. i \<le> j \<and> j \<le> len \<and> w \<le> j \<longrightarrow> peg_upto (p e) skp c j w \<noteq> Out_of_fuel"
    "\<forall>j w. i \<le> j \<and> j \<le> len \<and> w \<le> j \<longrightarrow> peg_times (p e) skp c j w \<noteq> Out_of_fuel"
    "\<forall>j w. i \<le> j \<and> j \<le> len \<and> w \<le> j \<longrightarrow>
      peg_then (peg_times (p e) skp c j w) (Done None) (peg_upto (p e) skp d) \<noteq> Out_of_fuel" for c d
    using star both upto [OF _ _ later] times [OF _ _ later] by blast+
  show ?thesis
    unfolding peg_repetition_def Let_def
    by (intro if_returns T F) simp_all
qed

lemma one_of_returns:
  "\<forall>e \<in> fst ` set fl. ret e i \<Longrightarrow> v \<le> i \<Longrightarrow> peg_one_of p fl i v \<noteq> Out_of_fuel"
proof (induction fl)
  case (Cons a fl)
  then show ?case by (cases a) (auto simp: bind_out_out_iff split: option.splits)
qed simp

lemma unordered_returns:
  "\<forall>e \<in> fst ` set fl. ok e \<and> \<not> nul e \<Longrightarrow> fl \<noteq> [] \<Longrightarrow> i \<le> len \<Longrightarrow> v \<le> i \<Longrightarrow> skips_from i \<Longrightarrow>
    \<forall>e \<in> fst ` set fl. ret_from e i \<Longrightarrow> peg_unordered p skp first c fl i v \<noteq> Out_of_fuel"
proof (induction c arbitrary: first fl i v)
  case (Suc c)
  obtain e where e: "ok e" using Suc.prems(1,2) by (cases fl) auto
  have s: "maybe_skip skp first i \<noteq> Out_of_fuel" using Suc.prems(3,5) by (intro maybe_skip_out) simp
  have at: "i \<le> k \<and> k \<le> len" if "maybe_skip skp first i = Done (k, hs)" for k hs
    using movedD [OF maybe_skip_moved [OF e Suc.prems(3,4) that]] by simp
  have one: "peg_one_of p fl k v \<noteq> Out_of_fuel" if "i \<le> k" "k \<le> len" for k
    using Suc.prems(4,6) that by (intro one_of_returns) auto
  have rest: "peg_unordered p skp False c fl' j w \<noteq> Out_of_fuel"
    if k: "i \<le> k" "k \<le> len" and m: "peg_one_of p fl k v = Done (Some ((j, w, fs), fl'))" for k j w fs fl'
  proof -
    have o: "moved tidy len False k v j w fs \<and> map fst fl' = map fst fl"
      using one_of_moved [OF Suc.prems(1) k(2) _ m] k(1) Suc.prems(4) by simp
    then have "fst ` set fl' = fst ` set fl" "fl' \<noteq> []" using Suc.prems(2) by (metis list.set_map, auto)
    then show ?thesis using Suc.prems movedD [OF conjunct1 [OF o]] k(1) by (intro Suc.IH) auto
  qed
  show ?case
    using s at one rest
    by (auto simp: bind_pair_out_iff bind_out_out_iff split: option.splits prod.splits)
qed simp

end

lemma any_returns: "\<forall>e \<in> set es. q e \<noteq> Out_of_fuel \<Longrightarrow> any_outcome q es \<noteq> Out_of_fuel"
  by (induction es) (auto simp: bind_out_out_iff)

lemma starts_returns:
  "\<forall>e \<in> set (left_part (nullable g) es). q e \<noteq> Out_of_fuel \<Longrightarrow> group_starts g q es \<noteq> Out_of_fuel"
  by (induction es) (auto simp: bind_out_out_iff split: if_splits)

end
