(* ===== verification/PegReturns.thy ===== *)
theory PegReturns
  imports PegTotal
begin

text \<open>
  The induction behind termination: on the text left, the rank of the rules an expression may call
  in front, and its size. All three judgements, parsing, probing and fast probing, are shown
  together.
\<close>

definition compiling :: "grammar \<Rightarrow> bool" where
  "compiling g \<longleftrightarrow> (\<forall>r. compiles g (rbody (g r)))"

definition parse_ok :: "grammar \<Rightarrow> skipper \<Rightarrow> expr \<Rightarrow> bool" where
  "parse_ok g sk e \<longleftrightarrow> peg_ok g sk e \<and> compiles g e"

lemma parse_ok_parts:
  "parse_ok g sk (Group es) \<Longrightarrow> x \<in> set es \<Longrightarrow> parse_ok g sk x"
  "parse_ok g sk (OrderedChoice es) \<Longrightarrow> x \<in> set es \<Longrightarrow> parse_ok g sk x"
  "parse_ok g sk (UnorderedGroup es) \<Longrightarrow> x \<in> set es \<Longrightarrow> parse_ok g sk x"
  "parse_ok g sk (Repetition mn mx e) \<Longrightarrow> parse_ok g sk e"
  "parse_ok g sk (AndPredicate e) \<Longrightarrow> parse_ok g sk e \<and> probe_ok g e"
  "parse_ok g sk (NotPredicate e) \<Longrightarrow> parse_ok g sk e \<and> probe_ok g e"
  "parse_ok g sk (Assignment a e) \<Longrightarrow> parse_ok g sk e"
  "parse_ok g sk (SkipperWrapped e hid ign) \<Longrightarrow> parse_ok g (Skipper hid ign) e"
  "compiling g \<Longrightarrow> parse_ok g sk (RuleRef r) \<Longrightarrow> parse_ok g (local_skipper g r sk) (rbody (g r))"
proof -
  assume x: "x \<in> set es"
  show "parse_ok g sk x" if "parse_ok g sk (Group es)"
    using that peg_ok_parts(1) [of g sk es] x by (simp add: parse_ok_def list_all_iff)
  show "parse_ok g sk x" if "parse_ok g sk (OrderedChoice es)"
    using that peg_ok_parts(2) [of g sk es] x by (simp add: parse_ok_def list_all_iff)
  show "parse_ok g sk x" if "parse_ok g sk (UnorderedGroup es)"
    using that peg_ok_parts(3) [of g sk es] x by (simp add: parse_ok_def list_all_iff unmatched_def)
next
  show "parse_ok g sk (Repetition mn mx e) \<Longrightarrow> parse_ok g sk e"
    using peg_ok_parts(5) [of g sk mn mx e] by (simp add: parse_ok_def)
  show "parse_ok g sk (AndPredicate e) \<Longrightarrow> parse_ok g sk e \<and> probe_ok g e"
    using peg_ok_parts(10) [of g sk e] by (simp add: parse_ok_def)
  show "parse_ok g sk (NotPredicate e) \<Longrightarrow> parse_ok g sk e \<and> probe_ok g e"
    using peg_ok_parts(11) [of g sk e] by (simp add: parse_ok_def)
  show "parse_ok g sk (Assignment a e) \<Longrightarrow> parse_ok g sk e"
    using peg_ok_parts(7) [of g sk a e] by (simp add: parse_ok_def)
  show "parse_ok g sk (SkipperWrapped e hid ign) \<Longrightarrow> parse_ok g (Skipper hid ign) e"
    using peg_ok_parts(9) [of g sk e hid ign] by (simp add: parse_ok_def)
  show "compiling g \<Longrightarrow> parse_ok g sk (RuleRef r) \<Longrightarrow> parse_ok g (local_skipper g r sk) (rbody (g r))"
    using peg_ok_rule [of g sk r] by (simp add: parse_ok_def compiling_def)
qed

text \<open>A wrapped expression is probed with the skipper in force, not with its own.\<close>

lemma parse_ok_skipper: "parse_ok g sk e \<Longrightarrow> skipper_ok g sk' \<Longrightarrow> parse_ok g sk' e"
  by (simp add: parse_ok_def peg_ok_def)

definition peg_returns :: "grammar \<Rightarrow> string \<Rightarrow> nat \<Rightarrow> expr \<Rightarrow> bool" where
  "peg_returns g s i e \<longleftrightarrow> (\<forall>sk. parse_ok g sk e \<longrightarrow> (\<forall>v \<le> i. returns (\<lambda>n. peg g s n sk e i v)))"

definition look_returns :: "grammar \<Rightarrow> string \<Rightarrow> nat \<Rightarrow> expr \<Rightarrow> bool" where
  "look_returns g s i e \<longleftrightarrow> (\<forall>sk. parse_ok g sk e \<longrightarrow> (\<forall>v \<le> i.
     (probe_ok g e \<longrightarrow> returns (\<lambda>n. peg_probe g s n sk i v e)) \<and>
     (fast_ok g e \<longrightarrow> returns (\<lambda>n. peg_fast g s n sk i v e))))"

lemma peg_returnsD:
  "peg_returns g s i e \<Longrightarrow> parse_ok g sk e \<Longrightarrow> v \<le> i \<Longrightarrow> returns (\<lambda>n. peg g s n sk e i v)"
  unfolding peg_returns_def by blast

lemma look_returnsD:
  assumes "look_returns g s i e" "parse_ok g sk e" "v \<le> i"
  shows "probe_ok g e \<longrightarrow> returns (\<lambda>n. peg_probe g s n sk i v e)"
    and "fast_ok g e \<longrightarrow> returns (\<lambda>n. peg_fast g s n sk i v e)"
  using assms unfolding look_returns_def by blast+

lemma peg_returns_uniform:
  assumes "\<forall>x \<in> set xs. \<forall>k \<in> K. peg_returns g s k x \<and> parse_ok g sk x" and "finite K"
  shows "\<exists>N. \<forall>n \<ge> N. \<forall>x \<in> set xs. \<forall>k \<in> K. \<forall>v \<le> k. peg g s n sk x k v \<noteq> Out_of_fuel"
proof -
  let ?A = "Sigma (set xs \<times> K) (\<lambda>(x, k). {..k})"
  have "returns (\<lambda>n. peg g s n sk (fst (fst a)) (snd (fst a)) (snd a))" if "a \<in> ?A" for a
    using that assms(1) peg_returnsD [of g s "snd (fst a)" "fst (fst a)" sk "snd a"] by auto
  from returns_finite [of ?A "\<lambda>a n. peg g s n sk (fst (fst a)) (snd (fst a)) (snd a)", OF _ this]
  obtain N where "\<forall>n \<ge> N. \<forall>a \<in> ?A. peg g s n sk (fst (fst a)) (snd (fst a)) (snd a) \<noteq> Out_of_fuel"
    using assms(2) by (auto simp: case_prod_beta)
  then show ?thesis by (intro exI [of _ N]) force
qed

lemma peg_skip_returns:
  assumes "not_left_recursive g rk" "skipper_ok g sk"
  shows "\<exists>N. \<forall>n \<ge> N. \<forall>k \<le> length s. peg_skip g s n sk k \<noteq> Out_of_fuel"
proof -
  have r: "skip_rules g (hiddenRules sk)" "skip_rules g (ignoredRules sk)" using assms(2) by (simp_all add: skipper_ok_def)
  obtain N M where N: "\<forall>n \<ge> N. all_return g s n (hiddenRules sk)" and M: "\<forall>n \<ge> M. all_return g s n (ignoredRules sk)"
    using skip_rules_return [OF assms(1) r(1)] skip_rules_return [OF assms(1) r(2)] by blast
  have "peg_skip g s n sk k \<noteq> Out_of_fuel" if n: "max (max N M) (Suc (length s)) \<le> n" and k: "k \<le> length s" for n k
  proof -
    have "\<exists>p ls. skip_with g s n n (hiddenRules sk) (ignoredRules sk) k = Done (p, ls) \<and> leaves_between k p ls \<and> p \<le> length s"
      using N M n k by (intro skip_with_returns [OF r(2,1)]) auto
    then show ?thesis by (auto simp: peg_skip_def)
  qed
  then show ?thesis by blast
qed

text \<open>Everything an expression may call returns, from the position on.\<close>

definition calls_return :: "grammar \<Rightarrow> (nat \<Rightarrow> nat) \<Rightarrow> string \<Rightarrow> nat \<Rightarrow> nat \<Rightarrow> expr \<Rightarrow> bool" where
  "calls_return g rk s i R e \<longleftrightarrow>
     not_left_recursive g rk \<and> compiling g \<and> i \<le> length s \<and> calls_below rk g R e \<and>
     (\<forall>k x. i < k \<and> k \<le> length s \<longrightarrow> peg_returns g s k x) \<and>
     (\<forall>Q x. Q < R \<and> calls_below rk g Q x \<longrightarrow> peg_returns g s i x) \<and>
     (\<forall>x. size x < size e \<and> calls_below rk g R x \<longrightarrow> peg_returns g s i x \<and> look_returns g s i x)"

lemma calls_returnD:
  assumes "calls_return g rk s i R e"
  shows "not_left_recursive g rk" "compiling g" "i \<le> length s" "calls_below rk g R e"
    "i < k \<Longrightarrow> k \<le> length s \<Longrightarrow> peg_returns g s k x"
    "Q < R \<Longrightarrow> calls_below rk g Q x \<Longrightarrow> peg_returns g s i x"
    "size x < size e \<Longrightarrow> calls_below rk g R x \<Longrightarrow> peg_returns g s i x"
    "size x < size e \<Longrightarrow> calls_below rk g R x \<Longrightarrow> look_returns g s i x"
  using assms by (simp_all add: calls_return_def)

text \<open>The hypothesis under its parts' names.\<close>

lemmas crD_nlr = calls_returnD(1) and crD_comp = calls_returnD(2) and crD_i = calls_returnD(3)
  and crD_R = calls_returnD(4) and crD_ahead = calls_returnD(5) and crD_lower = calls_returnD(6)
  and crD_smaller = calls_returnD(7) and crD_look = calls_returnD(8)

lemma here:
  assumes cr: "calls_return g rk s i R e" and xs: "\<forall>x \<in> set xs. size x < size e \<and> calls_below rk g R x \<and> parse_ok g sk x"
  shows "\<exists>N. \<forall>n \<ge> N. \<forall>x \<in> set xs. \<forall>v \<le> i. peg g s n sk x i v \<noteq> Out_of_fuel"
  using peg_returns_uniform [of xs "{i}" g s sk] xs crD_smaller [OF cr] by auto

lemma later:
  assumes cr: "calls_return g rk s i R e" and xs: "\<forall>x \<in> set xs. parse_ok g sk x"
  shows "\<exists>N. \<forall>n \<ge> N. \<forall>x \<in> set xs. \<forall>k. Suc i \<le> k \<and> k \<le> length s \<longrightarrow>
    (\<forall>v \<le> k. peg g s n sk x k v \<noteq> Out_of_fuel)"
proof -
  have "\<forall>x \<in> set xs. \<forall>k \<in> {i<..length s}. peg_returns g s k x \<and> parse_ok g sk x"
    using xs crD_ahead [OF cr] by simp
  from peg_returns_uniform [OF this] obtain N where
    "\<forall>n \<ge> N. \<forall>x \<in> set xs. \<forall>k \<in> {i<..length s}. \<forall>v \<le> k. peg g s n sk x k v \<noteq> Out_of_fuel" by blast
  then show ?thesis by (intro exI [of _ N]) (simp add: Suc_le_eq)
qed

lemma both:
  assumes cr: "calls_return g rk s i R e" and xs: "\<forall>x \<in> set xs. size x < size e \<and> calls_below rk g R x \<and> parse_ok g sk x"
  shows "\<exists>N. \<forall>n \<ge> N. \<forall>x \<in> set xs. \<forall>k. i \<le> k \<and> k \<le> length s \<longrightarrow>
    (\<forall>v \<le> k. peg g s n sk x k v \<noteq> Out_of_fuel)"
proof -
  have "\<forall>x \<in> set xs. \<forall>k \<in> {i..length s}. peg_returns g s k x \<and> parse_ok g sk x"
    using xs crD_ahead [OF cr] crD_smaller [OF cr] by (metis atLeastAtMost_iff le_neq_implies_less)
  from peg_returns_uniform [OF this] obtain N where
    "\<forall>n \<ge> N. \<forall>x \<in> set xs. \<forall>k \<in> {i..length s}. \<forall>v \<le> k. peg g s n sk x k v \<noteq> Out_of_fuel" by blast
  then show ?thesis by (intro exI [of _ N]) simp
qed

lemma skips: "calls_return g rk s i R e \<Longrightarrow> parse_ok g sk e \<Longrightarrow> \<exists>N. \<forall>n \<ge> N. \<forall>k. i \<le> k \<and> k \<le> length s \<longrightarrow> peg_skip g s n sk k \<noteq> Out_of_fuel"
proof -
  assume a: "calls_return g rk s i R e" "parse_ok g sk e"
  obtain N where "\<forall>n \<ge> N. \<forall>k \<le> length s. peg_skip g s n sk k \<noteq> Out_of_fuel"
    using peg_skip_returns [OF crD_nlr [OF a(1)], of sk s] a(2) by (auto simp: parse_ok_def peg_ok_def)
  then show ?thesis by (intro exI [of _ N]) simp
qed

lemma any_left:
  assumes cr: "calls_return g rk s i R e" and "left_calls g e = left_calls_any g es" "x \<in> set es"
  shows "calls_below rk g R x"
  using assms(2,3) crD_R [OF cr] calls_below_any [of g es rk R x] by (simp add: calls_below_def)

lemma look_one:
  assumes cr: "calls_return g rk s i R e" and x: "size x < size e" "calls_below rk g R x" "parse_ok g sk x" "v \<le> i"
  shows "probe_ok g x \<Longrightarrow> returns (\<lambda>n. peg_probe g s n sk i v x)"
    and "fast_ok g x \<Longrightarrow> returns (\<lambda>n. peg_fast g s n sk i v x)"
  using look_returnsD [OF crD_look [OF cr x(1,2)] x(3,4)] by blast+

lemma returns_bind_Done: "returns f \<Longrightarrow> returns (\<lambda>n. bind_out (f n) (\<lambda>m. Done (h m)))"
  by (auto simp: returns_def bind_out_out_iff)

lemma returns_maps:
  "returns f \<Longrightarrow> returns (\<lambda>n. node x i (f n))" "returns f \<Longrightarrow> returns (\<lambda>n. overriding x (f n))"
  "returns f \<Longrightarrow> returns (\<lambda>n. matches_outcome (f n))"
  by (simp_all add: node_def overriding_def matches_outcome_def returns_bind_Done)

lemma one: "calls_return g rk s i R e \<Longrightarrow> size x < size e \<Longrightarrow> calls_below rk g R x \<Longrightarrow> parse_ok g sk x \<Longrightarrow> v \<le> i \<Longrightarrow>
    returns (\<lambda>n. peg g s n sk x i v)"
  by (rule peg_returnsD [OF crD_smaller])

lemma peg_step_returns:
  assumes cr: "calls_return g rk s i R e" and ok: "parse_ok g sk e" and v: "v \<le> i"
  shows "returns (\<lambda>n. peg_step g s n (peg g s n) (peg_probe g s n) sk e i v)"
proof (cases e)
  case (Group es)
  have cap: "\<forall>x \<in> set es. parse_ok g sk x" using ok parse_ok_parts(1) Group by blast
  have lp: "\<forall>x \<in> set (left_part (nullable g) es). size x < size e \<and> calls_below rk g R x \<and> parse_ok g sk x"
    using cap calls_below_left_part [of rk g R es] crD_R [OF cr] left_part_subset [of "nullable g" es]
      expr_size_less [of _ es] by (auto simp: Group)
  obtain N M L where N: "\<forall>n \<ge> N. \<forall>x \<in> set (left_part (nullable g) es). \<forall>v \<le> i. peg g s n sk x i v \<noteq> Out_of_fuel"
    and M: "\<forall>n \<ge> M. \<forall>x \<in> set es. \<forall>k. Suc i \<le> k \<and> k \<le> length s \<longrightarrow> (\<forall>v \<le> k. peg g s n sk x k v \<noteq> Out_of_fuel)"
    and L: "\<forall>n \<ge> L. \<forall>k. i \<le> k \<and> k \<le> length s \<longrightarrow> peg_skip g s n sk k \<noteq> Out_of_fuel"
    using here [OF cr lp] later [OF cr cap] skips [OF cr ok] by (elim exE) (rule that)
  have ok': "list_all (peg_ok g sk) es" using cap by (simp add: list_all_iff parse_ok_def)
  have "peg_seq (peg g s n sk) (peg_skip g s n sk) True es i v \<noteq> Out_of_fuel" if "max (max N M) L \<le> n" for n
    using N M L that by (intro peg_matches.seq_returns [OF ok' crD_i [OF cr] v]) auto
  then show ?thesis by (intro returnsI [of "max (max N M) L"]) (simp add: peg_step_def Group)
next
  case (OrderedChoice es)
  have lp: "\<forall>x \<in> set es. size x < size e \<and> calls_below rk g R x \<and> parse_ok g sk x"
    using ok parse_ok_parts(2) any_left [OF cr, of es] expr_size_less [of _ es] by (auto simp: OrderedChoice)
  obtain N where "\<forall>n \<ge> N. \<forall>x \<in> set es. \<forall>v \<le> i. peg g s n sk x i v \<noteq> Out_of_fuel" using here [OF cr lp] by blast
  then show ?thesis using peg_matches.choice_returns v
    by (intro returnsI [of N]) (simp add: peg_step_def OrderedChoice)
next
  case (UnorderedGroup es)
  have lp: "\<forall>x \<in> set es. size x < size e \<and> calls_below rk g R x \<and> parse_ok g sk x"
    using ok parse_ok_parts(3) any_left [OF cr, of es] expr_size_less [of _ es] by (auto simp: UnorderedGroup)
  obtain N L where N: "\<forall>n \<ge> N. \<forall>x \<in> set es. \<forall>k. i \<le> k \<and> k \<le> length s \<longrightarrow> (\<forall>v \<le> k. peg g s n sk x k v \<noteq> Out_of_fuel)"
    and L: "\<forall>n \<ge> L. \<forall>k. i \<le> k \<and> k \<le> length s \<longrightarrow> peg_skip g s n sk k \<noteq> Out_of_fuel"
    using both [OF cr lp] skips [OF cr ok] by blast
  have ok': "\<forall>x \<in> fst ` set (unmatched es). peg_ok g sk x \<and> \<not> nullable g x" "unmatched es \<noteq> []"
    using ok peg_ok_parts(3,4) [of g sk es] by (auto simp: UnorderedGroup parse_ok_def unmatched_def)
  have "peg_unordered (peg g s n sk) (peg_skip g s n sk) True (length es) (unmatched es) i v \<noteq> Out_of_fuel"
    if "max N L \<le> n" for n
    using N L that by (intro peg_matches.unordered_returns [OF ok' crD_i [OF cr] v]) (auto simp: unmatched_def)
  then show ?thesis by (intro returnsI [of "max N L"]) (simp add: peg_step_def UnorderedGroup)
next
  case (Repetition mn mx x)
  have x: "peg_ok g sk x" "\<not> nullable g x" using ok peg_ok_parts(5,6) by (auto simp: Repetition parse_ok_def)
  have lp: "\<forall>y \<in> set [x]. size y < size e \<and> calls_below rk g R y \<and> parse_ok g sk y"
    using ok parse_ok_parts(4) crD_R [OF cr] by (auto simp: Repetition calls_below_def)
  obtain N L where N: "\<forall>n \<ge> N. \<forall>k. i \<le> k \<and> k \<le> length s \<longrightarrow> (\<forall>v \<le> k. peg g s n sk x k v \<noteq> Out_of_fuel)"
    and L: "\<forall>n \<ge> L. \<forall>k. i \<le> k \<and> k \<le> length s \<longrightarrow> peg_skip g s n sk k \<noteq> Out_of_fuel"
    using both [OF cr lp] skips [OF cr ok] by auto
  have "peg_repetition (peg g s n sk x) (peg_skip g s n sk) n mn mx i v \<noteq> Out_of_fuel"
    if "max (max N L) (Suc (length s)) \<le> n" for n
    using N L that by (intro peg_matches.repetition_returns [OF x crD_i [OF cr] v]) auto
  then show ?thesis by (intro returnsI [of "max (max N L) (Suc (length s))"]) (simp add: peg_step_def Repetition)
next
  case (AndPredicate x)
  have "returns (\<lambda>n. peg_probe g s n sk i v x)"
    using look_one(1) [OF cr, of x sk v] ok v crD_R [OF cr] parse_ok_parts(5) by (auto simp: AndPredicate calls_below_def)
  then show ?thesis by (simp add: peg_step_def AndPredicate returns_bind_Done)
next
  case (NotPredicate x)
  have "returns (\<lambda>n. peg_probe g s n sk i v x)"
    using look_one(1) [OF cr, of x sk v] ok v crD_R [OF cr] parse_ok_parts(6) by (auto simp: NotPredicate calls_below_def)
  then show ?thesis by (simp add: peg_step_def NotPredicate returns_bind_Done)
next
  case (RuleRef r)
  show ?thesis
  proof (cases "rkind (g r) = TerminalKind")
    case True
    have "wf_grammar g" using ok by (simp add: parse_ok_def peg_ok_def)
    then have "capable g (rbody (g r))" using True by (simp add: capable_def wf_grammarD)
    from terminal_returns [OF crD_nlr [OF cr] this crD_i [OF cr]] show ?thesis
      by (simp add: peg_step_def RuleRef True returns_bind_Done)
  next
    case False
    have "rk r < R" using crD_R [OF cr] by (simp add: RuleRef calls_below_def)
    moreover have "calls_below rk g (rk r) (rbody (g r))"
      using crD_nlr [OF cr] by (simp add: not_left_recursive_def calls_below_def)
    moreover have "parse_ok g (local_skipper g r sk) (rbody (g r))"
      using ok RuleRef parse_ok_parts(9) crD_comp [OF cr] by blast
    ultimately have "returns (\<lambda>n. peg g s n (local_skipper g r sk) (rbody (g r)) i v)"
      using peg_returnsD [OF crD_lower [OF cr]] v by blast
    then show ?thesis by (simp add: peg_step_def RuleRef False returns_maps)
  qed
next
  case (Assignment a x)
  have "returns (\<lambda>n. peg g s n sk x i v)"
    using one [OF cr, of x sk v] ok v crD_R [OF cr] parse_ok_parts(7) by (auto simp: Assignment calls_below_def)
  then show ?thesis by (cases "isOrderedChoice x") (simp_all add: peg_step_def Assignment returns_maps)
next
  case (SkipperWrapped x hid ign)
  have "returns (\<lambda>n. peg g s n (Skipper hid ign) x i v)"
    using one [OF cr, of x "Skipper hid ign" v] ok v crD_R [OF cr] parse_ok_parts(8) by (simp add: SkipperWrapped calls_below_def)
  then show ?thesis by (simp add: peg_step_def SkipperWrapped)
qed (simp_all add: peg_step_def returns_def)

lemma look_uniform:
  assumes "\<forall>x \<in> set xs. returns (\<lambda>n. q n x)" and "\<And>n. \<forall>x \<in> set xs. q n x \<noteq> Out_of_fuel \<Longrightarrow> f n \<noteq> Out_of_fuel"
  shows "returns f"
proof -
  obtain N where "\<forall>n \<ge> N. \<forall>x \<in> set xs. q n x \<noteq> Out_of_fuel"
    using returns_finite [of "set xs" "\<lambda>x n. q n x"] assms(1) by auto
  then show ?thesis using assms(2) by (intro returnsI [of N]) simp
qed

lemma group_look:
  assumes cr: "calls_return g rk s i R e" and e: "e = Group es" and ok: "parse_ok g sk e" "fast_ok_group g es"
    and v: "v \<le> i"
  shows "returns (\<lambda>n. group_starts g (peg_fast g s n sk i v) es)"
proof (rule look_uniform)
  show "\<forall>x \<in> set (left_part (nullable g) es). returns (\<lambda>n. peg_fast g s n sk i v x)"
  proof
    fix x assume x: "x \<in> set (left_part (nullable g) es)"
    then have m: "x \<in> set es" using left_part_subset [of "nullable g" es] by blast
    show "returns (\<lambda>n. peg_fast g s n sk i v x)"
    proof (rule look_one(2) [OF cr _ _ _ v])
      show "size x < size e" using expr_size_less [OF m] by (simp add: e)
      show "calls_below rk g R x" using calls_below_left_part [OF _ x] crD_R [OF cr] e by blast
      show "parse_ok g sk x" using parse_ok_parts(1) [OF _ m] ok(1) e by blast
      show "fast_ok g x" by (rule fast_ok_left [OF ok(2) x])
    qed
  qed
qed (rule starts_returns)

lemma any_look:
  assumes cr: "calls_return g rk s i R e" and e: "e = OrderedChoice es" and ok: "parse_ok g sk e" and v: "v \<le> i"
  shows "\<forall>x \<in> set es. fast_ok g x \<Longrightarrow> returns (\<lambda>n. any_outcome (peg_fast g s n sk i v) es)"
    and "\<forall>x \<in> set es. probe_ok g x \<Longrightarrow> returns (\<lambda>n. any_outcome (peg_probe g s n sk i v) es)"
proof -
  have lp: "size x < size e" "calls_below rk g R x" "parse_ok g sk x" if "x \<in> set es" for x
    using that ok parse_ok_parts(2) [of g sk es x] any_left [OF cr, of es x] expr_size_less [of x es]
    by (auto simp: e)
  show "returns (\<lambda>n. any_outcome (peg_fast g s n sk i v) es)" if f: "\<forall>x \<in> set es. fast_ok g x"
    by (rule look_uniform [where q = "\<lambda>n. peg_fast g s n sk i v" and xs = es])
      (use look_one(2) [OF cr lp v] f any_returns in blast)+
  show "returns (\<lambda>n. any_outcome (peg_probe g s n sk i v) es)" if f: "\<forall>x \<in> set es. probe_ok g x"
    by (rule look_uniform [where q = "\<lambda>n. peg_probe g s n sk i v" and xs = es])
      (use look_one(1) [OF cr lp v] f any_returns in blast)+
qed

lemma wrapped:
  assumes cr: "calls_return g rk s i R e" and "e = SkipperWrapped x hid ign" "parse_ok g sk e"
  shows "size x < size e" "calls_below rk g R x" "parse_ok g sk x"
  using assms(2,3) crD_R [OF cr] parse_ok_parts(8) [of g sk x hid ign] parse_ok_skipper [of g "Skipper hid ign" x sk]
  by (auto simp: calls_below_def parse_ok_def peg_ok_def)

lemma probe_returns:
  assumes cr: "calls_return g rk s i R e" and ok: "parse_ok g sk e" and v: "v \<le> i" and pr: "probe_ok g e"
    and self: "returns (\<lambda>n. peg g s n sk e i v)"
  shows "returns (\<lambda>n. peg_probe g s n sk i v e)"
proof (rule returns_Suc)
  have m: "returns (\<lambda>n. matches_outcome (peg g s n sk e i v))" using self by (rule returns_maps)
  show "returns (\<lambda>n. peg_probe g s (Suc n) sk i v e)"
  proof (cases e)
    case (Group es)
    then show ?thesis using group_look [OF cr Group ok _ v] pr by (simp add: peg_probe_step_def)
  next
    case (OrderedChoice es)
    then show ?thesis using any_look(2) [OF cr OrderedChoice ok v] pr by (simp add: peg_probe_step_def probe_ok_any_iff)
  next
    case (Repetition mn mx x)
    then show ?thesis using look_one(2) [OF cr, of x sk v] ok v crD_R [OF cr] pr parse_ok_parts(4) [of g sk mn mx x]
      by (simp add: peg_probe_step_def calls_below_def)
  next
    case (AndPredicate x)
    then show ?thesis using look_one(1) [OF cr, of x sk v] ok v crD_R [OF cr] parse_ok_parts(5) [of g sk x]
      by (simp add: peg_probe_step_def calls_below_def)
  next
    case (NotPredicate x)
    then show ?thesis using look_one(1) [OF cr, of x sk v] ok v crD_R [OF cr] parse_ok_parts(6) [of g sk x]
      by (simp add: peg_probe_step_def calls_below_def returns_bind_Done)
  next
    case (SkipperWrapped x hid ign)
    then show ?thesis using look_one(1) [OF cr wrapped [OF cr SkipperWrapped ok] v] pr m
      by (cases "has_probe x") (simp_all add: peg_probe_step_def)
  qed (use m in \<open>simp_all add: peg_probe_step_def returns_def\<close>)
qed

lemma fast_returns:
  assumes cr: "calls_return g rk s i R e" and ok: "parse_ok g sk e" and v: "v \<le> i" and fa: "fast_ok g e"
    and self: "probe_ok g e \<Longrightarrow> returns (\<lambda>n. peg_probe g s n sk i v e)"
  shows "returns (\<lambda>n. peg_fast g s n sk i v e)"
proof (rule returns_Suc)
  show "returns (\<lambda>n. peg_fast g s (Suc n) sk i v e)"
  proof (cases e)
    case (Group es)
    then show ?thesis using group_look [OF cr Group ok _ v] fa by (simp add: peg_fast_step_def)
  next
    case (OrderedChoice es)
    then show ?thesis using any_look(1) [OF cr OrderedChoice ok v] fa by (simp add: peg_fast_step_def fast_ok_any_iff)
  next
    case (Repetition mn mx x)
    then show ?thesis using look_one(2) [OF cr, of x sk v] ok v crD_R [OF cr] fa parse_ok_parts(4) [of g sk mn mx x]
      by (simp add: peg_fast_step_def calls_below_def)
  next
    case (Assignment a x)
    then show ?thesis using look_one(2) [OF cr, of x sk v] ok v crD_R [OF cr] fa parse_ok_parts(7) [of g sk a x]
      by (simp add: peg_fast_step_def calls_below_def)
  next
    case (SkipperWrapped x hid ign)
    then show ?thesis using look_one(2) [OF cr wrapped [OF cr SkipperWrapped ok] v] fa self
      by (cases "has_fast_probe x") (simp_all add: peg_fast_step_def)
  qed (use self fa in \<open>simp_all add: peg_fast_step_def returns_def\<close>)
qed

lemma everything:
  assumes cr: "calls_return g rk s i R e"
  shows "peg_returns g s i e \<and> look_returns g s i e"
proof -
  have self: "returns (\<lambda>n. peg g s n sk e i v)" if "parse_ok g sk e" "v \<le> i" for sk v
    by (rule returns_Suc) (use peg_step_returns [OF cr that] in simp)
  have look: "returns (\<lambda>n. peg_probe g s n sk i v e)" if "parse_ok g sk e" "v \<le> i" "probe_ok g e" for sk v
    by (rule probe_returns [OF cr that self [OF that(1,2)]])
  have fast: "returns (\<lambda>n. peg_fast g s n sk i v e)" if "parse_ok g sk e" "v \<le> i" "fast_ok g e" for sk v
    by (rule fast_returns [OF cr that look [OF that(1,2)]])
  show ?thesis
    unfolding peg_returns_def look_returns_def by (intro conjI allI impI; rule self look fast; assumption)
qed

lemma both_total:
  assumes "not_left_recursive g rk" and "compiling g" and "i \<le> length s"
  shows "peg_returns g s i e \<and> look_returns g s i e"
proof -
  obtain R where "calls_below rk g R e" using calls_below_ex by blast
  then show ?thesis
    using assms(3)
  proof (induction "length s - i" arbitrary: i e R rule: less_induct)
    case ahead: less
    show ?case using ahead.prems
    proof (induction R arbitrary: e rule: less_induct)
      case lower: (less R)
      show ?case using lower.prems
      proof (induction "size e" arbitrary: e rule: less_induct)
        case smaller: less
        have "peg_returns g s k x" if "i < k" "k \<le> length s" for k x
        proof -
          obtain Q where "calls_below rk g Q x" using calls_below_ex by blast
          then show ?thesis using ahead.hyps that by auto
        qed
        then have "calls_return g rk s i R e"
          using assms smaller.prems smaller.hyps lower.IH by (auto simp: calls_return_def)
        then show ?case by (rule everything)
      qed
    qed
  qed
qed

lemma peg_total:
  "not_left_recursive g rk \<Longrightarrow> compiling g \<Longrightarrow> i \<le> length s \<Longrightarrow> peg_returns g s i e"
  using both_total by blast

text \<open>Enough fuel for the fast probes of given expressions at every position.\<close>

lemma fast_uniform:
  assumes "not_left_recursive g rk" and "compiling g" and "\<forall>x \<in> set xs. parse_ok g sk x \<and> fast_ok g x"
  shows "\<exists>N. \<forall>n \<ge> N. \<forall>x \<in> set xs. \<forall>k \<le> length s. \<forall>v \<le> k. peg_fast g s n sk k v x \<noteq> Out_of_fuel"
proof -
  let ?A = "Sigma (set xs \<times> {..length s}) (\<lambda>(x, k). {..k})"
  have "returns (\<lambda>n. peg_fast g s n sk (snd (fst a)) (snd a) (fst (fst a)))" if "a \<in> ?A" for a
    using that assms(3) look_returnsD(2) [of g s "snd (fst a)" "fst (fst a)" sk "snd a"]
      both_total [OF assms(1,2), of "snd (fst a)" s "fst (fst a)"] by auto
  from returns_finite [of ?A "\<lambda>a n. peg_fast g s n sk (snd (fst a)) (snd a) (fst (fst a))", OF _ this]
  obtain N where "\<forall>n \<ge> N. \<forall>a \<in> ?A. peg_fast g s n sk (snd (fst a)) (snd a) (fst (fst a)) \<noteq> Out_of_fuel"
    by (auto simp: case_prod_beta)
  then show ?thesis by (intro exI [of _ N]) force
qed

end
