(* ===== verification/StrictCorrect.thy ===== *)
theory StrictCorrect
  imports StrictRefines PegReturns
begin

text \<open>
  The combinators of the strict parser against those of the grammar's meaning, and the parser
  against the meaning: \<open>parse_agrees\<close>.
\<close>

lemma same_position:
  "failed True c c2 \<Longrightarrow> agrees z c (Done (Some (cursor c, lastVisibleCursor c, []))) (Done (True, c2))"
  using failed_ran [OF _ ran_refl, of c c2] failed_position [of c c2] by simp

lemma answered: "failed z c c2 \<Longrightarrow> agrees z c (Done None) (Done (False, c2))"
  by simp

text \<open>The contract of the element parsers a combinator calls, under one active skipper.\<close>

locale agreeing =
  fixes sk :: skipper and f :: "expr \<Rightarrow> parse_fun" and p :: "expr \<Rightarrow> nat \<Rightarrow> nat \<Rightarrow> pegged"
    and safe :: "expr \<Rightarrow> bool" and skp :: skip_fun and cskp :: "pctx \<Rightarrow> pctx outcome"
  assumes elem: "activeSkipper c = sk \<Longrightarrow> agrees (safe e) c (p e (cursor c) (lastVisibleCursor c)) (f e c)"
    and skip: "activeSkipper c = sk \<Longrightarrow> skip_agrees_with skp cskp c"
begin

abbreviation att :: "expr \<Rightarrow> parse_fun" where
  "att e \<equiv> attempt_parse_strict (safe e) (f e)"

lemma att_agrees: "activeSkipper c = sk \<Longrightarrow> agrees True c (p e (cursor c) (lastVisibleCursor c)) (att e c)"
  by (rule attempt_agrees) (rule elem)

lemma first_skip:
  "activeSkipper c = sk \<Longrightarrow> skip_agrees_with (maybe_skip skp first) (skip_unless_first cskp first) c"
  using skip [of c] ran_refl [of c]
  by (cases first) (auto simp: skip_agrees_with_def maybe_skip_def skip_unless_first_def split: outcome.splits)

text \<open>
  An item with the skip in front of it, what follows a match and what follows a failure: the
  shape of every sequence and loop.
\<close>

lemma item_agrees:
  assumes c: "activeSkipper c = sk"
    and a: "\<And>c1. activeSkipper c1 = sk \<Longrightarrow> agrees s c1 (p e (cursor c1) (lastVisibleCursor c1)) (a c1)"
    and rest: "\<And>c2. activeSkipper c2 = sk \<Longrightarrow> agrees False c2 (r (cursor c2) (lastVisibleCursor c2)) (out c2)"
    and none: "\<And>c2. failed False c c2 \<Longrightarrow> agrees False c none (onfail c2)"
  shows "agrees False c
    (bind_out (maybe_skip skp first (cursor c)) (\<lambda>(k, hs). bind_out (p e k (lastVisibleCursor c)) (\<lambda>m. case m of
         None \<Rightarrow> none | Some (j, w, fs) \<Rightarrow> in_front (hs @ fs) (r j w))))
    (bind_out (skip_unless_first cskp first c) (\<lambda>c1. bind_out (a c1) (\<lambda>(m, c2).
       if m then out c2 else onfail c2)))"
  using first_skip [OF c, of first]
proof (cases rule: skip_cases)
  case (Skip k hs c1)
  then have c1: "cursor c1 = k" "lastVisibleCursor c1 = lastVisibleCursor c" "activeSkipper c1 = sk"
    using ran_position c by auto
  from a [OF c1(3)] show ?thesis
  proof (cases rule: agrees_cases)
    case (Fail c2)
    then show ?thesis using Skip c1 none [OF ran_failed [OF Skip(3) Fail(3)]] by simp
  next
    case (Match j w fs c2)
    then have c2: "cursor c2 = j" "lastVisibleCursor c2 = w" "activeSkipper c2 = sk"
      using ran_position c1 by auto
    have "agrees False c (in_front (hs @ fs) (r j w)) (out c2)"
      using rest [OF c2(3)] c2 agrees_after_ran [OF ran_trans [OF Skip(3) Match(3)]] by simp
    then show ?thesis using Skip Match c1 by simp
  qed (use Skip c1 in simp)
qed simp

lemma seq_agrees:
  "activeSkipper c = sk \<Longrightarrow>
    agrees False c (peg_seq p skp first es (cursor c) (lastVisibleCursor c)) (parse_elements f cskp first es c)"
proof (induction es arbitrary: first c)
  case (Cons e es)
  show ?case unfolding peg_seq.simps parse_elements.simps bind_ok_def
    by (rule item_agrees [OF Cons.prems elem Cons.IH]) auto
qed (simp add: ran_refl)

lemma choice_agrees:
  "activeSkipper c = sk \<Longrightarrow>
    agrees True c (peg_choice p es (cursor c) (lastVisibleCursor c)) (match_choice att es c)"
proof (induction es arbitrary: c)
  case (Cons e es)
  from att_agrees [OF Cons.prems, of e] show ?case
  proof (cases rule: agrees_cases)
    case (Fail c1)
    then have c1: "cursor c1 = cursor c" "lastVisibleCursor c1 = lastVisibleCursor c" "activeSkipper c1 = sk"
      using failed_position Cons.prems by auto
    have "agrees True c (peg_choice p es (cursor c) (lastVisibleCursor c)) (match_choice att es c1)"
      using Cons.IH [OF c1(3)] c1 agrees_after_failed [OF Fail(3)] by simp
    then show ?thesis using Fail by simp
  qed auto
qed (simp add: failed_refl)

lemma rewound: "failed False c c2 \<Longrightarrow>
    agrees False c (Done (Some (cursor c, lastVisibleCursor c, []))) (Done (True, ctx_rewind c2 (ctx_mark c)))"
  using failed_ran [OF failed_rewind ran_refl] failed_position [OF failed_rewind] by fastforce

lemma not_first: "skp i = maybe_skip skp False i" "cskp c = skip_unless_first cskp False c"
  by (simp_all add: maybe_skip_def skip_unless_first_def)

lemma star_agrees:
  "activeSkipper c = sk \<Longrightarrow>
    agrees False c (peg_star (p e) skp n (cursor c) (lastVisibleCursor c)) (star_loop (att e) cskp n c)"
proof (induction n arbitrary: c)
  case (Suc n)
  show ?case unfolding peg_star.simps star_loop.simps not_first(1) [of "cursor c"] not_first(2) [of c]
    by (rule item_agrees [OF Suc.prems att_agrees Suc.IH rewound])
qed simp

lemma upto_agrees:
  "activeSkipper c = sk \<Longrightarrow>
    agrees False c (peg_upto (p e) skp n (cursor c) (lastVisibleCursor c)) (counted_loop True (att e) cskp n c)"
proof (induction n arbitrary: c)
  case (Suc n)
  show ?case unfolding peg_upto.simps counted_loop.simps not_first(1) [of "cursor c"] not_first(2) [of c]
    by (rule item_agrees [OF Suc.prems att_agrees Suc.IH rewound])
qed (simp add: ran_refl)

lemma atleast_agrees:
  "activeSkipper c = sk \<Longrightarrow>
    agrees False c (peg_times (p e) skp n (cursor c) (lastVisibleCursor c)) (counted_loop False (att e) cskp n c)"
proof (induction n arbitrary: c)
  case (Suc n)
  show ?case unfolding peg_times.simps counted_loop.simps not_first(1) [of "cursor c"] not_first(2) [of c]
    by (rule item_agrees [OF Suc.prems att_agrees Suc.IH]) (auto intro: failed_weaken failed_rewind)
qed (simp add: ran_refl)

lemma times_agrees:
  "activeSkipper c = sk \<Longrightarrow>
    agrees False c (peg_times (p e) skp n (cursor c) (lastVisibleCursor c)) (fixed_loop (f e) cskp n c)"
proof (induction n arbitrary: c)
  case (Suc n)
  show ?case unfolding peg_times.simps fixed_loop.simps bind_ok_def not_first(1) [of "cursor c"] not_first(2) [of c]
    by (rule item_agrees [OF Suc.prems elem Suc.IH]) auto
qed (simp add: ran_refl)

text \<open>The first item of a repetition, and the loop behind it.\<close>

lemma then_agrees:
  assumes c: "activeSkipper c = sk" and r: "agrees s c r out"
    and rest: "\<And>c2. activeSkipper c2 = sk \<Longrightarrow> agrees False c2 (h (cursor c2) (lastVisibleCursor c2)) (k c2)"
    and none: "\<And>c2. failed s c c2 \<Longrightarrow> agrees z c none (onfail c2)"
    and total: "\<And>j w. z \<Longrightarrow> h j w \<noteq> Done None"
  shows "agrees z c (peg_then r none h) (bind_out out (\<lambda>(m, c2). if m then k c2 else onfail c2))"
  using r
proof (cases rule: agrees_cases)
  case (Fail c2)
  then show ?thesis using none [of c2] by (simp add: peg_then_def)
next
  case (Match j w fs c2)
  have "agrees False c2 (h j w) (k c2)" using rest [of c2] ran_position [OF Match(3)] c by simp
  from agrees_after_ran [OF Match(3) this] total [of j w] Match show ?thesis
    by (cases "h j w"; cases z) (auto simp: peg_then_def in_front_def split: option.splits)
qed (simp add: peg_then_def)

lemma star_total: "peg_star (p e) skp n i v \<noteq> Done None" and upto_total: "peg_upto (p e) skp n i v \<noteq> Done None"
  by (induction n arbitrary: i v) (auto simp: bind_out_Done_iff in_front_def split: option.splits)

lemma repetition_agrees:
  assumes c: "activeSkipper c = sk"
  shows "agrees (mn = 0 \<or> mn = 1 \<and> (mx \<noteq> 1 \<or> safe e)) c
    (peg_repetition (p e) skp n mn mx (cursor c) (lastVisibleCursor c))
    (parse_repetition (safe e) (f e) cskp n mn mx c)"
proof -
  note first = att_agrees [OF c, of e] and direct = elem [OF c, of e]
  note defs = peg_repetition_def parse_repetition_def Let_def or_true_def bind_ok_def
  have more: "agrees False c2 (peg_then (peg_times (p e) skp k (cursor c2) (lastVisibleCursor c2)) (Done None)
      (peg_upto (p e) skp l))
    (bind_out (counted_loop False (att e) cskp k c2) (\<lambda>(m, c3). if m then counted_loop True (att e) cskp l c3
      else Done (False, c3)))" if "activeSkipper c2 = sk" for c2 k l
    by (rule then_agrees [OF that atleast_agrees [OF that] upto_agrees answered]) simp_all
  consider (opt) "mn = 0" "mx = 1" | (star) "mn = 0" "mx = size_max" "mx \<noteq> 1"
    | (plus) "mn = 1" "mx = size_max" | (one) "mn = 1" "mx = 1" "mx \<noteq> size_max"
    | (fixed) "mn = mx" "1 < mn" | (upto) "mn = 0" "mx \<noteq> 1" "mx \<noteq> size_max"
    | (some) "mn = 1" "mx \<noteq> 1" "mx \<noteq> size_max" | (general) "1 < mn" "mn \<noteq> mx" by linarith
  then show ?thesis
  proof cases
    case opt
    have "agrees True c (peg_then (p e (cursor c) (lastVisibleCursor c))
        (Done (Some (cursor c, lastVisibleCursor c, []))) (\<lambda>j w. Done (Some (j, w, []))))
      (bind_out (att e c) (\<lambda>(m, c2). if m then Done (True, c2) else Done (True, c2)))"
      by (rule then_agrees [OF c first _ same_position]) (simp_all add: ran_refl)
    then show ?thesis using opt by (simp add: defs)
  next
    case star
    have "agrees True c (peg_then (p e (cursor c) (lastVisibleCursor c))
        (Done (Some (cursor c, lastVisibleCursor c, []))) (peg_star (p e) skp n))
      (bind_out (att e c) (\<lambda>(m, c2). if m then star_loop (att e) cskp n c2 else Done (True, c2)))"
      by (rule then_agrees [OF c first star_agrees same_position]) (simp_all add: star_total)
    then show ?thesis using star by (simp add: defs)
  next
    case plus
    have "agrees True c (peg_then (p e (cursor c) (lastVisibleCursor c)) (Done None) (peg_star (p e) skp n))
      (bind_out (att e c) (\<lambda>(m, c2). if m then star_loop (att e) cskp n c2 else Done (False, c2)))"
      by (rule then_agrees [OF c first star_agrees answered]) (simp_all add: star_total)
    then show ?thesis using plus by (cases "size_max = 1") (simp_all add: defs size_max_def)
  next
    case one
    have "agrees (safe e) c (peg_then (p e (cursor c) (lastVisibleCursor c)) (Done None) (peg_times (p e) skp 0))
      (bind_out (f e c) (\<lambda>(m, c2). if m then fixed_loop (f e) cskp 0 c2 else Done (False, c2)))"
      by (rule then_agrees [OF c direct times_agrees answered]) simp_all
    then show ?thesis using one by (simp add: defs)
  next
    case fixed
    have "agrees False c (peg_then (p e (cursor c) (lastVisibleCursor c)) (Done None) (peg_times (p e) skp (mx - 1)))
      (bind_out (f e c) (\<lambda>(m, c2). if m then fixed_loop (f e) cskp (mx - 1) c2 else Done (False, c2)))"
      by (rule then_agrees [OF c agrees_lose [OF direct] times_agrees answered]) simp_all
    then show ?thesis using fixed by (simp add: defs del: One_nat_def)
  next
    case upto
    have "agrees True c (peg_then (p e (cursor c) (lastVisibleCursor c))
        (Done (Some (cursor c, lastVisibleCursor c, []))) (peg_upto (p e) skp (mx - 1)))
      (bind_out (att e c) (\<lambda>(m, c2). if m then counted_loop True (att e) cskp (mx - 1) c2 else Done (True, c2)))"
      by (rule then_agrees [OF c first upto_agrees same_position]) (simp_all add: upto_total)
    then show ?thesis using upto by (simp add: defs del: One_nat_def)
  next
    case some
    have "agrees True c (peg_then (p e (cursor c) (lastVisibleCursor c)) (Done None)
        (\<lambda>j w. peg_then (peg_times (p e) skp 0 j w) (Done None) (peg_upto (p e) skp (mx - 1))))
      (bind_out (att e c) (\<lambda>(m, c2). if m then bind_out (counted_loop False (att e) cskp 0 c2)
        (\<lambda>(m, c3). if m then counted_loop True (att e) cskp (mx - 1) c3 else Done (False, c3)) else Done (False, c2)))"
      by (rule then_agrees [OF c first more answered]) (simp_all add: peg_then_def upto_total in_front_Nil)
    then show ?thesis using some by (simp add: defs cong: if_cong del: One_nat_def)
  next
    case general
    have "agrees False c (peg_then (p e (cursor c) (lastVisibleCursor c)) (Done None)
        (\<lambda>j w. peg_then (peg_times (p e) skp (mn - 1) j w) (Done None) (peg_upto (p e) skp (mx - mn))))
      (bind_out (att e c) (\<lambda>(m, c2). if m then bind_out (counted_loop False (att e) cskp (mn - 1) c2)
        (\<lambda>(m, c3). if m then counted_loop True (att e) cskp (mx - mn) c3 else Done (False, c3)) else Done (False, c2)))"
      by (rule then_agrees [OF c agrees_lose [OF first] more answered]) simp_all
    then show ?thesis using general by (simp add: defs del: One_nat_def)
  qed
qed

text \<open>Unordered groups.\<close>

lemma one_of_agrees:
  "activeSkipper c = sk \<Longrightarrow> (case peg_one_of p fl (cursor c) (lastVisibleCursor c) of
     Out_of_fuel \<Rightarrow> try_match_one att fl c = Out_of_fuel
   | Done None \<Rightarrow> \<exists>fl' c'. try_match_one att fl c = Done (False, fl', c') \<and> failed True c c'
   | Done (Some ((j, w, fs), fl')) \<Rightarrow> \<exists>c'. try_match_one att fl c = Done (True, fl', c') \<and> ran c c' j w fs)"
proof (induction fl arbitrary: c)
  case Nil
  then show ?case by (simp add: failed_refl)
next
  case (Cons x fl)
  obtain e b where x: "x = (e, b)" by (cases x)
  have "agrees True c (if b then Done None else p e (cursor c) (lastVisibleCursor c))
      (if b then Done (False, c) else att e c)"
    using att_agrees [OF Cons.prems, of e] failed_refl by (cases b) auto
  then show ?case
  proof (cases rule: agrees_cases)
    case (Fail c1)
    have c1: "cursor c1 = cursor c" "lastVisibleCursor c1 = lastVisibleCursor c" "activeSkipper c1 = sk"
      using failed_position [OF Fail(3)] Cons.prems by auto
    note IH = Cons.IH [OF c1(3), unfolded c1(1,2)]
    show ?thesis
    proof (cases "peg_one_of p fl (cursor c) (lastVisibleCursor c)")
      case Out_of_fuel
      then show ?thesis using IH Fail(1,2) by (simp add: x)
    next
      case (Done r)
      show ?thesis
      proof (cases r)
        case None
        then obtain fl' c2 where t: "try_match_one att fl c1 = Done (False, fl', c2)" "failed True c1 c2"
          using IH Done by auto
        show ?thesis using Fail(1,2) Done None t(1) failed_failed [OF Fail(3) t(2)] by (simp add: x)
      next
        case (Some q)
        obtain j w fs fl' where q: "q = ((j, w, fs), fl')" by (metis surj_pair)
        then obtain c2 where t: "try_match_one att fl c1 = Done (True, fl', c2)" "ran c1 c2 j w fs"
          using IH Done Some by auto
        show ?thesis using Fail(1,2) Done Some q t(1) failed_ran [OF Fail(3) t(2)] by (simp add: x)
      qed
    qed
  qed (simp_all add: x)
qed

lemma group_loop_agrees:
  "activeSkipper c = sk \<Longrightarrow> ran c0 c (cursor c) (lastVisibleCursor c) gs \<Longrightarrow>
    agrees True c0 (in_front gs (peg_unordered p skp first k fl (cursor c) (lastVisibleCursor c)))
      (parse_group_loop att cskp (ctx_mark c0) first k fl c)"
proof (induction k arbitrary: c first fl gs)
  case 0
  then show ?case by (simp add: in_front_def)
next
  case (Suc k)
  from first_skip [OF Suc.prems(1), of first] show ?case
  proof (cases rule: skip_cases)
    case (Skip l hs c1)
    have c1: "cursor c1 = l" "lastVisibleCursor c1 = lastVisibleCursor c" "activeSkipper c1 = sk"
      using ran_position [OF Skip(3)] Suc.prems(1) by simp_all
    note one = one_of_agrees [OF c1(3), of fl, unfolded c1(1,2)]
    show ?thesis
    proof (cases "peg_one_of p fl l (lastVisibleCursor c)")
      case Out_of_fuel
      then show ?thesis using one Skip by (simp add: in_front_def)
    next
      case (Done r)
      show ?thesis
      proof (cases r)
        case None
        then obtain fl' c2 where t: "try_match_one att fl c1 = Done (False, fl', c2)" "failed True c1 c2"
          using one Done by auto
        have "failed False c c2" by (rule ran_failed [OF Skip(3) t(2)])
        then have "failed False c0 (if first then c2 else ctx_rewind c2 (ctx_mark c))"
          using ran_failed [OF Suc.prems(2)] ran_failed [OF Suc.prems(2) failed_rewind] by (cases first) simp_all
        from failed_rewind [OF this] show ?thesis
          using Skip t Done None by (simp add: in_front_def)
      next
        case (Some q)
        obtain j w fs fl' where q: "q = ((j, w, fs), fl')" by (metis surj_pair)
        then obtain c2 where t: "try_match_one att fl c1 = Done (True, fl', c2)" "ran c1 c2 j w fs"
          using one Done Some by auto
        have c2: "cursor c2 = j" "lastVisibleCursor c2 = w" "activeSkipper c2 = sk"
          using ran_position [OF t(2)] c1 by simp_all
        have r: "ran c0 c2 j w (gs @ hs @ fs)" by (rule ran_trans [OF Suc.prems(2) ran_trans [OF Skip(3) t(2)]])
        from Suc.IH [OF c2(3), of "gs @ hs @ fs" False fl'] show ?thesis
          using Skip t Done Some q r by (simp add: c2 in_front_in_front)
      qed
    qed
  qed (simp add: in_front_def)
qed

lemma group_agrees:
  "activeSkipper c = sk \<Longrightarrow>
    agrees True c (peg_unordered p skp True (length es) (unmatched es) (cursor c) (lastVisibleCursor c))
      (parse_group att cskp es c)"
  using group_loop_agrees [OF _ ran_refl, of c True "length es" "unmatched es"]
  by (simp add: parse_group_def in_front_Nil)

end

subsection \<open>Nodes, skippers and lookahead\<close>

lemma node_agrees:
  assumes "agrees s (ctx_enter c) r (f (ctx_enter c))"
  shows "agrees False c (node e (cursor c) r) (parse_wrapped_node e f c)"
  using assms
proof (cases rule: agrees_cases)
  case (Fail c')
  have "undone (cst c) False (cst c')" if "highWater c' \<le> kNoNode"
    using Fail(3) that by (intro enter_undone) (auto simp: failed_def ctx_enter_def)
  then have "failed False c c'" using Fail(3) by (auto simp: failed_def ctx_enter_def)
  then show ?thesis using Fail by (simp add: parse_wrapped_node_def bind_ok_def node_def)
next
  case (Match j w fs c')
  have "builds (cst c) [Tree x w e False False fs] (exit_node x w e (cst c'))" if "highWater c' \<le> kNoNode" for x
    using Match(3) that by (intro node_builds) (auto simp: ran_def ctx_enter_def)
  then have "ran c (ctx_exit (cursor c) e c') j w [Tree (cursor c) w e False False fs]"
    using Match(3) by (auto simp: ran_def ctx_enter_def ctx_exit_def)
  then show ?thesis using Match by (simp add: parse_wrapped_node_def bind_ok_def node_def)
qed (simp add: parse_wrapped_node_def bind_ok_def node_def)

lemma overriding_agrees:
  assumes "agrees s c r (f c)"
  shows "agrees s c (overriding e r) (parse_overriding_first_child e f c)"
  using assms
proof (cases rule: agrees_cases)
  case (Match j w fs c')
  let ?c = "if nodeCount (cst c) < nodeCount (cst c') then ctx_override (nodeCount (cst c)) e c' else c'"
  have "builds (cst c) (override_first e fs) (cst ?c)" if "highWater c' \<le> kNoNode"
  proof -
    have b: "builds (cst c) fs (cst c')" using Match(3) that by (simp add: ran_def)
    show ?thesis
      unfolding builds_def
    proof (intro allI impI)
      fix ts us assume a: "builder_ok (cst c)" "represents (cst c) (ts # us)"
      show "grown (cst c) (cst ?c) \<and> represents (cst ?c) ((ts @ override_first e fs) # us)"
        using override_builds [OF b, of e] a builds_count [OF b a]
        by (auto simp: builds_def ctx_override_def)
    qed
  qed
  then have "ran c ?c j w (override_first e fs)" using Match(3) by (auto simp: ran_def ctx_override_def)
  then show ?thesis using Match by (simp add: parse_overriding_first_child_def bind_ok_def overriding_def)
qed (auto simp: parse_overriding_first_child_def bind_ok_def overriding_def)

lemma with_skipper_agrees:
  assumes "agrees s (c\<lparr>activeSkipper := sk\<rparr>) r (f (c\<lparr>activeSkipper := sk\<rparr>))"
  shows "agrees s c r (with_skipper sk f c)"
  using assms
  by (cases rule: agrees_cases) (auto simp: with_skipper_def ran_def failed_def)

lemma token_agrees:
  "agrees s c (Done (token e (cursor c) m)) (token_parse e m c)"
proof (cases m)
  case (Some j)
  have "ran c (ctx_leaf j e c) j j [Tree (cursor c) j e False False []]"
    by (auto simp: ran_def ctx_leaf_def intro: leaf_builds)
  then show ?thesis using Some by (simp add: token_def token_parse_def)
qed (simp add: token_def token_parse_def failed_refl)

lemma ctx_skip_agrees: "skip_agrees_with (peg_skip g s n (activeSkipper c)) (ctx_skip g s n) c"
proof (cases "skip_with g s n n (hiddenRules (activeSkipper c)) (ignoredRules (activeSkipper c)) (cursor c)")
  case (Done q)
  obtain j ls where q: "q = (j, ls)" by (cases q)
  have "ran c (c\<lparr>cst := hidden_leaves ls (cst c), cursor := j,
      highWater := max (highWater c) (nodeCount (cst c) + length ls)\<rparr>) j (lastVisibleCursor c) (hidden_trees ls)"
    by (auto simp: ran_def intro: hidden_leaves_builds)
  then show ?thesis using Done q by (simp add: skip_agrees_with_def peg_skip_def ctx_skip_def)
qed (simp add: skip_agrees_with_def peg_skip_def ctx_skip_def)

lemma generic_look: "agrees s c r (f c) \<Longrightarrow> look_agrees c (matches_outcome r) (generic_probe f c)"
  by (erule agrees_cases) (auto simp: matches_outcome_def generic_probe_def intro: failed_rewind ran_rewind)

lemma any_look_agrees:
  assumes Q: "\<And>e c. look_agrees c (q (activeSkipper c) (cursor c) (lastVisibleCursor c) e) (Q e c)"
  shows "look_agrees c (any_outcome (q (activeSkipper c) (cursor c) (lastVisibleCursor c)) es) (any_choice Q es c)"
proof (induction es arbitrary: c)
  case (Cons e es)
  from Q [of c e] show ?case
  proof (cases rule: look_cases)
    case (Look m c')
    then show ?thesis using Cons [of c'] failed_position [OF Look(3)] failed_failed [OF Look(3)]
      by (auto simp: look_agrees_def split: outcome.splits)
  qed simp
qed (simp add: failed_refl)

lemma starts_look_agrees:
  assumes Q: "\<And>e c. look_agrees c (q (activeSkipper c) (cursor c) (lastVisibleCursor c) e) (Q e c)"
  shows "look_agrees c (group_starts g (q (activeSkipper c) (cursor c) (lastVisibleCursor c)) es)
    (fast_probe_elements g Q es c)"
proof (induction es arbitrary: c)
  case (Cons e es)
  from Q [of c e] show ?case
  proof (cases rule: look_cases)
    case (Look m c')
    then show ?thesis using Cons [of c'] failed_position [OF Look(3)] failed_failed [OF Look(3)]
      by (auto simp: look_agrees_def split: outcome.splits)
  qed simp
qed (simp add: failed_refl)

lemma not_look: "look_agrees c r out \<Longrightarrow>
    look_agrees c (bind_out r (\<lambda>m. Done (\<not> m))) (bind_out out (\<lambda>(m, c'). Done (\<not> m, c')))"
  by (erule look_cases) auto

subsection \<open>The parser agrees with the meaning\<close>

definition parser_agrees :: "grammar \<Rightarrow> peg_fun \<Rightarrow> (expr \<Rightarrow> parse_fun) \<Rightarrow> bool" where
  "parser_agrees g P f \<longleftrightarrow> (\<forall>e c. agrees (isFailureSafe g e) c
     (P (activeSkipper c) e (cursor c) (lastVisibleCursor c)) (f e c))"

definition prober_agrees :: "probe_fun \<Rightarrow> (expr \<Rightarrow> parse_fun) \<Rightarrow> bool" where
  "prober_agrees Q q \<longleftrightarrow> (\<forall>e c. look_agrees c (Q (activeSkipper c) (cursor c) (lastVisibleCursor c) e) (q e c))"

lemma parser_agreeing:
  "parser_agrees g P f \<Longrightarrow> agreeing sk f (P sk) (isFailureSafe g) (peg_skip g s n sk) (ctx_skip g s n)"
  by unfold_locales (auto simp: parser_agrees_def ctx_skip_agrees)

lemma parse_step_agrees:
  assumes P: "parser_agrees g P f" and Q: "prober_agrees Q q"
  shows "parser_agrees g (peg_step g s n P Q) (parse_step g s n f q)"
  unfolding parser_agrees_def
proof (intro allI)
  fix e and c :: pctx
  let ?sk = "activeSkipper c"
  note A = parser_agreeing [OF P, of ?sk s n]
  have body: "agrees (isFailureSafe g x) c' (P (activeSkipper c') x (cursor c') (lastVisibleCursor c')) (f x c')" for x c'
    using P by (simp add: parser_agrees_def)
  have look: "look_agrees c' (Q (activeSkipper c') (cursor c') (lastVisibleCursor c') x) (q x c')" for x c'
    using Q by (simp add: prober_agrees_def)
  show "agrees (isFailureSafe g e) c (peg_step g s n P Q ?sk e (cursor c) (lastVisibleCursor c))
      (parse_step g s n f q e c)"
  proof (cases e)
    case (Group es)
    then show ?thesis using agreeing.seq_agrees [OF A refl, of True es] by (simp add: peg_step_def parse_step_def element_parse_defs)
  next
    case (OrderedChoice es)
    then show ?thesis using agreeing.choice_agrees [OF A refl, of es] by (simp add: peg_step_def parse_step_def element_parse_defs)
  next
    case (UnorderedGroup es)
    then show ?thesis using agreeing.group_agrees [OF A refl, of es] by (simp add: peg_step_def parse_step_def element_parse_defs)
  next
    case (Repetition mn mx x)
    then show ?thesis using agreeing.repetition_agrees [OF A refl, of mn mx x n]
      by (simp add: peg_step_def parse_step_def element_parse_defs)
  next
    case (AndPredicate x)
    from look [of c x] show ?thesis
    proof (cases rule: look_cases)
      case (Look m c')
      then show ?thesis using same_position [OF Look(3), of True]
        by (cases m) (simp_all add: AndPredicate peg_step_def parse_step_def element_parse_defs)
    qed (simp add: AndPredicate peg_step_def parse_step_def element_parse_defs)
  next
    case (NotPredicate x)
    from look [of c x] show ?thesis
    proof (cases rule: look_cases)
      case (Look m c')
      then show ?thesis using same_position [OF Look(3), of True]
        by (cases m) (simp_all add: NotPredicate peg_step_def parse_step_def element_parse_defs)
    qed (simp add: NotPredicate peg_step_def parse_step_def element_parse_defs)
  next
    case (RuleRef r)
    show ?thesis
    proof (cases "rkind (g r) = TerminalKind")
      case True
      then show ?thesis using token_agrees
        by (cases "terminal g s n (rbody (g r)) (cursor c)") (simp_all add: RuleRef peg_step_def parse_step_def element_parse_defs)
    next
      case False
      have "agrees (isFailureSafe g (rbody (g r))) (ctx_enter c)
          (P (local_skipper g r ?sk) (rbody (g r)) (cursor c) (lastVisibleCursor c))
          (with_local_skipper g r (f (rbody (g r))) (ctx_enter c))"
      proof (cases "rskipper (g r)")
        case None
        then show ?thesis using body [of "rbody (g r)" "ctx_enter c"]
          by (simp add: with_local_skipper_def local_skipper_def ctx_enter_def)
      next
        case (Some p)
        show ?thesis unfolding with_local_skipper_def local_skipper_def Some option.case
          by (rule with_skipper_agrees)
            (use body [of "rbody (g r)" "(ctx_enter c)\<lparr>activeSkipper := Skipper (fst p) (snd p)\<rparr>"]
              in \<open>simp add: ctx_enter_def\<close>)
      qed
      then have "agrees False c (node e (cursor c) (P (local_skipper g r ?sk) (rbody (g r)) (cursor c) (lastVisibleCursor c)))
          (parse_wrapped_node e (with_local_skipper g r (f (rbody (g r)))) c)"
        by (rule node_agrees)
      then show ?thesis
        using False by (cases "rkind (g r)") (simp_all add: RuleRef peg_step_def parse_step_def element_parse_defs)
    qed
  next
    case (Create t)
    then show ?thesis using token_agrees [of True c e "Some (cursor c)"]
      by (simp add: peg_step_def parse_step_def element_parse_defs token_parse_def)
  next
    case (Nest t)
    then show ?thesis using token_agrees [of True c e "Some (cursor c)"]
      by (simp add: peg_step_def parse_step_def element_parse_defs token_parse_def)
  next
    case (Assignment a x)
    have "agrees (isFailureSafe g x) (ctx_enter c) (P ?sk x (cursor c) (lastVisibleCursor c)) (f x (ctx_enter c))"
      using body [of x "ctx_enter c"] by (simp add: ctx_enter_def)
    from node_agrees [where f = "f x", OF this, of e] overriding_agrees [where f = "f x", OF body [of x c], of e] show ?thesis
      by (simp add: Assignment peg_step_def parse_step_def element_parse_defs)
  next
    case (SkipperWrapped x hid ign)
    have "agrees (isFailureSafe g x) c (P (Skipper hid ign) x (cursor c) (lastVisibleCursor c))
        (with_skipper (Skipper hid ign) (f x) c)"
      by (rule with_skipper_agrees) (use body [of x "c\<lparr>activeSkipper := Skipper hid ign\<rparr>"] in simp)
    then show ?thesis by (simp add: SkipperWrapped peg_step_def parse_step_def element_parse_defs)
  qed (simp_all add: peg_step_def parse_step_def element_parse_defs token_agrees)
qed

lemma probe_step_agrees:
  assumes P: "parser_agrees g P f" and Q: "prober_agrees Q q" and F: "prober_agrees F h"
  shows "prober_agrees (peg_probe_step g s P Q F) (probe_step g s f q h)"
  unfolding prober_agrees_def
proof (intro allI)
  fix e and c :: pctx
  have "agrees (isFailureSafe g e) c (P (activeSkipper c) e (cursor c) (lastVisibleCursor c)) (f e c)"
    using P by (simp add: parser_agrees_def)
  note generic = generic_look [where f = "f e", OF this]
  have look: "look_agrees c (Q (activeSkipper c) (cursor c) (lastVisibleCursor c) x) (q x c)" for x c
    using Q by (simp add: prober_agrees_def)
  have fast: "look_agrees c (F (activeSkipper c) (cursor c) (lastVisibleCursor c) x) (h x c)" for x c
    using F by (simp add: prober_agrees_def)
  show "look_agrees c (peg_probe_step g s P Q F (activeSkipper c) (cursor c) (lastVisibleCursor c) e)
      (probe_step g s f q h e c)"
    using generic look [of c] fast [of c] any_look_agrees [of Q q, OF look] starts_look_agrees [of F h, OF fast]
    by (cases e) (simp_all add: peg_probe_step_def probe_step_def not_look not_parse_def token_probe_defs failed_refl)
qed

lemma fast_step_agrees:
  assumes Q: "prober_agrees Q q" and F: "prober_agrees F h"
  shows "prober_agrees (peg_fast_step g Q F) (fast_probe_step g q h)"
  unfolding prober_agrees_def
proof (intro allI)
  fix e and c :: pctx
  have look: "look_agrees c (Q (activeSkipper c) (cursor c) (lastVisibleCursor c) x) (q x c)" for x c
    using Q by (simp add: prober_agrees_def)
  have fast: "look_agrees c (F (activeSkipper c) (cursor c) (lastVisibleCursor c) x) (h x c)" for x c
    using F by (simp add: prober_agrees_def)
  show "look_agrees c (peg_fast_step g Q F (activeSkipper c) (cursor c) (lastVisibleCursor c) e)
      (fast_probe_step g q h e c)"
    using look [of c] fast [of c] any_look_agrees [of F h, OF fast] starts_look_agrees [of F h, OF fast]
    by (cases e) (simp_all add: peg_fast_step_def fast_probe_step_def failed_refl token_probe_defs)
qed

lemma all_agree:
  "parser_agrees g (peg g s n) (parse g s n) \<and> prober_agrees (peg_probe g s n) (probe g s n) \<and>
    prober_agrees (peg_fast g s n) (attempt_fast_probe g s n)"
proof (induction n)
  case (Suc n)
  then show ?case by (simp add: parse_step_agrees probe_step_agrees fast_step_agrees)
qed (simp add: parser_agrees_def prober_agrees_def)

lemma parse_agrees:
  "agrees (isFailureSafe g e) c (peg g s n (activeSkipper c) e (cursor c) (lastVisibleCursor c)) (parse g s n e c)"
  using all_agree [of g s n] by (simp add: parser_agrees_def)

lemma probe_agrees:
  "look_agrees c (peg_probe g s n (activeSkipper c) (cursor c) (lastVisibleCursor c) e) (probe g s n e c)"
  using all_agree [of g s n] by (simp add: prober_agrees_def)

lemma fast_probe_agrees:
  "look_agrees c (peg_fast g s n (activeSkipper c) (cursor c) (lastVisibleCursor c) e) (attempt_fast_probe g s n e c)"
  using all_agree [of g s n] by (simp add: prober_agrees_def)

interpretation strict: agreeing sk "parse g s n" "peg g s n sk" "isFailureSafe g" "peg_skip g s m sk" "ctx_skip g s m"
  for sk g s n m
  by unfold_locales (auto simp: parse_agrees ctx_skip_agrees)

end
