(* ===== verification/Infix.thy ===== *)
theory Infix
  imports StrictCorrect
begin

text \<open>
  Infix rules (\<open>core/parser/InfixRule.hpp\<close>, \<open>InfixRuleSupport.hpp\<close>): precedence climbing over a
  primary and a list of operators, in strict mode, and its meaning. The operators are declared
  from the tightest to the loosest: the operator at index \<open>i\<close> of \<open>n\<close> has precedence \<open>n - i\<close>,
  which is the length of the list from it on, as the templates that recurse over the index see
  it. The element parser, the fast probe and the skipper are arguments, so that the results hold
  for whatever primary the rule has, an expression that contains the rule again included.
\<close>

subsection \<open>Rules and operators\<close>

datatype associativity = LeftAssoc | RightAssoc

text \<open>\<open>opNode\<close> and \<open>owner\<close> are the addresses that CST nodes carry.\<close>

record infix_operator =
  opNode :: expr
  opElement :: expr
  opAssoc :: associativity

record infix_rule =
  owner :: expr
  primary :: expr
  operators :: "infix_operator list"

definition kMaxPrecedence :: "infix_rule \<Rightarrow> nat" where
  "kMaxPrecedence R = length (operators R)"

definition infix_next_min_precedence :: "infix_operator \<Rightarrow> nat \<Rightarrow> nat" where
  "infix_next_min_precedence op precedence =
     (if opAssoc op = LeftAssoc then precedence + 1 else precedence)"

definition operator_safe :: "grammar \<Rightarrow> infix_operator \<Rightarrow> bool" where
  "operator_safe g op \<longleftrightarrow> \<not> isOrderedChoice (opElement op) \<and> isFailureSafe g (opElement op)"

text \<open>The value of the text of an operator whose element is a literal.\<close>

fun literal_text :: "expr \<Rightarrow> string option" where
  "literal_text (Literal l cs) = Some l"
| "literal_text _ = None"

definition infix_single_literal_operator_texts :: "infix_operator list \<Rightarrow> string list" where
  "infix_single_literal_operator_texts ops = List.map_filter (\<lambda>op. literal_text (opElement op)) ops"

definition infix_operator_shadowed :: "infix_operator list \<Rightarrow> string \<Rightarrow> infix_operator \<Rightarrow> nat \<Rightarrow> bool" where
  "infix_operator_shadowed ops s op cur = (case literal_text (opElement op) of None \<Rightarrow> False
     | Some matched \<Rightarrow> (let start = cur - length matched in
         list_ex (\<lambda>candidate. length matched < length candidate \<and>
             length candidate \<le> length s - start \<and> take (length candidate) (drop start s) = candidate)
           (infix_single_literal_operator_texts ops)))"

subsection \<open>The strict parser\<close>

definition operator_parse :: "(expr \<Rightarrow> parse_fun) \<Rightarrow> infix_operator \<Rightarrow> parse_fun" where
  "operator_parse P op c =
     (if isOrderedChoice (opElement op) then parse_wrapped_node (opNode op) (P (opElement op)) c
      else parse_overriding_first_child (opNode op) (P (opElement op)) c)"

definition operator_fast_probe :: "(expr \<Rightarrow> parse_fun) \<Rightarrow> infix_operator \<Rightarrow> parse_fun" where
  "operator_fast_probe F op c = F (opElement op) c"

fun has_operator_fast_probe :: "(expr \<Rightarrow> parse_fun) \<Rightarrow> nat \<Rightarrow> infix_operator list \<Rightarrow> parse_fun" where
  "has_operator_fast_probe F minPrecedence [] c = Done (False, c)"
| "has_operator_fast_probe F minPrecedence (op # ops) c =
     (let precedence = length (op # ops) in
      bind_out (if minPrecedence \<le> precedence then operator_fast_probe F op c else Done (False, c))
        (\<lambda>(m, c'). if m then Done (True, c') else has_operator_fast_probe F minPrecedence ops c'))"

text \<open>\<open>all\<close> are the operators of the rule, of which \<open>ops\<close> are still to be tried; the answer is
  \<open>nextMinPrecedence\<close>.\<close>

fun try_match_operator_strict :: "grammar \<Rightarrow> string \<Rightarrow> (expr \<Rightarrow> parse_fun) \<Rightarrow> (expr \<Rightarrow> parse_fun) \<Rightarrow>
    infix_operator list \<Rightarrow> nat \<Rightarrow> infix_operator list \<Rightarrow> pctx \<Rightarrow> (nat option \<times> pctx) outcome" where
  "try_match_operator_strict g s P F all minPrecedence [] c = Done (None, c)"
| "try_match_operator_strict g s P F all minPrecedence (op # ops) c =
     (let precedence = length (op # ops) in
      if precedence < minPrecedence then Done (None, c)
      else bind_out (operator_fast_probe F op c) (\<lambda>(m, c1).
        if m then bind_out (attempt_parse_strict (operator_safe g op) (operator_parse P op) c1) (\<lambda>(m, c2).
          if m then
            (if \<not> infix_operator_shadowed all s op (cursor c2)
             then Done (Some (infix_next_min_precedence op precedence), c2)
             else try_match_operator_strict g s P F all minPrecedence ops (ctx_rewind c2 (ctx_mark c)))
          else try_match_operator_strict g s P F all minPrecedence ops c2)
        else try_match_operator_strict g s P F all minPrecedence ops c1))"

text \<open>
  The loop of \<open>parse_tail_strict\<close> is the second recursive call: the test on the maximum stays
  false in it.
\<close>

fun parse_tail_strict :: "grammar \<Rightarrow> string \<Rightarrow> (expr \<Rightarrow> parse_fun) \<Rightarrow> (expr \<Rightarrow> parse_fun) \<Rightarrow>
    (pctx \<Rightarrow> pctx outcome) \<Rightarrow> infix_rule \<Rightarrow> nat \<Rightarrow> nat \<Rightarrow> nat \<Rightarrow> parse_fun" where
  "parse_tail_strict g s P F skp R 0 minPrecedence lhsStart c = Out_of_fuel"
| "parse_tail_strict g s P F skp R (Suc n) minPrecedence lhsStart c =
     (if kMaxPrecedence R < minPrecedence then Done (True, c)
      else bind_out (has_operator_fast_probe F minPrecedence (operators R) c) (\<lambda>(m, c).
        if \<not> m then Done (True, c)
        else let nodeCheckpoint = ctx_mark c in
          bind_out (try_match_operator_strict g s P F (operators R) minPrecedence (operators R) (ctx_enter c))
            (\<lambda>(next, c1). case next of
               None \<Rightarrow> Done (True, ctx_rewind c1 nodeCheckpoint)
             | Some nextMinPrecedence \<Rightarrow>
                 bind_out (skp c1) (\<lambda>c2. bind_out (P (primary R) c2) (\<lambda>(m, c3).
                   if \<not> m then Done (True, ctx_rewind c3 nodeCheckpoint)
                   else bind_out (skp c3) (\<lambda>c4.
                     bind_out (parse_tail_strict g s P F skp R n nextMinPrecedence (cursor c2) c4) (\<lambda>(_, c5).
                       parse_tail_strict g s P F skp R n minPrecedence lhsStart
                         (ctx_exit lhsStart (owner R) c5))))))))"

definition infix_rule_parse :: "grammar \<Rightarrow> string \<Rightarrow> (expr \<Rightarrow> parse_fun) \<Rightarrow> (expr \<Rightarrow> parse_fun) \<Rightarrow>
    (pctx \<Rightarrow> pctx outcome) \<Rightarrow> nat \<Rightarrow> infix_rule \<Rightarrow> parse_fun" where
  "infix_rule_parse g s P F skp n R c =
     bind_ok (P (primary R) c) (\<lambda>c1. bind_out (skp c1)
       (\<lambda>c2. parse_tail_strict g s P F skp R n 0 (cursor c) c2))"

subsection \<open>The meaning\<close>

type_synonym elem_fun = "expr \<Rightarrow> nat \<Rightarrow> nat \<Rightarrow> pegged"
type_synonym look_fun = "nat \<Rightarrow> nat \<Rightarrow> expr \<Rightarrow> bool outcome"

definition peg_operator :: "elem_fun \<Rightarrow> infix_operator \<Rightarrow> nat \<Rightarrow> nat \<Rightarrow> pegged" where
  "peg_operator p op i v =
     (if isOrderedChoice (opElement op) then node (opNode op) i (p (opElement op) i v)
      else overriding (opNode op) (p (opElement op) i v))"

fun peg_has_operator :: "look_fun \<Rightarrow> nat \<Rightarrow> infix_operator list \<Rightarrow> nat \<Rightarrow> nat \<Rightarrow> bool outcome" where
  "peg_has_operator q mn [] i v = Done False"
| "peg_has_operator q mn (op # ops) i v =
     bind_out (if mn \<le> length (op # ops) then q i v (opElement op) else Done False)
       (\<lambda>m. if m then Done True else peg_has_operator q mn ops i v)"

text \<open>The operator that matches first, with its precedence, where it ends and its nodes.\<close>

fun peg_match_operator :: "string \<Rightarrow> elem_fun \<Rightarrow> look_fun \<Rightarrow> infix_operator list \<Rightarrow> nat \<Rightarrow> infix_operator list \<Rightarrow>
    nat \<Rightarrow> nat \<Rightarrow> ((infix_operator \<times> nat) \<times> nat \<times> nat \<times> expr tree list) option outcome" where
  "peg_match_operator s p q all mn [] i v = Done None"
| "peg_match_operator s p q all mn (op # ops) i v =
     (if length (op # ops) < mn then Done None
      else bind_out (q i v (opElement op)) (\<lambda>m.
        if m then bind_out (peg_operator p op i v) (\<lambda>r. case r of
          None \<Rightarrow> peg_match_operator s p q all mn ops i v
        | Some (j, w, fs) \<Rightarrow>
            if infix_operator_shadowed all s op j then peg_match_operator s p q all mn ops i v
            else Done (Some ((op, length (op # ops)), j, w, fs)))
        else peg_match_operator s p q all mn ops i v))"

text \<open>One step of an infix expression: an operator with the operand behind it.\<close>

datatype infix_item = InfixItem
  (itemOp: infix_operator) (itemPrec: nat) (opForest: "expr tree list") (opTrivia: "expr tree list")
  (rhsForest: "expr tree list") (rhsTrivia: "expr tree list")
  (rhsBegin: nat) (itemEnd: nat) (itemVisible: nat)

definition nextMin :: "infix_item \<Rightarrow> nat" where
  "nextMin x = infix_next_min_precedence (itemOp x) (itemPrec x)"

definition itemForest :: "infix_item \<Rightarrow> expr tree list" where
  "itemForest x = opForest x @ opTrivia x @ rhsForest x @ rhsTrivia x"

definition peg_item :: "string \<Rightarrow> elem_fun \<Rightarrow> look_fun \<Rightarrow> skip_fun \<Rightarrow> infix_rule \<Rightarrow> nat \<Rightarrow> nat \<Rightarrow> nat \<Rightarrow>
    infix_item option outcome" where
  "peg_item s p q skp R mn i v =
     bind_out (peg_has_operator q mn (operators R) i v) (\<lambda>m. if \<not> m then Done None
       else bind_out (peg_match_operator s p q (operators R) mn (operators R) i v) (\<lambda>r. case r of
         None \<Rightarrow> Done None
       | Some ((op, prec), j, w, fs) \<Rightarrow> bind_out (skp j) (\<lambda>(k, hs).
           bind_out (p (primary R) k w) (\<lambda>r. case r of
             None \<Rightarrow> Done None
           | Some (l, x, gs) \<Rightarrow> bind_out (skp l) (\<lambda>(l', hs').
               Done (Some (InfixItem op prec fs hs gs hs' k l' x)))))))"

fun peg_tail :: "string \<Rightarrow> elem_fun \<Rightarrow> look_fun \<Rightarrow> skip_fun \<Rightarrow> infix_rule \<Rightarrow> nat \<Rightarrow> nat \<Rightarrow> nat \<Rightarrow> nat \<Rightarrow> nat \<Rightarrow> pegged" where
  "peg_tail s p q skp R 0 mn lhs i v = Out_of_fuel"
| "peg_tail s p q skp R (Suc n) mn lhs i v =
     (if kMaxPrecedence R < mn then Done (Some (i, v, []))
      else bind_out (peg_item s p q skp R mn i v) (\<lambda>r. case r of
        None \<Rightarrow> Done (Some (i, v, []))
      | Some x \<Rightarrow> bind_out (peg_tail s p q skp R n (nextMin x) (rhsBegin x) (itemEnd x) (itemVisible x)) (\<lambda>r. case r of
          None \<Rightarrow> Done None
        | Some (j, w, ts) \<Rightarrow> in_front [Tree lhs w (owner R) False False (itemForest x @ ts)]
            (peg_tail s p q skp R n mn lhs j w))))"

definition peg_infix :: "string \<Rightarrow> elem_fun \<Rightarrow> look_fun \<Rightarrow> skip_fun \<Rightarrow> nat \<Rightarrow> infix_rule \<Rightarrow> nat \<Rightarrow> nat \<Rightarrow> pegged" where
  "peg_infix s p q skp n R i v =
     bind_out (p (primary R) i v) (\<lambda>r. case r of
       None \<Rightarrow> Done None
     | Some (j, w, fs) \<Rightarrow> bind_out (skp j) (\<lambda>(k, hs).
         in_front (fs @ hs) (peg_tail s p q skp R n 0 i k w)))"

subsection \<open>The parser agrees with the meaning\<close>

lemma entered_failed: "failed z (ctx_enter c) c' \<Longrightarrow> failed False c c'"
  using enter_undone [of "cst c" z "cst c'"] by (auto simp: failed_def ctx_enter_def)

lemma entered_ran: "ran (ctx_enter c) c' j w fs \<Longrightarrow> failed False c c'"
  using enter_undone [of "cst c" True "cst c'" fs] by (auto simp: failed_def ran_def ctx_enter_def)

lemma exited_ran:
  "ran (ctx_enter c) c' j w fs \<Longrightarrow> ran c (ctx_exit x e c') j w [Tree x w e False False fs]"
  using node_builds [of "cst c" fs "cst c'"] by (auto simp: ran_def ctx_enter_def ctx_exit_def)

lemma ctx_enter_position [simp]:
  "cursor (ctx_enter c) = cursor c" "lastVisibleCursor (ctx_enter c) = lastVisibleCursor c"
  "activeSkipper (ctx_enter c) = activeSkipper c"
  by (simp_all add: ctx_enter_def)

lemma peg_tail_matches: "peg_tail s p q skp R n mn lhs i v \<noteq> Done None"
proof (induction n arbitrary: mn lhs i v)
  case (Suc n)
  then show ?case by (auto simp: bind_out_Done_iff in_front_def split: option.splits)
qed simp

locale infix_agreeing = agreeing +
  fixes s :: string and g :: grammar and h :: "expr \<Rightarrow> parse_fun" and q :: look_fun
  assumes safe: "safe = isFailureSafe g"
    and look: "activeSkipper c = sk \<Longrightarrow> look_agrees c (q (cursor c) (lastVisibleCursor c) e) (h e c)"
begin

lemma operator_agrees:
  assumes "activeSkipper c = sk"
  shows "agrees (operator_safe g op) c (peg_operator p op (cursor c) (lastVisibleCursor c)) (operator_parse f op c)"
proof (cases "isOrderedChoice (opElement op)")
  case True
  have "agrees (safe (opElement op)) (ctx_enter c) (p (opElement op) (cursor c) (lastVisibleCursor c))
      (f (opElement op) (ctx_enter c))"
    using elem [of "ctx_enter c" "opElement op"] assms by (simp add: ctx_enter_def)
  from node_agrees [where f = "f (opElement op)", OF this] True show ?thesis
    by (simp add: peg_operator_def operator_parse_def operator_safe_def)
next
  case False
  with overriding_agrees [where f = "f (opElement op)", OF elem [OF assms, of "opElement op"]] show ?thesis
    by (simp add: peg_operator_def operator_parse_def operator_safe_def safe)
qed

lemma has_operator_agrees:
  assumes "activeSkipper c = sk"
  shows "look_agrees c (peg_has_operator q mn ops (cursor c) (lastVisibleCursor c))
    (has_operator_fast_probe h mn ops c)"
  using assms
proof (induction ops arbitrary: c)
  case (Cons op ops)
  have "look_agrees c (if mn \<le> length (op # ops) then q (cursor c) (lastVisibleCursor c) (opElement op) else Done False)
      (if mn \<le> length (op # ops) then operator_fast_probe h op c else Done (False, c))"
    using look [OF Cons.prems, of "opElement op"] by (simp add: operator_fast_probe_def failed_refl)
  then show ?case
  proof (cases rule: look_cases)
    case (Look m c')
    then show ?thesis using Cons.IH [of c'] Cons.prems failed_position [OF Look(3)] failed_failed [OF Look(3)]
      by (auto simp: Let_def look_agrees_def split: outcome.splits)
  qed (simp add: Let_def)
qed (simp add: failed_refl)

definition operator_result :: "pctx \<Rightarrow> ((infix_operator \<times> nat) \<times> nat \<times> nat \<times> expr tree list) option outcome \<Rightarrow>
    (nat option \<times> pctx) outcome \<Rightarrow> bool" where
  "operator_result c r out \<longleftrightarrow> (case r of
     Out_of_fuel \<Rightarrow> out = Out_of_fuel
   | Done None \<Rightarrow> \<exists>c'. out = Done (None, c') \<and> failed True c c'
   | Done (Some ((op, prec), j, w, fs)) \<Rightarrow>
       \<exists>c'. out = Done (Some (infix_next_min_precedence op prec), c') \<and> ran c c' j w fs)"

lemma operator_result_after:
  "failed True c c1 \<Longrightarrow> operator_result c1 r out \<Longrightarrow> operator_result c r out"
  by (auto simp: operator_result_def split: outcome.splits option.splits prod.splits
      intro: failed_failed failed_ran)

lemma match_operator_agrees:
  assumes "activeSkipper c = sk"
  shows "operator_result c (peg_match_operator s p q all mn ops (cursor c) (lastVisibleCursor c))
    (try_match_operator_strict g s f h all mn ops c)"
  using assms
proof (induction ops arbitrary: c)
  case (Cons op ops)
  have next_op: "operator_result c (peg_match_operator s p q all mn ops (cursor c) (lastVisibleCursor c))
      (try_match_operator_strict g s f h all mn ops c')" if "failed True c c'" for c'
    using operator_result_after [OF that Cons.IH [of c']] failed_position [OF that] Cons.prems by simp
  show ?case
  proof (cases "length (op # ops) < mn")
    case False
    from look [OF Cons.prems, of "opElement op"] show ?thesis
    proof (cases rule: look_cases)
      case (Look m c1)
      note c1 = failed_position [OF Look(3)]
      show ?thesis
      proof (cases m)
        case True
        have "agrees True c1 (peg_operator p op (cursor c1) (lastVisibleCursor c1))
            (attempt_parse_strict (operator_safe g op) (operator_parse f op) c1)"
          using c1 Cons.prems by (intro attempt_agrees operator_agrees) simp
        then show ?thesis
        proof (cases rule: agrees_cases)
          case (Fail c2)
          then show ?thesis using Look True False c1 next_op [OF failed_failed [OF Look(3) Fail(3)]]
            by (simp add: operator_fast_probe_def)
        next
          case (Match j w fs c2)
          have r: "ran c c2 j w fs" by (rule failed_ran [OF Look(3) Match(3)])
          then show ?thesis
            using Look True False c1 Match ran_position [OF r] next_op [OF ran_rewind [OF r]]
            by (simp add: operator_fast_probe_def operator_result_def [of c "Done (Some x)" for x])
        qed (use Look True False c1 in \<open>simp add: operator_fast_probe_def operator_result_def\<close>)
      next
        case False
        then show ?thesis using Look \<open>\<not> length (op # ops) < mn\<close> next_op [OF Look(3)]
          by (simp add: operator_fast_probe_def)
      qed
    qed (use False in \<open>simp add: operator_fast_probe_def operator_result_def\<close>)
  qed (simp add: operator_result_def failed_refl)
qed (simp add: operator_result_def failed_refl)

lemma tail_agrees:
  assumes "activeSkipper c = sk"
  shows "agrees False c (peg_tail s p q skp R n mn lhs (cursor c) (lastVisibleCursor c))
    (parse_tail_strict g s f h cskp R n mn lhs c)"
  using assms
proof (induction n arbitrary: c mn lhs)
  case (Suc n)
  show ?case
  proof (cases "kMaxPrecedence R < mn")
    case False
    have "look_agrees c (peg_has_operator q mn (operators R) (cursor c) (lastVisibleCursor c))
        (has_operator_fast_probe h mn (operators R) c)" by (rule has_operator_agrees [OF Suc.prems])
    then show ?thesis
    proof (cases rule: look_cases)
      case (Look m c0)
      note c0 = failed_position [OF Look(3)]
      have stop: "agrees False c (Done (Some (cursor c, lastVisibleCursor c, [])))
          (Done (True, ctx_rewind c' (ctx_mark c0)))" if "failed False c0 c'" for c'
        using same_position [OF failed_failed [OF Look(3) failed_rewind [OF that]]] by simp
      show ?thesis
      proof (cases m)
        case True
        note go = False Look(1,2) True
        have "operator_result (ctx_enter c0)
            (peg_match_operator s p q (operators R) mn (operators R) (cursor c) (lastVisibleCursor c))
            (try_match_operator_strict g s f h (operators R) mn (operators R) (ctx_enter c0))"
          using match_operator_agrees [of "ctx_enter c0"] c0 Suc.prems by simp
        then consider
            (Out) "peg_match_operator s p q (operators R) mn (operators R) (cursor c) (lastVisibleCursor c) = Out_of_fuel"
              "try_match_operator_strict g s f h (operators R) mn (operators R) (ctx_enter c0) = Out_of_fuel"
          | (Fail) c1 where
              "peg_match_operator s p q (operators R) mn (operators R) (cursor c) (lastVisibleCursor c) = Done None"
              "try_match_operator_strict g s f h (operators R) mn (operators R) (ctx_enter c0) = Done (None, c1)"
              "failed True (ctx_enter c0) c1"
          | (Match) op prec j w fs c1 where
              "peg_match_operator s p q (operators R) mn (operators R) (cursor c) (lastVisibleCursor c) =
                Done (Some ((op, prec), j, w, fs))"
              "try_match_operator_strict g s f h (operators R) mn (operators R) (ctx_enter c0) =
                Done (Some (infix_next_min_precedence op prec), c1)"
              "ran (ctx_enter c0) c1 j w fs"
          by (auto simp: operator_result_def split: outcome.splits option.splits prod.splits)
        then show ?thesis
        proof cases
          case Out
          then show ?thesis using go by (simp add: peg_item_def)
        next
          case Fail
          then show ?thesis using go stop [OF entered_failed [OF Fail(3)]] by (simp add: peg_item_def Let_def)
        next
          case Match
          have c1: "cursor c1 = j" "lastVisibleCursor c1 = w" "activeSkipper c1 = sk"
            using ran_position [OF Match(3)] c0 Suc.prems by simp_all
          note go = go Match(1,2) c1
          from skip [OF c1(3)] show ?thesis
          proof (cases rule: skip_cases)
            case (Skip k hs c2)
            have r2: "ran (ctx_enter c0) c2 k w (fs @ hs)"
              using ran_trans [OF Match(3)] Skip(3) c1 by simp
            have c2: "cursor c2 = k" "lastVisibleCursor c2 = w" "activeSkipper c2 = sk"
              using ran_position [OF r2] c0 Suc.prems by simp_all
            note go = go Skip(1,2) c2
            from elem [OF c2(3), of "primary R"] show ?thesis
            proof (cases rule: agrees_cases)
              case (Fail c3)
              then show ?thesis using go stop [OF entered_failed [OF ran_failed [OF r2 Fail(3)]]]
                by (simp add: peg_item_def Let_def)
            next
              case Prim: (Match l x gs c3)
              have r3: "ran (ctx_enter c0) c3 l x (fs @ hs @ gs)"
                using ran_trans [OF r2 Prim(3)] by simp
              have c3: "cursor c3 = l" "lastVisibleCursor c3 = x" "activeSkipper c3 = sk"
                using ran_position [OF r3] c0 Suc.prems by simp_all
              note go = go Prim(1,2) c3
              from skip [OF c3(3)] show ?thesis
              proof (cases rule: skip_cases)
                case Skip': (Skip l' hs' c4)
                have r4: "ran (ctx_enter c0) c4 l' x (fs @ hs @ gs @ hs')"
                  using ran_trans [OF r3] Skip'(3) c3 by simp
                have c4: "cursor c4 = l'" "lastVisibleCursor c4 = x" "activeSkipper c4 = sk"
                  using ran_position [OF r4] c0 Suc.prems by simp_all
                note go = go Skip'(1,2) c4
                from Suc.IH [OF c4(3), of "infix_next_min_precedence op prec" k] show ?thesis
                proof (cases rule: agrees_cases)
                  case Out
                  then show ?thesis using go by (simp add: peg_item_def Let_def nextMin_def)
                next
                  case (Fail c5)
                  then show ?thesis using peg_tail_matches by blast
                next
                  case Nested: (Match j2 w2 ts c5)
                  let ?t = "Tree lhs w2 (owner R) False False (fs @ hs @ gs @ hs' @ ts)"
                  let ?c6 = "ctx_exit lhs (owner R) c5"
                  have r6: "ran c ?c6 j2 w2 [?t]"
                    using failed_ran [OF Look(3) exited_ran [OF ran_trans [OF r4 Nested(3)], of lhs "owner R"]] by simp
                  note c6 = ran_position [OF r6]
                  have "agrees False ?c6 (peg_tail s p q skp R n mn lhs j2 w2)
                      (parse_tail_strict g s f h cskp R n mn lhs ?c6)"
                    using Suc.IH [of ?c6 mn lhs] c6 Suc.prems by simp
                  from agrees_after_ran [OF r6 this] show ?thesis
                    using go Nested(1,2) by (simp add: peg_item_def Let_def nextMin_def itemForest_def)
                qed
              qed (use go in \<open>simp add: peg_item_def Let_def\<close>)
            qed (use go in \<open>simp add: peg_item_def Let_def\<close>)
          qed (use go in \<open>simp add: peg_item_def Let_def\<close>)
        qed
      next
        case False
        then show ?thesis using Look \<open>\<not> kMaxPrecedence R < mn\<close> same_position [OF Look(3)]
          by (simp add: peg_item_def)
      qed
    qed (use False in \<open>simp add: peg_item_def\<close>)
  qed (simp add: ran_refl)
qed simp

lemma infix_rule_agrees:
  assumes c: "activeSkipper c = sk"
  shows "agrees False c (peg_infix s p q skp n R (cursor c) (lastVisibleCursor c))
    (infix_rule_parse g s f h cskp n R c)"
  using elem [OF c, of "primary R"]
proof (cases rule: agrees_cases)
  case (Match j w fs c1)
  have c1: "cursor c1 = j" "lastVisibleCursor c1 = w" "activeSkipper c1 = sk"
    using ran_position [OF Match(3)] c by simp_all
  from skip [OF c1(3)] show ?thesis
  proof (cases rule: skip_cases)
    case (Skip k hs c2)
    have r: "ran c c2 k w (fs @ hs)" using ran_trans [OF Match(3) Skip(3)] c1 by simp
    show ?thesis
      using agrees_after_ran [OF r tail_agrees] ran_position [OF r] c Match(1,2) Skip(1,2) c1
      by (simp add: peg_infix_def infix_rule_parse_def bind_ok_def)
  qed (use Match(1,2) c1 in \<open>simp add: peg_infix_def infix_rule_parse_def bind_ok_def\<close>)
qed (auto simp: peg_infix_def infix_rule_parse_def bind_ok_def intro: failed_lose)

end

interpretation strict_infix: infix_agreeing sk "parse g s n" "peg g s n sk" "isFailureSafe g"
    "peg_skip g s m sk" "ctx_skip g s m" s g "attempt_fast_probe g s n" "peg_fast g s n sk" for sk g s n m
  by unfold_locales (auto simp: fast_probe_agrees)

end
