(* ===== verification/InfixTree.thy ===== *)
theory InfixTree
  imports Infix
begin

text \<open>
  The values of infix rules: the tree of binary nodes built from the CST
  (\<open>InfixRuleValueBuilder\<close> in \<open>InfixRuleSupport.hpp\<close>, and the part of \<open>ParserRuleBuildSupport\<close>
  that folds infix nodes onto the value of the primary), what it means for a tree to respect the
  precedence and associativity of the operators, and that at most one tree over given operands
  and operators does.
\<close>

subsection \<open>Building the tree\<close>

text \<open>
  An operand is the CST node of a primary; a binary node keeps the span of its CST node and, with
  the operator that matched, the CST node its raw value is read from.
\<close>

datatype ast =
  Operand "expr tree"
| Binary nat nat ast infix_operator "expr tree" ast

definition visit_raw_value :: "infix_operator \<Rightarrow> expr tree \<Rightarrow> expr tree option" where
  "visit_raw_value op t =
     (if isOrderedChoice (opElement op) then List.find (\<lambda>child. \<not> thidden child) (kids t) else Some t)"

fun assign_operator_from_node :: "infix_operator list \<Rightarrow> expr tree \<Rightarrow> (infix_operator \<times> expr tree) option" where
  "assign_operator_from_node [] t = None"
| "assign_operator_from_node (op # ops) t =
     (if telement t = opNode op then map_option (\<lambda>x. (op, x)) (visit_raw_value op t)
      else assign_operator_from_node ops t)"

text \<open>\<open>None\<close> is a violated assertion.\<close>

definition createNode :: "infix_rule \<Rightarrow> nat \<Rightarrow> nat \<Rightarrow> ast \<Rightarrow> expr tree \<Rightarrow> ast \<Rightarrow> ast option" where
  "createNode R b e left operatorNode right =
     map_option (\<lambda>(op, x). Binary b e left op x right) (assign_operator_from_node (operators R) operatorNode)"

fun buildTypedFromCst :: "infix_rule \<Rightarrow> expr tree \<Rightarrow> ast \<Rightarrow> ast option"
  and build_children :: "infix_rule \<Rightarrow> expr tree list \<Rightarrow> expr tree option \<Rightarrow> ast option \<Rightarrow> (expr tree \<times> ast) option" where
  "buildTypedFromCst R (Tree b e x h r ts) lhs =
     (case build_children R ts None None of None \<Rightarrow> None
      | Some (operatorNode, rhs) \<Rightarrow> createNode R b e lhs operatorNode rhs)"
| "build_children R [] operatorNode rhs = (case operatorNode of None \<Rightarrow> None
     | Some t \<Rightarrow> (case rhs of None \<Rightarrow> None | Some v \<Rightarrow> Some (t, v)))"
| "build_children R (child # ts) operatorNode rhs =
     (if thidden child then build_children R ts operatorNode rhs
      else case operatorNode of
        None \<Rightarrow> build_children R ts (Some child) rhs
      | Some t \<Rightarrow> (case rhs of
          None \<Rightarrow> if telement child = primary R then build_children R ts operatorNode (Some (Operand child)) else None
        | Some v \<Rightarrow> if telement child \<noteq> owner R then None
            else case buildTypedFromCst R child v of None \<Rightarrow> None
              | Some v' \<Rightarrow> build_children R ts operatorNode (Some v')))"

text \<open>
  The loop over the children of a parser rule that is an infix rule: the value of the primary,
  and every infix node applied to the value so far.
\<close>

fun get_raw_value :: "infix_rule \<Rightarrow> expr tree list \<Rightarrow> ast option \<Rightarrow> ast option" where
  "get_raw_value R [] currentNode = currentNode"
| "get_raw_value R (child # ts) currentNode =
     (if thidden child then get_raw_value R ts currentNode
      else if telement child = primary R then get_raw_value R ts (Some (Operand child))
      else if telement child = owner R then
        (case currentNode of None \<Rightarrow> None
         | Some v \<Rightarrow> (case buildTypedFromCst R child v of None \<Rightarrow> None
             | Some v' \<Rightarrow> get_raw_value R ts (Some v')))
      else get_raw_value R ts currentNode)"

subsection \<open>Precedence and associativity\<close>

text \<open>The precedence \<open>make_ops\<close> gives to an operator of the rule.\<close>

definition getPrecedence :: "infix_operator list \<Rightarrow> infix_operator \<Rightarrow> nat" where
  "getPrecedence ops op = length (dropWhile (\<lambda>x. x \<noteq> op) ops)"

lemma precedence_of_suffix:
  "distinct (pre @ op # suf) \<Longrightarrow> getPrecedence (pre @ op # suf) op = length (op # suf)"
  unfolding getPrecedence_def by (subst dropWhile_append2) auto

lemma precedence_inj:
  assumes "op \<in> set ops" and "op' \<in> set ops" and "getPrecedence ops op = getPrecedence ops op'"
  shows "op = op'"
  using assms
proof (induction ops)
  case (Cons a ops)
  have l: "length (dropWhile P ops) < Suc (length ops)" for P
    by (simp add: le_imp_less_Suc length_dropWhile_le)
  show ?case
    using Cons l [of "\<lambda>x. x \<noteq> op"] l [of "\<lambda>x. x \<noteq> op'"] by (auto simp: getPrecedence_def split: if_splits)
qed simp

fun ast_begin :: "ast \<Rightarrow> nat" where
  "ast_begin (Operand t) = tbegin t"
| "ast_begin (Binary b e l op x r) = b"

fun ast_end :: "ast \<Rightarrow> nat" where
  "ast_end (Operand t) = tend t"
| "ast_end (Binary b e l op x r) = e"

text \<open>What an operator binds looser than, on its left and on its right.\<close>

fun may_left :: "infix_operator list \<Rightarrow> infix_operator \<Rightarrow> ast \<Rightarrow> bool" where
  "may_left ops op (Operand t) = True"
| "may_left ops op (Binary b e l op' x r) = (getPrecedence ops op < getPrecedence ops op' \<or>
     getPrecedence ops op = getPrecedence ops op' \<and> opAssoc op = LeftAssoc)"

fun may_right :: "infix_operator list \<Rightarrow> infix_operator \<Rightarrow> ast \<Rightarrow> bool" where
  "may_right ops op (Operand t) = True"
| "may_right ops op (Binary b e l op' x r) = (getPrecedence ops op < getPrecedence ops op' \<or>
     getPrecedence ops op = getPrecedence ops op' \<and> opAssoc op = RightAssoc)"

text \<open>
  A tree that respects them everywhere, whose nodes span from the begin of their left operand to
  the end of their right one.
\<close>

fun respects_precedence :: "infix_operator list \<Rightarrow> ast \<Rightarrow> bool" where
  "respects_precedence ops (Operand t) = True"
| "respects_precedence ops (Binary b e l op x r) =
     (op \<in> set ops \<and> may_left ops op l \<and> may_right ops op r \<and>
      b = ast_begin l \<and> e = ast_end r \<and> respects_precedence ops l \<and> respects_precedence ops r)"

text \<open>The first operand, and the operators each with the operand behind it, in the text's order.\<close>

fun reading :: "ast \<Rightarrow> expr tree \<times> (infix_operator \<times> expr tree \<times> expr tree) list" where
  "reading (Operand t) = (t, [])"
| "reading (Binary b e l op x r) =
     (fst (reading l), snd (reading l) @ (op, x, fst (reading r)) # snd (reading r))"

subsection \<open>At most one tree\<close>

text \<open>The operators of a tree bind at least as tightly as its root.\<close>

lemma may_trans:
  "may_left ops op t \<or> may_right ops op t \<Longrightarrow> t = Binary b e l op' x r \<Longrightarrow> getPrecedence ops op \<le> getPrecedence ops op'"
  by auto

definition all_tighter :: "infix_operator list \<Rightarrow> ast \<Rightarrow> bool" where
  "all_tighter ops t \<longleftrightarrow> (case t of Operand x \<Rightarrow> True
     | Binary b e l op x r \<Rightarrow>
         (\<forall>y \<in> set (snd (reading t)). fst y \<in> set ops \<and> getPrecedence ops op \<le> getPrecedence ops (fst y)))"

lemma below_root:
  assumes "all_tighter ops t" and "may_left ops op t \<or> may_right ops op t" and "y \<in> set (snd (reading t))"
  shows "fst y \<in> set ops \<and> getPrecedence ops op \<le> getPrecedence ops (fst y)"
proof (cases t)
  case (Operand x)
  then show ?thesis using assms(3) by simp
next
  case (Binary b e l op' x r)
  have "getPrecedence ops op \<le> getPrecedence ops op'" using may_trans [OF assms(2) Binary] .
  moreover have "fst y \<in> set ops \<and> getPrecedence ops op' \<le> getPrecedence ops (fst y)"
    using assms(1,3) unfolding all_tighter_def Binary by (simp only: ast.case)
  ultimately show ?thesis by simp
qed

lemma root_loosest: "respects_precedence ops t \<Longrightarrow> all_tighter ops t"
proof (induction t)
  case (Binary b e l op x r)
  have l: "respects_precedence ops l" "may_left ops op l" and r: "respects_precedence ops r" "may_right ops op r"
    and op: "op \<in> set ops" using Binary.prems by auto
  have "fst y \<in> set ops \<and> getPrecedence ops op \<le> getPrecedence ops (fst y)"
    if y: "y \<in> set (snd (reading (Binary b e l op x r)))" for y
  proof -
    consider "y \<in> set (snd (reading l))" | "fst y = op" | "y \<in> set (snd (reading r))"
      using y by auto
    then show ?thesis
    proof cases
      case 1
      then show ?thesis using below_root [OF Binary.IH(1)] l by blast
    next
      case 3
      then show ?thesis using below_root [OF Binary.IH(2)] r by blast
    qed (use op in simp)
  qed
  then show ?case unfolding all_tighter_def ast.case by blast
qed (simp add: all_tighter_def)

lemma left_operators:
  assumes "respects_precedence ops l" and "may_left ops op l" and "y \<in> set (snd (reading l))"
  shows "fst y \<in> set ops \<and> (getPrecedence ops op < getPrecedence ops (fst y) \<or>
    getPrecedence ops op = getPrecedence ops (fst y) \<and> opAssoc op = LeftAssoc)"
proof (cases l)
  case (Binary b e l' op' x r)
  have "fst y \<in> set ops \<and> getPrecedence ops op' \<le> getPrecedence ops (fst y)"
    using root_loosest [OF assms(1)] assms(3) unfolding all_tighter_def Binary by (simp only: ast.case)
  then show ?thesis using assms(2) Binary by auto
qed (use assms(3) in simp)

lemma right_operators:
  assumes "respects_precedence ops r" and "may_right ops op r" and "y \<in> set (snd (reading r))"
  shows "fst y \<in> set ops \<and> (getPrecedence ops op < getPrecedence ops (fst y) \<or>
    getPrecedence ops op = getPrecedence ops (fst y) \<and> opAssoc op = RightAssoc)"
proof (cases r)
  case (Binary b e l op' x r')
  have "fst y \<in> set ops \<and> getPrecedence ops op' \<le> getPrecedence ops (fst y)"
    using root_loosest [OF assms(1)] assms(3) unfolding all_tighter_def Binary by (simp only: ast.case)
  then show ?thesis using assms(2) Binary by auto
qed (use assms(3) in simp)

text \<open>Two roots over one reading cannot be at different places.\<close>

lemma roots_do_not_cross:
  assumes t: "respects_precedence ops (Binary b e l op x r)" and u: "respects_precedence ops (Binary b' e' l' op' x' r')"
    and "(op, x, a) \<in> set (snd (reading l'))" and "(op', x', a') \<in> set (snd (reading r))"
  shows False
proof -
  have "getPrecedence ops op' < getPrecedence ops op \<or>
      getPrecedence ops op' = getPrecedence ops op \<and> opAssoc op' = LeftAssoc"
    using u left_operators [OF _ _ assms(3), of ops op'] by force
  moreover have "getPrecedence ops op < getPrecedence ops op' \<or>
      getPrecedence ops op = getPrecedence ops op' \<and> opAssoc op = RightAssoc"
    using t right_operators [OF _ _ assms(4), of ops op] by force
  ultimately have "getPrecedence ops op = getPrecedence ops op'" "opAssoc op' = LeftAssoc" "opAssoc op = RightAssoc"
    by auto
  moreover have "op = op'" using precedence_inj calculation(1) t u by auto
  ultimately show False by simp
qed

lemma same_place:
  "xs @ y # ys = xs' @ y' # ys' \<Longrightarrow>
    xs = xs' \<and> y = y' \<and> ys = ys' \<or> y \<in> set xs' \<and> y' \<in> set ys \<or> y' \<in> set xs \<and> y \<in> set ys'"
  by (auto simp: append_eq_append_conv2 append_eq_Cons_conv Cons_eq_append_conv)

lemma precedence_tree_unique:
  "respects_precedence ops t \<Longrightarrow> respects_precedence ops u \<Longrightarrow> reading t = reading u \<Longrightarrow> t = u"
proof (induction t arbitrary: u)
  case (Operand t)
  then show ?case by (cases u) auto
next
  case (Binary b e l op x r)
  show ?case
  proof (cases u)
    case (Operand t)
    then show ?thesis using Binary.prems(3) by simp
  next
    case u: (Binary b' e' l' op' x' r')
    have "snd (reading l) @ (op, x, fst (reading r)) # snd (reading r) =
        snd (reading l') @ (op', x', fst (reading r')) # snd (reading r')"
      using Binary.prems(3) u by simp
    from same_place [OF this] consider
        (same) "snd (reading l) = snd (reading l')" "op = op'" "x = x'" "reading r = reading r'"
      | "(op, x, fst (reading r)) \<in> set (snd (reading l'))" "(op', x', fst (reading r')) \<in> set (snd (reading r))"
      | "(op', x', fst (reading r')) \<in> set (snd (reading l))" "(op, x, fst (reading r)) \<in> set (snd (reading r'))"
      by (auto simp: prod_eq_iff)
    then show ?thesis
    proof cases
      case same
      then have "l = l'" "r = r'" using Binary u by (auto simp: prod_eq_iff)
      then show ?thesis using same Binary.prems(1,2) u by simp
    next
      case 2
      then show ?thesis using roots_do_not_cross [OF Binary.prems(1)] Binary.prems(2) u by blast
    next
      case 3
      then show ?thesis using roots_do_not_cross [OF _ Binary.prems(1)] Binary.prems(2) u by blast
    qed
  qed
qed

end
