(* ===== verification/InfixSpec.thy ===== *)
theory InfixSpec
  imports InfixTree
begin

text \<open>
  What an infix rule does, in two steps: the operands and operators it consumes are those of a
  flat loop that knows no precedence (\<open>peg_items\<close>), and the nodes it builds over them make the
  tree that respects precedence and associativity.
\<close>

subsection \<open>The flat loop\<close>

text \<open>Operators, whatever their precedence, each with an operand, as long as there are any.\<close>

fun peg_items :: "string \<Rightarrow> elem_fun \<Rightarrow> look_fun \<Rightarrow> skip_fun \<Rightarrow> infix_rule \<Rightarrow> nat \<Rightarrow> nat \<Rightarrow> nat \<Rightarrow>
    (infix_item list \<times> nat \<times> nat) outcome" where
  "peg_items s p q skp R 0 i v = Out_of_fuel"
| "peg_items s p q skp R (Suc n) i v = bind_out (peg_item s p q skp R 0 i v) (\<lambda>r. case r of
     None \<Rightarrow> Done ([], i, v)
   | Some x \<Rightarrow> bind_out (peg_items s p q skp R n (itemEnd x) (itemVisible x)) (\<lambda>(xs, j, w). Done (x # xs, j, w)))"

text \<open>The operands and operators of the rule, and where they end.\<close>

definition peg_flat :: "string \<Rightarrow> elem_fun \<Rightarrow> look_fun \<Rightarrow> skip_fun \<Rightarrow> nat \<Rightarrow> infix_rule \<Rightarrow> nat \<Rightarrow> nat \<Rightarrow>
    (expr tree list \<times> infix_item list \<times> nat \<times> nat) option outcome" where
  "peg_flat s p q skp n R i v =
     bind_out (p (primary R) i v) (\<lambda>r. case r of
       None \<Rightarrow> Done None
     | Some (j, w, fs) \<Rightarrow> bind_out (skp j) (\<lambda>(k, hs).
         bind_out (peg_items s p q skp R n k w) (\<lambda>(xs, j, w). Done (Some (fs, xs, j, w)))))"

definition item_reading :: "infix_item \<Rightarrow> infix_operator \<times> expr tree \<times> expr tree" where
  "item_reading x = (itemOp x, the (visit_raw_value (itemOp x) (hd (opForest x))), hd (rhsForest x))"

lemma has_operator_restrict:
  "peg_has_operator q 0 ops i v = Done m \<Longrightarrow> \<exists>m'. peg_has_operator q mn ops i v = Done m' \<and> (m' \<longrightarrow> m)"
proof (induction ops)
  case (Cons op ops)
  have none: "peg_has_operator q mn ops i v = Done False" if "length ops < mn"
    using that by (induction ops) auto
  show ?case
  proof (cases "mn \<le> length (op # ops)")
    case True
    obtain m0 where "q i v (opElement op) = Done m0" using Cons.prems by (auto simp: bind_out_Done_iff)
    then show ?thesis using True Cons by (cases m0) auto
  next
    case False
    then show ?thesis using none by auto
  qed
qed auto

lemma match_operator_cases:
  assumes "peg_match_operator s p q all mn (a # ops) i v = Done (Some ((op, prec), j, w, fs))"
  obtains (Here) "op = a" "prec = length (a # ops)" "mn \<le> prec" "q i v (opElement a) = Done True"
      "peg_operator p a i v = Done (Some (j, w, fs))" "\<not> infix_operator_shadowed all s a j"
    | (Later) "peg_match_operator s p q all mn ops i v = Done (Some ((op, prec), j, w, fs))"
        "mn \<le> length (a # ops)" "q i v (opElement a) \<noteq> Out_of_fuel"
proof -
  have mn: "mn \<le> length (a # ops)" using assms by (auto split: if_splits)
  obtain m where m: "q i v (opElement a) = Done m" using assms mn by (auto simp: bind_out_Done_iff)
  show thesis
  proof (cases m)
    case True
    then obtain r where r: "peg_operator p a i v = Done r" using assms mn m by (auto simp: bind_out_Done_iff)
    show thesis
    proof (cases r)
      case None
      then show thesis using Later assms mn m True r by simp
    next
      case (Some y)
      obtain j' w' fs' where y: "y = (j', w', fs')" by (rule prod_cases3)
      show thesis
      proof (cases "infix_operator_shadowed all s a j'")
        case True
        then show thesis using Later assms mn m \<open>m\<close> r Some y by simp
      next
        case False
        then show thesis using Here assms mn m \<open>m\<close> r Some y by simp
      qed
    qed
  next
    case False
    then show thesis using Later assms mn m by simp
  qed
qed

lemma match_operator_found:
  "peg_match_operator s p q all mn ops i v = Done (Some ((op, prec), j, w, fs)) \<Longrightarrow>
    \<exists>pre suf. ops = pre @ op # suf \<and> prec = length (op # suf) \<and> mn \<le> prec \<and>
      peg_operator p op i v = Done (Some (j, w, fs)) \<and> \<not> infix_operator_shadowed all s op j"
proof (induction ops)
  case (Cons a ops)
  from Cons.prems show ?case
  proof (cases rule: match_operator_cases)
    case Here
    then show ?thesis by (intro exI [of _ "[]"] exI [of _ ops]) simp
  next
    case Later
    then show ?thesis using Cons.IH by (metis append_Cons)
  qed
qed simp

lemma match_operator_prec:
  "peg_match_operator s p q all mn ops i v = Done (Some ((op, prec), j, w, fs)) \<Longrightarrow> prec \<le> length ops"
  using match_operator_found by fastforce

lemma match_operator_restrict:
  "peg_match_operator s p q all 0 ops i v = Done r \<Longrightarrow>
    peg_match_operator s p q all mn ops i v =
      Done (case r of None \<Rightarrow> None | Some ((op, prec), y) \<Rightarrow> if mn \<le> prec then r else None)"
proof (induction ops)
  case (Cons op ops)
  show ?case
  proof (cases "length (op # ops) < mn")
    case True
    then have "prec < mn" if "r = Some ((op', prec), j, w, fs)" for op' prec j w fs
      using match_operator_prec [of s p q all 0 "op # ops"] Cons.prems that by fastforce
    then show ?thesis using True by (auto simp: not_le [symmetric] split: option.splits prod.splits)
  next
    case False
    obtain m where m: "q i v (opElement op) = Done m" using Cons.prems by (auto simp: bind_out_Done_iff)
    show ?thesis
    proof (cases m)
      case True
      then obtain x where x: "peg_operator p op i v = Done x" using Cons.prems m by (auto simp: bind_out_Done_iff)
      show ?thesis
      proof (cases x)
        case None
        then show ?thesis using Cons False m True x by simp
      next
        case (Some y)
        obtain j w fs where y: "y = (j, w, fs)" by (rule prod_cases3)
        show ?thesis
        proof (cases "infix_operator_shadowed all s op j")
          case shadowed: True
          then show ?thesis using Cons False m True x Some y by simp
        next
          case unshadowed: False
          then have "r = Some ((op, length (op # ops)), j, w, fs)" using Cons.prems m True x Some y by simp
          then show ?thesis using False m True x Some y unshadowed by simp
        qed
      qed
    qed (use Cons False m in simp)
  qed
qed simp

lemma has_operator_enough:
  "peg_match_operator s p q all 0 ops i v = Done (Some ((op, prec), j, w, fs)) \<Longrightarrow> mn \<le> prec \<Longrightarrow>
    peg_has_operator q mn ops i v = Done True"
proof (induction ops)
  case (Cons a ops)
  have mn: "mn \<le> length (a # ops)" using match_operator_prec [OF Cons.prems(1)] Cons.prems(2) by simp
  from Cons.prems(1) show ?case
  proof (cases rule: match_operator_cases)
    case Here
    then show ?thesis using mn by simp
  next
    case Later
    then show ?thesis using mn Cons.IH [OF Later(1) Cons.prems(2)]
      by (cases "q i v (opElement a)") auto
  qed
qed simp

lemma item_has_prec:
  assumes "peg_item s p q skp R mn i v = Done (Some x)"
    and "peg_match_operator s p q (operators R) mn (operators R) i v = Done (Some ((op, prec), j, w, fs))"
  shows "itemPrec x = prec"
  using assms by (auto simp: peg_item_def bind_out_Done_iff split: if_splits option.splits)

text \<open>A step above a minimal precedence is the step above none, when its operator binds tightly enough.\<close>

lemma item_restrict:
  assumes "peg_item s p q skp R 0 i v = Done r"
  shows "peg_item s p q skp R mn i v =
    Done (case r of None \<Rightarrow> None | Some x \<Rightarrow> if mn \<le> itemPrec x then Some x else None)"
proof -
  let ?ops = "operators R"
  obtain m where m: "peg_has_operator q 0 ?ops i v = Done m"
    using assms by (auto simp: peg_item_def bind_out_Done_iff)
  obtain m' where m': "peg_has_operator q mn ?ops i v = Done m'" "m' \<longrightarrow> m"
    using has_operator_restrict [OF m] by blast
  show ?thesis
  proof (cases m)
    case True
    then obtain r' where r': "peg_match_operator s p q ?ops 0 ?ops i v = Done r'"
      using assms m by (auto simp: peg_item_def bind_out_Done_iff)
    note small = match_operator_restrict [OF r', of mn]
    show ?thesis
    proof (cases r')
      case None
      then show ?thesis using assms m m' True r' small by (simp add: peg_item_def)
    next
      case (Some y)
      obtain op prec j w fs where y: "y = ((op, prec), j, w, fs)" by (metis prod.exhaust)
      have prec: "itemPrec x = prec" if "r = Some x" for x
        using item_has_prec [of s p q skp R 0 i v x op prec j w fs] assms r' Some y that by simp
      show ?thesis
      proof (cases "mn \<le> prec")
        case le: True
        have "peg_has_operator q mn ?ops i v = Done True"
          using has_operator_enough [OF _ le, of s p q ?ops ?ops i v op j w fs] r' Some y by simp
        then have "peg_item s p q skp R mn i v = peg_item s p q skp R 0 i v"
          using m True r' small Some y le by (simp add: peg_item_def)
        then show ?thesis using assms prec le by (auto split: option.splits)
      next
        case False
        then have "peg_item s p q skp R mn i v = Done None"
          using m' small Some y by (simp add: peg_item_def)
        then show ?thesis using prec False by (auto split: option.splits)
      qed
    qed
  next
    case False
    then show ?thesis using assms m m' by (simp add: peg_item_def)
  qed
qed

subsection \<open>What the steps look like\<close>

text \<open>
  The contract of the elements of an infix rule: a primary makes one node from where it started
  to the last visible token, an operator one node with a raw value, and the skipper hidden nodes.
\<close>

locale infix_pegging =
  fixes s :: string and p :: elem_fun and q :: look_fun and skp :: skip_fun and R :: infix_rule
    and ok :: "infix_rule \<Rightarrow> bool"
  assumes primary_node: "ok R \<Longrightarrow> p (primary R) i v = Done (Some (j, w, fs)) \<Longrightarrow>
      \<exists>ks. fs = [Tree i w (primary R) False False ks]"
    and operator_node: "ok R \<Longrightarrow> op \<in> set (operators R) \<Longrightarrow> peg_operator p op i v = Done (Some (j, w, fs)) \<Longrightarrow>
      \<exists>t x. fs = [t] \<and> \<not> thidden t \<and> telement t = opNode op \<and> visit_raw_value op t = Some x"
    and trivia: "ok R \<Longrightarrow> skp i = Done (k, hs) \<Longrightarrow> list_all thidden hs"
    and addresses: "ok R \<Longrightarrow> distinct (map opNode (operators R))" "ok R \<Longrightarrow> owner R \<noteq> primary R"
begin

lemma item_cases:
  assumes ok: "ok R" and x: "peg_item s p q skp R mn i v = Done (Some x)"
  obtains t y ks where "opForest x = [t]" "\<not> thidden t" "telement t = opNode (itemOp x)"
    "visit_raw_value (itemOp x) t = Some y"
    "rhsForest x = [Tree (rhsBegin x) (itemVisible x) (primary R) False False ks]"
    "list_all thidden (opTrivia x)" "list_all thidden (rhsTrivia x)" "itemOp x \<in> set (operators R)"
    "itemPrec x = getPrecedence (operators R) (itemOp x)" "mn \<le> itemPrec x"
proof -
  obtain op prec j w fs k hs l z gs l' hs'
    where o: "peg_match_operator s p q (operators R) mn (operators R) i v = Done (Some ((op, prec), j, w, fs))"
      and k: "skp j = Done (k, hs)" and r: "p (primary R) k w = Done (Some (l, z, gs))" and l: "skp l = Done (l', hs')"
      and item: "x = InfixItem op prec fs hs gs hs' k l' z"
    using x by (auto simp: peg_item_def bind_out_Done_iff split: if_splits option.splits)
  obtain pre suf where f: "operators R = pre @ op # suf" "prec = length (op # suf)" "mn \<le> prec"
      "peg_operator p op i v = Done (Some (j, w, fs))"
    using match_operator_found [OF o] by blast
  have "distinct (operators R)" using addresses(1) [OF ok] by (simp add: distinct_map)
  then have "distinct (pre @ op # suf)" using f(1) by simp
  then have "prec = getPrecedence (operators R) op" using precedence_of_suffix f(1,2) by metis
  moreover have op: "op \<in> set (operators R)" using f(1) by simp
  moreover obtain ks where "gs = [Tree k z (primary R) False False ks]" using primary_node [OF ok r] by blast
  moreover obtain t y where "fs = [t]" "\<not> thidden t" "telement t = opNode op" "visit_raw_value op t = Some y"
    using operator_node [OF ok op f(4)] by blast
  ultimately show thesis using that trivia [OF ok k] trivia [OF ok l] f(3) by (simp add: item)
qed

lemma item_known:
  assumes "ok R" and "peg_item s p q skp R mn i v = Done (Some x)"
  shows "itemOp x \<in> set (operators R) \<and> itemPrec x = getPrecedence (operators R) (itemOp x) \<and> mn \<le> itemPrec x"
  by (rule item_cases [OF assms]) blast

lemma assign_found:
  assumes ok: "ok R" and op: "op \<in> set (operators R)" and t: "telement t = opNode op" "visit_raw_value op t = Some x"
  shows "assign_operator_from_node (operators R) t = Some (op, x)"
proof -
  have "assign_operator_from_node ops t = Some (op, x)" if "distinct (map opNode ops)" "op \<in> set ops" for ops
    using that t by (induction ops) (auto simp: image_iff)
  then show ?thesis using addresses(1) [OF ok] op by blast
qed

abbreviation "ops \<equiv> operators R"
abbreviation "items \<equiv> peg_items s p q skp R"
abbreviation "known xs \<equiv> list_all (\<lambda>x. itemOp x \<in> set ops \<and> itemPrec x = getPrecedence ops (itemOp x) \<and>
  itemPrec x \<le> kMaxPrecedence R) xs"
abbreviation "owned ts \<equiv> list_all (\<lambda>t. \<not> thidden t \<and> telement t = owner R) ts"

lemma items_more: "items n i v = Done y \<Longrightarrow> items (Suc n) i v = Done y"
proof (induction n arbitrary: i v y)
  case (Suc n)
  then obtain r where r: "peg_item s p q skp R 0 i v = Done r" by (auto simp: bind_out_Done_iff)
  show ?case
  proof (cases r)
    case (Some x)
    then obtain z where z: "items n (itemEnd x) (itemVisible x) = Done z"
      using Suc.prems r by (auto simp: bind_out_Done_iff)
    from Suc.IH [OF z] z Suc.prems r Some show ?thesis by simp
  qed (use Suc.prems r in simp)
qed simp

lemma items_known:
  "ok R \<Longrightarrow> items n i v = Done (xs, j, w) \<Longrightarrow>
    known xs"
proof (induction n arbitrary: i v xs)
  case (Suc n)
  then obtain r where r: "peg_item s p q skp R 0 i v = Done r" by (auto simp: bind_out_Done_iff)
  show ?case
  proof (cases r)
    case (Some x)
    then obtain ys where ys: "items n (itemEnd x) (itemVisible x) = Done (ys, j, w)" "xs = x # ys"
      using Suc.prems r by (auto simp: bind_out_Done_iff)
    note item_known [OF Suc.prems(1) r [unfolded Some]]
    moreover have "getPrecedence ops y \<le> kMaxPrecedence R" for y
      by (simp add: getPrecedence_def kMaxPrecedence_def length_dropWhile_le)
    ultimately show ?thesis using Suc.IH [OF Suc.prems(1) ys(1)] ys(2) by simp
  qed (use Suc.prems r in simp)
qed simp

subsection \<open>The value of an infix node\<close>

lemma hidden_children: "list_all thidden hs \<Longrightarrow> build_children R (hs @ ts) oper v = build_children R ts oper v"
  by (induction hs) auto

lemma owned_children:
  "ok R \<Longrightarrow> owned ts \<Longrightarrow> build_children R ts (Some t) (Some v) = map_option (Pair t) (get_raw_value R ts (Some v))"
  using addresses(2) by (induction ts arbitrary: v) (auto split: option.splits)

lemma node_value:
  assumes ok: "ok R" and x: "peg_item s p q skp R mn i v = Done (Some x)" and o: "owned ts"
    and rd: "item_reading x = (op, y, u)"
  shows "op = itemOp x \<and> u = hd (rhsForest x) \<and> tbegin u = rhsBegin x \<and> tend u = itemVisible x \<and>
    buildTypedFromCst R (Tree b e (owner R) False False (itemForest x @ ts)) cur =
      map_option (Binary b e cur op y) (get_raw_value R ts (Some (Operand u)))"
proof -
  obtain t z ks where y: "opForest x = [t]" "\<not> thidden t" "telement t = opNode (itemOp x)"
      "visit_raw_value (itemOp x) t = Some z"
      "rhsForest x = [Tree (rhsBegin x) (itemVisible x) (primary R) False False ks]"
      "list_all thidden (opTrivia x)" "list_all thidden (rhsTrivia x)" "itemOp x \<in> set ops"
    by (rule item_cases [OF ok x]) blast
  have op: "op = itemOp x" and z: "y = z" and u: "u = Tree (rhsBegin x) (itemVisible x) (primary R) False False ks"
    using rd y by (simp_all add: item_reading_def)
  have "build_children R (itemForest x @ ts) None None = build_children R ts (Some t) (Some (Operand u))"
    using y by (simp add: itemForest_def hidden_children u)
  also have "\<dots> = map_option (Pair t) (get_raw_value R ts (Some (Operand u)))" by (rule owned_children [OF ok o])
  finally show ?thesis
    using assign_found [OF ok y(8,3,4)] op z u y(5)
    by (cases "get_raw_value R ts (Some (Operand u))") (simp_all add: createNode_def)
qed

subsection \<open>Precedence climbing\<close>

text \<open>
  \<open>climbs mn cur ys v' ts zs\<close>: the nodes \<open>ts\<close> turn the value \<open>cur\<close> into a tree over the steps
  \<open>ys\<close> that respects precedence, with a root at least as tight as \<open>mn\<close>, and that the first of
  the remaining steps \<open>zs\<close> may take as its left operand.
\<close>

definition climbs :: "nat \<Rightarrow> ast \<Rightarrow> infix_item list \<Rightarrow> nat \<Rightarrow> expr tree list \<Rightarrow> infix_item list \<Rightarrow> bool" where
  "climbs mn cur ys v' ts zs \<longleftrightarrow>
     (respects_precedence ops cur \<and> (ys \<noteq> [] \<longrightarrow> may_left ops (itemOp (hd ys)) cur) \<longrightarrow>
      (\<exists>t. get_raw_value R ts (Some cur) = Some t \<and> respects_precedence ops t \<and>
        reading t = (fst (reading cur), snd (reading cur) @ map item_reading ys) \<and>
        ast_begin t = ast_begin cur \<and>
        (if ys = [] then t = cur
         else ast_end t = v' \<and> (\<exists>b e l op x r. t = Binary b e l op x r \<and> mn \<le> getPrecedence ops op) \<and>
           (zs \<noteq> [] \<longrightarrow> may_left ops (itemOp (hd zs)) t))))"

lemma next_may_left:
  assumes "op \<in> set ops" and "itemOp z \<in> set ops" and "itemPrec z = getPrecedence ops (itemOp z)"
    and "itemPrec z < infix_next_min_precedence op (getPrecedence ops op)"
  shows "may_left ops (itemOp z) (Binary b e l op x r)"
proof -
  have "itemOp z = op" if "getPrecedence ops (itemOp z) = getPrecedence ops op"
    using precedence_inj [OF assms(2,1) that] .
  then show ?thesis using assms(3,4) by (cases "opAssoc op") (auto simp: infix_next_min_precedence_def)
qed

lemma next_may_right:
  assumes "infix_next_min_precedence op (getPrecedence ops op) \<le> getPrecedence ops op'"
  shows "may_right ops op (Binary b e l op' x r)"
  using assms by (cases "opAssoc op") (auto simp: infix_next_min_precedence_def)

text \<open>A step, the nested steps of its right operand, and the steps behind them.\<close>

lemma climbs_step:
  assumes ok: "ok R" and x: "peg_item s p q skp R mn i v = Done (Some x)" and o: "owned ts"
    and nested: "\<And>u. tbegin u = rhsBegin x \<Longrightarrow> climbs (nextMin x) (Operand u) ys w ts zs"
    and w: "ys = [] \<Longrightarrow> w = itemVisible x"
    and known: "known zs"
    and stop: "zs \<noteq> [] \<Longrightarrow> itemPrec (hd zs) < nextMin x"
    and lhs: "respects_precedence ops cur" "ast_begin cur = lhs" "may_left ops (itemOp x) cur"
  shows "\<exists>t. buildTypedFromCst R (Tree lhs w (owner R) False False (itemForest x @ ts)) cur = Some t \<and>
    respects_precedence ops t \<and> reading t = (fst (reading cur), snd (reading cur) @ map item_reading (x # ys)) \<and>
    ast_begin t = lhs \<and> ast_end t = w \<and>
    (\<exists>b e l op y r. t = Binary b e l op y r \<and> mn \<le> getPrecedence ops op) \<and>
    (zs \<noteq> [] \<longrightarrow> may_left ops (itemOp (hd zs)) t)"
proof -
  obtain op y u where rd: "item_reading x = (op, y, u)" by (rule prod_cases3)
  note n = node_value [OF ok x o rd]
  have opx: "op = itemOp x" using n by blast
  have u: "tbegin u = rhsBegin x" "tend u = itemVisible x" and node:
      "buildTypedFromCst R (Tree lhs w (owner R) False False (itemForest x @ ts)) cur =
        map_option (Binary lhs w cur op y) (get_raw_value R ts (Some (Operand u)))"
    using n by blast+
  have op: "op \<in> set ops" "itemPrec x = getPrecedence ops op" "mn \<le> itemPrec x"
    using n item_known [OF ok x] by simp_all
  have next_min: "nextMin x = infix_next_min_precedence op (getPrecedence ops op)"
    using n op(2) by (simp add: nextMin_def)
  obtain r where r: "get_raw_value R ts (Some (Operand u)) = Some r" "respects_precedence ops r"
      "reading r = (u, map item_reading ys)" "ast_end r = w" "may_right ops op r"
  proof (cases "ys = []")
    case True
    then show thesis using nested [OF u(1)] that u(2) w by (auto simp: climbs_def)
  next
    case False
    then obtain r b e l op' z r' where "get_raw_value R ts (Some (Operand u)) = Some r" "respects_precedence ops r"
        "reading r = (u, map item_reading ys)" "ast_end r = w" "r = Binary b e l op' z r'"
        "nextMin x \<le> getPrecedence ops op'"
      using nested [OF u(1)] by (auto simp: climbs_def)
    then show thesis using that next_may_right next_min by simp
  qed
  let ?t = "Binary lhs w cur op y r"
  have "may_left ops (itemOp (hd zs)) ?t" if "zs \<noteq> []"
    using known stop [OF that] that op(1) next_min by (cases zs) (auto intro!: next_may_left simp del: may_left.simps)
  then show ?thesis using node r lhs op rd opx by auto
qed

lemma climbs_more:
  assumes ok: "ok R" and x: "peg_item s p q skp R mn i v = Done (Some x)" and o: "owned ts"
    and nested: "\<And>u. tbegin u = rhsBegin x \<Longrightarrow> climbs (nextMin x) (Operand u) ys w ts (ys' @ zs)"
    and w: "ys = [] \<Longrightarrow> w = itemVisible x"
    and known: "known (ys' @ zs)"
    and stop: "ys' @ zs \<noteq> [] \<Longrightarrow> itemPrec (hd (ys' @ zs)) < nextMin x"
    and rest: "\<And>cur. ast_begin cur = lhs \<Longrightarrow> climbs mn cur ys' w' ts' zs" and w': "ys' = [] \<Longrightarrow> w' = w"
    and lhs: "ast_begin cur = lhs"
  shows "climbs mn cur (x # ys @ ys') w' (Tree lhs w (owner R) False False (itemForest x @ ts) # ts') zs"
    (is "climbs mn cur _ w' (?node # ts') zs")
proof (cases "respects_precedence ops cur \<and> may_left ops (itemOp x) cur")
  case True
  obtain t where t: "buildTypedFromCst R ?node cur = Some t" "respects_precedence ops t"
      "reading t = (fst (reading cur), snd (reading cur) @ map item_reading (x # ys))" "ast_begin t = lhs" "ast_end t = w"
      "\<exists>b e l op y r. t = Binary b e l op y r \<and> mn \<le> getPrecedence ops op"
      "ys' @ zs \<noteq> [] \<longrightarrow> may_left ops (itemOp (hd (ys' @ zs))) t"
    using climbs_step [OF ok x o nested w known stop _ lhs] True by blast
  have first: "get_raw_value R (?node # ts') (Some cur) = get_raw_value R ts' (Some t)"
    using t(1) addresses(2) [OF ok] by simp
  show ?thesis
  proof (cases "ys' = []")
    case True
    then show ?thesis using rest [OF t(4)] t first w' lhs unfolding climbs_def by (auto simp del: get_raw_value.simps)
  next
    case False
    have "may_left ops (itemOp (hd ys')) t" using t(7) False by (cases ys') auto
    then obtain t' where "get_raw_value R ts' (Some t) = Some t'" "respects_precedence ops t'"
        "reading t' = (fst (reading t), snd (reading t) @ map item_reading ys')" "ast_begin t' = lhs" "ast_end t' = w'"
        "\<exists>b e l op y r. t' = Binary b e l op y r \<and> mn \<le> getPrecedence ops op"
        "zs \<noteq> [] \<longrightarrow> may_left ops (itemOp (hd zs)) t'"
      using rest [OF t(4)] t(2,4) False unfolding climbs_def by auto
    then show ?thesis using t(3) first lhs unfolding climbs_def by (auto simp del: get_raw_value.simps)
  qed
qed (auto simp: climbs_def)

lemma tail_climbs:
  "ok R \<Longrightarrow> items n i v = Done (xs, j, w) \<Longrightarrow>
    \<exists>ys zs ts i' v'. xs = ys @ zs \<and> peg_tail s p q skp R n mn lhs i v = Done (Some (i', v', ts)) \<and>
      items n i' v' = Done (zs, j, w) \<and> owned ts \<and> (zs \<noteq> [] \<longrightarrow> itemPrec (hd zs) < mn) \<and>
      (ys = [] \<longrightarrow> v' = v) \<and> (\<forall>cur. ast_begin cur = lhs \<longrightarrow> climbs mn cur ys v' ts zs)"
proof (induction n arbitrary: mn lhs i v xs)
  case (Suc n)
  note known = items_known [OF Suc.prems]
  obtain r where r: "peg_item s p q skp R 0 i v = Done r" using Suc.prems(2) by (auto simp: bind_out_Done_iff)
  have stop: ?case if "peg_tail s p q skp R (Suc n) mn lhs i v = Done (Some (i, v, []))"
      "xs \<noteq> [] \<Longrightarrow> itemPrec (hd xs) < mn"
    using that Suc.prems
    by (intro exI [of _ "[]"] exI [of _ xs] exI [of _ "[]"] exI [of _ i] exI [of _ v])
      (simp add: climbs_def del: peg_items.simps peg_tail.simps)
  note mine = item_restrict [OF r, of mn]
  show ?case
  proof (cases "kMaxPrecedence R < mn")
    case True
    then show ?thesis using known by (intro stop) (cases xs; simp)+
  next
    case False
    show ?thesis
    proof (cases r)
      case None
      then show ?thesis using Suc.prems r False mine by (intro stop) simp_all
    next
      case (Some x)
      then obtain xs1 where xs1: "items n (itemEnd x) (itemVisible x) = Done (xs1, j, w)" "xs = x # xs1"
        using Suc.prems r by (auto simp: bind_out_Done_iff)
      show ?thesis
      proof (cases "mn \<le> itemPrec x")
        case small: False
        then show ?thesis using False mine Some xs1(2) by (intro stop) simp_all
      next
        case True
        then have x: "peg_item s p q skp R mn i v = Done (Some x)" using mine Some by simp
        from Suc.IH [OF Suc.prems(1) xs1(1), of "nextMin x" "rhsBegin x"]
        obtain ys1 zs1 ts1 i1 v1 where N: "xs1 = ys1 @ zs1"
            "peg_tail s p q skp R n (nextMin x) (rhsBegin x) (itemEnd x) (itemVisible x) = Done (Some (i1, v1, ts1))"
            "items n i1 v1 = Done (zs1, j, w)" "owned ts1" "zs1 \<noteq> [] \<longrightarrow> itemPrec (hd zs1) < nextMin x"
            "ys1 = [] \<longrightarrow> v1 = itemVisible x"
            "\<forall>cur. ast_begin cur = rhsBegin x \<longrightarrow> climbs (nextMin x) cur ys1 v1 ts1 zs1" by blast
        from Suc.IH [OF Suc.prems(1) N(3), of mn lhs]
        obtain ys2 zs2 ts2 i2 v2 where C: "zs1 = ys2 @ zs2"
            "peg_tail s p q skp R n mn lhs i1 v1 = Done (Some (i2, v2, ts2))"
            "items n i2 v2 = Done (zs2, j, w)" "owned ts2" "zs2 \<noteq> [] \<longrightarrow> itemPrec (hd zs2) < mn"
            "ys2 = [] \<longrightarrow> v2 = v1" "\<forall>cur. ast_begin cur = lhs \<longrightarrow> climbs mn cur ys2 v2 ts2 zs2" by blast
        let ?node = "Tree lhs v1 (owner R) False False (itemForest x @ ts1)"
        have "climbs mn cur (x # ys1 @ ys2) v2 (?node # ts2) zs2" if "ast_begin cur = lhs" for cur
        proof (rule climbs_more [OF Suc.prems(1) x N(4) _ _ _ _ _ _ that])
          show "known (ys2 @ zs2)" using known N(1) C(1) xs1(2) by simp
        qed (use N(5,6,7) C(1,6,7) in auto)
        then show ?thesis
          using N C xs1(2) False x items_more [OF C(3)]
          by (intro exI [of _ "x # ys1 @ ys2"] exI [of _ zs2] exI [of _ "?node # ts2"] exI [of _ i2] exI [of _ v2])
            (simp add: in_front_def del: peg_items.simps)
      qed
    qed
  qed
qed simp

lemma items_end: "items n i v = Done ([], j, w) \<Longrightarrow> j = i \<and> w = v"
  by (cases n) (auto simp: bind_out_Done_iff split: option.splits)

lemma hidden_value: "list_all thidden hs \<Longrightarrow> get_raw_value R (hs @ ts) cur = get_raw_value R ts cur"
  by (induction hs) auto

lemma infix_climbs:
  assumes ok: "ok R" and flat: "peg_flat s p q skp n R i v = Done (Some (fs, xs, j, w))"
  shows "\<exists>u ts t. fs = [u] \<and> peg_infix s p q skp n R i v = Done (Some (j, w, ts)) \<and>
    get_raw_value R ts None = Some t \<and> respects_precedence ops t \<and> reading t = (u, map item_reading xs) \<and>
    ast_begin t = i \<and> ast_end t = w"
proof -
  obtain l x k hs where prim: "p (primary R) i v = Done (Some (l, x, fs))" and k: "skp l = Done (k, hs)"
      and items: "items n k x = Done (xs, j, w)"
    using flat by (auto simp: peg_flat_def bind_out_Done_iff split: option.splits)
  obtain ks where fs: "fs = [Tree i x (primary R) False False ks]" using primary_node [OF ok prim] by blast
  let ?u = "Tree i x (primary R) False False ks"
  from tail_climbs [OF ok items, of 0 i] obtain ys zs ts i' v'
    where T: "xs = ys @ zs" "peg_tail s p q skp R n 0 i k x = Done (Some (i', v', ts))"
      "items n i' v' = Done (zs, j, w)" "zs = []" "ys = [] \<longrightarrow> v' = x"
      "climbs 0 (Operand ?u) ys v' ts zs" by fastforce
  have pos: "i' = j" "v' = w" using items_end [of n i' v' j w] T(3,4) by simp_all
  have "get_raw_value R (fs @ hs @ ts) None = get_raw_value R ts (Some (Operand ?u))"
    using hidden_value trivia [OF ok k] by (simp add: fs)
  moreover obtain t where t: "get_raw_value R ts (Some (Operand ?u)) = Some t" "respects_precedence ops t"
      "reading t = (?u, map item_reading ys)" "ast_begin t = i"
      and e: "if ys = [] then t = Operand ?u else ast_end t = v' \<and>
        (\<exists>b e l op x r. t = Binary b e l op x r \<and> 0 \<le> getPrecedence ops op) \<and>
        (zs \<noteq> [] \<longrightarrow> may_left ops (itemOp (hd zs)) t)"
    using T(6) unfolding climbs_def by (simp only: respects_precedence.simps may_left.simps reading.simps
      ast_begin.simps fst_conv snd_conv append_Nil simp_thms tree.sel) blast
  moreover have "ast_end t = w" using e T(5) pos by (cases "ys = []") simp_all
  moreover have "xs = ys" using T(1,4) by simp
  moreover have "peg_infix s p q skp n R i v = Done (Some (j, w, fs @ hs @ ts))"
    using prim k T(2) pos by (simp add: peg_infix_def in_front_def)
  ultimately show ?thesis using fs by auto
qed

lemma infix_none: "peg_flat s p q skp n R i v = Done None \<Longrightarrow> peg_infix s p q skp n R i v = Done None"
  by (auto simp: peg_flat_def peg_infix_def bind_out_Done_iff split: option.splits)

end

subsection \<open>Strict parsing\<close>

text \<open>
  The static assertions of an infix rule: the primary is a parser rule, and an operator is a token
  with a value or a choice of them; different objects have different addresses.
\<close>

fun operator_token :: "grammar \<Rightarrow> expr \<Rightarrow> bool" where
  "operator_token g AnyCharacter = True"
| "operator_token g (CharacterRange r) = True"
| "operator_token g (Literal l cs) = True"
| "operator_token g (RuleRef r) = (rkind (g r) \<noteq> ParserKind)"
| "operator_token g _ = False"

fun operator_element :: "grammar \<Rightarrow> expr \<Rightarrow> bool" where
  "operator_element g (OrderedChoice es) = list_all (operator_token g) es"
| "operator_element g e = operator_token g e"

fun parser_rule :: "grammar \<Rightarrow> expr \<Rightarrow> bool" where
  "parser_rule g (RuleRef r) = (rkind (g r) = ParserKind)"
| "parser_rule g _ = False"

definition infix_rule_ok :: "grammar \<Rightarrow> infix_rule \<Rightarrow> bool" where
  "infix_rule_ok g R \<longleftrightarrow> parser_rule g (primary R) \<and> operators R \<noteq> [] \<and>
     list_all (\<lambda>op. operator_element g (opElement op)) (operators R) \<and>
     distinct (map opNode (operators R)) \<and> owner R \<noteq> primary R"

lemma node_Some: "node e i r = Done (Some (j, w, fs)) \<Longrightarrow> \<exists>ks. fs = [Tree i w e False False ks]"
  by (auto simp: node_def bind_out_Done_iff)

lemma token_Some: "token e i m = Some (j, w, fs) \<Longrightarrow> fs = [Tree i j e False False []]"
  by (auto simp: token_def split: option.splits)

lemma rule_node:
  assumes "rkind (g r) \<noteq> TerminalKind" and "peg g s n sk (RuleRef r) i v = Done (Some (j, w, fs))"
  shows "\<exists>ks. fs = [Tree i w (RuleRef r) False False ks]"
  using assms by (cases n) (simp_all add: peg_step_def node_Some)

lemma token_node:
  assumes "operator_token g e" and "peg g s n sk e i v = Done (Some (j, w, fs))"
  shows "\<exists>t. fs = [t] \<and> \<not> thidden t"
proof (cases n)
  case (Suc m)
  show ?thesis
  proof (cases e)
    case (RuleRef r)
    show ?thesis
    proof (cases "rkind (g r) = TerminalKind")
      case True
      then obtain k where "token e i k = Some (j, w, fs)"
        using assms(2) Suc RuleRef by (simp add: peg_step_def bind_out_Done_iff) blast
      then show ?thesis using token_Some by fastforce
    next
      case False
      then show ?thesis using rule_node [of g r s n sk i v j w fs] assms(2) RuleRef by fastforce
    qed
  qed (use assms Suc in \<open>force simp: peg_step_def dest!: token_Some\<close>)+
qed (use assms(2) in simp)

lemma choice_node:
  "list_all (operator_token g) es \<Longrightarrow> peg_choice (peg g s n sk) es i v = Done (Some (j, w, fs)) \<Longrightarrow>
    \<exists>t. fs = [t] \<and> \<not> thidden t"
  using token_node by (induction es) (fastforce simp: bind_out_Done_iff split: option.splits)+

lemma strict_operator_node:
  assumes "operator_element g (opElement op)" and "peg_operator (peg g s n sk) op i v = Done (Some (j, w, fs))"
  shows "\<exists>t x. fs = [t] \<and> \<not> thidden t \<and> telement t = opNode op \<and> visit_raw_value op t = Some x"
proof (cases "isOrderedChoice (opElement op)")
  case True
  then obtain es where es: "opElement op = OrderedChoice es" by (cases "opElement op") auto
  then obtain m gs where "n = Suc m" "peg_choice (peg g s m sk) es i v = Done (Some (j, w, gs))"
      "fs = [Tree i w (opNode op) False False gs]"
    using assms(2) by (cases n) (auto simp: peg_operator_def node_def bind_out_Done_iff peg_step_def)
  then show ?thesis using choice_node [of g es] assms(1) es by (fastforce simp: visit_raw_value_def)
next
  case False
  then obtain gs where gs: "peg g s n sk (opElement op) i v = Done (Some (j, w, gs))" "fs = override_first (opNode op) gs"
    using assms(2) by (auto simp: peg_operator_def overriding_def bind_out_Done_iff)
  have "operator_token g (opElement op)" using assms(1) False by (cases "opElement op") auto
  from token_node [OF this gs(1)] obtain t where "gs = [t]" "\<not> thidden t" by blast
  then show ?thesis using gs(2) False by (cases t) (simp add: override_first_def visit_raw_value_def)
qed

lemma peg_skip_hidden: "peg_skip g s n sk i = Done (k, hs) \<Longrightarrow> list_all thidden hs"
  by (auto simp: peg_skip_def bind_out_Done_iff hidden_trees_def list_all_iff)

interpretation infix_values: infix_pegging s "peg g s n sk" "peg_fast g s n sk" "peg_skip g s m sk" R "infix_rule_ok g"
  for s g n sk m R
proof
  fix i v j w fs assume ok: "infix_rule_ok g R" and m: "peg g s n sk (primary R) i v = Done (Some (j, w, fs))"
  then obtain r where "primary R = RuleRef r" "rkind (g r) = ParserKind"
    by (cases "primary R") (auto simp: infix_rule_ok_def)
  then show "\<exists>ks. fs = [Tree i w (primary R) False False ks]" using rule_node [of g r s n sk i v j w fs] m by simp
next
  fix op i v j w fs assume "infix_rule_ok g R" "op \<in> set (operators R)"
    and m: "peg_operator (peg g s n sk) op i v = Done (Some (j, w, fs))"
  then have "operator_element g (opElement op)" by (auto simp: infix_rule_ok_def list_all_iff)
  from strict_operator_node [OF this m]
  show "\<exists>t x. fs = [t] \<and> \<not> thidden t \<and> telement t = opNode op \<and> visit_raw_value op t = Some x" .
qed (auto simp: infix_rule_ok_def dest: peg_skip_hidden)

end
