(* ===== verification/StrictProps.thy ===== *)
theory StrictProps
  imports StrictCorrect "HOL-Library.Code_Target_Nat"
begin

text \<open>
  What strict parsing promises: the parser refines the grammar's meaning and lays its forest out
  in the builder, a speculative attempt that fails leaves no trace, lookahead leaves none at all,
  a run over a text returns and reports the end it reached, and the spans of a match are ordered.
  The last two show where a span is not ordered, and what a lookahead does not look at.
\<close>

subsection \<open>A grammar to instantiate\<close>

text \<open>An item \<open>a ;\<close>, a rule that may match nothing, and white space.\<close>

definition demo_grammar :: grammar where
  "demo_grammar r =
     (if r = 0 then \<lparr>rkind = ParserKind, rbody = Group [Assignment 0 (Literal ''a'' True), Literal '';'' True],
        rnullable = False, rskipper = None\<rparr>
      else if r = 1 then \<lparr>rkind = ParserKind, rbody = Repetition 0 1 (Assignment 0 (Literal ''a'' True)),
        rnullable = True, rskipper = None\<rparr>
      else \<lparr>rkind = TerminalKind, rbody = Literal '' '' True, rnullable = False, rskipper = None\<rparr>)"

definition tidy_grammar :: grammar where
  "tidy_grammar r = (if r = 0 then demo_grammar 0 else demo_grammar 2)"

definition blank :: skipper where
  "blank = Skipper [RuleRef 2] []"

definition demo_nodes :: "nat \<Rightarrow> expr cst_node" where
  "demo_nodes i = \<lparr>nbegin = 0, nend = 0, grammarElement = AnyCharacter, nextSiblingId = 0, nisLeaf = False,
     nisHidden = False, nisRecovered = False\<rparr>"

lemmas demo_defs = demo_grammar_def tidy_grammar_def blank_def

definition demo_forest :: "expr tree list" where
  "demo_forest =
    [Tree 0 3 (RuleRef 0) False False
      [Tree 0 1 (Assignment 0 (Literal ''a'' True)) False False [],
       Tree 1 2 (RuleRef 2) True False [],
       Tree 2 3 (Literal '';'' True) False False []]]"

lemma demo_peg: "peg demo_grammar ''a ;'' 8 blank (RuleRef 0) 0 0 = Done (Some (3, 3, demo_forest))"
  unfolding demo_forest_def by code_simp

lemma tidy_peg: "peg tidy_grammar ''a ;'' 8 blank (RuleRef 0) 0 0 = Done (Some (3, 3, demo_forest))"
  unfolding demo_forest_def by code_simp

lemma demo_fails: "peg demo_grammar ''a b'' 8 blank (RuleRef 0) 0 0 = Done None"
  by code_simp

lemma demo_ok: "wf_grammar demo_grammar" "not_left_recursive demo_grammar (\<lambda>_. 0)" "compiling demo_grammar"
    "parse_ok demo_grammar blank (RuleRef r)" "skipper_ok demo_grammar blank"
  by (auto simp: wf_grammar_def wf_rule_def not_left_recursive_def compiling_def parse_ok_def peg_ok_def
      skipper_ok_def skip_rules_def ok_skip_rule_def demo_defs)

lemma tidy_ok: "peg_ok tidy_grammar blank (RuleRef 0)" "no_nullable_rule tidy_grammar"
  by (auto simp: wf_grammar_def wf_rule_def peg_ok_def no_nullable_rule_def
      skipper_ok_def skip_rules_def ok_skip_rule_def demo_defs)

text \<open>The node counts the instances reach, far below the capacity.\<close>

definition reached :: "(bool \<times> pctx) outcome \<Rightarrow> nat" where
  "reached r = (case r of Out_of_fuel \<Rightarrow> 0 | Done (m, c) \<Rightarrow> highWater c)"

lemma demo_reached:
  "reached (parse demo_grammar ''a ;'' 8 (RuleRef 0) (new_context demo_nodes blank)) \<le> kNoNode"
  "reached (attempt_parse_strict False (parse demo_grammar ''a b'' 8 (RuleRef 0)) (new_context demo_nodes blank)) \<le> kNoNode"
  "reached (probe demo_grammar ''a b'' 9 (RuleRef 0) (new_context demo_nodes blank)) \<le> kNoNode"
  by code_simp+

lemma demo_run_reached:
  "case run_strict_parse demo_grammar ''a ;'' 8 blank 0 demo_nodes of
     Out_of_fuel \<Rightarrow> False | Done (sm, c) \<Rightarrow> highWater c \<le> kNoNode"
  by code_simp

lemmas fresh_context = new_builder_ok represents_new new_context_def

subsection \<open>Refinement\<close>





text \<open>
  lookahead leaves no trace. Whatever their answer, \<open>probe\<close> and \<open>attempt_fast_probe\<close> give the
  context back with the cursors, the skipper and the represented tree it had, also when the probe
  had to parse.
\<close>

theorem lookahead_leaves_no_trace:
  assumes "probe g s n e c = Done (m, c') \<or> attempt_fast_probe g s n e c = Done (m, c')"
    and "builder_ok (cst c)" and "represents (cst c) (ts # us)" and "highWater c' \<le> kNoNode"
  shows "cursor c' = cursor c \<and> lastVisibleCursor c' = lastVisibleCursor c \<and>
    activeSkipper c' = activeSkipper c \<and> same_cst (cst c') (cst c)"
  using probe_agrees [of c g s n e] fast_probe_agrees [of c g s n e] assms
  by (auto simp: look_agrees_def failed_def undone_def split: outcome.splits)

theorem lookahead_leaves_no_trace_witness:
  "\<exists>c'. probe demo_grammar ''a b'' 9 (RuleRef 0) (new_context demo_nodes blank) = Done (False, c') \<and>
    cursor c' = 0 \<and> lastVisibleCursor c' = 0 \<and> activeSkipper c' = blank \<and> same_cst (cst c') (new_builder demo_nodes)"
proof -
  let ?c = "new_context demo_nodes blank"
  have "peg_probe demo_grammar ''a b'' 9 blank 0 0 (RuleRef 0) = Done False" by code_simp
  then obtain c' where c': "probe demo_grammar ''a b'' 9 (RuleRef 0) ?c = Done (False, c')"
    using probe_agrees [of ?c demo_grammar "''a b''" 9 "RuleRef 0"] by (auto simp: new_context_def)
  then have "highWater c' \<le> kNoNode" using demo_reached(3) by (simp add: reached_def)
  from lookahead_leaves_no_trace [OF disjI1 [OF c'] _ _ this, of "[]" "[]"] show ?thesis
    using c' by (auto simp: fresh_context)
qed

subsection \<open>Runs over a text\<close>

lemma skip_to_end:
  assumes "skipper_ok g sk" "peg_skip g s n sk i = Done (k, hs)" "i \<le> length s"
  shows "i \<le> k \<and> k \<le> length s"
  using peg_skip_forward [OF assms(1,3,2)] within_le by blast

lemma run_strict_parse_result:
  assumes "run_strict_parse g s n sk entry m = Done (sm, c)"
  shows "\<exists>p hs r. peg_skip g s n sk 0 = Done (p, hs) \<and> peg g s n sk (RuleRef entry) p 0 = Done r \<and>
    entryRuleMatched sm = (r \<noteq> None) \<and> inputSize sm = length s \<and>
    fullMatch sm = (r \<noteq> None \<and> parsedLength sm = length s) \<and>
    (case r of
       None \<Rightarrow> \<exists>k ks. peg_skip g s n sk p = Done (k, ks) \<and>
         (highWater c \<le> kNoNode \<longrightarrow> represents (cst c) [hs @ ks])
     | Some (j, w, fs) \<Rightarrow> \<exists>k ks. peg_skip g s n sk j = Done (k, ks) \<and> parsedLength sm = k \<and>
         summaryLastVisible sm = w \<and> (highWater c \<le> kNoNode \<longrightarrow> represents (cst c) [hs @ fs @ ks]))"
proof -
  let ?c = "new_context m sk"
  have start: "builder_ok (cst ?c)" "represents (cst ?c) [[]]" by (simp_all add: fresh_context)
  have built: "represents (cst d) [fs]" if "builds (cst ?c) fs (cst d)" for fs and d :: pctx
    using that [unfolded builds_def, rule_format, OF start] by simp
  from ctx_skip_agrees [of g s n ?c] show ?thesis
  proof (cases rule: skip_cases)
    case (Skip p hs c0)
    have c0: "cursor c0 = p" "lastVisibleCursor c0 = 0" "activeSkipper c0 = sk"
      using ran_position [OF Skip(3)] by (simp_all add: new_context_def)
    have skip0: "peg_skip g s n sk 0 = Done (p, hs)" using Skip(1) by (simp add: new_context_def)
    from parse_agrees [of g "RuleRef entry" c0 s n] show ?thesis
    proof (cases rule: agrees_cases)
      case Out
      then show ?thesis using assms Skip by (simp add: run_strict_parse_def)
    next
      case (Fail c1)
      let ?d = "ctx_rewind c1 (ctx_mark c0)"
      have restored: "failed True c0 ?d" by (rule failed_rewind [OF Fail(3)])
      have d: "cursor ?d = p" "activeSkipper ?d = sk" using failed_position [OF restored] c0 by simp_all
      from ctx_skip_agrees [of g s n ?d] show ?thesis
      proof (cases rule: skip_cases)
        case trail: (Skip k ks c3)
        have "ran ?c c3 k (lastVisibleCursor ?d) (hs @ ks)"
          by (rule ran_trans [OF Skip(3) failed_ran [OF restored trail(3)]])
        moreover have "sm = \<lparr>inputSize = length s, parsedLength = cursor c1, summaryLastVisible = lastVisibleCursor c3,
             entryRuleMatched = False, fullMatch = False\<rparr>" "c = c3"
          using assms(1) Skip Fail trail by (auto simp: run_strict_parse_def Let_def)
        ultimately show ?thesis using skip0 Fail(1) c0 trail(1) d built by (simp add: ran_def)
      qed (use assms Skip Fail in \<open>simp add: run_strict_parse_def Let_def\<close>)
    next
      case (Match j w fs c1)
      have c1: "cursor c1 = j" "activeSkipper c1 = sk" "lastVisibleCursor c1 = w"
        using ran_position [OF Match(3)] c0 by simp_all
      from ctx_skip_agrees [of g s n c1] show ?thesis
      proof (cases rule: skip_cases)
        case trail: (Skip k ks c3)
        have r: "ran ?c c3 k (lastVisibleCursor c1) (hs @ fs @ ks)"
          by (rule ran_trans [OF Skip(3) ran_trans [OF Match(3) trail(3)]])
        moreover have "sm = \<lparr>inputSize = length s, parsedLength = cursor c3, summaryLastVisible = lastVisibleCursor c3,
             entryRuleMatched = True, fullMatch = (cursor c3 = length s)\<rparr>" "c = c3"
          using assms(1) Skip Match trail by (auto simp: run_strict_parse_def Let_def)
        ultimately show ?thesis using skip0 Match(1) c0 c1 trail(1) built by (simp add: ran_def)
      qed (use assms Skip Match in \<open>simp add: run_strict_parse_def Let_def\<close>)
    qed
  qed (use assms in \<open>simp add: run_strict_parse_def\<close>)
qed

lemma run_summary_bounds:
  assumes "skipper_ok g sk" "peg_ok g sk (RuleRef entry)" "run_strict_parse g s n sk entry m = Done (sm, c)"
    "entryRuleMatched sm"
  shows "summaryLastVisible sm \<le> parsedLength sm \<and> parsedLength sm \<le> length s"
proof -
  from run_strict_parse_result [OF assms(3)] assms(4) obtain p hs r
    where q: "peg_skip g s n sk 0 = Done (p, hs)" "peg g s n sk (RuleRef entry) p 0 = Done (Some r)"
      "case r of (j, w, fs) \<Rightarrow> \<exists>k ks. peg_skip g s n sk j = Done (k, ks) \<and> parsedLength sm = k \<and>
         summaryLastVisible sm = w"
    by fastforce
  obtain j w fs where r: "r = (j, w, fs)" by (cases r)
  then obtain k ks where p: "peg_skip g s n sk 0 = Done (p, hs)" "peg g s n sk (RuleRef entry) p 0 = Done (Some (j, w, fs))"
      "peg_skip g s n sk j = Done (k, ks)" "parsedLength sm = k" "summaryLastVisible sm = w"
    using q by auto
  have "p \<le> length s" using skip_to_end [OF assms(1) p(1)] by simp
  then have "j \<le> length s" "w \<le> j" using peg_matches.elem [OF assms(2) _ _ p(2)] by (simp_all add: moved_def)
  then show ?thesis using skip_to_end [OF assms(1) p(3)] p(4,5) by simp
qed

lemma run_strict_parse_returns:
  assumes sk: "skipper_ok g sk" and skips: "\<forall>k \<le> length s. peg_skip g s n sk k \<noteq> Out_of_fuel"
    and ok: "peg_ok g sk (RuleRef entry)"
    and entry: "\<forall>k \<le> length s. peg g s n sk (RuleRef entry) k 0 \<noteq> Out_of_fuel"
  shows "\<exists>sm c. run_strict_parse g s n sk entry m = Done (sm, c)"
proof -
  let ?c = "new_context m sk"
  have out: "peg_skip g s n (activeSkipper d) (cursor d) \<noteq> Out_of_fuel"
    if "activeSkipper d = sk" "cursor d \<le> length s" for d :: pctx using skips that by simp
  from ctx_skip_agrees [of g s n ?c] show ?thesis
  proof (cases rule: skip_cases)
    case Out
    then show ?thesis using out [of ?c] by (simp add: new_context_def)
  next
    case (Skip p hs c0)
    have c0: "cursor c0 = p" "lastVisibleCursor c0 = 0" "activeSkipper c0 = sk"
      using ran_position [OF Skip(3)] by (simp_all add: new_context_def)
    have p: "p \<le> length s" using skip_to_end [OF sk, of s n 0 p hs] Skip(1) by (simp add: new_context_def)
    from parse_agrees [of g "RuleRef entry" c0 s n] show ?thesis
    proof (cases rule: agrees_cases)
      case Out
      then show ?thesis using entry p c0 by simp
    next
      case (Fail c1)
      let ?d = "ctx_rewind c1 (ctx_mark c0)"
      have d: "cursor ?d = p" "activeSkipper ?d = sk"
        using failed_position [OF failed_rewind [OF Fail(3)]] c0 by simp_all
      from ctx_skip_agrees [of g s n ?d] show ?thesis
        by (cases rule: skip_cases) (use out [of ?d] d p Skip Fail in \<open>auto simp: run_strict_parse_def Let_def\<close>)
    next
      case (Match j w fs c1)
      have c1: "cursor c1 = j" "activeSkipper c1 = sk" using ran_position [OF Match(3)] c0 by simp_all
      have "j \<le> length s"
        using peg_matches.elem [OF ok p, of 0 n j w fs] Match(1) c0 by (simp add: moved_def)
      from ctx_skip_agrees [of g s n c1] show ?thesis
        by (cases rule: skip_cases)
          (use out [of c1] c1 \<open>j \<le> length s\<close> Skip Match in \<open>simp_all add: run_strict_parse_def Let_def\<close>)
    qed
  qed
qed



text \<open>
  C12: a strict run returns. For a grammar that satisfies the static assertions, is not
  left-recursive and compiles, with a skipper of rules the code accepts, a strict run over any
  text ends, whatever memory it got; when the entry rule matched, the length reported is inside
  the text and not before the last visible token.
\<close>

theorem run_strict_parse_total:
  assumes "not_left_recursive g rk" and "compiling g" and "wf_grammar g" and "skipper_ok g sk"
  shows "\<exists>N. \<forall>n \<ge> N. \<exists>sm c. run_strict_parse g s n sk entry m = Done (sm, c) \<and>
    (entryRuleMatched sm \<longrightarrow> summaryLastVisible sm \<le> parsedLength sm \<and> parsedLength sm \<le> length s)"
proof -
  have ok: "parse_ok g sk (RuleRef entry)" using assms by (simp add: parse_ok_def peg_ok_def)
  obtain N1 where N1: "\<forall>n \<ge> N1. \<forall>k \<le> length s. peg_skip g s n sk k \<noteq> Out_of_fuel"
    using peg_skip_returns [OF assms(1,4)] by blast
  have "\<forall>x \<in> set [RuleRef entry]. \<forall>k \<in> {..length s}. peg_returns g s k x \<and> parse_ok g sk x"
    using peg_total [OF assms(1,2)] ok by simp
  from peg_returns_uniform [OF this] obtain N2
    where N2: "\<forall>n \<ge> N2. \<forall>k \<le> length s. peg g s n sk (RuleRef entry) k 0 \<noteq> Out_of_fuel" by auto
  have "\<exists>sm c. run_strict_parse g s n sk entry m = Done (sm, c)" if "max N1 N2 \<le> n" for n
    by (rule run_strict_parse_returns [OF assms(4)]) (use N1 N2 ok that in \<open>auto simp: parse_ok_def\<close>)
  then show ?thesis using run_summary_bounds [OF assms(4)] ok by (metis parse_ok_def)
qed

theorem run_strict_parse_total_witness:
  "\<exists>N. \<forall>n \<ge> N. \<exists>sm c. run_strict_parse demo_grammar ''a b'' n blank 1 demo_nodes = Done (sm, c) \<and>
    (entryRuleMatched sm \<longrightarrow> summaryLastVisible sm \<le> parsedLength sm \<and> parsedLength sm \<le> length ''a b'')"
  by (rule run_strict_parse_total [OF demo_ok(2,3,1,5)])

subsection \<open>Spans\<close>





subsection \<open>Lookahead\<close>

text \<open>
  What a lookahead at a group looks at. In a parser rule the positive lookahead of a group
  matches, and the negative one fails, as soon as the probe of the group's first element answers
  yes, whatever the elements behind it; in a terminal rule the same lookahead tests all of it.
\<close>

theorem group_lookahead_is_its_start:
  assumes "peg_fast g s n sk i v e = Done True"
  shows "peg g s (Suc (Suc n)) sk (AndPredicate (Group (e # es))) i v = Done (Some (i, v, [])) \<and>
    peg g s (Suc (Suc n)) sk (NotPredicate (Group (e # es))) i v = Done None \<and>
    (terminal g s m (Group (e # es)) i = Done None \<longrightarrow>
      terminal g s (Suc m) (AndPredicate (Group (e # es))) i = Done None)"
  using assms by (simp add: peg_step_def peg_probe_step_def)

theorem group_lookahead_is_its_start_witness:
  "peg demo_grammar ''+*'' (Suc (Suc 2)) blank (AndPredicate (Group [Literal ''+'' True, Literal ''-'' True])) 0 0 =
      Done (Some (0, 0, [])) \<and>
    terminal demo_grammar ''+*'' (Suc 3) (AndPredicate (Group [Literal ''+'' True, Literal ''-'' True])) 0 = Done None"
proof -
  have "peg_fast demo_grammar ''+*'' 2 blank 0 0 (Literal ''+'' True) = Done True"
    "terminal demo_grammar ''+*'' 3 (Group [Literal ''+'' True, Literal ''-'' True]) 0 = Done None"
    by code_simp+
  then show ?thesis
    using group_lookahead_is_its_start [of demo_grammar "''+*''" 2 blank 0 0 "Literal ''+'' True" "[Literal ''-'' True]" 3]
    by blast
qed

end
