(* ===== verification/InfixProps.thy ===== *)
theory InfixProps
  imports InfixSpec StrictProps
begin

text \<open>
  What infix rules promise: parsing one returns, it consumes what the flat loop over operators
  and operands consumes and builds over them the one tree that respects precedence and
  associativity, and among literal operators the longest one that stands there wins.
\<close>

subsection \<open>Parsing an infix rule returns\<close>

text \<open>The elements satisfy the concepts of the rule: no operator is nullable, all compile.\<close>

definition infix_compiles :: "grammar \<Rightarrow> skipper \<Rightarrow> infix_rule \<Rightarrow> bool" where
  "infix_compiles g sk R \<longleftrightarrow> parse_ok g sk (primary R) \<and>
     list_all (\<lambda>op. parse_ok g sk (opElement op) \<and> \<not> nullable g (opElement op) \<and> fast_ok g (opElement op)) (operators R)"

definition elements_return :: "grammar \<Rightarrow> string \<Rightarrow> nat \<Rightarrow> skipper \<Rightarrow> infix_rule \<Rightarrow> bool" where
  "elements_return g s n sk R \<longleftrightarrow> (\<forall>k \<le> length s. peg_skip g s n sk k \<noteq> Out_of_fuel \<and>
     (\<forall>v \<le> k. peg g s n sk (primary R) k v \<noteq> Out_of_fuel \<and>
       (\<forall>op \<in> set (operators R). peg g s n sk (opElement op) k v \<noteq> Out_of_fuel \<and>
          peg_fast g s n sk k v (opElement op) \<noteq> Out_of_fuel)))"

lemma elements_return_eventually:
  assumes g: "not_left_recursive g rk" "compiling g" and sk: "skipper_ok g sk" and R: "infix_compiles g sk R"
  shows "\<exists>N. \<forall>n \<ge> N. elements_return g s n sk R"
proof -
  let ?es = "map opElement (operators R)"
  have es: "\<forall>x \<in> set ?es. parse_ok g sk x \<and> fast_ok g x" and prim: "parse_ok g sk (primary R)"
    using R by (auto simp: infix_compiles_def list_all_iff)
  obtain A where A: "\<forall>n \<ge> A. \<forall>k \<le> length s. peg_skip g s n sk k \<noteq> Out_of_fuel"
    using peg_skip_returns [OF g(1) sk] by blast
  obtain B where B: "\<forall>n \<ge> B. \<forall>x \<in> set ?es. \<forall>k \<le> length s. \<forall>v \<le> k. peg_fast g s n sk k v x \<noteq> Out_of_fuel"
    using fast_uniform [OF g es] by blast
  have "\<forall>x \<in> set (primary R # ?es). \<forall>k \<in> {..length s}. peg_returns g s k x \<and> parse_ok g sk x"
    using peg_total [OF g] es prim by auto
  from peg_returns_uniform [OF this] obtain C where
    C: "\<forall>n \<ge> C. \<forall>x \<in> set (primary R # ?es). \<forall>k \<in> {..length s}. \<forall>v \<le> k. peg g s n sk x k v \<noteq> Out_of_fuel" by auto
  have "elements_return g s n sk R" if "max A (max B C) \<le> n" for n
    using A B C that unfolding elements_return_def by (auto simp: ball_Un)
  then show ?thesis by blast
qed

lemma operator_outcome:
  "peg_operator p op i v = Out_of_fuel \<longleftrightarrow> p (opElement op) i v = Out_of_fuel"
  by (cases "p (opElement op) i v") (auto simp: peg_operator_def node_def overriding_def)

lemma operator_position:
  "peg_operator p op i v = Done (Some (j, w, fs)) \<Longrightarrow> \<exists>gs. p (opElement op) i v = Done (Some (j, w, gs))"
  by (auto simp: peg_operator_def node_def overriding_def bind_out_Done_iff split: if_splits)

lemma has_operator_returns:
  "\<forall>op \<in> set ops. q i v (opElement op) \<noteq> Out_of_fuel \<Longrightarrow> peg_has_operator q mn ops i v \<noteq> Out_of_fuel"
  by (induction ops) (auto simp: bind_out_out_iff)

lemma match_operator_returns:
  "\<forall>op \<in> set ops. q i v (opElement op) \<noteq> Out_of_fuel \<and> p (opElement op) i v \<noteq> Out_of_fuel \<Longrightarrow>
    peg_match_operator s p q all mn ops i v \<noteq> Out_of_fuel"
proof (induction ops)
  case (Cons op ops)
  obtain m x where "q i v (opElement op) = Done m" "peg_operator p op i v = Done x"
    using Cons.prems operator_outcome [of p op i v]
    by (cases "q i v (opElement op)"; cases "peg_operator p op i v") auto
  then show ?case using Cons by (auto split: option.splits)
qed simp

lemma infix_item_returns:
  assumes R: "infix_compiles g sk R" and E: "elements_return g s n sk R" and i: "i \<le> length s" "v \<le> i"
  shows "\<exists>r. peg_item s (peg g s n sk) (peg_fast g s n sk) (peg_skip g s n sk) R 0 i v = Done r \<and>
    (\<forall>x. r = Some x \<longrightarrow> i < itemEnd x \<and> itemEnd x \<le> length s \<and> itemVisible x \<le> itemEnd x)"
proof -
  let ?p = "peg g s n sk" and ?q = "peg_fast g s n sk" and ?skp = "peg_skip g s n sk" and ?ops = "operators R"
  have sk: "skipper_ok g sk" and prim: "peg_ok g sk (primary R)"
    using R by (simp_all add: infix_compiles_def parse_ok_def peg_ok_def)
  note move = peg_matches.elem [of g sk _ _ s _ n] and ahead = peg_skip_forward [of g sk _ s n]
  obtain m where m: "peg_has_operator ?q 0 ?ops i v = Done m"
    using has_operator_returns [of ?ops ?q i v 0] E i
    by (cases "peg_has_operator ?q 0 ?ops i v") (auto simp: elements_return_def)
  obtain r where r: "peg_match_operator s ?p ?q ?ops 0 ?ops i v = Done r"
    using match_operator_returns [of ?ops ?q i v ?p s ?ops 0] E i
    by (cases "peg_match_operator s ?p ?q ?ops 0 ?ops i v") (auto simp: elements_return_def)
  show ?thesis
  proof (cases "m \<and> r \<noteq> None")
    case True
    then obtain op prec j w fs where o: "r = Some ((op, prec), j, w, fs)" by auto
    then obtain gs where op: "op \<in> set ?ops" "?p (opElement op) i v = Done (Some (j, w, gs))"
      using match_operator_found [OF r [unfolded o]] operator_position [of ?p op i v j w fs] by auto
    have "peg_ok g sk (opElement op) \<and> \<not> nullable g (opElement op)"
      using R op(1) by (auto simp: infix_compiles_def list_all_iff parse_ok_def)
    then have j: "i < j \<and> j \<le> length s \<and> w \<le> j" using move [OF _ i op(2)] by (simp add: moved_def)
    obtain k hs where k: "?skp j = Done (k, hs)" using E j by (cases "?skp j") (auto simp: elements_return_def)
    have k': "j \<le> k \<and> k \<le> length s" using ahead [OF sk _ k] j within_le by blast
    obtain r' where r': "?p (primary R) k w = Done r'"
      using E j k' by (cases "?p (primary R) k w") (auto simp: elements_return_def)
    show ?thesis
    proof (cases r')
      case None
      then show ?thesis using m r o True k r' by (simp add: peg_item_def)
    next
      case (Some y)
      obtain l x gs' where y: "y = (l, x, gs')" by (rule prod_cases3)
      have l: "k \<le> l \<and> l \<le> length s \<and> x \<le> l"
        using move [OF prim _ _ r' [unfolded Some y]] j k' by (simp add: moved_def)
      obtain l' hs' where l': "?skp l = Done (l', hs')" using E l by (cases "?skp l") (auto simp: elements_return_def)
      have "l \<le> l' \<and> l' \<le> length s" using ahead [OF sk _ l'] l within_le by blast
      then show ?thesis using m r o True k r' Some y l' j k' l by (simp add: peg_item_def)
    qed
  next
    case False
    then show ?thesis using m r by (cases m; cases r) (simp_all add: peg_item_def)
  qed
qed

lemma items_return:
  assumes R: "infix_compiles g sk R" and E: "elements_return g s n sk R"
  shows "i \<le> length s \<Longrightarrow> v \<le> i \<Longrightarrow> length s - i < m \<Longrightarrow>
    peg_items s (peg g s n sk) (peg_fast g s n sk) (peg_skip g s n sk) R m i v \<noteq> Out_of_fuel"
proof (induction m arbitrary: i v)
  case (Suc m)
  obtain r where r: "peg_item s (peg g s n sk) (peg_fast g s n sk) (peg_skip g s n sk) R 0 i v = Done r"
    "\<forall>x. r = Some x \<longrightarrow> i < itemEnd x \<and> itemEnd x \<le> length s \<and> itemVisible x \<le> itemEnd x"
    using infix_item_returns [OF R E Suc.prems(1,2)] by blast
  show ?case
  proof (cases r)
    case (Some x)
    then have "peg_items s (peg g s n sk) (peg_fast g s n sk) (peg_skip g s n sk) R m (itemEnd x) (itemVisible x) \<noteq> Out_of_fuel"
      using r(2) Suc.prems by (intro Suc.IH) auto
    then show ?thesis using r(1) Some by (auto simp: bind_out_out_iff)
  qed (use r(1) in simp)
qed simp

lemma flat_returns:
  assumes R: "infix_compiles g sk R" and E: "elements_return g s n sk R" and i: "i \<le> length s" "v \<le> i"
    and n: "length s < m"
  shows "peg_flat s (peg g s n sk) (peg_fast g s n sk) (peg_skip g s n sk) m R i v \<noteq> Out_of_fuel"
proof -
  have sk: "skipper_ok g sk" and prim: "peg_ok g sk (primary R)"
    using R by (simp_all add: infix_compiles_def parse_ok_def peg_ok_def)
  obtain r where r: "peg g s n sk (primary R) i v = Done r"
    using E i by (cases "peg g s n sk (primary R) i v") (auto simp: elements_return_def)
  show ?thesis
  proof (cases r)
    case (Some y)
    obtain l x fs where y: "y = (l, x, fs)" by (rule prod_cases3)
    have l: "i \<le> l \<and> l \<le> length s \<and> x \<le> l"
      using peg_matches.elem [OF prim i r [unfolded Some y]] by (simp add: moved_def)
    obtain k hs where k: "peg_skip g s n sk l = Done (k, hs)"
      using E l by (cases "peg_skip g s n sk l") (auto simp: elements_return_def)
    have "l \<le> k \<and> k \<le> length s" using peg_skip_forward [OF sk _ k] l within_le by blast
    then have "peg_items s (peg g s n sk) (peg_fast g s n sk) (peg_skip g s n sk) R m k x \<noteq> Out_of_fuel"
      using l n by (intro items_return [OF R E]) auto
    then show ?thesis using r Some y k by (auto simp: peg_flat_def bind_out_out_iff)
  qed (use r in \<open>simp add: peg_flat_def\<close>)
qed

subsection \<open>A rule to instantiate\<close>

text \<open>Sums, products and powers of \<open>1\<close>, with blanks between.\<close>

definition calc_grammar :: grammar where
  "calc_grammar r =
     (if r = 0 then \<lparr>rkind = ParserKind, rbody = Assignment 0 (Literal ''1'' True), rnullable = False, rskipper = None\<rparr>
      else \<lparr>rkind = TerminalKind, rbody = Literal '' '' True, rnullable = False, rskipper = None\<rparr>)"

definition calc_operator :: "nat \<Rightarrow> string \<Rightarrow> associativity \<Rightarrow> infix_operator" where
  "calc_operator k l a = \<lparr>opNode = Create k, opElement = Literal l True, opAssoc = a\<rparr>"

definition calc_rule :: infix_rule where
  "calc_rule = \<lparr>owner = RuleRef 1, primary = RuleRef 0,
     operators = [calc_operator 0 ''^'' RightAssoc, calc_operator 1 ''*'' LeftAssoc, calc_operator 2 ''-'' LeftAssoc]\<rparr>"

lemmas calc_defs = calc_grammar_def calc_rule_def calc_operator_def

lemma calc_ok: "infix_rule_ok calc_grammar calc_rule" "wf_grammar calc_grammar"
    "not_left_recursive calc_grammar (\<lambda>_. 0)" "compiling calc_grammar" "skipper_ok calc_grammar blank"
    "infix_compiles calc_grammar blank calc_rule"
  by (auto simp: infix_rule_ok_def infix_compiles_def wf_grammar_def wf_rule_def not_left_recursive_def
      compiling_def parse_ok_def peg_ok_def skipper_ok_def skip_rules_def ok_skip_rule_def calc_defs blank_def)

subsection \<open>Properties\<close>



text \<open>
  C32: infix rules build the precedence tree. Let the flat loop read operands and operators from a
  position, whatever their precedence. Then the rule matches and ends where the loop ends, the
  builder holds its nodes, no assertion of the value builder fires, and the value is a tree whose
  operands and operators are, in order, those of the loop, that respects the declared
  precedence and associativity everywhere, whose nodes span from their left operand to
  their right one, and that is the only such tree.
\<close>

theorem infix_rule_precedence:
  assumes ok: "infix_rule_ok g R" and sk: "activeSkipper c = sk"
    and b: "builder_ok (cst c)" "represents (cst c) (us # vs)"
    and flat: "peg_flat s (peg g s n sk) (peg_fast g s n sk) (peg_skip g s m sk) k R (cursor c) (lastVisibleCursor c) =
      Done (Some (fs, xs, j, w))"
  shows "\<exists>c' u ts t. fs = [u] \<and>
    infix_rule_parse g s (parse g s n) (attempt_fast_probe g s n) (ctx_skip g s m) k R c = Done (True, c') \<and>
    cursor c' = j \<and> lastVisibleCursor c' = w \<and>
    (highWater c' \<le> kNoNode \<longrightarrow> builder_ok (cst c') \<and> represents (cst c') ((us @ ts) # vs)) \<and>
    get_raw_value R ts None = Some t \<and> reading t = (u, map item_reading xs) \<and>
    respects_precedence (operators R) t \<and> ast_begin t = cursor c \<and> ast_end t = w \<and>
    (\<forall>t'. respects_precedence (operators R) t' \<and> reading t' = reading t \<longrightarrow> t' = t)"
proof -
  obtain u ts t where v: "fs = [u]" "get_raw_value R ts None = Some t" "respects_precedence (operators R) t"
      "reading t = (u, map item_reading xs)" "ast_begin t = cursor c" "ast_end t = w"
    and p: "peg_infix s (peg g s n sk) (peg_fast g s n sk) (peg_skip g s m sk) k R (cursor c) (lastVisibleCursor c) =
      Done (Some (j, w, ts))"
    using infix_values.infix_climbs [OF ok flat] by blast
  obtain c' where "infix_rule_parse g s (parse g s n) (attempt_fast_probe g s n) (ctx_skip g s m) k R c = Done (True, c')"
      and r: "ran c c' j w ts"
    using strict_infix.infix_rule_agrees [OF sk, of s g n m k R] p by auto
  moreover have "\<forall>t'. respects_precedence (operators R) t' \<and> reading t' = reading t \<longrightarrow> t' = t"
    using precedence_tree_unique [OF _ v(3)] by blast
  moreover have "cursor c' = j" "lastVisibleCursor c' = w" using r by (simp_all add: ran_def)
  moreover have "highWater c' \<le> kNoNode \<longrightarrow> builder_ok (cst c') \<and> represents (cst c') ((us @ ts) # vs)"
    using r b unfolding ran_def builds_def grown_def by blast
  ultimately show ?thesis using v by blast
qed

definition calc_operand :: "nat \<Rightarrow> expr tree" where
  "calc_operand i = Tree i (i + 1) (RuleRef 0) False False [Tree i (i + 1) (Assignment 0 (Literal ''1'' True)) False False []]"

definition calc_item :: "nat \<Rightarrow> string \<Rightarrow> associativity \<Rightarrow> nat \<Rightarrow> infix_item" where
  "calc_item k l a i = InfixItem (calc_operator k l a) (3 - k) [Tree i (i + 1) (Create k) False False []] []
     [calc_operand (i + 1)] [] (i + 1) (i + 2) (i + 2)"

lemma calc_flat:
  "peg_flat ''1-1*1-1'' (peg calc_grammar ''1-1*1-1'' 5 blank) (peg_fast calc_grammar ''1-1*1-1'' 5 blank)
     (peg_skip calc_grammar ''1-1*1-1'' 5 blank) 5 calc_rule 0 0 =
   Done (Some ([calc_operand 0],
     [calc_item 2 ''-'' LeftAssoc 1, calc_item 1 ''*'' LeftAssoc 3, calc_item 2 ''-'' LeftAssoc 5], 7, 7))"
  unfolding calc_operand_def calc_item_def calc_operator_def by code_simp

text \<open>The value of \<open>1-1*1-1\<close>: \<open>(1-(1*1))-1\<close>.\<close>

definition calc_node :: "nat \<Rightarrow> string \<Rightarrow> nat \<Rightarrow> expr tree" where
  "calc_node k l i = Tree i (i + 1) (Create k) False False []"

definition calc_value :: ast where
  "calc_value = Binary 0 7
     (Binary 0 5 (Operand (calc_operand 0)) (calc_operator 2 ''-'' LeftAssoc) (calc_node 2 ''-'' 1)
       (Binary 2 5 (Operand (calc_operand 2)) (calc_operator 1 ''*'' LeftAssoc) (calc_node 1 ''*'' 3) (Operand (calc_operand 4))))
     (calc_operator 2 ''-'' LeftAssoc) (calc_node 2 ''-'' 5) (Operand (calc_operand 6))"

lemma calc_value_ok: "respects_precedence (operators calc_rule) calc_value" "reading calc_value = (calc_operand 0,
    map item_reading [calc_item 2 ''-'' LeftAssoc 1, calc_item 1 ''*'' LeftAssoc 3, calc_item 2 ''-'' LeftAssoc 5])"
  by code_simp+

theorem infix_rule_precedence_witness:
  "\<exists>c' ts. infix_rule_parse calc_grammar ''1-1*1-1'' (parse calc_grammar ''1-1*1-1'' 5)
      (attempt_fast_probe calc_grammar ''1-1*1-1'' 5) (ctx_skip calc_grammar ''1-1*1-1'' 5) 5 calc_rule
      (new_context demo_nodes blank) = Done (True, c') \<and> cursor c' = 7 \<and>
    get_raw_value calc_rule ts None = Some calc_value"
proof -
  have "activeSkipper (new_context demo_nodes blank) = blank"
    "builder_ok (cst (new_context demo_nodes blank))" "represents (cst (new_context demo_nodes blank)) ([] # [])"
    by (simp_all add: fresh_context)
  moreover have "peg_flat ''1-1*1-1'' (peg calc_grammar ''1-1*1-1'' 5 blank) (peg_fast calc_grammar ''1-1*1-1'' 5 blank)
     (peg_skip calc_grammar ''1-1*1-1'' 5 blank) 5 calc_rule (cursor (new_context demo_nodes blank))
     (lastVisibleCursor (new_context demo_nodes blank)) =
   Done (Some ([calc_operand 0],
     [calc_item 2 ''-'' LeftAssoc 1, calc_item 1 ''*'' LeftAssoc 3, calc_item 2 ''-'' LeftAssoc 5], 7, 7))"
    using calc_flat by (simp add: fresh_context)
  ultimately show ?thesis
    using infix_rule_precedence [OF calc_ok(1)] calc_value_ok by (metis list.inject)
qed

subsection \<open>Operators that are prefixes of others\<close>

definition literal_operators :: "infix_operator list \<Rightarrow> bool" where
  "literal_operators ops \<longleftrightarrow> distinct (map opElement ops) \<and>
     list_all (\<lambda>op. case opElement op of Literal l cs \<Rightarrow> cs \<and> list_all (\<lambda>ch. ch \<noteq> CHR 0x00) l | _ \<Rightarrow> False) ops"

definition stands_at :: "string \<Rightarrow> string \<Rightarrow> nat \<Rightarrow> bool" where
  "stands_at l s i \<longleftrightarrow> i + length l \<le> length s \<and> take (length l) (drop i s) = l"

lemma literal_operatorD:
  assumes "literal_operators ops" and "op \<in> set ops"
  obtains l where "opElement op = Literal l True" "list_all (\<lambda>ch. ch \<noteq> CHR 0x00) l"
proof -
  have "case opElement op of Literal l cs \<Rightarrow> cs \<and> list_all (\<lambda>ch. ch \<noteq> CHR 0x00) l | _ \<Rightarrow> False"
    using assms unfolding literal_operators_def list_all_iff by blast
  then show thesis using that by (cases "opElement op") simp_all
qed

lemma literal_token_stands:
  assumes "list_all (\<lambda>ch. ch \<noteq> CHR 0x00) l" and "i \<le> length s" and "literal_token True l s i = Some j"
  shows "stands_at l s i \<and> j = i + length l"
  using assms literal_terminal_iff [OF assms(1,2), of True]
  by (auto simp: literal_token_def fold_case_def stands_at_def split: option.splits if_splits)

lemma shadowed_iff:
  assumes "literal_operators all" and "opElement op = Literal l True"
  shows "infix_operator_shadowed all s op (i + length l) \<longleftrightarrow>
    (\<exists>op' \<in> set all. \<exists>l'. opElement op' = Literal l' True \<and> length l < length l' \<and>
      length l' \<le> length s - i \<and> take (length l') (drop i s) = l')"
proof -
  have "l' \<in> set (infix_single_literal_operator_texts all) \<longleftrightarrow> (\<exists>op' \<in> set all. opElement op' = Literal l' True)" for l'
  proof -
    have "literal_text (opElement op') = Some l' \<longleftrightarrow> opElement op' = Literal l' True" if "op' \<in> set all" for op'
      by (rule literal_operatorD [OF assms(1) that]) auto
    then show ?thesis unfolding infix_single_literal_operator_texts_def
      by (force simp: List.map_filter_def image_iff)
  qed
  then show ?thesis using assms(2)
    by (simp add: infix_operator_shadowed_def Let_def list_ex_iff Bex_def) blast
qed

lemma longest_operator_matches:
  assumes lits: "literal_operators all" and op: "opElement op = Literal l True"
    and i: "i \<le> length s" and tok: "literal_token True l s i = Some j"
    and longest: "\<forall>op' \<in> set all. \<forall>l'. opElement op' = Literal l' True \<and> stands_at l' s i \<longrightarrow> length l' \<le> length l"
    and p: "\<And>l'. p (Literal l' True) i v = Done (token (Literal l' True) i (literal_token True l' s i))"
    and q: "\<And>l'. q i v (Literal l' True) = Done (literal_token True l' s i \<noteq> None)"
  shows "distinct (map opElement (pre @ op # suf)) \<Longrightarrow> set (pre @ op # suf) \<subseteq> set all \<Longrightarrow>
    \<exists>fs. peg_match_operator s p q all 0 (pre @ op # suf) i v = Done (Some ((op, length (op # suf)), j, j, fs))"
proof (induction pre)
  case Nil
  have l: "op \<in> set all" "stands_at l s i" "j = i + length l"
    using Nil.prems literal_operatorD [OF lits, of op] literal_token_stands [OF _ i tok] op by auto
  have "\<not> infix_operator_shadowed all s op j"
    using longest l(3) i by (fastforce simp: shadowed_iff [OF lits op] stands_at_def)
  then show ?case using p [of l] q [of l] op tok
    by (simp add: peg_operator_def overriding_def token_def)
next
  case (Cons op' pre)
  obtain l' where l': "opElement op' = Literal l' True" "list_all (\<lambda>ch. ch \<noteq> CHR 0x00) l'"
    using Cons.prems(2) literal_operatorD [OF lits, of op'] by auto
  have l: "op \<in> set all" "stands_at l s i"
    using Cons.prems literal_operatorD [OF lits, of op] literal_token_stands [OF _ i tok] op by auto
  obtain fs where rest: "peg_match_operator s p q all 0 (pre @ op # suf) i v = Done (Some ((op, length (op # suf)), j, j, fs))"
    using Cons by auto
  show ?case
  proof (cases "literal_token True l' s i")
    case None
    then show ?thesis using rest q [of l'] l'(1) by simp
  next
    case (Some k)
    have s': "stands_at l' s i" "k = i + length l'" using literal_token_stands [OF l'(2) i Some] by auto
    have le: "length l' \<le> length l" using longest s'(1) l'(1) Cons.prems(2) by auto
    have "l' \<noteq> l" using l'(1) op Cons.prems(1) by auto
    then have "length l' < length l" using le l(2) s'(1) by (auto simp: stands_at_def le_less)
    then have "infix_operator_shadowed all s op' k"
      using l op s'(2) by (auto simp: shadowed_iff [OF lits l'(1)] stands_at_def intro!: bexI [of _ op])
    then show ?thesis using rest p [of l'] q [of l'] l'(1) Some
      by (simp add: peg_operator_def overriding_def token_def)
  qed
qed

text \<open>
  The longest operator wins. When the operators are literals and several of their texts stand at
  the cursor, the operator of the longest one is taken, wherever it is declared: an operator whose
  text is a prefix of it does not shadow it, although it may bind tighter and be tried first.
\<close>

theorem longest_operator_wins:
  assumes "literal_operators ops" and "op \<in> set ops" and "opElement op = Literal l True"
    and "cursor c \<le> length s" and "literal_token True l s (cursor c) = Some j"
    and "\<And>op' l'. op' \<in> set ops \<Longrightarrow> opElement op' = Literal l' True \<Longrightarrow> stands_at l' s (cursor c) \<Longrightarrow>
      length l' \<le> length l"
  shows "\<exists>c'. try_match_operator_strict g s (parse g s (n + 2)) (attempt_fast_probe g s (n + 2)) ops 0 ops c =
      Done (Some (infix_next_min_precedence op (getPrecedence ops op)), c') \<and> cursor c' = cursor c + length l"
proof -
  obtain pre suf where ops: "ops = pre @ op # suf" using assms(2) split_list by metis
  have d: "distinct (map opElement ops)" using assms(1) by (simp add: literal_operators_def)
  then have prec: "getPrecedence ops op = length (op # suf)"
    using ops precedence_of_suffix [of pre op suf] by (metis distinct_map)
  let ?sk = "activeSkipper c"
  have p: "peg g s (n + 2) ?sk (Literal l' True) (cursor c) (lastVisibleCursor c) =
      Done (token (Literal l' True) (cursor c) (literal_token True l' s (cursor c)))"
    and q: "peg_fast g s (n + 2) ?sk (cursor c) (lastVisibleCursor c) (Literal l' True) =
      Done (literal_token True l' s (cursor c) \<noteq> None)" for l'
    by (simp_all add: peg_step_def peg_fast_step_def peg_probe_step_def numeral_2_eq_2)
  have "distinct (map opElement (pre @ op # suf))" "set (pre @ op # suf) \<subseteq> set ops" using d ops by auto
  from longest_operator_matches [where p = "peg g s (n + 2) ?sk" and v = "lastVisibleCursor c" and
      q = "peg_fast g s (n + 2) ?sk" and pre = pre and suf = suf, OF assms(1,3,4,5) _ p q this] assms(6)
  obtain fs where fs: "peg_match_operator s (peg g s (n + 2) ?sk) (peg_fast g s (n + 2) ?sk) ops 0 ops
      (cursor c) (lastVisibleCursor c) = Done (Some ((op, length (op # suf)), j, j, fs))"
    using ops by blast
  have "j = cursor c + length l"
    using literal_token_stands [OF _ assms(4,5)] literal_operatorD [OF assms(1,2)] assms(3) by auto
  then show ?thesis
    using strict_infix.match_operator_agrees [OF refl, of c s g "n + 2" ops 0 ops] fs prec
    by (auto simp: strict_infix.operator_result_def ran_def)
qed

definition bars :: "infix_operator list" where
  "bars = [calc_operator 0 ''|'' LeftAssoc, calc_operator 1 ''||'' LeftAssoc]"

theorem longest_operator_wins_witness:
  "\<exists>c'. try_match_operator_strict calc_grammar ''||1'' (parse calc_grammar ''||1'' (0 + 2))
      (attempt_fast_probe calc_grammar ''||1'' (0 + 2)) bars 0 bars (new_context demo_nodes blank) =
      Done (Some (infix_next_min_precedence (calc_operator 1 ''||'' LeftAssoc)
        (getPrecedence bars (calc_operator 1 ''||'' LeftAssoc))), c') \<and>
    cursor c' = cursor (new_context demo_nodes blank) + length ''||''"
proof (rule longest_operator_wins)
  show "literal_token True ''||'' ''||1'' (cursor (new_context demo_nodes blank)) = Some 2" by code_simp
qed (auto simp: literal_operators_def bars_def calc_operator_def fresh_context)

end
