(* ===== verification/WsLock.thy ===== *)
theory WsLock
  imports Prelude
begin

text \<open>
  The workspace lock (\<open>core/workspace/DefaultWorkspaceLock.cpp\<close>): writes run one after the other
  on a worker thread, exclusively until they downgrade; reads run in their callers. Every critical
  section of the code is one atomic operation here, and a step relation interleaves the threads:
  the worker, one entry of \<open>calls\<close> per call of \<open>read\<close>, the writers and the destructor. The counter
  decrements wrap around as on \<open>std::size_t\<close>; that they never do is part of the invariant.
  \<open>submitted\<close>, \<open>started\<close>, \<open>completed\<close> and \<open>refused\<close> are ghosts: the last write entry made, the
  entries whose action was called, those whose promise was fulfilled, in order, and among these
  the ones that came while stopping.
\<close>

datatype worker_pc =
  Idle                    \<comment> \<open>waiting for the queue\<close>
| Popped nat              \<comment> \<open>an entry taken from the queue\<close>
| Checked nat bool        \<comment> \<open>waiting at the gate; shutting down?\<close>
| Exclusive nat bool      \<comment> \<open>exclusivity held; the action runs unless shutting down\<close>
| Shared nat              \<comment> \<open>downgraded to a reader\<close>
| Releasing               \<comment> \<open>promise fulfilled, still a reader\<close>
| Exited

datatype read_pc = Waiting | Reading | Returned

datatype destroy_pc = Alive | Stopping | Draining | Joining

record ws_lock =
  writeQueue :: "nat list"
  cancelled :: "nat set"
  previousCancel :: nat
  stopping :: bool
  stopRequested :: bool
  writeHeld :: bool
  readers :: nat
  writePending :: nat
  activeReads :: nat
  worker :: worker_pc
  calls :: "read_pc list"
  destroyer :: destroy_pc
  submitted :: nat
  started :: "nat list"
  completed :: "nat list"
  refused :: "nat list"

definition new_lock :: ws_lock where
  "new_lock = \<lparr>writeQueue = [], cancelled = {}, previousCancel = 0, stopping = False, stopRequested = False,
     writeHeld = False, readers = 0, writePending = 0, activeReads = 0, worker = Idle, calls = [],
     destroyer = Alive, submitted = 0, started = [], completed = [], refused = []\<rparr>"

definition dec_size :: "nat \<Rightarrow> nat" where
  "dec_size n = (if n = 0 then 2 ^ 64 - 1 else n - 1)"

subsection \<open>The critical sections\<close>

text \<open>\<open>write\<close>: refused when stopping; otherwise the entry supersedes the previous one.\<close>

definition lock_write :: "ws_lock \<Rightarrow> ws_lock" where
  "lock_write s = (let w = Suc (submitted s) in
     if stopping s then s\<lparr>submitted := w, completed := completed s @ [w], refused := refused s @ [w]\<rparr>
     else s\<lparr>submitted := w, cancelled := insert (previousCancel s) (cancelled s), previousCancel := w,
       writePending := writePending s + 1, writeQueue := writeQueue s @ [w]\<rparr>)"

definition read_enter :: "ws_lock \<Rightarrow> ws_lock" where
  "read_enter s = s\<lparr>activeReads := activeReads s + 1, calls := calls s @ [Waiting]\<rparr>"

definition read_gate_open :: "ws_lock \<Rightarrow> bool" where
  "read_gate_open s = (\<not> writeHeld s \<and> writePending s = 0)"

definition read_start :: "nat \<Rightarrow> ws_lock \<Rightarrow> ws_lock" where
  "read_start i s = s\<lparr>readers := readers s + 1, calls := (calls s)[i := Reading]\<rparr>"

definition read_refuse :: "nat \<Rightarrow> ws_lock \<Rightarrow> ws_lock" where
  "read_refuse i s = s\<lparr>activeReads := dec_size (activeReads s), calls := (calls s)[i := Returned]\<rparr>"

definition read_finish :: "nat \<Rightarrow> ws_lock \<Rightarrow> ws_lock" where
  "read_finish i s = s\<lparr>readers := dec_size (readers s), activeReads := dec_size (activeReads s),
     calls := (calls s)[i := Returned]\<rparr>"

definition cancel_write :: "ws_lock \<Rightarrow> ws_lock" where
  "cancel_write s = s\<lparr>cancelled := insert (previousCancel s) (cancelled s)\<rparr>"

definition worker_pop :: "ws_lock \<Rightarrow> ws_lock" where
  "worker_pop s = s\<lparr>worker := Popped (hd (writeQueue s)), writeQueue := tl (writeQueue s)\<rparr>"

definition worker_check :: "nat \<Rightarrow> ws_lock \<Rightarrow> ws_lock" where
  "worker_check w s = (let shuttingDown = (stopping s \<or> stopRequested s) in
     s\<lparr>worker := Checked w shuttingDown,
       cancelled := (if shuttingDown then insert w (cancelled s) else cancelled s)\<rparr>)"

definition write_gate_open :: "ws_lock \<Rightarrow> bool" where
  "write_gate_open s = (stopping s \<or> \<not> writeHeld s \<and> readers s = 0)"

text \<open>The action is called as soon as the gate is passed, unless the check saw the shutdown.\<close>

definition worker_acquire :: "nat \<Rightarrow> bool \<Rightarrow> ws_lock \<Rightarrow> ws_lock" where
  "worker_acquire w sd s = s\<lparr>writeHeld := True, worker := Exclusive w sd,
     started := (if sd then started s else started s @ [w])\<rparr>"

text \<open>\<open>downgrade\<close>, called by the action or behind it, once.\<close>

definition downgrade :: "nat \<Rightarrow> ws_lock \<Rightarrow> ws_lock" where
  "downgrade w s = s\<lparr>writeHeld := False, readers := readers s + 1,
     writePending := dec_size (writePending s), worker := Shared w\<rparr>"

definition worker_complete :: "nat \<Rightarrow> ws_lock \<Rightarrow> ws_lock" where
  "worker_complete w s = s\<lparr>worker := Releasing, completed := completed s @ [w]\<rparr>"

definition worker_release :: "ws_lock \<Rightarrow> ws_lock" where
  "worker_release s = s\<lparr>worker := Idle, readers := dec_size (readers s)\<rparr>"

definition worker_exit :: "ws_lock \<Rightarrow> ws_lock" where
  "worker_exit s = s\<lparr>worker := Exited\<rparr>"

text \<open>The destructor: stop and cancel what is queued, cancel the latest, wait for the reads, join.\<close>

definition destroy_stop :: "ws_lock \<Rightarrow> ws_lock" where
  "destroy_stop s = s\<lparr>stopping := True, cancelled := cancelled s \<union> set (writeQueue s), destroyer := Stopping\<rparr>"

definition destroy_cancel :: "ws_lock \<Rightarrow> ws_lock" where
  "destroy_cancel s = (cancel_write s)\<lparr>destroyer := Draining\<rparr>"

definition destroy_drained :: "ws_lock \<Rightarrow> ws_lock" where
  "destroy_drained s = s\<lparr>stopRequested := True, destroyer := Joining\<rparr>"

subsection \<open>Interleaving\<close>

text \<open>Steps of the threads inside the lock: the worker, the reads that entered, the destructor.\<close>

inductive internal :: "ws_lock \<Rightarrow> ws_lock \<Rightarrow> bool" where
  Start: "i < length (calls s) \<Longrightarrow> calls s ! i = Waiting \<Longrightarrow> \<not> stopping s \<Longrightarrow> read_gate_open s \<Longrightarrow>
    internal s (read_start i s)"
| Refuse: "i < length (calls s) \<Longrightarrow> calls s ! i = Waiting \<Longrightarrow> stopping s \<Longrightarrow> internal s (read_refuse i s)"
| Finish: "i < length (calls s) \<Longrightarrow> calls s ! i = Reading \<Longrightarrow> internal s (read_finish i s)"
| Pop: "worker s = Idle \<Longrightarrow> writeQueue s \<noteq> [] \<Longrightarrow> internal s (worker_pop s)"
| Exit: "worker s = Idle \<Longrightarrow> stopping s \<or> stopRequested s \<Longrightarrow> writeQueue s = [] \<Longrightarrow> internal s (worker_exit s)"
| Check: "worker s = Popped w \<Longrightarrow> internal s (worker_check w s)"
| Acquire: "worker s = Checked w sd \<Longrightarrow> write_gate_open s \<Longrightarrow> internal s (worker_acquire w sd s)"
| Downgrade: "worker s = Exclusive w sd \<Longrightarrow> internal s (downgrade w s)"
| Complete: "worker s = Shared w \<Longrightarrow> internal s (worker_complete w s)"
| Release: "worker s = Releasing \<Longrightarrow> internal s (worker_release s)"
| Cancel: "destroyer s = Stopping \<Longrightarrow> internal s (destroy_cancel s)"
| Drained: "destroyer s = Draining \<Longrightarrow> activeReads s = 0 \<Longrightarrow> internal s (destroy_drained s)"

text \<open>Calls from outside.\<close>

inductive request :: "ws_lock \<Rightarrow> ws_lock \<Rightarrow> bool" where
  Write: "request s (lock_write s)"
| Read: "request s (read_enter s)"
| CancelWrite: "request s (cancel_write s)"
| Destroy: "destroyer s = Alive \<Longrightarrow> request s (destroy_stop s)"

inductive reachable :: "ws_lock \<Rightarrow> bool" where
  New: "reachable new_lock"
| Internal: "reachable s \<Longrightarrow> internal s t \<Longrightarrow> reachable t"
| Request: "reachable s \<Longrightarrow> request s t \<Longrightarrow> reachable t"

inductive_cases internalE: "internal s t"
inductive_cases requestE: "request s t"

lemmas lock_ops = lock_write_def read_enter_def read_start_def read_refuse_def read_finish_def cancel_write_def
  worker_pop_def worker_check_def worker_acquire_def downgrade_def worker_complete_def worker_release_def
  worker_exit_def destroy_stop_def destroy_cancel_def destroy_drained_def

subsection \<open>Counting\<close>

definition number :: "'a \<Rightarrow> 'a list \<Rightarrow> nat" where
  "number x xs = length (filter (\<lambda>y. y = x) xs)"

lemma number_simps [simp]:
  "number x [] = 0" "number x (y # ys) = (if y = x then Suc (number x ys) else number x ys)"
  "number x (ys @ zs) = number x ys + number x zs"
  by (simp_all add: number_def)

lemma number_zero_iff: "number x xs = 0 \<longleftrightarrow> x \<notin> set xs"
  by (induction xs) auto

lemma number_update:
  "i < length xs \<Longrightarrow> number x (xs[i := y]) + (if xs ! i = x then 1 else 0) = number x xs + (if y = x then 1 else 0)"
proof (induction xs arbitrary: i)
  case (Cons z zs)
  show ?case
  proof (cases i)
    case (Suc k)
    then show ?thesis using Cons.IH [of k] Cons.prems
      by (cases "zs ! k = x"; cases "y = x"; cases "z = x") simp_all
  qed simp
qed simp

lemma number_pos: "i < length xs \<Longrightarrow> 0 < number (xs ! i) xs"
  by (induction xs arbitrary: i) (auto simp: nth_Cons split: nat.splits)

lemma number_pos_ex: "0 < number x xs \<Longrightarrow> \<exists>i < length xs. xs ! i = x"
  by (induction xs) (auto split: if_splits simp: less_Suc_eq_0_disj)

lemma dec_size_pos [simp]: "0 < n \<Longrightarrow> dec_size n = n - 1"
  by (simp add: dec_size_def)

subsection \<open>The invariant\<close>

fun holds_write :: "worker_pc \<Rightarrow> bool" where
  "holds_write (Exclusive w sd) = True"
| "holds_write _ = False"

fun is_reader :: "worker_pc \<Rightarrow> bool" where
  "is_reader (Shared w) = True"
| "is_reader Releasing = True"
| "is_reader _ = False"

text \<open>The entries the worker has taken and not completed.\<close>

fun in_hand :: "worker_pc \<Rightarrow> nat list" where
  "in_hand (Popped w) = [w]"
| "in_hand (Checked w sd) = [w]"
| "in_hand (Exclusive w sd) = [w]"
| "in_hand (Shared w) = [w]"
| "in_hand _ = []"

fun pending_in_hand :: "worker_pc \<Rightarrow> nat" where
  "pending_in_hand (Popped w) = 1"
| "pending_in_hand (Checked w sd) = 1"
| "pending_in_hand (Exclusive w sd) = 1"
| "pending_in_hand _ = 0"

definition counters_ok :: "ws_lock \<Rightarrow> bool" where
  "counters_ok s \<longleftrightarrow>
     writeHeld s = holds_write (worker s) \<and>
     readers s = number Reading (calls s) + (if is_reader (worker s) then 1 else 0) \<and>
     activeReads s = number Waiting (calls s) + number Reading (calls s) \<and>
     writePending s = length (writeQueue s) + pending_in_hand (worker s)"

lemma counters_internal:
  assumes "counters_ok s" and "internal s t"
  shows "counters_ok t"
  using assms(2)
proof (cases rule: internal.cases)
  case (Start i)
  then show ?thesis using assms(1) number_update [of i "calls s" Waiting Reading] number_update [of i "calls s" Reading Reading]
    by (auto simp: counters_ok_def lock_ops)
next
  case (Refuse i)
  then show ?thesis using assms(1) number_update [of i "calls s" Waiting Returned] number_update [of i "calls s" Reading Returned]
      number_pos [of i "calls s"]
    by (auto simp: counters_ok_def lock_ops)
next
  case (Finish i)
  then show ?thesis using assms(1) number_update [of i "calls s" Waiting Returned] number_update [of i "calls s" Reading Returned]
      number_pos [of i "calls s"]
    by (auto simp: counters_ok_def lock_ops)
qed (use assms(1) in \<open>auto simp: counters_ok_def lock_ops Let_def neq_Nil_conv\<close>)

lemma counters_request: "counters_ok s \<Longrightarrow> request s t \<Longrightarrow> counters_ok t"
  by (erule requestE) (auto simp: counters_ok_def lock_ops Let_def)

lemma reachable_counters: "reachable s \<Longrightarrow> counters_ok s"
proof (induction rule: reachable.induct)
  case New
  show ?case by (simp add: counters_ok_def new_lock_def)
qed (auto intro: counters_internal counters_request)

end
