(* ===== verification/WsLockProps.thy ===== *)
theory WsLockProps
  imports WsLock "HOL-Library.Multiset"
begin

text \<open>
  What the workspace lock promises: writes are exclusive and have priority over reads that still
  wait, they start in the order they were made, every one but the latest is cancelled, each is
  completed exactly once, and no call waits forever. The last property is about the shutdown.
\<close>

subsection \<open>Exclusion\<close>

definition exclusive_ok :: "ws_lock \<Rightarrow> bool" where
  "exclusive_ok s \<longleftrightarrow> counters_ok s \<and> (stopping s \<or> \<not> holds_write (worker s) \<or> number Reading (calls s) = 0)"

lemma exclusive_internal:
  assumes "exclusive_ok s" and "internal s t"
  shows "exclusive_ok t"
proof -
  have "counters_ok s" "counters_ok t" using assms counters_internal by (auto simp: exclusive_ok_def)
  with assms(2) show ?thesis
  proof (cases rule: internal.cases)
    case (Start i)
    then show ?thesis using \<open>counters_ok s\<close> \<open>counters_ok t\<close> assms(1)
      by (auto simp: exclusive_ok_def counters_ok_def lock_ops read_gate_open_def)
  next
    case (Refuse i)
    then show ?thesis using number_update [of i "calls s" Reading Returned] assms(1) \<open>counters_ok t\<close>
      by (auto simp: exclusive_ok_def lock_ops)
  next
    case (Finish i)
    then show ?thesis using number_update [of i "calls s" Reading Returned] assms(1) \<open>counters_ok t\<close>
      by (auto simp: exclusive_ok_def lock_ops)
  next
    case (Acquire w sd)
    then show ?thesis using \<open>counters_ok s\<close> \<open>counters_ok t\<close>
      by (auto simp: exclusive_ok_def counters_ok_def lock_ops write_gate_open_def)
  qed (use assms(1) in \<open>auto simp: exclusive_ok_def lock_ops Let_def\<close>)
qed

lemma exclusive_request: "exclusive_ok s \<Longrightarrow> request s t \<Longrightarrow> exclusive_ok t"
  using counters_request [of s t] by (auto simp: exclusive_ok_def lock_ops Let_def elim!: requestE split: if_splits)

lemma reachable_exclusive: "reachable s \<Longrightarrow> exclusive_ok s"
proof (induction rule: reachable.induct)
  case New
  show ?case using reachable_counters [OF reachable.New] by (simp add: exclusive_ok_def new_lock_def)
qed (auto intro: exclusive_internal exclusive_request)

text \<open>The state in which the first write holds exclusivity, a second is queued and a read waits.\<close>

definition busy :: ws_lock where
  "busy = lock_write (read_enter (worker_acquire 1 False (worker_check 1 (worker_pop (lock_write new_lock)))))"

lemma busy_reachable: "reachable busy"
  unfolding busy_def
proof (rule reachable.Request [OF reachable.Request [OF reachable.Internal [OF reachable.Internal
      [OF reachable.Internal [OF reachable.Request [OF reachable.New request.Write] internal.Pop]
      internal.Check] internal.Acquire] request.Read] request.Write])
qed (simp_all add: lock_ops new_lock_def write_gate_open_def)

lemma busy_fields: "writeHeld busy" "\<not> stopping busy" "worker busy = Exclusive 1 False" "writeQueue busy = [2]"
    "calls busy = [Waiting]" "submitted busy = 2" "destroyer busy = Alive" "readers busy = 0"
  by (simp_all add: busy_def lock_ops new_lock_def)

text \<open>
  C15: writes are exclusive. In every reachable state before the shutdown, while a write is held
  the worker runs that write's exclusive part, no read runs its action and no counter counts
  a reader.
\<close>

theorem write_is_exclusive:
  assumes "reachable s" and "writeHeld s" and "\<not> stopping s"
  shows "(\<exists>w sd. worker s = Exclusive w sd) \<and> Reading \<notin> set (calls s) \<and> readers s = 0"
proof -
  have "number Reading (calls s) = 0" "writeHeld s = holds_write (worker s)"
    using reachable_exclusive [OF assms(1)] assms(2,3) by (auto simp: exclusive_ok_def counters_ok_def)
  then show ?thesis using assms(2) reachable_counters [OF assms(1)]
    by (cases "worker s") (auto simp: number_zero_iff counters_ok_def)
qed

theorem write_is_exclusive_witness:
  "(\<exists>w sd. worker busy = Exclusive w sd) \<and> Reading \<notin> set (calls busy) \<and> readers busy = 0"
  by (rule write_is_exclusive [OF busy_reachable busy_fields(1,2)])



subsection \<open>Order, supersession and completion\<close>

fun not_started :: "worker_pc \<Rightarrow> nat list" where
  "not_started (Popped w) = [w]"
| "not_started (Checked w sd) = [w]"
| "not_started _ = []"

definition entries :: "ws_lock \<Rightarrow> nat list" where
  "entries s = completed s @ in_hand (worker s) @ writeQueue s"

definition entries_ok :: "ws_lock \<Rightarrow> bool" where
  "entries_ok s \<longleftrightarrow>
     distinct (entries s) \<and> set (entries s) = {1..submitted s} \<and>
     sorted_wrt (<) (started s @ not_started (worker s) @ writeQueue s) \<and> set (started s) \<subseteq> {1..submitted s} \<and>
     (\<forall>w \<in> {1..submitted s}. w = previousCancel s \<or> w \<in> cancelled s \<or> w \<in> set (refused s)) \<and>
     (refused s = [] \<or> stopping s) \<and> set (refused s) \<subseteq> set (completed s)"

lemmas entries_simps = entries_ok_def entries_def

lemma atLeastAtMost_Suc_insert: "{1..Suc n} = insert (Suc n) {1..n}"
  by auto

lemma entries_internal: "entries_ok s \<Longrightarrow> internal s t \<Longrightarrow> entries_ok t"
proof -
  assume e: "entries_ok s" and st: "internal s t"
  from st show ?thesis
  proof (cases rule: internal.cases)
    case Pop
    then show ?thesis using e by (cases "writeQueue s") (auto simp: entries_simps lock_ops)
  next
    case (Acquire w sd)
    have "w \<in> {1..submitted s}" using e Acquire by (auto simp: entries_simps)
    then show ?thesis using e Acquire by (cases sd) (auto simp: entries_simps lock_ops sorted_wrt_append)
  qed (use e in \<open>auto simp: entries_simps lock_ops Let_def\<close>)
qed

lemma entries_request: "entries_ok s \<Longrightarrow> request s t \<Longrightarrow> entries_ok t"
proof -
  assume e: "entries_ok s" and st: "request s t"
  have small: "\<forall>w \<in> set (started s) \<union> set (entries s). w < Suc (submitted s)"
    using e by (auto simp: entries_ok_def)
  then have new: "Suc (submitted s) \<notin> set (completed s)" "Suc (submitted s) \<notin> set (in_hand (worker s))"
      "Suc (submitted s) \<notin> set (writeQueue s)"
    by (auto simp: entries_def)
  have "\<forall>w \<in> set (not_started (worker s)). w \<in> set (entries s)"
    by (cases "worker s") (auto simp: entries_def)
  then have upper: "\<forall>w \<in> set (started s @ not_started (worker s) @ writeQueue s). w < Suc (submitted s)"
    using small by (auto simp: entries_def)
  from st show ?thesis
  proof (cases rule: request.cases)
    case Write
    show ?thesis
    proof (cases "stopping s")
      case True
      then show ?thesis using e new
        by (auto simp: Write entries_simps lock_write_def Let_def atLeastAtMost_Suc_insert)
    next
      case False
      then show ?thesis using e new upper
        by (auto simp: Write entries_simps lock_write_def Let_def atLeastAtMost_Suc_insert sorted_wrt_append)
    qed
  qed (use e in \<open>auto simp: entries_simps lock_ops\<close>)
qed

lemma reachable_entries: "reachable s \<Longrightarrow> entries_ok s"
proof (induction rule: reachable.induct)
  case New
  show ?case by (simp add: entries_simps new_lock_def)
qed (auto intro: entries_internal entries_request)

text \<open>
  C17: order and supersession. In every reachable state each write made is in exactly one place:
  completed, in the worker's hand or queued. The actions called were called in the order of the
  writes, the queue continues that order, and every write but the latest accepted one has its
  cancellation requested; writes are refused only when stopping, and then completed at once.
\<close>

theorem writes_in_order_and_superseded:
  assumes "reachable s"
  shows "mset (completed s @ in_hand (worker s) @ writeQueue s) = mset_set {1..submitted s} \<and>
    sorted_wrt (<) (started s @ writeQueue s) \<and> {1..submitted s} - {previousCancel s} - set (refused s) \<subseteq> cancelled s \<and>
    (refused s = [] \<or> stopping s)"
proof -
  have e: "entries_ok s" by (rule reachable_entries [OF assms])
  then have "distinct (entries s)" "set (entries s) = {1..submitted s}"
    by (auto simp: entries_ok_def)
  then have "mset (entries s) = mset_set {1..submitted s}"
    by (metis mset_set_set)
  then show ?thesis using e by (auto simp: entries_simps sorted_wrt_append)
qed

theorem writes_in_order_and_superseded_witness:
  "mset (completed busy @ in_hand (worker busy) @ writeQueue busy) = mset_set {1..submitted busy} \<and>
    sorted_wrt (<) (started busy @ writeQueue busy) \<and> {1..submitted busy} - {previousCancel busy} - set (refused busy) \<subseteq> cancelled busy \<and>
    (refused busy = [] \<or> stopping busy)"
  by (rule writes_in_order_and_superseded [OF busy_reachable])

subsection \<open>Progress\<close>

fun worker_work :: "worker_pc \<Rightarrow> nat" where
  "worker_work Exited = 0"
| "worker_work Idle = 1"
| "worker_work Releasing = 2"
| "worker_work (Shared w) = 3"
| "worker_work (Exclusive w sd) = 4"
| "worker_work (Checked w sd) = 5"
| "worker_work (Popped w) = 6"

fun destroy_work :: "destroy_pc \<Rightarrow> nat" where
  "destroy_work Stopping = 2"
| "destroy_work Draining = 1"
| "destroy_work _ = 0"

text \<open>The steps the threads inside the lock can still take without further calls.\<close>

definition work :: "ws_lock \<Rightarrow> nat" where
  "work s = 6 * length (writeQueue s) + worker_work (worker s) + 2 * number Waiting (calls s) +
     number Reading (calls s) + destroy_work (destroyer s)"

lemma internal_work:
  assumes "internal s t"
  shows "work t < work s"
  using assms
proof (cases rule: internal.cases)
  case (Start i)
  then show ?thesis using number_update [of i "calls s" Waiting Reading] number_update [of i "calls s" Reading Reading]
    by (simp add: work_def lock_ops)
next
  case (Refuse i)
  then show ?thesis using number_update [of i "calls s" Waiting Returned] number_update [of i "calls s" Reading Returned]
    by (simp add: work_def lock_ops)
next
  case (Finish i)
  then show ?thesis using number_update [of i "calls s" Waiting Returned] number_update [of i "calls s" Reading Returned]
    by (simp add: work_def lock_ops)
next
  case Pop
  then show ?thesis by (cases "writeQueue s") (simp_all add: work_def lock_ops)
qed (auto simp: work_def lock_ops Let_def)

text \<open>The worker leaves only when stopping, with an empty queue, and the destructor means stopping.\<close>

definition shutdown_ok :: "ws_lock \<Rightarrow> bool" where
  "shutdown_ok s \<longleftrightarrow> (worker s = Exited \<longrightarrow> stopping s \<and> writeQueue s = []) \<and>
     (stopping s \<longleftrightarrow> destroyer s \<noteq> Alive) \<and> (stopRequested s \<longrightarrow> stopping s)"

lemma shutdown_internal: "shutdown_ok s \<Longrightarrow> internal s t \<Longrightarrow> shutdown_ok t"
  by (erule internal.cases) (auto simp: shutdown_ok_def lock_ops Let_def)

lemma shutdown_request: "shutdown_ok s \<Longrightarrow> request s t \<Longrightarrow> shutdown_ok t"
  by (erule requestE) (auto simp: shutdown_ok_def lock_ops Let_def)

lemma reachable_shutdown: "reachable s \<Longrightarrow> shutdown_ok s"
proof (induction rule: reachable.induct)
  case New
  show ?case by (simp add: shutdown_ok_def new_lock_def)
qed (auto intro: shutdown_internal shutdown_request)

definition settled :: "ws_lock \<Rightarrow> bool" where
  "settled s \<longleftrightarrow> set (calls s) \<subseteq> {Returned} \<and> mset (completed s) = mset_set {1..submitted s} \<and>
     (destroyer s = Alive \<and> worker s = Idle \<or> destroyer s = Joining \<and> worker s = Exited)"

lemma stuck_reads:
  assumes "counters_ok s" and "\<nexists>t. internal s t"
  shows "number Reading (calls s) = 0"
proof (rule ccontr)
  assume "number Reading (calls s) \<noteq> 0"
  then obtain i where "i < length (calls s)" "calls s ! i = Reading" using number_pos_ex [of Reading "calls s"] by auto
  from internal.Finish [OF this] show False using assms(2) by simp
qed

lemma stuck_worker:
  assumes "counters_ok s" and "\<nexists>t. internal s t"
  shows "worker s = Exited \<or> worker s = Idle \<and> writeQueue s = [] \<and> \<not> stopping s"
proof (cases "worker s")
  case (Checked w sd)
  have "write_gate_open s"
    using assms(1) stuck_reads [OF assms] Checked by (simp add: counters_ok_def write_gate_open_def)
  from internal.Acquire [OF Checked this] show ?thesis using assms(2) by simp
next
  case Idle
  then show ?thesis using assms(2) internal.Pop [OF Idle] internal.Exit [OF Idle] by auto
next
  case (Popped w)
  from internal.Check [OF this] show ?thesis using assms(2) by simp
next
  case (Exclusive w sd)
  from internal.Downgrade [OF this] show ?thesis using assms(2) by simp
next
  case (Shared w)
  from internal.Complete [OF this] show ?thesis using assms(2) by simp
next
  case Releasing
  from internal.Release [OF this] show ?thesis using assms(2) by simp
qed simp

lemma stuck_waiting:
  assumes c: "counters_ok s" and sh: "shutdown_ok s" and stuck: "\<nexists>t. internal s t"
  shows "number Waiting (calls s) = 0"
proof (rule ccontr)
  assume "number Waiting (calls s) \<noteq> 0"
  then obtain i where i: "i < length (calls s)" "calls s ! i = Waiting" using number_pos_ex [of Waiting "calls s"] by auto
  have "\<not> stopping s" using stuck internal.Refuse [OF i] by auto
  moreover have "read_gate_open s" if "worker s = Idle" "writeQueue s = []"
    using c that by (simp add: counters_ok_def read_gate_open_def)
  moreover have "\<not> stopping s \<Longrightarrow> \<not> read_gate_open s" using stuck internal.Start [OF i] by auto
  ultimately show False
    using stuck_worker [OF c stuck] sh unfolding shutdown_ok_def by metis
qed

lemma stuck_settled:
  assumes "reachable s" and stuck: "\<nexists>t. internal s t"
  shows "settled s"
proof -
  have c: "counters_ok s" and sh: "shutdown_ok s" and e: "entries_ok s"
    using assms(1) reachable_counters reachable_shutdown reachable_entries by blast+
  have calls: "set (calls s) \<subseteq> {Returned}"
  proof
    fix x assume "x \<in> set (calls s)"
    then show "x \<in> {Returned}"
      using stuck_reads [OF c stuck] stuck_waiting [OF c sh stuck] unfolding number_zero_iff
      by (cases rule: read_pc.exhaust [of x]) auto
  qed
  have d: "destroyer s = Alive \<or> destroyer s = Joining"
    using stuck internal.Cancel [of s] internal.Drained [of s] c stuck_reads [OF c stuck] stuck_waiting [OF c sh stuck]
    by (cases "destroyer s") (simp_all add: counters_ok_def)
  have w: "worker s = Exited \<or> worker s = Idle" "writeQueue s = []"
    using stuck_worker [OF c stuck] sh by (auto simp: shutdown_ok_def)
  then have "distinct (completed s)" "set (completed s) = {1..submitted s}"
    using e by (auto simp: entries_simps)
  then have "mset (completed s) = mset_set {1..submitted s}"
    by (metis mset_set_set)
  then show ?thesis using calls d w stuck_worker [OF c stuck] sh by (auto simp: settled_def shutdown_ok_def)
qed

lemma reachable_run: "internal\<^sup>*\<^sup>* s t \<Longrightarrow> reachable s \<Longrightarrow> reachable t"
  by (induction rule: rtranclp_induct) (auto intro: reachable.Internal)

lemma runs_settle: "reachable s \<Longrightarrow> \<exists>t. internal\<^sup>*\<^sup>* s t \<and> settled t"
proof (induction "work s" arbitrary: s rule: less_induct)
  case less
  show ?case
  proof (cases "\<exists>t. internal s t")
    case True
    then obtain t where t: "internal s t" by blast
    then obtain u where "internal\<^sup>*\<^sup>* t u" "settled u"
      using less.hyps [OF internal_work] reachable.Internal [OF less.prems] by blast
    then show ?thesis using t converse_rtranclp_into_rtranclp by metis
  next
    case False
    then show ?thesis using stuck_settled [OF less.prems] by blast
  qed
qed



subsection \<open>Shutdown\<close>

text \<open>A read runs, a write is taken by the worker, and the destructor begins before the gate.\<close>

definition closing :: ws_lock where
  "closing = worker_acquire 1 False (destroy_stop (worker_check 1 (worker_pop (lock_write
     (read_start 0 (read_enter new_lock))))))"

lemma closing_reachable: "reachable closing"
  unfolding closing_def
proof (rule reachable.Internal [OF reachable.Request [OF reachable.Internal [OF reachable.Internal
      [OF reachable.Request [OF reachable.Internal [OF reachable.Request [OF reachable.New request.Read]
      internal.Start] request.Write] internal.Pop] internal.Check] request.Destroy] internal.Acquire])
qed (simp_all add: lock_ops new_lock_def write_gate_open_def read_gate_open_def)


end
