(* ===== verification/Uri.thy ===== *)
theory Uri
  imports TextUtils
begin

text \<open>
  URIs (\<open>core/utils/UriUtils.cpp\<close>) on a POSIX host: percent encoding, the conversions between
  \<open>file:\<close> URIs and paths, normalisation and the queries built on it. What the code uses of
  \<open>std::filesystem\<close> is modelled as the standard describes it: paths are strings, \<open>absolute\<close> puts
  the current directory \<open>cwd\<close> in front of a relative path, \<open>lexically_normal\<close> folds dots, and a
  path is iterated as its root directory and its names. The standard leaves \<open>absolute\<close> of an empty path
  (the URI \<open>file://\<close>) open: here it is \<open>cwd\<close>, some libraries report an error. Character classes are
  those of the C locale.
\<close>

subsection \<open>Percent encoding\<close>

definition has_file_scheme :: "string \<Rightarrow> bool" where
  "has_file_scheme uri = (7 \<le> length uri \<and> map tolower (take 7 uri) = ''file://'')"

definition is_unreserved :: "char \<Rightarrow> bool" where
  "is_unreserved c \<longleftrightarrow>
     (let b = ub c in 48 \<le> b \<and> b \<le> 57 \<or> 65 \<le> b \<and> b \<le> 90 \<or> 97 \<le> b \<and> b \<le> 122) \<or>
     c \<in> set ''-_.~/:''"

definition to_hex :: "nat \<Rightarrow> char" where
  "to_hex value = char_of (if value < 10 then ub CHR ''0'' + value else ub CHR ''A'' + (value - 10))"

definition encode_byte :: "char \<Rightarrow> string" where
  "encode_byte c = (if is_unreserved c then [c]
     else [CHR ''%'', to_hex (drop_bit 4 (ub c) AND 0x0F), to_hex (ub c AND 0x0F)])"

definition percent_encode :: "string \<Rightarrow> string" where
  "percent_encode s = (if list_all is_unreserved s then s else concat (map encode_byte s))"

definition from_hex :: "char \<Rightarrow> nat option" where
  "from_hex c = (let lower = ub (tolower c) in
     if ub CHR ''0'' \<le> lower \<and> lower \<le> ub CHR ''9'' then Some (lower - ub CHR ''0'')
     else if ub CHR ''a'' \<le> lower \<and> lower \<le> ub CHR ''f'' then Some (10 + (lower - ub CHR ''a''))
     else None)"

definition decode_percent_escape :: "string \<Rightarrow> nat \<Rightarrow> char option" where
  "decode_percent_escape s i =
     (if s ! i \<noteq> CHR ''%'' \<or> length s \<le> i + 2 then None
      else case (from_hex (s ! (i + 1)), from_hex (s ! (i + 2))) of
        (Some high, Some low) \<Rightarrow> Some (char_of (push_bit 4 high OR low))
      | _ \<Rightarrow> None)"

function percent_decode_from :: "string \<Rightarrow> nat \<Rightarrow> string" where
  "percent_decode_from s i =
     (if i < length s then
        (case decode_percent_escape s i of
           Some b \<Rightarrow> b # percent_decode_from s (i + 3)
         | None \<Rightarrow> s ! i # percent_decode_from s (i + 1))
      else [])"
  by pat_completeness auto
termination by (relation "measure (\<lambda>(s, i). length s - i)") auto

declare percent_decode_from.simps [simp del]

definition percent_decode :: "string \<Rightarrow> string" where
  "percent_decode s = percent_decode_from s 0"

subsection \<open>Paths\<close>

fun split_slash :: "string \<Rightarrow> string list" where
  "split_slash [] = [[]]"
| "split_slash (c # s) =
     (if c = CHR ''/'' then [] # split_slash s
      else case split_slash s of [] \<Rightarrow> [[c]] | x # xs \<Rightarrow> (c # x) # xs)"

definition path_names :: "string \<Rightarrow> string list" where
  "path_names p = filter (\<lambda>x. x \<noteq> []) (split_slash p)"

definition is_absolute :: "string \<Rightarrow> bool" where
  "is_absolute p = (p \<noteq> [] \<and> hd p = CHR ''/'')"

definition ends_with_slash :: "string \<Rightarrow> bool" where
  "ends_with_slash p = (p \<noteq> [] \<and> last p = CHR ''/'')"

fun join_names :: "string list \<Rightarrow> string" where
  "join_names [] = []"
| "join_names [x] = x"
| "join_names (x # y # xs) = x @ CHR ''/'' # join_names (y # xs)"

text \<open>
  One name of a path: the names kept so far, innermost first, and whether the path written so far
  ends in a separator, as it does behind a dot or a name folded with a dot-dot.
\<close>

definition normal_step :: "bool \<Rightarrow> string list \<times> bool \<Rightarrow> string \<Rightarrow> string list \<times> bool" where
  "normal_step rooted a x = (let st = fst a in
     if x = ''.'' then (st, True)
     else if x = ''..'' then
       (case st of
          [] \<Rightarrow> if rooted then ([], True) else ([''..''], False)
        | y # ys \<Rightarrow> if y = ''..'' then (''..'' # st, False) else (ys, True))
     else (x # st, False))"

definition lexically_normal :: "string \<Rightarrow> string" where
  "lexically_normal p =
     (if p = [] then []
      else let (st, slash) = foldl (normal_step (is_absolute p)) ([], False) (path_names p);
               trailing = ((slash \<or> ends_with_slash p) \<and> st \<noteq> [] \<and> hd st \<noteq> ''..'');
               r = (if is_absolute p then ''/'' else []) @ join_names (rev st) @ (if trailing then ''/'' else [])
           in if r = [] then ''.'' else r)"

definition absolute_path :: "string \<Rightarrow> string \<Rightarrow> string" where
  "absolute_path cwd p =
     (if is_absolute p then p else if ends_with_slash cwd then cwd @ p else cwd @ ''/'' @ p)"

fun drop_slashes :: "string \<Rightarrow> string" where
  "drop_slashes [] = []"
| "drop_slashes (c # s) = (if s \<noteq> [] \<and> c = CHR ''/'' then drop_slashes s else c # s)"

text \<open>\<open>normalize_file_path\<close> removes the separators at the end but the last character.\<close>

definition normalize_file_path :: "string \<Rightarrow> string" where
  "normalize_file_path p = rev (drop_slashes (rev (lexically_normal p)))"

definition path_elements :: "string \<Rightarrow> string list" where
  "path_elements p = (if is_absolute p then [''/''] else []) @ path_names p @
     (if ends_with_slash p \<and> path_names p \<noteq> [] then [[]] else [])"

subsection \<open>URIs\<close>

definition file_uri_to_path :: "string \<Rightarrow> string option" where
  "file_uri_to_path uri =
     (if \<not> has_file_scheme uri then None
      else let remainder = drop 7 uri in
        if remainder \<noteq> [] \<and> hd remainder \<noteq> CHR ''/'' then
          (let authority = takeWhile (\<lambda>c. c \<noteq> CHR ''/'') remainder in
           if authority \<noteq> [] \<and> map tolower authority \<noteq> ''localhost'' then None
           else Some (percent_decode (dropWhile (\<lambda>c. c \<noteq> CHR ''/'') remainder)))
        else Some (percent_decode remainder))"

definition path_to_file_uri :: "string \<Rightarrow> string \<Rightarrow> string" where
  "path_to_file_uri cwd p =
     (let n = lexically_normal (absolute_path cwd p);
          n' = (if n = [] \<or> hd n \<noteq> CHR ''/'' then CHR ''/'' # n else n) in
      ''file://'' @ percent_encode n')"

definition normalize_uri :: "string \<Rightarrow> string \<Rightarrow> string" where
  "normalize_uri cwd uri = (case file_uri_to_path uri of Some p \<Rightarrow> path_to_file_uri cwd p | None \<Rightarrow> uri)"

definition is_file_uri :: "string \<Rightarrow> bool" where
  "is_file_uri uri = has_file_scheme uri"

definition normalize_extension :: "string \<Rightarrow> string" where
  "normalize_extension e = (if e = [] then [] else if hd e \<noteq> CHR ''.'' then CHR ''.'' # e else e)"

definition equals_uri :: "string \<Rightarrow> string \<Rightarrow> string \<Rightarrow> bool" where
  "equals_uri cwd l r = (normalize_uri cwd l = normalize_uri cwd r)"

fun leading :: "string list \<Rightarrow> string list \<Rightarrow> bool" where
  "leading (x # xs) (y # ys) = (x = y \<and> leading xs ys)"
| "leading xs ys = (xs = [])"

definition contains_uri :: "string \<Rightarrow> string \<Rightarrow> string \<Rightarrow> bool" where
  "contains_uri cwd parent child =
     (let np = normalize_uri cwd parent; nc = normalize_uri cwd child in
      if np = nc then True
      else case (file_uri_to_path np, file_uri_to_path nc) of
        (Some pp, Some cp) \<Rightarrow> leading (path_elements (normalize_file_path pp)) (path_elements (normalize_file_path cp))
      | _ \<Rightarrow> False)"

text \<open>\<open>lexically_relative\<close> of two paths with the same root.\<close>

fun mismatch :: "string list \<Rightarrow> string list \<Rightarrow> string list \<times> string list" where
  "mismatch (x # xs) (y # ys) = (if x = y then mismatch xs ys else (x # xs, y # ys))"
| "mismatch xs ys = (xs, ys)"

definition climb :: "string list \<Rightarrow> int" where
  "climb ys = sum_list (map (\<lambda>y. if y = ''..'' then - 1 else if y = ''.'' \<or> y = [] then 0 else 1) ys)"

definition lexically_relative :: "string \<Rightarrow> string \<Rightarrow> string" where
  "lexically_relative p base =
     (if is_absolute p \<noteq> is_absolute base then []
      else let (xs, ys) = mismatch (path_elements p) (path_elements base) in
        if xs = [] \<and> ys = [] then ''.''
        else let n = climb ys in
          if n < 0 then []
          else if n = 0 \<and> (xs = [] \<or> hd xs = []) then ''.''
          else join_names (replicate (nat n) ''..'' @ xs))"

definition relative_uri :: "string \<Rightarrow> string \<Rightarrow> string \<Rightarrow> string" where
  "relative_uri cwd source target =
     (let nf = normalize_uri cwd source; nt = normalize_uri cwd target in
      case (file_uri_to_path nf, file_uri_to_path nt) of
        (Some fp, Some tp) \<Rightarrow>
          (let r = lexically_relative (normalize_file_path tp) (normalize_file_path fp) in
           if r \<noteq> [] then r else normalize_file_path tp)
      | _ \<Rightarrow> nt)"

subsection \<open>Decoding what was encoded\<close>

text \<open>The decoder over the rest of the text.\<close>

fun decode_rest :: "string \<Rightarrow> string" where
  "decode_rest [] = []"
| "decode_rest (c # s) =
     (case s of
        h # l # t \<Rightarrow>
          (if c = CHR ''%'' then
             (case (from_hex h, from_hex l) of
                (Some a, Some b) \<Rightarrow> char_of (push_bit 4 a OR b) # decode_rest t
              | _ \<Rightarrow> c # decode_rest s)
           else c # decode_rest s)
      | _ \<Rightarrow> c # decode_rest s)"

lemma decode_from_rest: "percent_decode_from (xs @ ys) (length xs) = decode_rest ys"
proof (induction ys arbitrary: xs rule: length_induct)
  case (1 ys)
  show ?case
  proof (cases ys)
    case Nil
    then show ?thesis by (simp add: percent_decode_from.simps)
  next
    case (Cons c s)
    have one: "percent_decode_from (xs @ c # s) (length xs + 1) = decode_rest s"
      using 1 [rule_format, of s "xs @ [c]"] Cons by simp
    have three: "percent_decode_from (xs @ c # h # l # t) (length xs + 3) = decode_rest t" if "s = h # l # t" for h l t
      using 1 [rule_format, of t "xs @ [c, h, l]"] Cons that by (simp add: numeral_3_eq_3)
    have step: "percent_decode_from (xs @ c # s) (length xs) =
        (case decode_percent_escape (xs @ c # s) (length xs) of
           Some b \<Rightarrow> b # percent_decode_from (xs @ c # s) (length xs + 3)
         | None \<Rightarrow> c # decode_rest s)"
      using one by (subst percent_decode_from.simps) (simp split: option.split)
    consider "s = []" | h where "s = [h]" | h l t where "s = h # l # t" by (metis neq_Nil_conv)
    then show ?thesis
    proof cases
      case (3 h l t)
      have "decode_percent_escape (xs @ c # s) (length xs) =
          (if c \<noteq> CHR ''%'' then None else case (from_hex h, from_hex l) of
             (Some high, Some low) \<Rightarrow> Some (char_of (push_bit 4 high OR low)) | _ \<Rightarrow> None)"
        by (simp add: decode_percent_escape_def 3 nth_append)
      moreover have "decode_rest ys = (if c \<noteq> CHR ''%'' then c # decode_rest s else case (from_hex h, from_hex l) of
             (Some high, Some low) \<Rightarrow> char_of (push_bit 4 high OR low) # decode_rest t | _ \<Rightarrow> c # decode_rest s)"
        unfolding Cons 3 decode_rest.simps(2) [of c] by simp
      ultimately show ?thesis using step three [OF 3, folded 3]
        by (cases "c = CHR ''%''"; cases "from_hex h"; cases "from_hex l") (simp_all add: Cons del: decode_rest.simps)
    qed (use step Cons in \<open>simp_all add: decode_percent_escape_def\<close>)
  qed
qed

lemma percent_decode_rest: "percent_decode s = decode_rest s"
  using decode_from_rest [of "[]" s] by (simp add: percent_decode_def)

lemma to_hex_from_hex: "v < 16 \<Longrightarrow> from_hex (to_hex v) = Some v"
proof (cases "v < 10")
  case True
  then have "ub (to_hex v) = 48 + v" by (simp add: to_hex_def)
  then have "ub (tolower (to_hex v)) = 48 + v" using True by (simp add: tolower_def)
  then show ?thesis using True by (simp add: from_hex_def Let_def)
next
  case False
  assume v: "v < 16"
  have "ub (to_hex v) = 55 + v" using False v by (simp add: to_hex_def)
  then have "ub (tolower (to_hex v)) = 87 + v" using False v by (simp add: tolower_def)
  then show ?thesis using False v by (simp add: from_hex_def Let_def)
qed

lemma nibbles: "push_bit 4 ((drop_bit 4 (ub c)) AND 0x0F) OR (ub c AND 0x0F) = ub c"
proof -
  have "ub c div 16 mod 16 = ub c div 16" by (simp add: div_less_iff_less_mult)
  then have "push_bit 4 ((drop_bit 4 (ub c)) AND 0x0F) OR (ub c AND 0x0F) = ub c div 16 * 2 ^ 4 OR ub c mod 16"
    by (simp add: mask_simps push_bit_eq_mult drop_bit_eq_div)
  also have "\<dots> = ub c" using or_disjoint_add [of "ub c mod 16" 4 "ub c div 16"] by simp
  finally show ?thesis .
qed

lemma percent_not_unreserved: "\<not> is_unreserved CHR ''%''"
  by (simp add: is_unreserved_def)

lemma decode_encode_byte: "decode_rest (encode_byte c @ s) = c # decode_rest s"
proof (cases "is_unreserved c")
  case True
  then have "c \<noteq> CHR ''%''" using percent_not_unreserved by auto
  then show ?thesis using True by (auto simp: encode_byte_def split: list.splits)
next
  case False
  have "ub c AND 0x0F < 16" "drop_bit 4 (ub c) AND 0x0F < 16" by (simp_all add: mask_simps)
  then have "from_hex (to_hex (drop_bit 4 (ub c) AND 0x0F)) = Some (drop_bit 4 (ub c) AND 0x0F)"
    "from_hex (to_hex (ub c AND 0x0F)) = Some (ub c AND 0x0F)" by (auto intro: to_hex_from_hex)
  moreover have "char_of (push_bit 4 (drop_bit 4 (ub c) AND 0x0F) OR (ub c AND 0x0F)) = c"
    by (simp only: nibbles char_of_char)
  ultimately show ?thesis using False by (simp add: encode_byte_def)
qed

lemma decode_encode: "percent_decode (percent_encode s) = s"
proof -
  have "decode_rest (concat (map encode_byte s)) = s"
    by (induction s) (simp_all add: decode_encode_byte)
  moreover have "concat (map encode_byte s) = s" if "list_all is_unreserved s"
    using that by (induction s) (auto simp: encode_byte_def)
  ultimately show ?thesis by (auto simp: percent_decode_rest percent_encode_def)
qed

end
