(* ===== verification/UriTrie.thy ===== *)
theory UriTrie
  imports Uri "HOL-Library.Sublist" "HOL-Library.AList"
begin

text \<open>
  The trie keyed by the segments of normalised URIs (\<open>core/utils/UriTrie.hpp\<close>). A node's
  \<open>std::unordered_map\<close> of children is an association list; the order of its iteration is not
  specified, so what \<open>collectValues\<close> returns is used as a set here. Erasing a node erases
  everything below it. The locale \<open>subtree_store\<close> states what a client may rely on.
\<close>

datatype 'a trie = Node (element: "'a option") (children: "(string \<times> 'a trie) list")

definition empty_trie :: "'a trie" where
  "empty_trie = Node None []"

subsection \<open>Operations\<close>

function segments_of :: "string \<Rightarrow> string list" where
  "segments_of s =
     (case dropWhile (\<lambda>c. c \<noteq> CHR ''/'') s of
        [] \<Rightarrow> [s]
      | _ # rest \<Rightarrow> takeWhile (\<lambda>c. c \<noteq> CHR ''/'') s # (if rest = [] then [] else segments_of rest))"
  by pat_completeness auto
termination
proof (relation "measure length")
  fix s rest :: string and c
  assume "dropWhile (\<lambda>c. c \<noteq> CHR ''/'') s = c # rest"
  then have "length (c # rest) \<le> length s" by (metis length_dropWhile_le)
  then show "(rest, s) \<in> measure length" by simp
qed simp

declare segments_of.simps [simp del]

definition splitSegments :: "string \<Rightarrow> string list" where
  "splitSegments uri = (if uri = [] then [] else segments_of uri)"

fun find_node :: "string list \<Rightarrow> 'a trie \<Rightarrow> 'a trie option" where
  "find_node [] t = Some t"
| "find_node (s # ss) t = (case map_of (children t) s of None \<Rightarrow> None | Some c \<Rightarrow> find_node ss c)"

text \<open>\<open>getNode\<close> with creation, and the assignment to the element of the node it returns.\<close>

fun insert_at :: "string list \<Rightarrow> 'a \<Rightarrow> 'a trie \<Rightarrow> 'a trie" where
  "insert_at [] v t = Node (Some v) (children t)"
| "insert_at (s # ss) v t = Node (element t) (AList.update s
     (insert_at ss v (case map_of (children t) s of None \<Rightarrow> empty_trie | Some c \<Rightarrow> c)) (children t))"

fun erase_at :: "string list \<Rightarrow> 'a trie \<Rightarrow> 'a trie" where
  "erase_at [] t = empty_trie"
| "erase_at [s] t = Node (element t) (AList.delete s (children t))"
| "erase_at (s # r # ss) t = (case map_of (children t) s of None \<Rightarrow> t
     | Some c \<Rightarrow> Node (element t) (AList.update s (erase_at (r # ss) c) (children t)))"

definition find_at :: "string list \<Rightarrow> 'a trie \<Rightarrow> 'a option" where
  "find_at ss t = (case find_node ss t of None \<Rightarrow> None | Some n \<Rightarrow> element n)"

fun collectValues :: "'a trie \<Rightarrow> 'a list" where
  "collectValues (Node e cs) =
     (case e of None \<Rightarrow> [] | Some v \<Rightarrow> [v]) @ concat (map (\<lambda>(s, c). collectValues c) cs)"

definition all_at :: "string list \<Rightarrow> 'a trie \<Rightarrow> 'a list" where
  "all_at ss t = (case find_node ss t of None \<Rightarrow> [] | Some n \<Rightarrow> collectValues n)"

text \<open>The public operations, on URIs.\<close>

definition trie_insert :: "string \<Rightarrow> string \<Rightarrow> 'a \<Rightarrow> 'a trie \<Rightarrow> 'a trie" where
  "trie_insert cwd uri v t = insert_at (splitSegments (normalize_uri cwd uri)) v t"

definition trie_erase :: "string \<Rightarrow> string \<Rightarrow> 'a trie \<Rightarrow> 'a trie" where
  "trie_erase cwd uri t = erase_at (splitSegments (normalize_uri cwd uri)) t"

definition trie_find :: "string \<Rightarrow> string \<Rightarrow> 'a trie \<Rightarrow> 'a option" where
  "trie_find cwd uri t = find_at (splitSegments (normalize_uri cwd uri)) t"

definition trie_has :: "string \<Rightarrow> string \<Rightarrow> 'a trie \<Rightarrow> bool" where
  "trie_has cwd uri t = (trie_find cwd uri t \<noteq> None)"

definition trie_find_all :: "string \<Rightarrow> string \<Rightarrow> 'a trie \<Rightarrow> 'a list" where
  "trie_find_all cwd uri t = all_at (splitSegments (normalize_uri cwd uri)) t"

definition trie_all :: "'a trie \<Rightarrow> 'a list" where
  "trie_all t = collectValues t"

subsection \<open>What the operations do to lookups\<close>

lemma find_empty [simp]: "find_at ss empty_trie = None"
  by (cases ss) (simp_all add: find_at_def empty_trie_def)

lemma find_at_Nil [simp]: "find_at [] t = element t"
  by (simp add: find_at_def)

lemma find_at_Cons: "find_at (s # ss) t = (case map_of (children t) s of None \<Rightarrow> None | Some c \<Rightarrow> find_at ss c)"
  by (simp add: find_at_def split: option.splits)

lemma find_insert: "find_at k' (insert_at k v t) = (if k' = k then Some v else find_at k' t)"
proof (induction k arbitrary: k' t)
  case Nil
  show ?case by (cases k') (simp_all add: find_at_Cons)
next
  case (Cons s ss)
  show ?case
    by (cases k') (auto simp: find_at_Cons Cons AList.update_conv' split: option.splits)
qed

lemma find_erase: "find_at k' (erase_at k t) = (if prefix k k' then None else find_at k' t)"
proof (induction k t arbitrary: k' rule: erase_at.induct)
  case (2 s t)
  show ?case by (cases k') (auto simp: find_at_Cons map_of_delete AList.delete_conv' split: option.splits)
next
  case (3 s r ss t)
  show ?case
  proof (cases k')
    case (Cons x xs)
    show ?thesis
    proof (cases "map_of (children t) s")
      case None
      then show ?thesis using Cons by (auto simp: find_at_Cons)
    next
      case (Some c)
      then show ?thesis using 3 [OF Some, of xs] Cons by (auto simp: find_at_Cons AList.update_conv')
    qed
  qed (simp split: option.splits)
qed simp

text \<open>Tries the operations build have one child for a segment.\<close>

fun wf_trie :: "'a trie \<Rightarrow> bool" where
  "wf_trie (Node e cs) = (distinct (map fst cs) \<and> list_all (\<lambda>(s, c). wf_trie c) cs)"

lemma wf_empty [simp]: "wf_trie empty_trie"
  by (simp add: empty_trie_def)

lemma wf_child: "wf_trie t \<Longrightarrow> map_of (children t) s = Some c \<Longrightarrow> wf_trie c"
  by (cases t) (auto dest!: map_of_SomeD simp: list_all_iff)

lemma update_set: "(s, c) \<in> set (AList.update k v xs) \<Longrightarrow> (s, c) = (k, v) \<or> (s, c) \<in> set xs"
  by (induction xs) (auto split: if_splits)

lemma wf_update: "wf_trie t \<Longrightarrow> wf_trie c \<Longrightarrow> wf_trie (Node e (AList.update s c (children t)))"
  by (cases t) (auto simp: list_all_iff distinct_update dest!: update_set)

lemma wf_insert: "wf_trie t \<Longrightarrow> wf_trie (insert_at k v t)"
proof (induction k arbitrary: t)
  case Nil
  then show ?case by (cases t) simp
next
  case (Cons s ss)
  let ?c = "case map_of (children t) s of None \<Rightarrow> empty_trie | Some c \<Rightarrow> c"
  have "wf_trie ?c" using wf_child [OF Cons.prems] by (auto split: option.splits)
  from wf_update [OF Cons.prems Cons.IH [OF this]] show ?case by simp
qed

lemma wf_erase: "wf_trie t \<Longrightarrow> wf_trie (erase_at k t)"
proof (induction k t rule: erase_at.induct)
  case (2 s t)
  then show ?case by (cases t) (auto simp: list_all_iff AList.distinct_delete AList.delete_eq distinct_map_filter)
next
  case (3 s r ss t)
  show ?case
  proof (cases "map_of (children t) s")
    case (Some c)
    from wf_update [OF "3.prems" "3.IH" [OF Some wf_child [OF "3.prems" Some]]] show ?thesis using Some by simp
  qed (use "3.prems" in simp)
qed simp

lemma collect_find: "wf_trie t \<Longrightarrow> v \<in> set (collectValues t) \<longleftrightarrow> (\<exists>k. find_at k t = Some v)"
proof (induction t arbitrary: v rule: collectValues.induct)
  case (1 e cs)
  have "v \<in> set (collectValues (Node e cs)) \<longleftrightarrow> e = Some v \<or> (\<exists>s c. (s, c) \<in> set cs \<and> v \<in> set (collectValues c))"
    by (auto split: option.splits)
  also have "\<dots> \<longleftrightarrow> e = Some v \<or> (\<exists>s c. map_of cs s = Some c \<and> (\<exists>k. find_at k c = Some v))"
  proof -
    have mem: "(s, c) \<in> set cs \<longleftrightarrow> map_of cs s = Some c" for s c
      using "1.prems" by (auto simp: map_of_eq_Some_iff)
    have IH: "v \<in> set (collectValues c) \<longleftrightarrow> (\<exists>k. find_at k c = Some v)" if "map_of cs s = Some c" for s c
      using that "1.prems" map_of_SomeD [OF that] by (intro "1.IH" [of "(s, c)"]) (auto simp: list_all_iff)
    show ?thesis unfolding mem using IH by metis
  qed
  also have "\<dots> \<longleftrightarrow> (\<exists>k. find_at k (Node e cs) = Some v)"
  proof
    assume "e = Some v \<or> (\<exists>s c. map_of cs s = Some c \<and> (\<exists>k. find_at k c = Some v))"
    then show "\<exists>k. find_at k (Node e cs) = Some v"
    proof
      assume "e = Some v"
      then have "find_at [] (Node e cs) = Some v" by simp
      then show ?thesis by blast
    next
      assume "\<exists>s c. map_of cs s = Some c \<and> (\<exists>k. find_at k c = Some v)"
      then obtain s c k where "map_of cs s = Some c" "find_at k c = Some v" by blast
      then have "find_at (s # k) (Node e cs) = Some v" by (simp add: find_at_Cons)
      then show ?thesis by blast
    qed
  next
    assume "\<exists>k. find_at k (Node e cs) = Some v"
    then obtain k where "find_at k (Node e cs) = Some v" by blast
    then show "e = Some v \<or> (\<exists>s c. map_of cs s = Some c \<and> (\<exists>k. find_at k c = Some v))"
      by (cases k) (auto simp: find_at_Cons split: option.splits)
  qed
  finally show ?case .
qed

lemma find_node_append: "find_at (k @ k') t = (case find_node k t of None \<Rightarrow> None | Some n \<Rightarrow> find_at k' n)"
  by (induction k arbitrary: t) (auto simp: find_at_Cons split: option.splits)

lemma wf_node: "wf_trie t \<Longrightarrow> find_node k t = Some n \<Longrightarrow> wf_trie n"
  by (induction k arbitrary: t) (auto split: option.splits dest: wf_child)

lemma all_at_find: "wf_trie t \<Longrightarrow> v \<in> set (all_at k t) \<longleftrightarrow> (\<exists>k'. prefix k k' \<and> find_at k' t = Some v)"
proof -
  assume wf: "wf_trie t"
  have "(\<exists>k'. prefix k k' \<and> find_at k' t = Some v) \<longleftrightarrow> (\<exists>r. find_at (k @ r) t = Some v)"
    by (auto simp: prefix_def)
  also have "\<dots> \<longleftrightarrow> v \<in> set (all_at k t)"
  proof (cases "find_node k t")
    case (Some n)
    then show ?thesis using collect_find [OF wf_node [OF wf Some]] by (simp add: all_at_def find_node_append)
  qed (simp add: all_at_def find_node_append)
  finally show ?thesis by blast
qed

subsection \<open>The contract\<close>

locale subtree_store =
  fixes ok :: "'s \<Rightarrow> bool" and lookup :: "'k \<Rightarrow> 's \<Rightarrow> 'v option" and put :: "'k \<Rightarrow> 'v \<Rightarrow> 's \<Rightarrow> 's"
    and remove :: "'k \<Rightarrow> 's \<Rightarrow> 's" and below :: "'k \<Rightarrow> 's \<Rightarrow> 'v list" and under :: "'k \<Rightarrow> 'k \<Rightarrow> bool"
  assumes put_ok: "ok s \<Longrightarrow> ok (put k v s)" and remove_ok: "ok s \<Longrightarrow> ok (remove k s)"
    and lookup_put: "lookup k' (put k v s) = (if k' = k then Some v else lookup k' s)"
    and lookup_remove: "lookup k' (remove k s) = (if under k k' then None else lookup k' s)"
    and below_lookup: "ok s \<Longrightarrow> v \<in> set (below k s) \<longleftrightarrow> (\<exists>k'. under k k' \<and> lookup k' s = Some v)"
    and under_refl: "under k k"
begin

lemma only_below:
  assumes "ok s" and "length (below k s) = 1" and "lookup k s = Some v" and "under k k'" and "lookup k' s = Some w"
  shows "w = v"
proof -
  have "v \<in> set (below k s)" "w \<in> set (below k s)"
    using assms below_lookup [OF assms(1)] under_refl by blast+
  then show ?thesis using assms(2) by (cases "below k s") auto
qed

lemma lookup_below: "ok s \<Longrightarrow> lookup k s = Some v \<Longrightarrow> v \<in> set (below k s)"
  using below_lookup under_refl by blast

end

interpretation uri_trie: subtree_store wf_trie find_at insert_at erase_at all_at prefix
  by unfold_locales (auto simp: wf_insert wf_erase find_insert find_erase all_at_find)

end
