(* ===== verification/Documents.thy ===== *)
theory Documents
  imports UriTrie
begin

text \<open>
  The document registry (\<open>core/workspace/DefaultDocuments.cpp\<close>). Documents are shared objects: a
  handle is a pointer, \<open>heap\<close> the objects. The registry keeps a trie and an index by id of handles,
  and the two maps between URIs and ids, which only grow. Each function runs under the mutex and
  is atomic; \<open>getOrCreateDocument\<close> has two critical sections with the document factory between.
\<close>

subsection \<open>States of a document\<close>

datatype document_state = Changed | Parsed | IndexedContent | ComputedScopes | Linked | IndexedReferences | Validated

text \<open>The enumerators' values; the code compares states by them.\<close>

fun state_index :: "document_state \<Rightarrow> nat" where
  "state_index Changed = 0"
| "state_index Parsed = 1"
| "state_index IndexedContent = 2"
| "state_index ComputedScopes = 3"
| "state_index Linked = 4"
| "state_index IndexedReferences = 5"
| "state_index Validated = 6"

lemma state_index_inject [simp]: "state_index a = state_index b \<longleftrightarrow> a = b"
  by (cases a; cases b) auto

instantiation document_state :: linorder
begin

definition less_eq_document_state :: "document_state \<Rightarrow> document_state \<Rightarrow> bool" where
  "less_eq_document_state a b \<longleftrightarrow> state_index a \<le> state_index b"

definition less_document_state :: "document_state \<Rightarrow> document_state \<Rightarrow> bool" where
  "less_document_state a b \<longleftrightarrow> state_index a < state_index b"

instance
  by intro_classes (auto simp: less_eq_document_state_def less_document_state_def)

end

subsection \<open>The registry\<close>

record document =
  docUri :: string
  docId :: nat
  docState :: document_state

record documents =
  store :: "nat trie"
  documentsById :: "nat \<rightharpoonup> nat"
  documentIdsByUri :: "string \<rightharpoonup> nat"
  documentUrisById :: "nat \<rightharpoonup> string"
  nextDocumentId :: nat
  heap :: "nat \<Rightarrow> document"
  nextHandle :: nat

datatype store_error = WithoutUri | NotNormalized | AlreadyPresent

definition InvalidDocumentId :: nat where
  "InvalidDocumentId = u32_max"

definition new_documents :: documents where
  "new_documents = \<lparr>store = empty_trie, documentsById = (\<lambda>_. None), documentIdsByUri = (\<lambda>_. None),
     documentUrisById = (\<lambda>_. None), nextDocumentId = 1,
     heap = (\<lambda>_. \<lparr>docUri = [], docId = InvalidDocumentId, docState = Changed\<rparr>), nextHandle = 0\<rparr>"

text \<open>A document object is made, by the caller or the document factory.\<close>

definition new_document :: "string \<Rightarrow> documents \<Rightarrow> nat \<times> documents" where
  "new_document uri d = (nextHandle d,
     d\<lparr>heap := (heap d)(nextHandle d := \<lparr>docUri = uri, docId = InvalidDocumentId, docState = Changed\<rparr>),
       nextHandle := nextHandle d + 1\<rparr>)"

definition ensureDocumentIdLocked :: "string \<Rightarrow> documents \<Rightarrow> nat \<times> documents" where
  "ensureDocumentIdLocked uri d =
     (case documentIdsByUri d uri of
        Some i \<Rightarrow> (i, d)
      | None \<Rightarrow> let i = nextDocumentId d in
          (i, d\<lparr>nextDocumentId := u32 (i + 1), documentIdsByUri := (documentIdsByUri d)(uri \<mapsto> i),
            documentUrisById := (case documentUrisById d i of None \<Rightarrow> (documentUrisById d)(i \<mapsto> uri)
              | Some _ \<Rightarrow> documentUrisById d)\<rparr>))"

definition addDocumentLocked :: "string \<Rightarrow> nat \<Rightarrow> documents \<Rightarrow> documents" where
  "addDocumentLocked cwd h d =
     (let uri = docUri (heap d h); (i, d) = ensureDocumentIdLocked uri d in
      d\<lparr>heap := (heap d)(h := (heap d h)\<lparr>docId := i\<rparr>), store := trie_insert cwd uri h (store d),
        documentsById := (documentsById d)(i \<mapsto> h)\<rparr>)"

definition mark_changed :: "nat \<Rightarrow> documents \<Rightarrow> documents" where
  "mark_changed h d = d\<lparr>heap := (heap d)(h := (heap d h)\<lparr>docState := Changed\<rparr>),
     documentsById := (documentsById d)(docId (heap d h) := None)\<rparr>"

definition deleteDocumentLocked :: "string \<Rightarrow> string \<Rightarrow> documents \<Rightarrow> nat option \<times> documents" where
  "deleteDocumentLocked cwd uri d =
     (case trie_find cwd uri (store d) of
        None \<Rightarrow> (None, d)
      | Some h \<Rightarrow> (Some h, (mark_changed h d)\<lparr>store := trie_erase cwd uri (store d)\<rparr>))"

subsection \<open>Lookups\<close>

definition getDocumentId :: "string \<Rightarrow> string \<Rightarrow> documents \<Rightarrow> nat" where
  "getDocumentId cwd uri d = (let u = normalize_uri cwd uri in
     if u = [] then InvalidDocumentId
     else case documentIdsByUri d u of None \<Rightarrow> InvalidDocumentId | Some i \<Rightarrow> i)"

definition hasDocument :: "string \<Rightarrow> string \<Rightarrow> documents \<Rightarrow> bool" where
  "hasDocument cwd uri d = (let u = normalize_uri cwd uri in u \<noteq> [] \<and> trie_has cwd u (store d))"

definition getDocument :: "string \<Rightarrow> string \<Rightarrow> documents \<Rightarrow> nat option" where
  "getDocument cwd uri d = (let u = normalize_uri cwd uri in
     if u = [] then None else trie_find cwd u (store d))"

definition getDocumentById :: "nat \<Rightarrow> documents \<Rightarrow> nat option" where
  "getDocumentById i d = (if i = InvalidDocumentId then None else documentsById d i)"

definition getDocumentUri :: "nat \<Rightarrow> documents \<Rightarrow> string" where
  "getDocumentUri i d = (if i = InvalidDocumentId then [] else
     case documentUrisById d i of None \<Rightarrow> [] | Some u \<Rightarrow> u)"

definition getDocuments :: "string \<Rightarrow> string \<Rightarrow> documents \<Rightarrow> nat list" where
  "getDocuments cwd uri d = (let u = normalize_uri cwd uri in
     if u = [] then [] else trie_find_all cwd u (store d))"

definition all_documents :: "documents \<Rightarrow> nat list" where
  "all_documents d = trie_all (store d)"

subsection \<open>Updates\<close>

definition getOrCreateDocumentId :: "string \<Rightarrow> string \<Rightarrow> documents \<Rightarrow> nat \<times> documents" where
  "getOrCreateDocumentId cwd uri d = (let u = normalize_uri cwd uri in
     if u = [] then (InvalidDocumentId, d) else ensureDocumentIdLocked u d)"

definition addDocument :: "string \<Rightarrow> nat \<Rightarrow> documents \<Rightarrow> store_error + documents" where
  "addDocument cwd h d = (let uri = docUri (heap d h) in
     if uri = [] then Inl WithoutUri
     else if uri \<noteq> normalize_uri cwd uri then Inl NotNormalized
     else if trie_has cwd uri (store d) then Inl AlreadyPresent
     else Inr (addDocumentLocked cwd h d))"

text \<open>The critical section of \<open>createDocument\<close> behind the factory, which made \<open>h\<close>.\<close>

definition createDocument :: "string \<Rightarrow> nat \<Rightarrow> documents \<Rightarrow> store_error + documents" where
  "createDocument cwd h d =
     (if trie_has cwd (docUri (heap d h)) (store d) then Inl AlreadyPresent else Inr (addDocumentLocked cwd h d))"

text \<open>
  The two critical sections of \<open>getOrCreateDocument\<close>. The first returns a document or a null
  pointer (\<open>Inl\<close>), or asks the factory for the document of a URI (\<open>Inr\<close>).
\<close>

definition getOrCreate_find :: "string \<Rightarrow> string \<Rightarrow> documents \<Rightarrow> nat option + string" where
  "getOrCreate_find cwd uri d = (let u = normalize_uri cwd uri in
     if u = [] then Inl None
     else case trie_find cwd u (store d) of Some h \<Rightarrow> Inl (Some h) | None \<Rightarrow> Inr u)"

definition getOrCreate_add :: "string \<Rightarrow> nat \<Rightarrow> documents \<Rightarrow> nat \<times> documents" where
  "getOrCreate_add cwd h d =
     (case trie_find cwd (docUri (heap d h)) (store d) of
        Some e \<Rightarrow> (e, d)
      | None \<Rightarrow> (h, addDocumentLocked cwd h d))"

definition deleteDocument :: "string \<Rightarrow> string \<Rightarrow> documents \<Rightarrow> nat option \<times> documents" where
  "deleteDocument cwd uri d = (let u = normalize_uri cwd uri in
     if u = [] then (None, d) else deleteDocumentLocked cwd u d)"

definition deleteDocumentById :: "string \<Rightarrow> nat \<Rightarrow> documents \<Rightarrow> nat option \<times> documents" where
  "deleteDocumentById cwd i d =
     (if i = InvalidDocumentId then (None, d)
      else case documentsById d i of None \<Rightarrow> (None, d)
        | Some h \<Rightarrow> deleteDocumentLocked cwd (docUri (heap d h)) d)"

definition deleteDocuments :: "string \<Rightarrow> string \<Rightarrow> documents \<Rightarrow> nat list \<times> documents" where
  "deleteDocuments cwd uri d = (let u = normalize_uri cwd uri in
     if u = [] then ([], d)
     else let hs = trie_find_all cwd u (store d) in
       (hs, (fold mark_changed hs d)\<lparr>store := trie_erase cwd u (store d)\<rparr>))"

lemmas registry_defs = getDocumentId_def hasDocument_def getDocument_def getDocumentById_def getDocumentUri_def
  getDocuments_def getOrCreateDocumentId_def addDocument_def createDocument_def getOrCreate_add_def
  deleteDocument_def deleteDocumentById_def deleteDocuments_def

subsection \<open>The invariant\<close>

text \<open>
  The maps between URIs and ids are inverse to each other below the next id; a registered document
  has a normalised URI with its own id and is reached by both, the trie and the id.
\<close>

definition ids_ok :: "documents \<Rightarrow> bool" where
  "ids_ok d \<longleftrightarrow> (\<forall>u i. documentIdsByUri d u = Some i \<longleftrightarrow> documentUrisById d i = Some u) \<and>
     (\<forall>i u. documentUrisById d i = Some u \<longrightarrow> 1 \<le> i \<and> i < nextDocumentId d)"

definition key :: "documents \<Rightarrow> nat \<Rightarrow> string list" where
  "key d h = splitSegments (docUri (heap d h))"

definition registered :: "string \<Rightarrow> documents \<Rightarrow> nat \<Rightarrow> bool" where
  "registered cwd d h \<longleftrightarrow> h < nextHandle d \<and> docUri (heap d h) \<noteq> [] \<and> normalize_uri cwd (docUri (heap d h)) = docUri (heap d h) \<and>
     documentIdsByUri d (docUri (heap d h)) = Some (docId (heap d h)) \<and>
     find_at (key d h) (store d) = Some h \<and> documentsById d (docId (heap d h)) = Some h"

definition documents_ok :: "string \<Rightarrow> documents \<Rightarrow> bool" where
  "documents_ok cwd d \<longleftrightarrow> wf_trie (store d) \<and> ids_ok d \<and>
     (\<forall>k h. find_at k (store d) = Some h \<longrightarrow> k = key d h \<and> registered cwd d h) \<and>
     (\<forall>i h. documentsById d i = Some h \<longrightarrow> i = docId (heap d h) \<and> registered cwd d h)"

definition room :: "documents \<Rightarrow> bool" where
  "room d \<longleftrightarrow> 1 \<le> nextDocumentId d \<and> nextDocumentId d < u32_max"

lemma new_documents_ok: "documents_ok cwd new_documents"
  by (simp add: documents_ok_def ids_ok_def new_documents_def)

lemma ensure_id:
  assumes "ids_ok d" and "room d" and "ensureDocumentIdLocked uri d = (i, d')"
  shows "ids_ok d' \<and> documentIdsByUri d' uri = Some i \<and> documentIdsByUri d \<subseteq>\<^sub>m documentIdsByUri d' \<and>
    store d' = store d \<and> documentsById d' = documentsById d \<and> heap d' = heap d \<and> nextHandle d' = nextHandle d \<and>
    (documentIdsByUri d uri = None \<longrightarrow> i = nextDocumentId d)"
proof (cases "documentIdsByUri d uri")
  case (Some j)
  then show ?thesis using assms by (simp add: ensureDocumentIdLocked_def)
next
  case None
  have free: "documentUrisById d (nextDocumentId d) = None"
    using assms(1) by (cases "documentUrisById d (nextDocumentId d)") (auto simp: ids_ok_def)
  have small: "u32 (nextDocumentId d + 1) = nextDocumentId d + 1" using assms(2) by (simp add: room_def)
  have d': "i = nextDocumentId d" "d' = d\<lparr>nextDocumentId := nextDocumentId d + 1,
      documentIdsByUri := (documentIdsByUri d)(uri \<mapsto> nextDocumentId d),
      documentUrisById := (documentUrisById d)(nextDocumentId d \<mapsto> uri)\<rparr>"
    using assms(3) None free small by (auto simp: ensureDocumentIdLocked_def Let_def)
  have "ids_ok d'"
    using assms(1,2) None free unfolding ids_ok_def d'
    by (auto simp: room_def less_Suc_eq) (metis option.distinct(1))+
  then show ?thesis using None by (auto simp: d' map_le_def)
qed

lemma ensure_ok:
  assumes "documents_ok cwd d" and "room d" and "ensureDocumentIdLocked uri d = (i, d')"
  shows "documents_ok cwd d'"
proof -
  note e = ensure_id [OF _ assms(2,3)]
  have i: "ids_ok d" using assms(1) by (simp add: documents_ok_def)
  have "registered cwd d h \<Longrightarrow> registered cwd d' h" for h
    using e [OF i] by (auto simp: registered_def key_def map_le_def dom_def)
  then show ?thesis using assms(1) e [OF i] by (auto simp: documents_ok_def key_def)
qed

end
