(* ===== verification/UriProps.thy ===== *)
theory UriProps
  imports Uri "HOL-Library.Sublist"
begin

text \<open>
  Normal paths and what URIs keep: percent encoding loses nothing, a normalised URI is a fixed
  point that names the normal absolute path, containment is the prefix order of the names, and a
  relative URI leads from the one path to the other.
\<close>

subsection \<open>Names and separators\<close>

definition plain :: "string \<Rightarrow> bool" where
  "plain x \<longleftrightarrow> x \<noteq> [] \<and> CHR ''/'' \<notin> set x \<and> x \<noteq> ''.'' \<and> x \<noteq> ''..''"

definition abs_path :: "string list \<Rightarrow> bool \<Rightarrow> string" where
  "abs_path ns slash = CHR ''/'' # join_names ns @ (if slash then ''/'' else [])"

lemma split_slash_not_Nil [simp]: "split_slash s \<noteq> []"
  by (induction s) (auto split: list.splits)

lemma split_slash_append: "split_slash (a @ CHR ''/'' # b) = split_slash a @ split_slash b"
  by (induction a) (auto split: list.splits)

lemma split_slash_single: "CHR ''/'' \<notin> set x \<Longrightarrow> split_slash x = [x]"
  by (induction x) auto

lemma split_slash_names: "x \<in> set (split_slash s) \<Longrightarrow> CHR ''/'' \<notin> set x"
proof (induction s arbitrary: x)
  case (Cons c s)
  then show ?case by (cases "split_slash s") (auto split: if_splits)
qed simp

lemma path_names_append: "path_names (a @ CHR ''/'' # b) = path_names a @ path_names b"
  by (simp add: path_names_def split_slash_append)

lemma path_names_slash [simp]: "path_names (CHR ''/'' # s) = path_names s"
  using path_names_append [of "[]" s] by (simp add: path_names_def)

lemma path_names_Nil [simp]: "path_names [] = []"
  by (simp add: path_names_def)

lemma path_names_plain: "plain x \<Longrightarrow> path_names x = [x]"
  by (simp add: path_names_def split_slash_single plain_def)

lemma path_names_ok: "x \<in> set (path_names p) \<Longrightarrow> x \<noteq> [] \<and> CHR ''/'' \<notin> set x"
  using split_slash_names by (auto simp: path_names_def)

definition name_ok :: "string \<Rightarrow> bool" where
  "name_ok x \<longleftrightarrow> x \<noteq> [] \<and> CHR ''/'' \<notin> set x"

lemma path_names_join: "list_all name_ok ns \<Longrightarrow> path_names (join_names ns) = ns"
proof (induction ns rule: join_names.induct)
  case (3 x y xs)
  from 3 have "path_names x = [x]" by (simp add: path_names_def split_slash_single name_ok_def)
  then show ?case using 3 by (simp add: path_names_append)
qed (simp_all add: path_names_def split_slash_single name_ok_def)

lemma plain_name_ok: "plain x \<Longrightarrow> name_ok x"
  by (simp add: plain_def name_ok_def)

lemma plains_ok: "list_all plain ns \<Longrightarrow> list_all name_ok ns"
  by (auto simp: list_all_iff plain_name_ok)

lemma path_names_slash_end: "path_names (s @ ''/'') = path_names s"
  using path_names_append [of s "[]"] by simp

lemma path_names_abs: "list_all plain ns \<Longrightarrow> path_names (abs_path ns slash) = ns"
  using path_names_slash_end [of "join_names ns"]
  by (simp add: abs_path_def path_names_join plains_ok)

lemma last_join: "list_all name_ok ns \<Longrightarrow> ns \<noteq> [] \<Longrightarrow> join_names ns \<noteq> [] \<and> last (join_names ns) \<noteq> CHR ''/''"
proof (induction ns rule: join_names.induct)
  case (2 x)
  then have "x \<noteq> []" "CHR ''/'' \<notin> set x" by (simp_all add: name_ok_def)
  then have "last x \<in> set x" by simp
  then have "last x \<noteq> CHR ''/''" using \<open>CHR ''/'' \<notin> set x\<close> by metis
  then show ?case using \<open>x \<noteq> []\<close> by simp
next
  case (3 x y xs)
  then show ?case by simp
qed simp

lemma ends_abs: "list_all plain ns \<Longrightarrow> ends_with_slash (abs_path ns slash) \<longleftrightarrow> slash \<or> ns = []"
  using last_join [OF plains_ok, of ns] by (auto simp: ends_with_slash_def abs_path_def)

lemma is_absolute_abs [simp]: "is_absolute (abs_path ns slash)"
  by (simp add: is_absolute_def abs_path_def)

subsection \<open>Normal paths\<close>

lemma fold_plain: "list_all plain xs \<Longrightarrow>
    foldl (normal_step rooted) (st, b) xs = (rev xs @ st, b \<and> xs = [])"
  by (induction xs arbitrary: st b) (auto simp: normal_step_def plain_def Let_def)

lemma step_plain: "list_all plain (fst a) \<Longrightarrow> name_ok x \<Longrightarrow> list_all plain (fst (normal_step True a x))"
  by (auto simp: normal_step_def plain_def name_ok_def Let_def split: list.splits)

lemma fold_keeps_plain:
  "list_all plain (fst a) \<Longrightarrow> list_all name_ok xs \<Longrightarrow> list_all plain (fst (foldl (normal_step True) a xs))"
proof (induction xs arbitrary: a)
  case (Cons x xs)
  then show ?case using step_plain [of a x] by simp
qed simp

lemma lexically_normal_abs: "list_all plain ns \<Longrightarrow> slash \<longrightarrow> ns \<noteq> [] \<Longrightarrow>
    lexically_normal (abs_path ns slash) = abs_path ns slash"
proof -
  assume a: "list_all plain ns" "slash \<longrightarrow> ns \<noteq> []"
  have "hd (rev ns) \<noteq> ''..''" if "ns \<noteq> []"
    using a(1) that last_in_set [OF that] by (auto simp: hd_rev list_all_iff plain_def)
  moreover have "abs_path ns slash \<noteq> []" by (simp add: abs_path_def)
  ultimately show ?thesis using a
    by (auto simp: lexically_normal_def path_names_abs fold_plain ends_abs) (auto simp: abs_path_def)
qed

lemma lexically_normal_absolute:
  assumes "is_absolute p"
  obtains ns slash where "list_all plain ns" "slash \<longrightarrow> ns \<noteq> []" "lexically_normal p = abs_path ns slash"
proof -
  obtain st b where st: "foldl (normal_step True) ([], False) (path_names p) = (st, b)" by (metis surj_pair)
  have "list_all name_ok (path_names p)" using path_names_ok by (auto simp: list_all_iff name_ok_def)
  from fold_keeps_plain [OF _ this, of "([], False)"] st have plain: "list_all plain st" by simp
  have p: "p \<noteq> []" using assms by (auto simp: is_absolute_def)
  let ?slash = "(b \<or> ends_with_slash p) \<and> st \<noteq> []"
  have "hd st \<noteq> ''..''" if "st \<noteq> []" using plain that by (cases st) (auto simp: plain_def)
  then have "lexically_normal p = abs_path (rev st) ?slash"
    using st p assms by (simp add: lexically_normal_def abs_path_def)
  with that [of "rev st" ?slash] plain show thesis by (simp add: list_all_iff)
qed

lemma absolute_path_absolute: "is_absolute cwd \<Longrightarrow> is_absolute (absolute_path cwd p)"
  by (auto simp: absolute_path_def is_absolute_def)

lemma absolute_path_abs [simp]: "absolute_path cwd (abs_path ns slash) = abs_path ns slash"
  by (simp add: absolute_path_def)

text \<open>The path a relative or absolute path denotes.\<close>

definition normal_path :: "string \<Rightarrow> string \<Rightarrow> string" where
  "normal_path cwd p = lexically_normal (absolute_path cwd p)"

lemma normal_pathE:
  assumes "is_absolute cwd"
  obtains ns slash where "list_all plain ns" "slash \<longrightarrow> ns \<noteq> []" "normal_path cwd p = abs_path ns slash"
  using lexically_normal_absolute [OF absolute_path_absolute [OF assms]] by (metis normal_path_def)

subsection \<open>URIs of paths\<close>

lemma encode_starts: "\<exists>t. percent_encode (CHR ''/'' # s) = CHR ''/'' # t"
  by (auto simp: percent_encode_def encode_byte_def is_unreserved_def)

lemma file_scheme [simp]: "has_file_scheme (''file://'' @ s)"
  by (simp add: has_file_scheme_def tolower_def)

lemma file_uri_of_slash: "file_uri_to_path (''file://'' @ percent_encode (CHR ''/'' # s)) = Some (CHR ''/'' # s)"
proof -
  obtain t where t: "percent_encode (CHR ''/'' # s) = CHR ''/'' # t" using encode_starts by blast
  have "has_file_scheme (''file://'' @ CHR ''/'' # t)" by (rule file_scheme)
  then show ?thesis using decode_encode [of "CHR ''/'' # s"] t by (simp add: file_uri_to_path_def)
qed

lemma path_to_uri: "is_absolute cwd \<Longrightarrow> path_to_file_uri cwd p = ''file://'' @ percent_encode (normal_path cwd p)"
proof -
  assume c: "is_absolute cwd"
  obtain ns slash where "normal_path cwd p = abs_path ns slash" by (rule normal_pathE [OF c])
  then show ?thesis by (simp add: path_to_file_uri_def abs_path_def Let_def flip: normal_path_def)
qed

lemma uri_to_path: "is_absolute cwd \<Longrightarrow> file_uri_to_path (path_to_file_uri cwd p) = Some (normal_path cwd p)"
proof -
  assume c: "is_absolute cwd"
  obtain ns slash where "normal_path cwd p = abs_path ns slash" by (rule normal_pathE [OF c])
  then show ?thesis unfolding path_to_uri [OF c] abs_path_def by (simp only: file_uri_of_slash)
qed

lemma normal_path_idem: "is_absolute cwd \<Longrightarrow> normal_path cwd (normal_path cwd p) = normal_path cwd p"
proof -
  assume c: "is_absolute cwd"
  obtain ns slash where "list_all plain ns" "slash \<longrightarrow> ns \<noteq> []" "normal_path cwd p = abs_path ns slash"
    by (rule normal_pathE [OF c])
  then show ?thesis using lexically_normal_abs [of ns slash] by (simp add: normal_path_def)
qed

lemma normalize_of_path: "is_absolute cwd \<Longrightarrow> normalize_uri cwd (path_to_file_uri cwd p) = path_to_file_uri cwd p"
  by (simp only: normalize_uri_def uri_to_path option.case) (simp only: path_to_uri normal_path_idem)

lemma normalize_idem: "is_absolute cwd \<Longrightarrow> normalize_uri cwd (normalize_uri cwd u) = normalize_uri cwd u"
  using normalize_of_path by (cases "file_uri_to_path u") (simp_all add: normalize_uri_def)

text \<open>
  C20: percent encoding is lossless. Decoding the encoding of any bytes gives the bytes back, and
  the encoding consists of unreserved characters and percent signs only.
\<close>

theorem percent_roundtrip:
  "percent_decode (percent_encode s) = s \<and> list_all (\<lambda>c. is_unreserved c \<or> c = CHR ''%'') (percent_encode s)"
proof -
  have hex: "is_unreserved (to_hex v)" if "v < 16" for v
    using that by (cases "v < 10") (simp_all add: is_unreserved_def to_hex_def Let_def)
  have "list_all (\<lambda>c. is_unreserved c \<or> c = CHR ''%'') (encode_byte c)" for c
    using hex by (simp add: encode_byte_def mask_simps)
  then have "list_all (\<lambda>c. is_unreserved c \<or> c = CHR ''%'') (concat (map encode_byte s))"
    by (induction s) auto
  moreover have "list_all is_unreserved s \<Longrightarrow> list_all (\<lambda>c. is_unreserved c \<or> c = CHR ''%'') s"
    by (auto simp: list_all_iff)
  ultimately have "list_all (\<lambda>c. is_unreserved c \<or> c = CHR ''%'') (percent_encode s)"
    by (simp add: percent_encode_def)
  then show ?thesis by (simp add: decode_encode)
qed



lemma leading_prefix: "leading xs ys \<longleftrightarrow> prefix xs ys"
  by (induction xs ys rule: leading.induct) auto

lemma drop_slashes_hd: "s \<noteq> [] \<Longrightarrow> hd s \<noteq> CHR ''/'' \<Longrightarrow> drop_slashes s = s"
  by (cases s) auto

lemma normalize_abs:
  assumes "list_all plain ns" "slash \<longrightarrow> ns \<noteq> []"
  shows "normalize_file_path (abs_path ns slash) = abs_path ns False"
proof (cases "ns = []")
  case True
  then show ?thesis using assms lexically_normal_abs [of ns slash]
    by (simp add: normalize_file_path_def abs_path_def)
next
  case False
  let ?s = "rev (CHR ''/'' # join_names ns)"
  have "hd ?s \<noteq> CHR ''/''" using last_join [OF plains_ok [OF assms(1)] False] by (simp add: hd_append hd_rev)
  then have "drop_slashes ?s = ?s" by (intro drop_slashes_hd) auto
  then show ?thesis using assms lexically_normal_abs [of ns slash]
    by (cases slash) (simp_all add: normalize_file_path_def abs_path_def)
qed

lemma elements_abs: "list_all plain ns \<Longrightarrow> path_elements (abs_path ns False) = ''/'' # ns"
  using ends_abs [of ns False] by (auto simp: path_elements_def path_names_abs)

lemma names_of_uri:
  assumes "is_absolute cwd"
  shows "path_elements (normalize_file_path (normal_path cwd p)) = ''/'' # path_names (normal_path cwd p)"
proof -
  obtain ns slash where ns: "list_all plain ns" "slash \<longrightarrow> ns \<noteq> []" "normal_path cwd p = abs_path ns slash"
    by (rule normal_pathE [OF assms])
  then show ?thesis by (simp add: normalize_abs elements_abs path_names_abs)
qed

text \<open>
  Containment is the order of paths. A file URI contains another exactly when the names of its
  normal path are a prefix of the names of the other's, whatever their spelling.
\<close>

theorem contains_uri_prefix:
  assumes "is_absolute cwd" and "file_uri_to_path parent = Some p" and "file_uri_to_path child = Some q"
  shows "contains_uri cwd parent child \<longleftrightarrow>
    prefix (path_names (lexically_normal (absolute_path cwd p))) (path_names (lexically_normal (absolute_path cwd q)))"
proof -
  have n: "normalize_uri cwd parent = path_to_file_uri cwd p" "normalize_uri cwd child = path_to_file_uri cwd q"
    using assms(2,3) by (simp_all add: normalize_uri_def)
  have "normal_path cwd p = normal_path cwd q" if "path_to_file_uri cwd p = path_to_file_uri cwd q"
    using uri_to_path [OF assms(1)] that by (metis option.inject)
  then show ?thesis
    unfolding contains_uri_def n Let_def uri_to_path [OF assms(1)] normal_path_def [symmetric]
    by (auto simp: names_of_uri [OF assms(1)] leading_prefix)
qed

theorem contains_uri_prefix_witness:
  "contains_uri ''/w'' ''file:///w/src/'' ''FILE://localhost/w/x/../src/a.txt''"
proof -
  have "file_uri_to_path ''file:///w/src/'' = Some ''/w/src/''"
    "file_uri_to_path ''FILE://localhost/w/x/../src/a.txt'' = Some ''/w/x/../src/a.txt''"
    "prefix (path_names (lexically_normal (absolute_path ''/w'' ''/w/src/'')))
      (path_names (lexically_normal (absolute_path ''/w'' ''/w/x/../src/a.txt'')))"
    by code_simp+
  then show ?thesis using contains_uri_prefix [of "''/w''"] by (simp add: is_absolute_def)
qed

subsection \<open>Relative URIs\<close>

lemma names_of_normal:
  assumes "is_absolute p"
  shows "path_names (lexically_normal p) = rev (fst (foldl (normal_step True) ([], False) (path_names p)))"
proof -
  obtain st b where st: "foldl (normal_step True) ([], False) (path_names p) = (st, b)" by (metis surj_pair)
  have "list_all name_ok (path_names p)" using path_names_ok by (auto simp: list_all_iff name_ok_def)
  from fold_keeps_plain [OF _ this, of "([], False)"] st have plain: "list_all plain st" by simp
  have p: "p \<noteq> []" using assms by (auto simp: is_absolute_def)
  have "hd st \<noteq> ''..''" if "st \<noteq> []" using plain that by (cases st) (auto simp: plain_def)
  then have "lexically_normal p = abs_path (rev st) ((b \<or> ends_with_slash p) \<and> st \<noteq> [])"
    using st p assms by (simp add: lexically_normal_def abs_path_def)
  then show ?thesis using plain st by (simp add: path_names_abs list_all_iff)
qed

lemma mismatch_split: "mismatch xs ys = (us, vs) \<Longrightarrow> \<exists>c. xs = c @ us \<and> ys = c @ vs"
proof (induction xs ys arbitrary: us vs rule: mismatch.induct)
  case (1 x xs y ys)
  show ?case
  proof (cases "x = y")
    case True
    then obtain c where "xs = c @ us" "ys = c @ vs" using 1 by auto
    then show ?thesis using True by (intro exI [of _ "x # c"]) simp
  qed (use 1 in simp)
qed auto

lemma climb_plain: "list_all plain ys \<Longrightarrow> climb ys = int (length ys)"
  by (induction ys) (auto simp: climb_def plain_def)

lemma fold_climb: "list_all plain vs \<Longrightarrow>
    fst (foldl (normal_step True) (vs @ st, b) (replicate (length vs) ''..'')) = st"
  by (induction vs arbitrary: b) (auto simp: normal_step_def plain_def Let_def)

lemma names_ok_dots: "list_all name_ok (replicate n ''..'')"
  by (auto simp: name_ok_def list_all_iff)

lemma join_not_Nil: "list_all name_ok xs \<Longrightarrow> xs \<noteq> [] \<Longrightarrow> join_names xs \<noteq> []"
  using last_join by blast

lemma relative_names:
  assumes "list_all plain ns" and "list_all plain ms"
  shows "\<exists>r. lexically_relative (abs_path ns False) (abs_path ms False) = r \<and> r \<noteq> [] \<and>
    fst (foldl (normal_step True) ([], False) (ms @ path_names r)) = rev ns"
proof -
  obtain us vs where m: "mismatch (''/'' # ns) (''/'' # ms) = (us, vs)" by (metis surj_pair)
  then obtain c where c: "ns = c @ us" "ms = c @ vs" using mismatch_split [of ns ms us vs] by auto
  have plain: "list_all plain us" "list_all plain vs" "list_all plain c" using assms c by simp_all
  define n where "n = length vs"
  have climb: "climb vs = int n" by (simp add: climb_plain plain n_def)
  have ms: "foldl (normal_step True) ([], False) ms = (rev vs @ rev c, False)"
    using fold_plain [OF assms(2), of True "[]" False] c by simp
  let ?names = "replicate n ''..'' @ us"
  have ok: "list_all name_ok ?names" using names_ok_dots [of n] plain(1) plains_ok by simp
  show ?thesis
  proof (cases "us = [] \<and> vs = []")
    case True
    then have "lexically_relative (abs_path ns False) (abs_path ms False) = ''.''"
      using m by (simp add: lexically_relative_def elements_abs assms)
    moreover have "path_names ''.'' = [''.'']" by (simp add: path_names_def)
    ultimately show ?thesis using ms True c by (simp add: normal_step_def Let_def)
  next
    case False
    have "hd us \<noteq> []" if "us \<noteq> []" using plain(1) that by (cases us) (auto simp: plain_def)
    then have "lexically_relative (abs_path ns False) (abs_path ms False) = join_names ?names"
      using m climb False by (auto simp: lexically_relative_def elements_abs assms n_def)
    moreover have "join_names ?names \<noteq> []" using ok False by (intro join_not_Nil) (auto simp: n_def)
    moreover have "fst (foldl (normal_step True) (rev vs @ rev c, False) ?names) = rev ns"
    proof -
      have "fst (foldl (normal_step True) (rev vs @ rev c, False) (replicate n ''..'')) = rev c"
        using fold_climb [of "rev vs" "rev c" False] plain(2) by (simp add: n_def list_all_iff)
      then show ?thesis using fold_plain [OF plain(1)] c by (metis foldl_append fst_conv rev_append surj_pair)
    qed
    ultimately show ?thesis using ms ok by (simp add: path_names_join)
  qed
qed

text \<open>
  A relative URI leads to its target. For two file URIs, the result appended to the source's
  normal path and normalised again has exactly the names of the target's normal path.
\<close>

theorem relative_uri_resolves:
  assumes "is_absolute cwd" and "file_uri_to_path source = Some p" and "file_uri_to_path target = Some q"
  shows "path_names (lexically_normal (lexically_normal (absolute_path cwd p) @ ''/'' @ relative_uri cwd source target)) =
    path_names (lexically_normal (absolute_path cwd q))"
proof -
  obtain ms b where ms: "list_all plain ms" "b \<longrightarrow> ms \<noteq> []" "normal_path cwd p = abs_path ms b"
    by (rule normal_pathE [OF assms(1)])
  obtain ns d where ns: "list_all plain ns" "d \<longrightarrow> ns \<noteq> []" "normal_path cwd q = abs_path ns d"
    by (rule normal_pathE [OF assms(1)])
  have n: "normalize_uri cwd source = path_to_file_uri cwd p" "normalize_uri cwd target = path_to_file_uri cwd q"
    using assms(2,3) by (simp_all add: normalize_uri_def)
  obtain r where r: "lexically_relative (abs_path ns False) (abs_path ms False) = r" "r \<noteq> []"
    "fst (foldl (normal_step True) ([], False) (ms @ path_names r)) = rev ns"
    using relative_names [OF ns(1) ms(1)] by blast
  have "relative_uri cwd source target = r"
    unfolding relative_uri_def n Let_def uri_to_path [OF assms(1)]
    using r by (simp add: ms ns normalize_abs)
  moreover have "path_names (lexically_normal (normal_path cwd p @ ''/'' @ r)) = ns"
  proof -
    have "is_absolute (normal_path cwd p @ ''/'' @ r)" by (simp add: ms is_absolute_def abs_path_def)
    from names_of_normal [OF this] show ?thesis
      using r(3) path_names_append [of "normal_path cwd p" r] by (simp add: ms path_names_abs)
  qed
  ultimately show ?thesis using ns by (simp add: path_names_abs flip: normal_path_def)
qed

theorem relative_uri_resolves_witness:
  "path_names (lexically_normal (''/w/src/a'' @ ''/'' @ relative_uri ''/w'' ''file:///w/src/a'' ''file:///w/lib/b'')) =
    [''w'', ''lib'', ''b'']"
proof -
  have "file_uri_to_path ''file:///w/src/a'' = Some ''/w/src/a''" "file_uri_to_path ''file:///w/lib/b'' = Some ''/w/lib/b''"
    "lexically_normal (absolute_path ''/w'' ''/w/src/a'') = ''/w/src/a''"
    "path_names (lexically_normal (absolute_path ''/w'' ''/w/lib/b'')) = [''w'', ''lib'', ''b'']"
    by code_simp+
  then show ?thesis
    using relative_uri_resolves [of "''/w''" "''file:///w/src/a''" "''/w/src/a''" "''file:///w/lib/b''" "''/w/lib/b''"]
    by (simp add: is_absolute_def)
qed

end
