(* ===== verification/DocumentsProps.thy ===== *)
theory DocumentsProps
  imports Documents UriProps "HOL-Library.Code_Target_Nat"
begin

text \<open>
  The registry keeps its trie, its id index and its id maps consistent, and ids never change, as
  long as a single document is only deleted when no document lies below its URI: what the code
  asserts. The last property shows what happens otherwise.
\<close>

lemma stored: "documents_ok cwd d \<Longrightarrow> find_at k (store d) = Some h \<Longrightarrow> k = key d h \<and> registered cwd d h"
  and indexed: "documents_ok cwd d \<Longrightarrow> documentsById d i = Some h \<Longrightarrow> i = docId (heap d h) \<and> registered cwd d h"
  unfolding documents_ok_def by blast+

lemma registered_byId: "registered cwd d h \<Longrightarrow> documentsById d (docId (heap d h)) = Some h"
  unfolding registered_def by blast

subsection \<open>Adding\<close>

lemma add_locked_fields:
  assumes "ids_ok d" "room d"
  shows "\<exists>i. ids_ok (addDocumentLocked cwd h d) \<and> documentIdsByUri (addDocumentLocked cwd h d) (docUri (heap d h)) = Some i \<and>
    documentIdsByUri d \<subseteq>\<^sub>m documentIdsByUri (addDocumentLocked cwd h d) \<and>
    heap (addDocumentLocked cwd h d) = (heap d)(h := (heap d h)\<lparr>docId := i\<rparr>) \<and>
    store (addDocumentLocked cwd h d) = trie_insert cwd (docUri (heap d h)) h (store d) \<and>
    documentsById (addDocumentLocked cwd h d) = (documentsById d)(i \<mapsto> h) \<and>
    nextHandle (addDocumentLocked cwd h d) = nextHandle d"
proof -
  obtain i d' where e: "ensureDocumentIdLocked (docUri (heap d h)) d = (i, d')" by (metis surj_pair)
  from ensure_id [OF assms e] show ?thesis
    by (auto simp: addDocumentLocked_def Let_def e ids_ok_def)
qed

lemma add_locked_ok:
  assumes ok: "documents_ok cwd d" and "room d" and h: "h < nextHandle d"
    and norm: "docUri (heap d h) \<noteq> []" "normalize_uri cwd (docUri (heap d h)) = docUri (heap d h)"
    and free: "find_at (key d h) (store d) = None"
  shows "documents_ok cwd (addDocumentLocked cwd h d)"
proof -
  let ?u = "docUri (heap d h)" and ?d = "addDocumentLocked cwd h d"
  have ids: "ids_ok d" using ok by (simp add: documents_ok_def)
  obtain i where i: "ids_ok ?d" "documentIdsByUri ?d ?u = Some i" "documentIdsByUri d \<subseteq>\<^sub>m documentIdsByUri ?d"
    "heap ?d = (heap d)(h := (heap d h)\<lparr>docId := i\<rparr>)" "store ?d = insert_at (key d h) h (store d)"
    "documentsById ?d = (documentsById d)(i \<mapsto> h)" "nextHandle ?d = nextHandle d"
    using add_locked_fields [OF ids assms(2), of cwd h] norm by (auto simp: trie_insert_def key_def)
  have keys: "key ?d x = key d x" for x by (simp add: key_def i(4))
  have self: "registered cwd ?d h"
    using h norm i by (auto simp: registered_def keys find_insert)
  have other: "registered cwd ?d x \<and> docId (heap d x) \<noteq> i" if x: "registered cwd d x" for x
  proof -
    have ne: "x \<noteq> h" "key d x \<noteq> key d h" using x free by (auto simp: registered_def)
    have uri: "documentIdsByUri ?d (docUri (heap d x)) = Some (docId (heap d x))"
      using x i(3) by (auto simp: registered_def map_le_def dom_def)
    have "docUri (heap d x) \<noteq> ?u" using ne(2) by (auto simp: key_def)
    then have "docId (heap d x) \<noteq> i" using uri i(1,2) by (metis ids_ok_def option.inject)
    then show ?thesis using x ne uri i by (auto simp: registered_def keys find_insert)
  qed
  have store: "k = key ?d x \<and> registered cwd ?d x" if "find_at k (store ?d) = Some x" for k x
    using that ok self other [of x] by (auto simp: i(5) find_insert keys documents_ok_def split: if_splits)
  have byid: "j = docId (heap ?d x) \<and> registered cwd ?d x" if "documentsById ?d j = Some x" for j x
    using that ok self other [of x] free by (auto simp: i documents_ok_def registered_def split: if_splits)
  have "wf_trie (store ?d)" using ok wf_insert by (auto simp: i(5) documents_ok_def)
  then show ?thesis using i(1) store byid by (simp add: documents_ok_def)
qed

subsection \<open>Deleting\<close>

lemma mark_changed_fields [simp]:
  "store (mark_changed h d) = store d" "documentIdsByUri (mark_changed h d) = documentIdsByUri d"
  "documentUrisById (mark_changed h d) = documentUrisById d" "nextDocumentId (mark_changed h d) = nextDocumentId d"
  "nextHandle (mark_changed h d) = nextHandle d" "docUri (heap (mark_changed h d) x) = docUri (heap d x)"
  "docId (heap (mark_changed h d) x) = docId (heap d x)"
  "documentsById (mark_changed h d) = (documentsById d)(docId (heap d h) := None)"
  by (simp_all add: mark_changed_def)

lemma fold_mark_fields [simp]:
  "store (fold mark_changed hs d) = store d" "documentIdsByUri (fold mark_changed hs d) = documentIdsByUri d"
  "documentUrisById (fold mark_changed hs d) = documentUrisById d"
  "nextDocumentId (fold mark_changed hs d) = nextDocumentId d"
  "nextHandle (fold mark_changed hs d) = nextHandle d" "docUri (heap (fold mark_changed hs d) x) = docUri (heap d x)"
  "docId (heap (fold mark_changed hs d) x) = docId (heap d x)"
  by (induction hs arbitrary: d) simp_all

lemma fold_mark_byId:
  "documentsById (fold mark_changed hs d) i =
    (if i \<in> (\<lambda>h. docId (heap d h)) ` set hs then None else documentsById d i)"
  by (induction hs arbitrary: d) auto

text \<open>Both deletions: mark the documents \<open>hs\<close> at or below \<open>k\<close> and erase the node.\<close>

lemma delete_ok:
  assumes ok: "documents_ok cwd d" and hs: "set hs = set (all_at k (store d))"
  shows "documents_ok cwd ((fold mark_changed hs d)\<lparr>store := erase_at k (store d)\<rparr>)"
proof -
  let ?d = "(fold mark_changed hs d)\<lparr>store := erase_at k (store d)\<rparr>"
  have wf: "wf_trie (store d)" using ok by (simp add: documents_ok_def)
  have gone: "x \<in> set hs \<longleftrightarrow> prefix k (key d x)" if "registered cwd d x" for x
  proof -
    have "x \<in> set hs \<longleftrightarrow> (\<exists>k'. prefix k k' \<and> find_at k' (store d) = Some x)"
      unfolding hs by (rule all_at_find [OF wf])
    also have "\<dots> \<longleftrightarrow> prefix k (key d x)"
      using that stored [OF ok, of _ x] unfolding registered_def by blast
    finally show ?thesis .
  qed
  have keys: "key ?d x = key d x" for x by (simp add: key_def)
  have stays: "registered cwd ?d x" if x: "registered cwd d x" "\<not> prefix k (key d x)" for x
  proof -
    have "docId (heap d x) \<noteq> docId (heap d y)" if y: "y \<in> set hs" for y
    proof
      assume same: "docId (heap d x) = docId (heap d y)"
      obtain k' where "find_at k' (store d) = Some y" using y unfolding hs all_at_find [OF wf] by blast
      then have "registered cwd d y" using stored [OF ok] by blast
      then have "documentsById d (docId (heap d y)) = Some y" by (rule registered_byId)
      moreover have "documentsById d (docId (heap d y)) = Some x" using registered_byId [OF x(1)] by (simp only: same)
      ultimately have "x = y" by simp
      then show False using y gone [OF x(1)] x(2) by simp
    qed
    then have "docId (heap d x) \<notin> (\<lambda>h. docId (heap d h)) ` set hs" by blast
    then have byid: "documentsById ?d (docId (heap d x)) = documentsById d (docId (heap d x))"
      by (simp add: fold_mark_byId)
    have at: "find_at (key d x) (store ?d) = find_at (key d x) (store d)" using x(2) by (simp add: find_erase)
    show ?thesis unfolding registered_def keys using x(1) byid at unfolding registered_def by simp
  qed
  have "k' = key ?d x \<and> registered cwd ?d x" if "find_at k' (store ?d) = Some x" for k' x
  proof -
    have k': "\<not> prefix k k'" "find_at k' (store d) = Some x" using that by (auto simp: find_erase split: if_splits)
    then show ?thesis using stored [OF ok k'(2)] stays [of x] by (simp add: keys)
  qed
  moreover have "i = docId (heap ?d x) \<and> registered cwd ?d x" if "documentsById ?d i = Some x" for i x
  proof -
    have i: "documentsById d i = Some x" "i \<notin> (\<lambda>h. docId (heap d h)) ` set hs"
      using that by (auto simp: fold_mark_byId split: if_splits)
    then have x: "i = docId (heap d x)" "registered cwd d x" using indexed [OF ok] by blast+
    then show ?thesis using i(2) gone [OF x(2)] stays [OF x(2)] by auto
  qed
  moreover have "ids_ok ?d" using ok by (simp add: documents_ok_def ids_ok_def)
  ultimately show ?thesis using wf_erase [OF wf] by (simp add: documents_ok_def)
qed

lemma delete_locked_ok:
  assumes ok: "documents_ok cwd d" and u: "normalize_uri cwd u = u"
    and one: "length (all_at (splitSegments u) (store d)) \<le> 1"
  shows "documents_ok cwd (snd (deleteDocumentLocked cwd u d))"
proof (cases "find_at (splitSegments u) (store d)")
  case None
  then show ?thesis using ok by (simp add: deleteDocumentLocked_def trie_find_def u)
next
  case (Some h)
  have wf: "wf_trie (store d)" using ok by (simp add: documents_ok_def)
  have "h \<in> set (all_at (splitSegments u) (store d))" by (rule uri_trie.lookup_below [OF wf Some])
  then have "set [h] = set (all_at (splitSegments u) (store d))"
    using one by (cases "all_at (splitSegments u) (store d)") auto
  from delete_ok [OF ok this] show ?thesis
    using Some by (simp add: deleteDocumentLocked_def trie_find_def trie_erase_def u)
qed

subsection \<open>Runs of operations\<close>

datatype registry_op = NewDocument string | Add nat | Create nat | GetOrCreate nat | EnsureId string
  | Delete string | DeleteById nat | DeleteAll string

fun registry_step :: "string \<Rightarrow> registry_op \<Rightarrow> documents \<Rightarrow> documents" where
  "registry_step cwd (NewDocument u) d = snd (new_document u d)"
| "registry_step cwd (Add h) d = (case addDocument cwd h d of Inl _ \<Rightarrow> d | Inr d' \<Rightarrow> d')"
| "registry_step cwd (Create h) d = (case createDocument cwd h d of Inl _ \<Rightarrow> d | Inr d' \<Rightarrow> d')"
| "registry_step cwd (GetOrCreate h) d = snd (getOrCreate_add cwd h d)"
| "registry_step cwd (EnsureId u) d = snd (getOrCreateDocumentId cwd u d)"
| "registry_step cwd (Delete u) d = snd (deleteDocument cwd u d)"
| "registry_step cwd (DeleteById i) d = snd (deleteDocumentById cwd i d)"
| "registry_step cwd (DeleteAll u) d = snd (deleteDocuments cwd u d)"

text \<open>What the callers and the document factory provide, and the assertion of the deletion.\<close>

fun allowed :: "string \<Rightarrow> registry_op \<Rightarrow> documents \<Rightarrow> bool" where
  "allowed cwd (NewDocument u) d = True"
| "allowed cwd (Add h) d = (h < nextHandle d)"
| "allowed cwd (Create h) d = (h < nextHandle d \<and> docUri (heap d h) \<noteq> [] \<and> normalize_uri cwd (docUri (heap d h)) = docUri (heap d h))"
| "allowed cwd (GetOrCreate h) d = (h < nextHandle d \<and> docUri (heap d h) \<noteq> [] \<and> normalize_uri cwd (docUri (heap d h)) = docUri (heap d h))"
| "allowed cwd (EnsureId u) d = True"
| "allowed cwd (Delete u) d = (length (trie_find_all cwd (normalize_uri cwd u) (store d)) \<le> 1)"
| "allowed cwd (DeleteById i) d = (case documentsById d i of None \<Rightarrow> True
     | Some h \<Rightarrow> length (trie_find_all cwd (docUri (heap d h)) (store d)) \<le> 1)"
| "allowed cwd (DeleteAll u) d = True"

fun registry_run :: "string \<Rightarrow> registry_op list \<Rightarrow> documents \<Rightarrow> documents" where
  "registry_run cwd [] d = d"
| "registry_run cwd (p # ps) d = registry_run cwd ps (registry_step cwd p d)"

fun allowed_run :: "string \<Rightarrow> registry_op list \<Rightarrow> documents \<Rightarrow> bool" where
  "allowed_run cwd [] d = room d"
| "allowed_run cwd (p # ps) d = (allowed cwd p d \<and> room d \<and> allowed_run cwd ps (registry_step cwd p d))"

lemma new_document_ok: "documents_ok cwd d \<Longrightarrow> documents_ok cwd (snd (new_document u d))"
proof -
  assume ok: "documents_ok cwd d"
  let ?d = "snd (new_document u d)"
  have same: "heap ?d x = heap d x" if "x < nextHandle d" for x using that by (simp add: new_document_def)
  have fields: "store ?d = store d" "documentsById ?d = documentsById d" "documentIdsByUri ?d = documentIdsByUri d"
    "documentUrisById ?d = documentUrisById d" "nextDocumentId ?d = nextDocumentId d" "nextHandle ?d = nextHandle d + 1"
    by (simp_all add: new_document_def)
  have reg: "\<forall>x. registered cwd d x \<longrightarrow> registered cwd ?d x \<and> heap ?d x = heap d x"
    using same by (auto simp: registered_def key_def fields)
  have "\<forall>k x. find_at k (store ?d) = Some x \<longrightarrow> k = key ?d x \<and> registered cwd ?d x"
    using ok reg by (simp add: documents_ok_def fields key_def)
  moreover have "\<forall>i x. documentsById ?d i = Some x \<longrightarrow> i = docId (heap ?d x) \<and> registered cwd ?d x"
    using ok reg by (simp add: documents_ok_def fields)
  moreover have "ids_ok ?d" "wf_trie (store ?d)" using ok by (simp_all add: documents_ok_def ids_ok_def fields)
  ultimately show ?thesis by (simp add: documents_ok_def)
qed

lemma registry_step_ok:
  assumes "is_absolute cwd" and ok: "documents_ok cwd d" and "room d" and al: "allowed cwd p d"
  shows "documents_ok cwd (registry_step cwd p d)"
proof (cases p)
  case (NewDocument u)
  then show ?thesis using ok by (simp add: new_document_ok)
next
  case (Add h)
  then show ?thesis using add_locked_ok [OF ok assms(3), of h] al ok
    by (auto simp: addDocument_def Let_def trie_has_def trie_find_def key_def)
next
  case (Create h)
  then show ?thesis using add_locked_ok [OF ok assms(3), of h] al ok
    by (auto simp: createDocument_def trie_has_def trie_find_def key_def)
next
  case (GetOrCreate h)
  then show ?thesis using add_locked_ok [OF ok assms(3), of h] al ok
    by (auto simp: getOrCreate_add_def trie_find_def key_def split: option.splits)
next
  case (EnsureId u)
  obtain i d' where e: "ensureDocumentIdLocked (normalize_uri cwd u) d = (i, d')" by (metis surj_pair)
  then show ?thesis using EnsureId ok ensure_ok [OF ok assms(3) e] by (simp add: getOrCreateDocumentId_def Let_def)
next
  case (Delete u)
  let ?u = "normalize_uri cwd u"
  have "documents_ok cwd (snd (deleteDocumentLocked cwd ?u d))"
    using al Delete normalize_idem [OF assms(1)]
    by (intro delete_locked_ok [OF ok]) (simp_all add: trie_find_all_def)
  then show ?thesis using Delete ok by (simp add: deleteDocument_def Let_def)
next
  case (DeleteById i)
  show ?thesis
  proof (cases "documentsById d i")
    case (Some h)
    then have "registered cwd d h" using indexed [OF ok] by blast
    then have "documents_ok cwd (snd (deleteDocumentLocked cwd (docUri (heap d h)) d))"
      using al DeleteById Some by (intro delete_locked_ok [OF ok]) (simp_all add: registered_def trie_find_all_def)
    then show ?thesis using DeleteById ok Some by (simp add: deleteDocumentById_def)
  qed (use DeleteById ok in \<open>simp add: deleteDocumentById_def\<close>)
next
  case (DeleteAll u)
  let ?u = "normalize_uri cwd u"
  have "trie_find_all cwd ?u (store d) = all_at (splitSegments ?u) (store d)"
    "trie_erase cwd ?u (store d) = erase_at (splitSegments ?u) (store d)"
    using normalize_idem [OF assms(1)] by (simp_all add: trie_find_all_def trie_erase_def)
  then show ?thesis using DeleteAll ok delete_ok [OF ok refl, of "splitSegments ?u"]
    by (simp add: deleteDocuments_def Let_def)
qed

lemma run_ok: "is_absolute cwd \<Longrightarrow> documents_ok cwd d \<Longrightarrow> allowed_run cwd ps d \<Longrightarrow>
    documents_ok cwd (registry_run cwd ps d) \<and> room (registry_run cwd ps d)"
  by (induction ps arbitrary: d) (simp_all add: registry_step_ok)

lemma run_room: "allowed_run cwd ps d \<Longrightarrow> room d"
  by (cases ps) simp_all

subsection \<open>Ids never change\<close>

lemma add_locked_ids: "ids_ok d \<Longrightarrow> room d \<Longrightarrow> documentIdsByUri d \<subseteq>\<^sub>m documentIdsByUri (addDocumentLocked cwd h d)"
  using add_locked_fields by blast

lemma delete_locked_ids: "documentIdsByUri (snd (deleteDocumentLocked cwd u d)) = documentIdsByUri d"
  by (simp add: deleteDocumentLocked_def split: option.splits)

lemma step_ids:
  assumes "ids_ok d" "room d"
  shows "documentIdsByUri d \<subseteq>\<^sub>m documentIdsByUri (registry_step cwd p d)"
proof (cases p)
  case (EnsureId u)
  obtain i d' where e: "ensureDocumentIdLocked (normalize_uri cwd u) d = (i, d')" by (metis surj_pair)
  from ensure_id [OF assms e] have "documentIdsByUri d \<subseteq>\<^sub>m documentIdsByUri d'" by blast
  then show ?thesis using EnsureId e by (simp add: getOrCreateDocumentId_def Let_def)
qed (use add_locked_ids [OF assms] in \<open>simp_all add: registry_defs Let_def new_document_def delete_locked_ids
  split: option.splits\<close>)

lemma run_ids: "is_absolute cwd \<Longrightarrow> documents_ok cwd d \<Longrightarrow> allowed_run cwd ps d \<Longrightarrow>
    documentIdsByUri d \<subseteq>\<^sub>m documentIdsByUri (registry_run cwd ps d)"
proof (induction ps arbitrary: d)
  case (Cons p ps)
  have "documentIdsByUri d \<subseteq>\<^sub>m documentIdsByUri (registry_step cwd p d)"
    using Cons.prems by (intro step_ids) (simp_all add: documents_ok_def)
  moreover have "documents_ok cwd (registry_step cwd p d)" using Cons.prems by (simp add: registry_step_ok)
  ultimately show ?case using Cons map_le_trans by simp blast
qed simp

subsection \<open>Properties\<close>

lemma registered_lookups:
  assumes ok: "documents_ok cwd d" and "room d" and r: "registered cwd d h"
  shows "getDocumentById (docId (heap d h)) d = Some h" "getDocumentUri (docId (heap d h)) d = docUri (heap d h)"
    "getDocument cwd (docUri (heap d h)) d = Some h" "getDocumentId cwd (docUri (heap d h)) d = docId (heap d h)"
proof -
  have u: "documentUrisById d (docId (heap d h)) = Some (docUri (heap d h))"
    using ok r unfolding documents_ok_def ids_ok_def registered_def by blast
  then have "docId (heap d h) < nextDocumentId d" using ok unfolding documents_ok_def ids_ok_def by blast
  then have i: "docId (heap d h) \<noteq> InvalidDocumentId" using assms(2) by (simp add: room_def InvalidDocumentId_def)
  show "getDocumentById (docId (heap d h)) d = Some h"
    using i registered_byId [OF r] by (simp add: getDocumentById_def)
  show "getDocumentUri (docId (heap d h)) d = docUri (heap d h)"
    using i u by (simp add: getDocumentUri_def)
  have "normalize_uri cwd (docUri (heap d h)) = docUri (heap d h)" "docUri (heap d h) \<noteq> []"
    "find_at (splitSegments (docUri (heap d h))) (store d) = Some h"
    "documentIdsByUri d (docUri (heap d h)) = Some (docId (heap d h))"
    using r unfolding registered_def key_def by blast+
  then show "getDocument cwd (docUri (heap d h)) d = Some h" "getDocumentId cwd (docUri (heap d h)) d = docId (heap d h)"
    by (simp_all add: getDocument_def getDocumentId_def trie_find_def)
qed

lemma getDocumentById_registered: "documents_ok cwd d \<Longrightarrow> getDocumentById i d = Some h \<Longrightarrow>
    i = docId (heap d h) \<and> registered cwd d h"
  using indexed by (simp add: getDocumentById_def split: if_splits)

lemma getDocument_registered:
  assumes "is_absolute cwd" "documents_ok cwd d" "getDocument cwd uri d = Some h"
  shows "splitSegments (normalize_uri cwd uri) = key d h \<and> registered cwd d h"
proof -
  have "find_at (splitSegments (normalize_uri cwd uri)) (store d) = Some h"
    using assms(3) by (simp add: getDocument_def trie_find_def Let_def normalize_idem [OF assms(1)] split: if_splits)
  then show ?thesis by (rule stored [OF assms(2)])
qed

text \<open>
  C22: Whatever operations run on a registry that starts empty, as long as no document is deleted
  on its own while another lies below its URI: the document an id stands for is the one its URI
  leads to and carries that id, and the document a URI leads to is the one its own id stands for
  and has the same segments as the URI asked for.
\<close>

theorem registry_lookups_agree:
  assumes "is_absolute cwd" and "allowed_run cwd ps new_documents" and "d = registry_run cwd ps new_documents"
  shows "(getDocumentById i d = Some h \<longrightarrow> docId (heap d h) = i \<and> docUri (heap d h) = getDocumentUri i d \<and>
      getDocument cwd (getDocumentUri i d) d = Some h \<and> getDocumentId cwd (getDocumentUri i d) d = i) \<and>
    (getDocument cwd uri d = Some h \<longrightarrow> getDocumentById (docId (heap d h)) d = Some h \<and>
      getDocumentUri (docId (heap d h)) d = docUri (heap d h) \<and>
      splitSegments (docUri (heap d h)) = splitSegments (normalize_uri cwd uri))"
proof -
  have d: "documents_ok cwd d" "room d" using run_ok [OF assms(1) new_documents_ok assms(2)] assms(3) by blast+
  show ?thesis
    using getDocumentById_registered [OF d(1), of i h] getDocument_registered [OF assms(1) d(1), of uri h]
      registered_lookups [OF d, of h] by (auto simp: key_def)
qed

lemma registry_lookups_agree_witness:
  "(let d = registry_run ''/w'' [NewDocument ''file:///w/a'', Create 0, NewDocument ''file:///w/b'', Create 1,
      DeleteById 1] new_documents
    in getDocumentById 2 d = Some 1 \<and> getDocument ''/w'' (getDocumentUri 2 d) d = Some 1 \<and> getDocumentById 1 d = None)"
proof -
  let ?ps = "[NewDocument ''file:///w/a'', Create 0, NewDocument ''file:///w/b'', Create 1, DeleteById 1]"
  let ?d = "registry_run ''/w'' ?ps new_documents"
  have "is_absolute ''/w''" "allowed_run ''/w'' ?ps new_documents" by code_simp+
  moreover have "getDocumentById 2 ?d = Some 1" "getDocumentById 1 ?d = None" by code_simp+
  ultimately show ?thesis using registry_lookups_agree [of "''/w''" ?ps ?d 2 1] by (simp add: Let_def)
qed

text \<open>
  Ids are stable: whatever operations run, deletions included, a URI that has an id keeps it,
  and the id keeps leading back to that URI.
\<close>

theorem document_ids_stable:
  assumes "is_absolute cwd" and "documents_ok cwd d" and "allowed_run cwd ps d"
    and "getDocumentId cwd uri d = i" and "i \<noteq> InvalidDocumentId"
  shows "getDocumentId cwd uri (registry_run cwd ps d) = i \<and>
    getDocumentUri i (registry_run cwd ps d) = normalize_uri cwd uri \<and>
    fst (getOrCreateDocumentId cwd uri (registry_run cwd ps d)) = i"
proof -
  have u: "normalize_uri cwd uri \<noteq> []" "documentIdsByUri d (normalize_uri cwd uri) = Some i"
    using assms(4,5) by (auto simp: getDocumentId_def Let_def split: if_splits option.splits)
  then have run: "documentIdsByUri (registry_run cwd ps d) (normalize_uri cwd uri) = Some i"
    using run_ids [OF assms(1-3)] by (auto simp: map_le_def dom_def)
  have "ids_ok (registry_run cwd ps d)" using run_ok [OF assms(1-3)] by (simp add: documents_ok_def)
  then have "documentUrisById (registry_run cwd ps d) i = Some (normalize_uri cwd uri)"
    using run unfolding ids_ok_def by blast
  then show ?thesis using u(1) run assms(5)
    by (simp add: getDocumentId_def getDocumentUri_def getOrCreateDocumentId_def ensureDocumentIdLocked_def)
qed

lemma document_ids_stable_witness:
  "getDocumentId ''/w'' ''file:///w/a'' (registry_run ''/w'' [EnsureId ''file:///w/b'', DeleteAll ''file:///w'']
     (registry_run ''/w'' [NewDocument ''file:///w/a'', Create 0] new_documents)) = 1"
proof -
  let ?ps = "[EnsureId ''file:///w/b'', DeleteAll ''file:///w'']"
  let ?qs = "[NewDocument ''file:///w/a'', Create 0]"
  let ?d = "registry_run ''/w'' ?qs new_documents"
  have a: "is_absolute ''/w''" "allowed_run ''/w'' ?qs new_documents" "allowed_run ''/w'' ?ps ?d" by code_simp+
  have "getDocumentId ''/w'' ''file:///w/a'' ?d = 1" "(1::nat) \<noteq> InvalidDocumentId" by code_simp+
  from document_ids_stable [OF a(1) _ a(3) this] run_ok [OF a(1) new_documents_ok a(2)] show ?thesis by blast
qed



end
