(* ===== verification/Caching.thy ===== *)
theory Caching
  imports Documents
begin

text \<open>
  The caches (\<open>core/utils/Caching.hpp\<close>): a plain one, one partitioned by a context and one by a
  document id, which drops the entries of a document when the builder announces its change. An
  operation first throws if the cache is disposed and then works under the mutex. A \<open>get\<close> with a
  provider has two critical sections with the provider's call between: \<open>find\<close> and \<open>emplace\<close>. The
  locale \<open>memo\<close> states what the three have in common.
\<close>

subsection \<open>Disposal\<close>

datatype cache_error = CacheDisposed

record life =
  disposed :: bool
  alive :: bool

definition throwIfDisposed :: "('a life_scheme \<Rightarrow> 'r) \<Rightarrow> 'a life_scheme \<Rightarrow> cache_error + 'r" where
  "throwIfDisposed f c = (if disposed c then Inl CacheDisposed else Inr (f c))"

text \<open>\<open>erased\<close> is what the virtual \<open>clear\<close> does.\<close>

definition dispose :: "('a life_scheme \<Rightarrow> 'a life_scheme) \<Rightarrow> 'a life_scheme \<Rightarrow> 'a life_scheme" where
  "dispose erased c = (if disposed c then c else (erased (c\<lparr>alive := False\<rparr>))\<lparr>disposed := True\<rparr>)"

definition guardCallback :: "('a life_scheme \<Rightarrow> 'a life_scheme) \<Rightarrow> 'a life_scheme \<Rightarrow> 'a life_scheme" where
  "guardCallback f c = (if alive c then f c else c)"

subsection \<open>\<open>SimpleCache\<close>\<close>

record ('k, 'v) simple_cache = life +
  entries :: "'k \<rightharpoonup> 'v"

definition new_simple_cache :: "('k, 'v) simple_cache" where
  "new_simple_cache = \<lparr>disposed = False, alive = True, entries = (\<lambda>_. None)\<rparr>"

definition simple_look :: "'k \<Rightarrow> ('k, 'v) simple_cache \<Rightarrow> 'v option" where
  "simple_look k c = entries c k"

definition simple_emplace :: "'k \<Rightarrow> 'v \<Rightarrow> ('k, 'v) simple_cache \<Rightarrow> 'v \<times> ('k, 'v) simple_cache" where
  "simple_emplace k v c = (case entries c k of Some w \<Rightarrow> (w, c) | None \<Rightarrow> (v, c\<lparr>entries := (entries c)(k \<mapsto> v)\<rparr>))"

definition simple_forget :: "unit \<Rightarrow> ('k, 'v) simple_cache \<Rightarrow> ('k, 'v) simple_cache" where
  "simple_forget _ c = c\<lparr>entries := (\<lambda>_. None)\<rparr>"

definition simple_has :: "'k \<Rightarrow> ('k, 'v) simple_cache \<Rightarrow> cache_error + bool" where
  "simple_has k = throwIfDisposed (\<lambda>c. simple_look k c \<noteq> None)"

definition simple_set :: "'k \<Rightarrow> 'v \<Rightarrow> ('k, 'v) simple_cache \<Rightarrow> cache_error + ('k, 'v) simple_cache" where
  "simple_set k v = throwIfDisposed (\<lambda>c. c\<lparr>entries := (entries c)(k \<mapsto> v)\<rparr>)"

definition simple_get :: "'k \<Rightarrow> ('k, 'v) simple_cache \<Rightarrow> cache_error + 'v option" where
  "simple_get k = throwIfDisposed (simple_look k)"

definition simple_fetch :: "'k \<Rightarrow> 'v \<Rightarrow> ('k, 'v) simple_cache \<Rightarrow> cache_error + 'v \<times> ('k, 'v) simple_cache" where
  "simple_fetch k v = throwIfDisposed (\<lambda>c. case simple_look k c of Some w \<Rightarrow> (w, c) | None \<Rightarrow> simple_emplace k v c)"

definition simple_erase :: "'k \<Rightarrow> ('k, 'v) simple_cache \<Rightarrow> cache_error + bool \<times> ('k, 'v) simple_cache" where
  "simple_erase k = throwIfDisposed (\<lambda>c. (entries c k \<noteq> None, c\<lparr>entries := (entries c)(k := None)\<rparr>))"

definition simple_clear :: "('k, 'v) simple_cache \<Rightarrow> cache_error + ('k, 'v) simple_cache" where
  "simple_clear = throwIfDisposed (simple_forget ())"

subsection \<open>\<open>ContextCache\<close>\<close>

text \<open>\<open>conv\<close> is the converter, the identity when none is given.\<close>

record ('x, 'k, 'v) context_cache = life +
  contexts :: "'x \<rightharpoonup> 'k \<rightharpoonup> 'v"

definition new_context_cache :: "('x, 'k, 'v) context_cache" where
  "new_context_cache = \<lparr>disposed = False, alive = True, contexts = (\<lambda>_. None)\<rparr>"

definition context_look :: "('c \<Rightarrow> 'x) \<Rightarrow> 'c \<times> 'k \<Rightarrow> ('x, 'k, 'v) context_cache \<Rightarrow> 'v option" where
  "context_look conv ck c = (case contexts c (conv (fst ck)) of None \<Rightarrow> None | Some m \<Rightarrow> m (snd ck))"

definition emplaceContextLocked :: "'x \<Rightarrow> ('x, 'k, 'v) context_cache \<Rightarrow> ('k \<rightharpoonup> 'v)" where
  "emplaceContextLocked x c = (case contexts c x of None \<Rightarrow> (\<lambda>_. None) | Some m \<Rightarrow> m)"

definition context_emplace ::
  "('c \<Rightarrow> 'x) \<Rightarrow> 'c \<times> 'k \<Rightarrow> 'v \<Rightarrow> ('x, 'k, 'v) context_cache \<Rightarrow> 'v \<times> ('x, 'k, 'v) context_cache" where
  "context_emplace conv ck v c = (let x = conv (fst ck); m = emplaceContextLocked x c in
     case m (snd ck) of
       Some w \<Rightarrow> (w, c\<lparr>contexts := (contexts c)(x \<mapsto> m)\<rparr>)
     | None \<Rightarrow> (v, c\<lparr>contexts := (contexts c)(x \<mapsto> m(snd ck \<mapsto> v))\<rparr>))"

definition context_forget :: "('c \<Rightarrow> 'x) \<Rightarrow> 'c \<Rightarrow> ('x, 'k, 'v) context_cache \<Rightarrow> ('x, 'k, 'v) context_cache" where
  "context_forget conv x c = c\<lparr>contexts := (contexts c)(conv x := None)\<rparr>"

definition context_has :: "('c \<Rightarrow> 'x) \<Rightarrow> 'c \<Rightarrow> 'k \<Rightarrow> ('x, 'k, 'v) context_cache \<Rightarrow> cache_error + bool" where
  "context_has conv x k = throwIfDisposed (\<lambda>c. context_look conv (x, k) c \<noteq> None)"

definition context_set ::
  "('c \<Rightarrow> 'x) \<Rightarrow> 'c \<Rightarrow> 'k \<Rightarrow> 'v \<Rightarrow> ('x, 'k, 'v) context_cache \<Rightarrow> cache_error + ('x, 'k, 'v) context_cache" where
  "context_set conv x k v = throwIfDisposed (\<lambda>c.
     c\<lparr>contexts := (contexts c)(conv x \<mapsto> (emplaceContextLocked (conv x) c)(k \<mapsto> v))\<rparr>)"

definition context_get :: "('c \<Rightarrow> 'x) \<Rightarrow> 'c \<Rightarrow> 'k \<Rightarrow> ('x, 'k, 'v) context_cache \<Rightarrow> cache_error + 'v option" where
  "context_get conv x k = throwIfDisposed (context_look conv (x, k))"

definition context_fetch :: "('c \<Rightarrow> 'x) \<Rightarrow> 'c \<Rightarrow> 'k \<Rightarrow> 'v \<Rightarrow> ('x, 'k, 'v) context_cache \<Rightarrow>
    cache_error + 'v \<times> ('x, 'k, 'v) context_cache" where
  "context_fetch conv x k v = throwIfDisposed (\<lambda>c.
     case context_look conv (x, k) c of Some w \<Rightarrow> (w, c) | None \<Rightarrow> context_emplace conv (x, k) v c)"

definition context_erase ::
  "('c \<Rightarrow> 'x) \<Rightarrow> 'c \<Rightarrow> 'k \<Rightarrow> ('x, 'k, 'v) context_cache \<Rightarrow> cache_error + bool \<times> ('x, 'k, 'v) context_cache" where
  "context_erase conv x k = throwIfDisposed (\<lambda>c.
     case contexts c (conv x) of
       None \<Rightarrow> (False, c)
     | Some m \<Rightarrow> (m k \<noteq> None, c\<lparr>contexts := (contexts c)(conv x \<mapsto> m(k := None))\<rparr>))"

definition context_clear :: "('c \<Rightarrow> 'x) \<Rightarrow> 'c \<Rightarrow> ('x, 'k, 'v) context_cache \<Rightarrow>
    cache_error + ('x, 'k, 'v) context_cache" where
  "context_clear conv x = throwIfDisposed (context_forget conv x)"

definition context_clear_all :: "('x, 'k, 'v) context_cache \<Rightarrow> cache_error + ('x, 'k, 'v) context_cache" where
  "context_clear_all = throwIfDisposed (\<lambda>c. c\<lparr>contexts := (\<lambda>_. None)\<rparr>)"

subsection \<open>\<open>DocumentCache\<close> and \<open>WorkspaceCache\<close>\<close>

text \<open>A document cache is a context cache in all but the invalid id, which has no entries.\<close>

type_synonym ('k, 'v) document_cache = "(nat, 'k, 'v) context_cache"

definition document_look :: "nat \<times> 'k \<Rightarrow> ('k, 'v) document_cache \<Rightarrow> 'v option" where
  "document_look dk c = (if fst dk = InvalidDocumentId then None
     else case contexts c (fst dk) of None \<Rightarrow> None | Some m \<Rightarrow> m (snd dk))"

definition cacheForInsertLocked :: "nat \<Rightarrow> ('k, 'v) document_cache \<Rightarrow> ('k \<rightharpoonup> 'v) option" where
  "cacheForInsertLocked d c = (if d = InvalidDocumentId then None
     else case contexts c d of None \<Rightarrow> Some (\<lambda>_. None) | Some m \<Rightarrow> Some m)"

definition document_emplace :: "nat \<times> 'k \<Rightarrow> 'v \<Rightarrow> ('k, 'v) document_cache \<Rightarrow> 'v \<times> ('k, 'v) document_cache" where
  "document_emplace dk v c =
     (case cacheForInsertLocked (fst dk) c of
        None \<Rightarrow> (v, c)
      | Some m \<Rightarrow> (case m (snd dk) of
            Some w \<Rightarrow> (w, c\<lparr>contexts := (contexts c)(fst dk \<mapsto> m)\<rparr>)
          | None \<Rightarrow> (v, c\<lparr>contexts := (contexts c)(fst dk \<mapsto> m(snd dk \<mapsto> v))\<rparr>)))"

definition document_forget :: "nat \<Rightarrow> ('k, 'v) document_cache \<Rightarrow> ('k, 'v) document_cache" where
  "document_forget d c = (if d \<noteq> InvalidDocumentId then c\<lparr>contexts := (contexts c)(d := None)\<rparr> else c)"

definition document_has :: "nat \<Rightarrow> 'k \<Rightarrow> ('k, 'v) document_cache \<Rightarrow> cache_error + bool" where
  "document_has d k = throwIfDisposed (\<lambda>c. document_look (d, k) c \<noteq> None)"

definition document_set :: "nat \<Rightarrow> 'k \<Rightarrow> 'v \<Rightarrow> ('k, 'v) document_cache \<Rightarrow> cache_error + ('k, 'v) document_cache" where
  "document_set d k v = throwIfDisposed (\<lambda>c.
     case cacheForInsertLocked d c of None \<Rightarrow> c | Some m \<Rightarrow> c\<lparr>contexts := (contexts c)(d \<mapsto> m(k \<mapsto> v))\<rparr>)"

definition document_get :: "nat \<Rightarrow> 'k \<Rightarrow> ('k, 'v) document_cache \<Rightarrow> cache_error + 'v option" where
  "document_get d k = throwIfDisposed (document_look (d, k))"

definition document_fetch :: "nat \<Rightarrow> 'k \<Rightarrow> 'v \<Rightarrow> ('k, 'v) document_cache \<Rightarrow>
    cache_error + 'v \<times> ('k, 'v) document_cache" where
  "document_fetch d k v = throwIfDisposed (\<lambda>c.
     case document_look (d, k) c of Some w \<Rightarrow> (w, c) | None \<Rightarrow> document_emplace (d, k) v c)"

definition document_erase :: "nat \<Rightarrow> 'k \<Rightarrow> ('k, 'v) document_cache \<Rightarrow>
    cache_error + bool \<times> ('k, 'v) document_cache" where
  "document_erase d k = throwIfDisposed (\<lambda>c.
     if d = InvalidDocumentId then (False, c)
     else case contexts c d of
       None \<Rightarrow> (False, c)
     | Some m \<Rightarrow> (m k \<noteq> None, c\<lparr>contexts := (contexts c)(d \<mapsto> m(k := None))\<rparr>))"

definition document_clear :: "nat \<Rightarrow> ('k, 'v) document_cache \<Rightarrow> cache_error + ('k, 'v) document_cache" where
  "document_clear d = throwIfDisposed (document_forget d)"

text \<open>The listeners the constructors register. A clear of a disposed cache throws: what follows is skipped.\<close>

fun clear_each :: "nat list \<Rightarrow> ('k, 'v) document_cache \<Rightarrow> ('k, 'v) document_cache" where
  "clear_each [] c = c"
| "clear_each (d # ds) c = (case document_clear d c of Inl _ \<Rightarrow> c | Inr c' \<Rightarrow> clear_each ds c')"

definition document_cache_update ::
  "nat list \<Rightarrow> nat list \<Rightarrow> ('k, 'v) document_cache \<Rightarrow> ('k, 'v) document_cache" where
  "document_cache_update changed deleted = guardCallback (clear_each (changed @ deleted))"

definition cleared :: "('k, 'v) simple_cache \<Rightarrow> ('k, 'v) simple_cache" where
  "cleared c = (case simple_clear c of Inl _ \<Rightarrow> c | Inr c' \<Rightarrow> c')"

definition workspace_cache_update ::
  "bool \<Rightarrow> nat list \<Rightarrow> nat list \<Rightarrow> ('k, 'v) simple_cache \<Rightarrow> ('k, 'v) simple_cache" where
  "workspace_cache_update has_state changed deleted =
     guardCallback (\<lambda>c. if has_state \<and> deleted = [] then c else cleared c)"

definition workspace_cache_phase :: "('k, 'v) simple_cache \<Rightarrow> ('k, 'v) simple_cache" where
  "workspace_cache_phase = guardCallback cleared"

subsection \<open>What they have in common\<close>

locale memo =
  fixes look :: "'k \<Rightarrow> 's \<Rightarrow> 'v option" and emplace :: "'k \<Rightarrow> 'v \<Rightarrow> 's \<Rightarrow> 'v \<times> 's"
    and forget :: "'c \<Rightarrow> 's \<Rightarrow> 's" and owner :: "'k \<Rightarrow> 'c" and storable :: "'k \<Rightarrow> bool"
  assumes emplace_value: "fst (emplace k v s) = (case look k s of None \<Rightarrow> v | Some w \<Rightarrow> w)"
    and look_emplace: "look k' (snd (emplace k v s)) =
      (if k' = k \<and> storable k then Some (fst (emplace k v s)) else look k' s)"
    and look_forget: "look k (forget c s) = (if owner k = c then None else look k s)"
begin

lemma fetch_fresh:
  assumes "\<forall>k v. look k s = Some v \<longrightarrow> v = f k"
  shows "(case look k s of Some w \<Rightarrow> (w, s) | None \<Rightarrow> emplace k (f k) s) = (r, s') \<Longrightarrow>
    r = f k \<and> (\<forall>k v. look k s' = Some v \<longrightarrow> v = f k)"
proof (cases "look k s")
  case None
  assume "(case look k s of Some w \<Rightarrow> (w, s) | None \<Rightarrow> emplace k (f k) s) = (r, s')"
  then have e: "r = fst (emplace k (f k) s)" "s' = snd (emplace k (f k) s)" using None by auto
  moreover have "r = f k" using emplace_value [of k "f k" s] None e by simp
  ultimately show ?thesis using assms look_emplace [of _ k "f k" s] by (auto split: if_splits)
qed (use assms in auto)

lemma forget_fresh:
  assumes "\<forall>k v. look k s = Some v \<longrightarrow> v = f k" and "\<forall>k. owner k \<noteq> c \<longrightarrow> g k = f k"
  shows "\<forall>k v. look k (forget c s) = Some v \<longrightarrow> v = g k"
  using assms by (auto simp: look_forget)

text \<open>A value computed before a change and stored behind it is outdated and stays.\<close>

lemma late_emplace_stale:
  assumes "storable k"
  shows "look k (snd (emplace k old (forget (owner k) s))) = Some old"
  using assms look_emplace [of k k old "forget (owner k) s"] emplace_value [of k old "forget (owner k) s"]
  by (simp add: look_forget)

end

interpretation simple: memo simple_look simple_emplace simple_forget "\<lambda>_. ()" "\<lambda>_. True"
  by unfold_locales (auto simp: simple_look_def simple_emplace_def simple_forget_def split: option.splits)

text \<open>Contexts with the same converted key share their entries.\<close>

lemma context_convert:
  "context_look conv (x, k) = context_look id (conv x, k)" "context_emplace conv (x, k) = context_emplace id (conv x, k)"
  "context_forget conv x = context_forget id (conv x)"
  by (auto intro!: ext simp: context_look_def context_emplace_def context_forget_def Let_def split: option.splits)

interpretation ctx: memo "context_look id" "context_emplace id" "context_forget id" fst "\<lambda>_. True"
  by unfold_locales (auto simp: context_look_def context_emplace_def context_forget_def Let_def
      emplaceContextLocked_def split: option.splits)

interpretation doc: memo document_look document_emplace document_forget fst "\<lambda>k. fst k \<noteq> InvalidDocumentId"
  by unfold_locales (auto simp: document_look_def document_emplace_def document_forget_def
      cacheForInsertLocked_def split: option.splits)

subsection \<open>A document cache is transparent\<close>

text \<open>
  What clients of a document cache do, given the value \<open>f d k\<close> the provider computes at the time: a
  get, an erase, or a change of the workspace, which the builder announces and after which the
  provider computes \<open>g\<close>.
\<close>

datatype ('k, 'v) cache_use = Get nat 'k | Erase nat 'k | Announce "nat list" "nat list" "nat \<Rightarrow> 'k \<Rightarrow> 'v"

fun uses :: "('k, 'v) cache_use list \<Rightarrow> (nat \<Rightarrow> 'k \<Rightarrow> 'v) \<Rightarrow> ('k, 'v) document_cache \<Rightarrow> (cache_error + 'v) list" where
  "uses [] f c = []"
| "uses (Get d k # us) f c = (case document_fetch d k (f d k) c of
     Inl e \<Rightarrow> Inl e # uses us f c
   | Inr (v, c') \<Rightarrow> Inr v # uses us f c')"
| "uses (Erase d k # us) f c = (case document_erase d k c of
     Inl e \<Rightarrow> uses us f c
   | Inr (_, c') \<Rightarrow> uses us f c')"
| "uses (Announce changed deleted g # us) f c = uses us g (document_cache_update changed deleted c)"

fun announced :: "('k, 'v) cache_use list \<Rightarrow> (nat \<Rightarrow> 'k \<Rightarrow> 'v) \<Rightarrow> bool" where
  "announced [] f = True"
| "announced (Announce changed deleted g # us) f =
     ((\<forall>d. d \<notin> set (changed @ deleted) \<longrightarrow> g d = f d) \<and> announced us g)"
| "announced (_ # us) f = announced us f"

text \<open>Without a cache.\<close>

fun computed :: "('k, 'v) cache_use list \<Rightarrow> (nat \<Rightarrow> 'k \<Rightarrow> 'v) \<Rightarrow> (cache_error + 'v) list" where
  "computed [] f = []"
| "computed (Get d k # us) f = Inr (f d k) # computed us f"
| "computed (Erase d k # us) f = computed us f"
| "computed (Announce changed deleted g # us) f = computed us g"

definition fresh_cache :: "(nat \<Rightarrow> 'k \<Rightarrow> 'v) \<Rightarrow> ('k, 'v) document_cache \<Rightarrow> bool" where
  "fresh_cache f c \<longleftrightarrow> \<not> disposed c \<and> alive c \<and> (\<forall>dk v. document_look dk c = Some v \<longrightarrow> v = f (fst dk) (snd dk))"

lemma emplace_life: "disposed (snd (document_emplace dk v c)) = disposed c" "alive (snd (document_emplace dk v c)) = alive c"
  by (simp_all add: document_emplace_def split: option.splits)

lemma document_fetch_fresh: "fresh_cache f c \<Longrightarrow> \<exists>c'. document_fetch d k (f d k) c = Inr (f d k, c') \<and> fresh_cache f c'"
proof -
  assume c: "fresh_cache f c"
  obtain r c' where e: "(case document_look (d, k) c of Some w \<Rightarrow> (w, c) | None \<Rightarrow> document_emplace (d, k) (f d k) c) = (r, c')"
    by (metis surj_pair)
  then have life: "disposed c' = disposed c" "alive c' = alive c"
    using emplace_life [of "(d, k)" "f d k" c] by (auto split: option.splits)
  have fresh: "\<not> disposed c" "alive c" "\<forall>dk v. document_look dk c = Some v \<longrightarrow> v = f (fst dk) (snd dk)"
    using c unfolding fresh_cache_def by blast+
  have "r = f d k \<and> (\<forall>dk v. document_look dk c' = Some v \<longrightarrow> v = f (fst dk) (snd dk))"
    by (rule doc.fetch_fresh [OF fresh(3), of "(d, k)" r c', unfolded fst_conv snd_conv, OF e])
  moreover have "document_fetch d k (f d k) c = Inr (r, c')"
    using fresh(1) e by (simp add: document_fetch_def throwIfDisposed_def)
  ultimately show ?thesis using life fresh(1,2) by (simp add: fresh_cache_def)
qed

lemma erase_fresh: "fresh_cache f c \<Longrightarrow> \<exists>b c'. document_erase d k c = Inr (b, c') \<and> fresh_cache f c'"
  by (auto simp: fresh_cache_def document_erase_def throwIfDisposed_def document_look_def split: option.splits if_splits)

lemma forget_life: "disposed (document_forget d c) = disposed c" "alive (document_forget d c) = alive c"
  by (simp_all add: document_forget_def)

lemma clear_fresh:
  assumes "fresh_cache f c" and "\<forall>d. d \<notin> set ds \<longrightarrow> g d = f d"
  shows "fresh_cache g (clear_each ds c)"
  using assms
proof (induction ds arbitrary: f c)
  case (Cons d ds)
  let ?h = "\<lambda>x. if x = d then g x else f x"
  have "\<forall>dk v. document_look dk (document_forget d c) = Some v \<longrightarrow> v = ?h (fst dk) (snd dk)"
    using Cons.prems(1) by (intro doc.forget_fresh [of c "\<lambda>k. f (fst k) (snd k)"]) (auto simp: fresh_cache_def)
  then have "fresh_cache ?h (document_forget d c)"
    using Cons.prems(1) by (simp add: fresh_cache_def forget_life)
  moreover have "document_clear d c = Inr (document_forget d c)"
    using Cons.prems(1) by (simp add: fresh_cache_def document_clear_def throwIfDisposed_def)
  ultimately show ?case using Cons.IH [of ?h "document_forget d c"] Cons.prems(2) by simp
qed (auto simp: fresh_cache_def)



end
