(* ===== verification/IndexMgr.thy ===== *)
theory IndexMgr
  imports Caching "HOL-Library.AList"
begin

text \<open>
  The workspace index (\<open>core/workspace/DefaultIndexManager.cpp\<close>): the symbols every document exports
  and the references it contains, with a cache of the exports by type and one of the references by
  target, which is rebuilt when a flag says it is outdated. \<open>std::map\<close> is an association list ordered
  by key, \<open>std::unordered_map\<close> one in any order. The providers of descriptions are called before
  the critical sections: an update takes what they returned.
\<close>

subsection \<open>Descriptions\<close>

record node_description =
  name :: string
  node_type :: nat
  documentId :: nat
  symbolId :: nat

datatype node_key = NodeKey (key_document: nat) (key_symbol: nat)

definition InvalidSymbolId :: nat where
  "InvalidSymbolId = u32_max"

definition node_key_empty :: "node_key \<Rightarrow> bool" where
  "node_key_empty k = (key_document k = InvalidDocumentId \<or> key_symbol k = InvalidSymbolId)"

definition node_key_of :: "node_description \<Rightarrow> node_key" where
  "node_key_of x = NodeKey (documentId x) (symbolId x)"

record reference_description =
  sourceDocumentId :: nat
  sourceOffset :: nat
  sourceLength :: nat
  is_local :: bool
  multiReference :: bool
  targetDocumentId :: "nat option"
  targetSymbolId :: "nat option"

definition isResolved :: "reference_description \<Rightarrow> bool" where
  "isResolved r =
     (targetDocumentId r \<noteq> None \<and> targetDocumentId r \<noteq> Some InvalidDocumentId \<and>
      targetSymbolId r \<noteq> None \<and> targetSymbolId r \<noteq> Some InvalidSymbolId)"

definition targetKey :: "reference_description \<Rightarrow> node_key option" where
  "targetKey r = (if \<not> isResolved r then None
     else Some (NodeKey (the (targetDocumentId r)) (the (targetSymbolId r))))"

definition sourceText :: "string \<Rightarrow> reference_description \<Rightarrow> string" where
  "sourceText doc_text r =
     (if length doc_text \<le> sourceOffset r \<or> sourceLength r = 0 then []
      else take (min (length doc_text - sourceOffset r) (sourceLength r)) (drop (sourceOffset r) doc_text))"

text \<open>Types are numbers, \<open>void\<close> is that of \<open>void\<close>; \<open>subtype\<close> is the registered reflection.\<close>

definition type_is_assignable :: "nat \<Rightarrow> (nat \<Rightarrow> nat \<Rightarrow> bool) \<Rightarrow> nat \<Rightarrow> nat \<Rightarrow> bool" where
  "type_is_assignable void subtype candidate expected =
     (if expected = void \<or> candidate = void then False
      else if candidate = expected then True else subtype candidate expected)"

subsection \<open>The index\<close>

record index_manager =
  exportsByDocument :: "(nat \<times> node_description list) list"
  referencesByDocument :: "(nat \<times> reference_description list) list"
  referenceTargetCacheDirty :: bool
  exportsByTypeCache :: "(nat, nat, node_description list) context_cache"
  referencesByTargetKeyCache :: "node_key \<rightharpoonup> reference_description list"

definition new_index :: index_manager where
  "new_index = \<lparr>exportsByDocument = [], referencesByDocument = [], referenceTargetCacheDirty = True,
     exportsByTypeCache = new_context_cache, referencesByTargetKeyCache = (\<lambda>_. None)\<rparr>"

fun ordered_update :: "nat \<Rightarrow> 'v \<Rightarrow> (nat \<times> 'v) list \<Rightarrow> (nat \<times> 'v) list" where
  "ordered_update k v [] = [(k, v)]"
| "ordered_update k v ((x, w) # xs) =
     (if k < x then (k, v) # (x, w) # xs else if k = x then (k, v) # xs else (x, w) # ordered_update k v xs)"

definition updateContent :: "nat \<Rightarrow> node_description list \<Rightarrow> index_manager \<Rightarrow> index_manager" where
  "updateContent d exports m = m\<lparr>exportsByDocument := ordered_update d exports (exportsByDocument m),
     exportsByTypeCache := context_forget id d (exportsByTypeCache m)\<rparr>"

definition updateReferences :: "nat \<Rightarrow> reference_description list \<Rightarrow> index_manager \<Rightarrow> index_manager" where
  "updateReferences d descriptions m =
     (let rs = map (\<lambda>r. r\<lparr>sourceDocumentId := d\<rparr>) descriptions in
      m\<lparr>referencesByDocument := AList.update d rs (referencesByDocument m), referenceTargetCacheDirty := True\<rparr>)"

definition erase_exports :: "nat \<Rightarrow> index_manager \<Rightarrow> bool \<times> index_manager" where
  "erase_exports d m =
     (if map_of (exportsByDocument m) d \<noteq> None then
        (True, m\<lparr>exportsByDocument := AList.delete d (exportsByDocument m),
           exportsByTypeCache := context_forget id d (exportsByTypeCache m)\<rparr>)
      else (False, m))"

definition erase_references :: "nat \<Rightarrow> index_manager \<Rightarrow> bool \<times> index_manager" where
  "erase_references d m =
     (if map_of (referencesByDocument m) d \<noteq> None then
        (True, m\<lparr>referencesByDocument := AList.delete d (referencesByDocument m), referenceTargetCacheDirty := True\<rparr>)
      else (False, m))"

definition removeContent :: "nat \<Rightarrow> index_manager \<Rightarrow> bool \<times> index_manager" where
  "removeContent d m = (if d = InvalidDocumentId then (False, m) else erase_exports d m)"

definition removeReferences :: "nat \<Rightarrow> index_manager \<Rightarrow> bool \<times> index_manager" where
  "removeReferences d m = (if d = InvalidDocumentId then (False, m) else erase_references d m)"

definition index_remove :: "nat \<Rightarrow> index_manager \<Rightarrow> bool \<times> index_manager" where
  "index_remove d m =
     (if d = InvalidDocumentId then (False, m)
      else let (removedContent, m) = erase_exports d m; (removedReferences, m) = erase_references d m in
        (removedContent \<or> removedReferences, m))"

subsection \<open>Queries\<close>

definition filterDescriptionsByType ::
  "(nat \<Rightarrow> nat \<Rightarrow> bool) \<Rightarrow> node_description list \<Rightarrow> nat \<Rightarrow> node_description list" where
  "filterDescriptionsByType asg exports t = filter (\<lambda>x. asg (node_type x) t) exports"

definition getFileDescriptionsLocked ::
  "(nat \<Rightarrow> nat \<Rightarrow> bool) \<Rightarrow> nat \<Rightarrow> nat option \<Rightarrow> index_manager \<Rightarrow> node_description list \<times> index_manager" where
  "getFileDescriptionsLocked asg d t m =
     (case map_of (exportsByDocument m) d of
        None \<Rightarrow> ([], m)
      | Some xs \<Rightarrow> (case t of
          None \<Rightarrow> (xs, m)
        | Some ty \<Rightarrow>
            (case context_look id (d, ty) (exportsByTypeCache m) of
               Some ys \<Rightarrow> (ys, m)
             | None \<Rightarrow>
                 let (ys, c) = context_emplace id (d, ty) (filterDescriptionsByType asg xs ty) (exportsByTypeCache m) in
                 (ys, m\<lparr>exportsByTypeCache := c\<rparr>))))"

fun collect_elements :: "(nat \<Rightarrow> nat \<Rightarrow> bool) \<Rightarrow> nat option \<Rightarrow> nat list \<Rightarrow> index_manager \<Rightarrow>
    node_description list \<times> index_manager" where
  "collect_elements asg t [] m = ([], m)"
| "collect_elements asg t (d # ds) m =
     (let (xs, m) = getFileDescriptionsLocked asg d t m; (ys, m) = collect_elements asg t ds m in (xs @ ys, m))"

definition allElements :: "(nat \<Rightarrow> nat \<Rightarrow> bool) \<Rightarrow> nat option \<Rightarrow> nat list \<Rightarrow> index_manager \<Rightarrow>
    node_description list \<times> index_manager" where
  "allElements asg t documentIds m =
     (if documentIds = [] then collect_elements asg t (map fst (exportsByDocument m)) m
      else collect_elements asg t documentIds m)"

fun first_named :: "(nat \<Rightarrow> nat \<Rightarrow> bool) \<Rightarrow> string \<Rightarrow> nat option \<Rightarrow> node_description list \<Rightarrow> node_description option" where
  "first_named asg n t [] = None"
| "first_named asg n t (x # xs) =
     (if name x \<noteq> n then first_named asg n t xs
      else case t of
        None \<Rightarrow> Some x
      | Some ty \<Rightarrow> if \<not> asg (node_type x) ty then first_named asg n t xs else Some x)"

fun findByName_in :: "(nat \<Rightarrow> nat \<Rightarrow> bool) \<Rightarrow> string \<Rightarrow> nat option \<Rightarrow> (nat \<times> node_description list) list \<Rightarrow>
    node_description option" where
  "findByName_in asg n t [] = None"
| "findByName_in asg n t ((d, xs) # rest) =
     (case first_named asg n t xs of Some x \<Rightarrow> Some x | None \<Rightarrow> findByName_in asg n t rest)"

definition findByName :: "(nat \<Rightarrow> nat \<Rightarrow> bool) \<Rightarrow> string \<Rightarrow> nat option \<Rightarrow> index_manager \<Rightarrow> node_description option" where
  "findByName asg n t m = findByName_in asg n t (exportsByDocument m)"

definition cache_reference ::
  "reference_description \<Rightarrow> (node_key \<rightharpoonup> reference_description list) \<Rightarrow> (node_key \<rightharpoonup> reference_description list)" where
  "cache_reference r c = (case targetKey r of
     None \<Rightarrow> c
   | Some k \<Rightarrow> c(k \<mapsto> (case c k of None \<Rightarrow> [] | Some rs \<Rightarrow> rs) @ [r]))"

definition rebuildReferenceTargetCacheLocked :: "index_manager \<Rightarrow> index_manager" where
  "rebuildReferenceTargetCacheLocked m =
     (if \<not> referenceTargetCacheDirty m then m
      else m\<lparr>referencesByTargetKeyCache :=
            fold (\<lambda>(d, rs). fold cache_reference rs) (referencesByDocument m) (\<lambda>_. None),
          referenceTargetCacheDirty := False\<rparr>)"

definition findAllReferences :: "node_key \<Rightarrow> index_manager \<Rightarrow> reference_description list \<times> index_manager" where
  "findAllReferences k m =
     (if node_key_empty k then ([], m)
      else let m = rebuildReferenceTargetCacheLocked m in
        (case referencesByTargetKeyCache m k of None \<Rightarrow> [] | Some rs \<Rightarrow> rs, m))"

definition isAffected :: "nat \<Rightarrow> nat list \<Rightarrow> index_manager \<Rightarrow> bool" where
  "isAffected d changed m =
     (if changed = [] then False
      else case map_of (referencesByDocument m) d of
        None \<Rightarrow> False
      | Some rs \<Rightarrow> list_ex (\<lambda>r. \<not> is_local r \<and> targetDocumentId r \<noteq> None \<and> the (targetDocumentId r) \<in> set changed) rs)"

end
