(* ===== verification/IndexProps.thy ===== *)
theory IndexProps
  imports IndexMgr "HOL-Library.Code_Target_Nat"
begin

text \<open>
  The queries of the index answer from the current content, whatever updates, removals and
  queries came before: the caches are never outdated. The reference is a pair of maps.
\<close>

subsection \<open>Ordered maps\<close>

definition ordered :: "(nat \<times> 'v) list \<Rightarrow> bool" where
  "ordered xs = sorted_wrt (<) (map fst xs)"

lemma ordered_update_keys: "fst ` set (ordered_update k v xs) = insert k (fst ` set xs)"
  by (induction k v xs rule: ordered_update.induct) (simp_all add: insert_commute)

lemma ordered_update_ordered: "ordered xs \<Longrightarrow> ordered (ordered_update k v xs)"
proof (induction xs)
  case (Cons p xs)
  have "y \<in> fst ` set (ordered_update k v xs) \<Longrightarrow> y = k \<or> y \<in> fst ` set xs" for y
    by (simp add: ordered_update_keys)
  then show ?case using Cons by (cases p) (fastforce simp: ordered_def)
qed (simp add: ordered_def)

lemma map_of_ordered_update: "ordered xs \<Longrightarrow> map_of (ordered_update k v xs) = (map_of xs)(k \<mapsto> v)"
proof (induction xs)
  case (Cons p xs)
  then show ?case by (cases p) (auto simp: ordered_def fun_upd_twist)
qed simp

lemma ordered_delete: "ordered xs \<Longrightarrow> ordered (AList.delete k xs)"
proof (induction xs)
  case (Cons p xs)
  have "fst ` set (AList.delete k xs) \<subseteq> fst ` set xs" by (auto simp: AList.delete_eq)
  then show ?case using Cons by (cases p) (auto simp: ordered_def AList.delete_eq)
qed simp

lemma ordered_keys: "ordered xs \<Longrightarrow> map fst xs = sorted_list_of_set (dom (map_of xs))"
  by (simp add: ordered_def dom_map_of_conv_image_fst strict_sorted_equal flip: set_map)

lemma ordered_lookup: "ordered xs \<Longrightarrow> (d, v) \<in> set xs \<Longrightarrow> map_of xs d = Some v"
  by (simp add: ordered_def strict_sorted_iff)

subsection \<open>The invariant\<close>

definition exports_of :: "index_manager \<Rightarrow> nat \<Rightarrow> node_description list" where
  "exports_of m d = (case map_of (exportsByDocument m) d of None \<Rightarrow> [] | Some xs \<Rightarrow> xs)"

definition typed :: "(nat \<Rightarrow> nat \<Rightarrow> bool) \<Rightarrow> index_manager \<Rightarrow> nat \<times> nat \<Rightarrow> node_description list" where
  "typed asg m dt = filterDescriptionsByType asg (exports_of m (fst dt)) (snd dt)"

definition to_target :: "node_key \<Rightarrow> (nat \<times> reference_description list) list \<Rightarrow> reference_description list" where
  "to_target k refs = concat (map (\<lambda>(d, rs). filter (\<lambda>r. targetKey r = Some k) rs) refs)"

definition index_ok :: "(nat \<Rightarrow> nat \<Rightarrow> bool) \<Rightarrow> index_manager \<Rightarrow> bool" where
  "index_ok asg m \<longleftrightarrow> ordered (exportsByDocument m) \<and> distinct (map fst (referencesByDocument m)) \<and>
     (\<forall>(d, rs) \<in> set (referencesByDocument m). \<forall>r \<in> set rs. sourceDocumentId r = d) \<and>
     (\<forall>dt v. context_look id dt (exportsByTypeCache m) = Some v \<longrightarrow> v = typed asg m dt) \<and>
     (referenceTargetCacheDirty m \<or>
       (\<forall>k. (case referencesByTargetKeyCache m k of None \<Rightarrow> [] | Some rs \<Rightarrow> rs) = to_target k (referencesByDocument m)))"

lemma index_okD:
  assumes "index_ok asg m"
  shows "ordered (exportsByDocument m)" "distinct (map fst (referencesByDocument m))"
    "\<forall>(d, rs) \<in> set (referencesByDocument m). \<forall>r \<in> set rs. sourceDocumentId r = d"
    "\<forall>dt v. context_look id dt (exportsByTypeCache m) = Some v \<longrightarrow> v = typed asg m dt"
  using assms unfolding index_ok_def by blast+

lemma new_index_ok: "index_ok asg new_index"
  by (simp add: index_ok_def new_index_def ordered_def context_look_def new_context_cache_def)

lemma updateContent_ok: "index_ok asg m \<Longrightarrow> index_ok asg (updateContent d xs m)"
proof -
  assume ok: "index_ok asg m"
  note o = index_okD [OF ok]
  let ?m = "updateContent d xs m"
  have "\<forall>dt. fst dt \<noteq> d \<longrightarrow> typed asg ?m dt = typed asg m dt"
    using o(1) by (simp add: typed_def exports_of_def updateContent_def map_of_ordered_update)
  from ctx.forget_fresh [OF o(4) this]
  have "\<forall>dt v. context_look id dt (exportsByTypeCache ?m) = Some v \<longrightarrow> v = typed asg ?m dt"
    by (simp add: updateContent_def)
  moreover have "ordered (exportsByDocument ?m)" using o(1) by (simp add: updateContent_def ordered_update_ordered)
  ultimately show ?thesis using ok by (simp add: index_ok_def updateContent_def)
qed

lemma erase_exports_ok: "index_ok asg m \<Longrightarrow> index_ok asg (snd (erase_exports d m))"
proof (cases "map_of (exportsByDocument m) d")
  case (Some xs)
  assume ok: "index_ok asg m"
  note o = index_okD [OF ok]
  let ?m = "snd (erase_exports d m)"
  have "\<forall>dt. fst dt \<noteq> d \<longrightarrow> typed asg ?m dt = typed asg m dt"
    using Some by (simp add: typed_def exports_of_def erase_exports_def AList.delete_conv')
  from ctx.forget_fresh [OF o(4) this]
  have "\<forall>dt v. context_look id dt (exportsByTypeCache ?m) = Some v \<longrightarrow> v = typed asg ?m dt"
    using Some by (simp add: erase_exports_def)
  moreover have "ordered (exportsByDocument ?m)" using o(1) Some by (simp add: erase_exports_def ordered_delete)
  ultimately show ?thesis using ok Some by (simp add: index_ok_def erase_exports_def)
qed (simp add: erase_exports_def)

lemma typed_references: "typed asg (m\<lparr>referencesByDocument := r, referenceTargetCacheDirty := b\<rparr>) = typed asg m"
  "typed asg (m\<lparr>referencesByTargetKeyCache := c, referenceTargetCacheDirty := b\<rparr>) = typed asg m"
  "typed asg (m\<lparr>exportsByTypeCache := e\<rparr>) = typed asg m"
  by (simp_all add: typed_def exports_of_def fun_eq_iff)

lemma updateReferences_ok: "index_ok asg m \<Longrightarrow> index_ok asg (updateReferences d rs m)"
proof -
  assume ok: "index_ok asg m"
  let ?rs = "map (\<lambda>r. r\<lparr>sourceDocumentId := d\<rparr>) rs"
  have "(x, ys) \<in> set (AList.update d ?rs (referencesByDocument m)) \<Longrightarrow> y \<in> set ys \<Longrightarrow> sourceDocumentId y = x" for x y ys
  proof -
    assume "(x, ys) \<in> set (AList.update d ?rs (referencesByDocument m))" "y \<in> set ys"
    moreover have "(x, ys) \<in> set (AList.update d ?rs l) \<Longrightarrow> (x, ys) = (d, ?rs) \<or> (x, ys) \<in> set l" for l
      by (induction l) (auto split: if_splits)
    ultimately show ?thesis using index_okD(3) [OF ok] by fastforce
  qed
  then show ?thesis using ok
    by (auto simp: index_ok_def updateReferences_def Let_def typed_references distinct_update)
qed

lemma erase_references_ok: "index_ok asg m \<Longrightarrow> index_ok asg (snd (erase_references d m))"
proof -
  assume ok: "index_ok asg m"
  have "set (AList.delete d (referencesByDocument m)) \<subseteq> set (referencesByDocument m)" by (auto simp: AList.delete_eq)
  then have "\<forall>(d, rs) \<in> set (AList.delete d (referencesByDocument m)). \<forall>r \<in> set rs. sourceDocumentId r = d"
    using index_okD(3) [OF ok] by blast
  then show ?thesis using ok index_okD(2) [OF ok]
    by (simp add: index_ok_def erase_references_def typed_references distinct_delete)
qed

subsection \<open>Queries keep the invariant\<close>

lemma get_file:
  assumes ok: "index_ok asg m" and e: "getFileDescriptionsLocked asg d t m = (xs, m')"
  shows "index_ok asg m' \<and> exportsByDocument m' = exportsByDocument m \<and> referencesByDocument m' = referencesByDocument m \<and>
    xs = (case t of None \<Rightarrow> exports_of m d | Some ty \<Rightarrow> typed asg m (d, ty))"
proof (cases "map_of (exportsByDocument m) d")
  case None
  then show ?thesis using assms
    by (auto simp: getFileDescriptionsLocked_def exports_of_def typed_def filterDescriptionsByType_def split: option.splits)
next
  case (Some ys)
  show ?thesis
  proof (cases t)
    case None
    then show ?thesis using assms Some by (auto simp: getFileDescriptionsLocked_def exports_of_def)
  next
    case (Some ty)
    obtain zs c where zs: "(case context_look id (d, ty) (exportsByTypeCache m) of Some w \<Rightarrow> (w, exportsByTypeCache m)
        | None \<Rightarrow> context_emplace id (d, ty) (typed asg m (d, ty)) (exportsByTypeCache m)) = (zs, c)" by (metis surj_pair)
    have "zs = typed asg m (d, ty) \<and> (\<forall>k v. context_look id k c = Some v \<longrightarrow> v = typed asg m k)"
      by (rule ctx.fetch_fresh [OF index_okD(4) [OF ok] zs])
    moreover have "xs = zs \<and> m' = m\<lparr>exportsByTypeCache := c\<rparr>"
      using e zs Some \<open>map_of (exportsByDocument m) d = Some ys\<close>
      by (auto simp: getFileDescriptionsLocked_def typed_def exports_of_def split: option.splits prod.splits)
    ultimately show ?thesis using ok Some by (auto simp: index_ok_def typed_references)
  qed
qed

lemma collect_elements:
  assumes "index_ok asg m"
  shows "collect_elements asg t ds m = (xs, m') \<Longrightarrow>
    index_ok asg m' \<and> exportsByDocument m' = exportsByDocument m \<and> referencesByDocument m' = referencesByDocument m \<and>
    xs = concat (map (\<lambda>d. case t of None \<Rightarrow> exports_of m d | Some ty \<Rightarrow> typed asg m (d, ty)) ds)"
  using assms
proof (induction ds arbitrary: m xs m')
  case (Cons d ds)
  obtain ys m1 where d: "getFileDescriptionsLocked asg d t m = (ys, m1)" by (metis surj_pair)
  obtain zs m2 where ds: "collect_elements asg t ds m1 = (zs, m2)" by (metis surj_pair)
  note one = get_file [OF Cons.prems(2) d]
  have same: "exports_of m1 = exports_of m" "typed asg m1 = typed asg m"
    using one by (simp_all add: exports_of_def typed_def fun_eq_iff)
  show ?case using Cons.IH [OF ds] one Cons.prems(1) d ds by (cases t) (auto simp: same)
qed auto

definition listed :: "nat list \<Rightarrow> index_manager \<Rightarrow> nat list" where
  "listed ds m = (if ds = [] then map fst (exportsByDocument m) else ds)"

lemma allElements:
  assumes "index_ok asg m"
  shows "index_ok asg (snd (allElements asg t ds m)) \<and>
    exportsByDocument (snd (allElements asg t ds m)) = exportsByDocument m \<and>
    referencesByDocument (snd (allElements asg t ds m)) = referencesByDocument m \<and>
    fst (allElements asg t ds m) =
      concat (map (\<lambda>d. case t of None \<Rightarrow> exports_of m d | Some ty \<Rightarrow> typed asg m (d, ty)) (listed ds m))"
proof -
  have "allElements asg t ds m = collect_elements asg t (listed ds m) m" by (simp add: allElements_def listed_def)
  then show ?thesis using collect_elements [OF assms prod.collapse [symmetric], of t "listed ds m"] by simp
qed

lemma target_cache: "(case fold cache_reference rs c k of None \<Rightarrow> [] | Some l \<Rightarrow> l) =
    (case c k of None \<Rightarrow> [] | Some l \<Rightarrow> l) @ filter (\<lambda>r. targetKey r = Some k) rs"
  by (induction rs arbitrary: c) (auto simp: cache_reference_def split: option.splits)

lemma target_caches: "(case fold (\<lambda>(d, rs). fold cache_reference rs) refs c k of None \<Rightarrow> [] | Some l \<Rightarrow> l) =
    (case c k of None \<Rightarrow> [] | Some l \<Rightarrow> l) @ to_target k refs"
  by (induction refs arbitrary: c) (auto simp: to_target_def target_cache)

lemma rebuild:
  assumes "index_ok asg m"
  defines "m' \<equiv> rebuildReferenceTargetCacheLocked m"
  shows "index_ok asg m' \<and> exportsByDocument m' = exportsByDocument m \<and> referencesByDocument m' = referencesByDocument m \<and>
    (case referencesByTargetKeyCache m' k of None \<Rightarrow> [] | Some rs \<Rightarrow> rs) = to_target k (referencesByDocument m)"
proof (cases "referenceTargetCacheDirty m")
  case True
  then show ?thesis using assms(1) target_caches [of "referencesByDocument m" "\<lambda>_. None"]
    by (simp add: m'_def rebuildReferenceTargetCacheLocked_def index_ok_def typed_references)
qed (use assms(1) in \<open>simp add: m'_def rebuildReferenceTargetCacheLocked_def index_ok_def\<close>)

subsection \<open>Histories\<close>

datatype index_op = UpdateContent nat "node_description list" | UpdateReferences nat "reference_description list"
  | RemoveContent nat | RemoveReferences nat | Remove nat | AllElements "nat option" "nat list" | FindAllReferences node_key

fun index_step :: "(nat \<Rightarrow> nat \<Rightarrow> bool) \<Rightarrow> index_op \<Rightarrow> index_manager \<Rightarrow> index_manager" where
  "index_step asg (UpdateContent d xs) m = updateContent d xs m"
| "index_step asg (UpdateReferences d rs) m = updateReferences d rs m"
| "index_step asg (RemoveContent d) m = snd (removeContent d m)"
| "index_step asg (RemoveReferences d) m = snd (removeReferences d m)"
| "index_step asg (Remove d) m = snd (index_remove d m)"
| "index_step asg (AllElements t ds) m = snd (allElements asg t ds m)"
| "index_step asg (FindAllReferences k) m = snd (findAllReferences k m)"

definition index_run :: "(nat \<Rightarrow> nat \<Rightarrow> bool) \<Rightarrow> index_op list \<Rightarrow> index_manager" where
  "index_run asg ps = fold (index_step asg) ps new_index"

text \<open>The reference: what the documents export and refer to.\<close>

fun exports_step :: "index_op \<Rightarrow> (nat \<rightharpoonup> node_description list) \<Rightarrow> (nat \<rightharpoonup> node_description list)" where
  "exports_step (UpdateContent d xs) e = e(d \<mapsto> xs)"
| "exports_step (RemoveContent d) e = (if d = InvalidDocumentId then e else e(d := None))"
| "exports_step (Remove d) e = (if d = InvalidDocumentId then e else e(d := None))"
| "exports_step _ e = e"

fun references_step :: "index_op \<Rightarrow> (nat \<rightharpoonup> reference_description list) \<Rightarrow> (nat \<rightharpoonup> reference_description list)" where
  "references_step (UpdateReferences d rs) f = f(d \<mapsto> map (\<lambda>r. r\<lparr>sourceDocumentId := d\<rparr>) rs)"
| "references_step (RemoveReferences d) f = (if d = InvalidDocumentId then f else f(d := None))"
| "references_step (Remove d) f = (if d = InvalidDocumentId then f else f(d := None))"
| "references_step _ f = f"

definition elements_in :: "(nat \<Rightarrow> nat \<Rightarrow> bool) \<Rightarrow> nat option \<Rightarrow> (nat \<rightharpoonup> node_description list) \<Rightarrow> nat \<Rightarrow> node_description list" where
  "elements_in asg t e d = (case e d of None \<Rightarrow> [] | Some xs \<Rightarrow>
     (case t of None \<Rightarrow> xs | Some ty \<Rightarrow> filter (\<lambda>x. asg (node_type x) ty) xs))"

definition implements :: "(nat \<Rightarrow> nat \<Rightarrow> bool) \<Rightarrow> index_manager \<Rightarrow> (nat \<rightharpoonup> node_description list) \<Rightarrow>
    (nat \<rightharpoonup> reference_description list) \<Rightarrow> bool" where
  "implements asg m e f \<longleftrightarrow> index_ok asg m \<and> map_of (exportsByDocument m) = e \<and> map_of (referencesByDocument m) = f"

lemma erase_exports_maps: "map_of (exportsByDocument (snd (erase_exports d m))) = (map_of (exportsByDocument m))(d := None)"
  "referencesByDocument (snd (erase_exports d m)) = referencesByDocument m"
  by (auto simp: erase_exports_def AList.delete_conv' fun_eq_iff)

lemma erase_references_maps:
  "map_of (referencesByDocument (snd (erase_references d m))) = (map_of (referencesByDocument m))(d := None)"
  "exportsByDocument (snd (erase_references d m)) = exportsByDocument m"
  by (auto simp: erase_references_def AList.delete_conv' fun_eq_iff)

lemma index_remove_snd: "snd (index_remove d m) =
    (if d = InvalidDocumentId then m else snd (erase_references d (snd (erase_exports d m))))"
  by (simp add: index_remove_def split: prod.splits)

lemma step_implements:
  assumes "implements asg m e f"
  shows "implements asg (index_step asg p m) (exports_step p e) (references_step p f)"
proof (cases p)
  case (UpdateContent d xs)
  then show ?thesis using assms index_okD(1) [of asg m]
    by (simp add: implements_def updateContent_ok) (simp add: updateContent_def map_of_ordered_update)
next
  case (UpdateReferences d rs)
  then show ?thesis using assms
    by (simp add: implements_def updateReferences_ok) (simp add: updateReferences_def Let_def AList.update_conv')
next
  case (AllElements t ds)
  then show ?thesis using assms allElements [of asg m t ds] by (simp add: implements_def)
next
  case (FindAllReferences k)
  then show ?thesis using assms rebuild [of asg m k] by (simp add: implements_def findAllReferences_def Let_def)
qed (use assms in \<open>simp_all add: implements_def removeContent_def removeReferences_def index_remove_snd
  erase_exports_ok erase_references_ok erase_exports_maps erase_references_maps\<close>)

lemma run_implements: "implements asg (index_run asg ps) (fold exports_step ps (\<lambda>_. None)) (fold references_step ps (\<lambda>_. None))"
proof -
  have "implements asg m e f \<Longrightarrow>
      implements asg (fold (index_step asg) ps m) (fold exports_step ps e) (fold references_step ps f)" for m e f
    by (induction ps arbitrary: m e f) (simp_all add: step_implements)
  moreover have "implements asg new_index (\<lambda>_. None) (\<lambda>_. None)"
    using new_index_ok by (simp add: implements_def) (simp add: new_index_def)
  ultimately show ?thesis by (simp add: index_run_def)
qed

subsection \<open>The properties\<close>

lemma first_named_find: "first_named asg n t xs =
    find (\<lambda>x. name x = n) (case t of None \<Rightarrow> xs | Some ty \<Rightarrow> filterDescriptionsByType asg xs ty)"
  by (induction xs) (auto simp: filterDescriptionsByType_def split: option.splits)

lemma find_append: "find P (xs @ ys) = (case find P xs of None \<Rightarrow> find P ys | Some x \<Rightarrow> Some x)"
  by (induction xs) auto

lemma findByName_in_find: "findByName_in asg n t ps = find (\<lambda>x. name x = n)
    (concat (map (\<lambda>(d, xs). case t of None \<Rightarrow> xs | Some ty \<Rightarrow> filterDescriptionsByType asg xs ty) ps))"
proof (induction ps)
  case (Cons p ps)
  then show ?case by (cases p) (simp add: first_named_find find_append split: option.split)
qed simp

lemma source_filter:
  assumes "distinct (map fst refs)" and "\<forall>(d, rs) \<in> set refs. \<forall>r \<in> set rs. sourceDocumentId r = d"
  shows "filter (\<lambda>r. sourceDocumentId r = d) (to_target k refs) =
    (case map_of refs d of None \<Rightarrow> [] | Some rs \<Rightarrow> filter (\<lambda>r. targetKey r = Some k) rs)"
  using assms
proof (induction refs)
  case (Cons p refs)
  obtain x rs where p: "p = (x, rs)" by (metis surj_pair)
  have src: "\<forall>r \<in> set rs. sourceDocumentId r = x" using Cons.prems(2) p by simp
  have IH: "filter (\<lambda>r. sourceDocumentId r = d) (to_target k refs) =
      (case map_of refs d of None \<Rightarrow> [] | Some rs \<Rightarrow> filter (\<lambda>r. targetKey r = Some k) rs)"
    using Cons by simp
  have "filter (\<lambda>r. sourceDocumentId r = d) (filter (\<lambda>r. targetKey r = Some k) rs) =
      (if x = d then filter (\<lambda>r. targetKey r = Some k) rs else [])"
    using src by (auto simp: filter_empty_conv intro!: filter_cong)
  then have "filter (\<lambda>r. sourceDocumentId r = d) (to_target k (p # refs)) =
      (if x = d then filter (\<lambda>r. targetKey r = Some k) rs else []) @
      (case map_of refs d of None \<Rightarrow> [] | Some rs \<Rightarrow> filter (\<lambda>r. targetKey r = Some k) rs)"
    using IH by (simp add: to_target_def p)
  moreover have "map_of refs d = None" if "x = d"
    using that Cons.prems(1) p by (simp add: map_of_eq_None_iff)
  ultimately show ?case using p by (cases "x = d") auto
qed (simp add: to_target_def)

text \<open>
  C25: the caches of the index never show. After any history of updates, removals and queries, the
  elements of a type are those the documents export now, in the order of their ids; looking up a
  name gives the first of them with the name; and the references to a node are exactly those every
  document has now, in its order.
\<close>

theorem index_answers_current:
  "(let m = index_run asg ps; e = fold exports_step ps (\<lambda>_. None); f = fold references_step ps (\<lambda>_. None) in
    fst (allElements asg t ds m) = concat (map (elements_in asg t e) (if ds = [] then sorted_list_of_set (dom e) else ds)) \<and>
    findByName asg n t m = find (\<lambda>x. name x = n) (fst (allElements asg t [] m)) \<and>
    filter (\<lambda>r. sourceDocumentId r = d) (fst (findAllReferences k m)) =
      (if node_key_empty k then [] else case f d of None \<Rightarrow> [] | Some rs \<Rightarrow> filter (\<lambda>r. targetKey r = Some k) rs))"
proof -
  define m where "m = index_run asg ps"
  define e where "e = fold exports_step ps (\<lambda>_. None)"
  define f where "f = fold references_step ps (\<lambda>_. None)"
  have ok: "index_ok asg m" and e: "map_of (exportsByDocument m) = e" and f: "map_of (referencesByDocument m) = f"
    using run_implements [of asg ps] by (simp_all add: implements_def m_def e_def f_def)
  have elements: "(case t of None \<Rightarrow> exports_of m d | Some ty \<Rightarrow> typed asg m (d, ty)) = elements_in asg t e d" for d
    by (cases t) (auto simp: exports_of_def typed_def elements_in_def filterDescriptionsByType_def e split: option.splits)
  have keys: "listed ds m = (if ds = [] then sorted_list_of_set (dom e) else ds)" for ds
    using ordered_keys [OF index_okD(1) [OF ok]] by (simp add: listed_def e)
  have all: "fst (allElements asg t ds m) = concat (map (elements_in asg t e) (if ds = [] then sorted_list_of_set (dom e) else ds))" for ds
    using allElements [OF ok] elements by (simp add: keys)
  have "map (\<lambda>(d, xs). case t of None \<Rightarrow> xs | Some ty \<Rightarrow> filterDescriptionsByType asg xs ty) (exportsByDocument m) =
      map (elements_in asg t e) (map fst (exportsByDocument m))"
    using ordered_lookup [OF index_okD(1) [OF ok]] e
    by (auto simp: elements_in_def filterDescriptionsByType_def split: option.splits)
  moreover have "map fst (exportsByDocument m) = sorted_list_of_set (dom e)" using keys [of "[]"] by (simp add: listed_def)
  ultimately have named: "findByName asg n t m = find (\<lambda>x. name x = n) (fst (allElements asg t [] m))"
    by (simp add: findByName_def findByName_in_find all)
  have "filter (\<lambda>r. sourceDocumentId r = d) (fst (findAllReferences k m)) =
      (if node_key_empty k then [] else case f d of None \<Rightarrow> [] | Some rs \<Rightarrow> filter (\<lambda>r. targetKey r = Some k) rs)"
    using rebuild [OF ok, of k] source_filter [OF index_okD(2,3) [OF ok], of d k] f
    by (simp add: findAllReferences_def Let_def)
  then show ?thesis using all named unfolding Let_def m_def e_def f_def by blast
qed

end
