(* ===== verification/Tasks.thy ===== *)
theory Tasks
  imports Main
begin

text \<open>
  The parallel loop (\<open>core/execution/TaskScheduler.cpp\<close>). A task is the sequence of atomic actions of
  its body; an action returns or throws. The executor is modelled by the order in which it lets the
  tasks make their next action: any list of positions, behind which the rest runs in order, so every
  list stands for a complete run and every run for a list. The locale \<open>local_tasks\<close> states
  when the order does not matter.
\<close>

datatype exn = Cancelled | Failed

datatype 'w run = Returned 'w | Raised exn 'w

fun final :: "'w run \<Rightarrow> 'w" where
  "final (Returned w) = w"
| "final (Raised e w) = w"

fun raised :: "'w run \<Rightarrow> exn option" where
  "raised (Returned w) = None"
| "raised (Raised e w) = Some e"

definition and_then :: "'w run \<Rightarrow> ('w \<Rightarrow> 'w run) \<Rightarrow> 'w run" where
  "and_then r f = (case r of Returned w \<Rightarrow> f w | Raised e w \<Rightarrow> Raised e w)"

fun run_each :: "('x \<Rightarrow> 'w \<Rightarrow> 'w run) \<Rightarrow> 'x list \<Rightarrow> 'w \<Rightarrow> 'w run" where
  "run_each f [] w = Returned w"
| "run_each f (x # xs) w = and_then (f x w) (run_each f xs)"

definition run_actions :: "('w \<Rightarrow> 'w run) list \<Rightarrow> 'w \<Rightarrow> 'w run" where
  "run_actions = run_each (\<lambda>a. a)"

text \<open>\<open>poll\<close> asks the token whether a stop was requested.\<close>

definition throw_if_cancelled :: "('w \<Rightarrow> bool \<times> 'w) \<Rightarrow> 'w \<Rightarrow> 'w run" where
  "throw_if_cancelled poll w = (let (stop, w') = poll w in if stop then Raised Cancelled w' else Returned w')"

subsection \<open>The executor\<close>

text \<open>A task that has not started is \<open>None\<close>, one that has started has its remaining actions.\<close>

record 'w pool =
  pool_world :: 'w
  pool_tasks :: "('w \<Rightarrow> 'w run) list option list"
  firstException :: "exn option"

definition start_task :: "('w \<Rightarrow> bool \<times> 'w) \<Rightarrow> ('w \<Rightarrow> 'w run) list \<Rightarrow> nat \<Rightarrow> 'w pool \<Rightarrow> 'w pool" where
  "start_task poll body i p =
     (let (stop, w) = poll (pool_world p) in
      p\<lparr>pool_world := w, pool_tasks := (pool_tasks p)[i := Some (if stop \<or> firstException p \<noteq> None then [] else body)]\<rparr>)"

definition continue_task :: "('w \<Rightarrow> 'w run) \<Rightarrow> ('w \<Rightarrow> 'w run) list \<Rightarrow> nat \<Rightarrow> 'w pool \<Rightarrow> 'w pool" where
  "continue_task a rest i p =
     (case a (pool_world p) of
        Returned w \<Rightarrow> p\<lparr>pool_world := w, pool_tasks := (pool_tasks p)[i := Some rest]\<rparr>
      | Raised e w \<Rightarrow> p\<lparr>pool_world := w, pool_tasks := (pool_tasks p)[i := Some []],
          firstException := (case firstException p of None \<Rightarrow> Some e | Some f \<Rightarrow> Some f)\<rparr>)"

definition pool_step :: "('w \<Rightarrow> bool \<times> 'w) \<Rightarrow> (nat \<Rightarrow> ('w \<Rightarrow> 'w run) list) \<Rightarrow> nat \<Rightarrow> 'w pool \<Rightarrow> 'w pool" where
  "pool_step poll body i p =
     (if i < length (pool_tasks p) then
        (case pool_tasks p ! i of
           None \<Rightarrow> start_task poll (body i) i p
         | Some [] \<Rightarrow> p
         | Some (a # rest) \<Rightarrow> continue_task a rest i p)
      else p)"

definition drain :: "(nat \<Rightarrow> ('w \<Rightarrow> 'w run) list) \<Rightarrow> nat \<Rightarrow> nat list" where
  "drain body count = concat (map (\<lambda>i. replicate (Suc (length (body i))) i) [0..<count])"

definition run_pool ::
  "('w \<Rightarrow> bool \<times> 'w) \<Rightarrow> (nat \<Rightarrow> ('w \<Rightarrow> 'w run) list) \<Rightarrow> nat \<Rightarrow> nat list \<Rightarrow> 'w \<Rightarrow> 'w pool" where
  "run_pool poll body count order w =
     fold (pool_step poll body) (order @ drain body count)
       \<lparr>pool_world = w, pool_tasks = replicate count None, firstException = None\<rparr>"

definition parallelForIndexed ::
  "('w \<Rightarrow> bool \<times> 'w) \<Rightarrow> nat list \<Rightarrow> (nat \<Rightarrow> ('w \<Rightarrow> 'w run) list) \<Rightarrow> nat \<Rightarrow> 'w \<Rightarrow> 'w run" where
  "parallelForIndexed poll order body count w =
     (let p = run_pool poll body count order w in
      case firstException p of
        Some e \<Rightarrow> Raised e (pool_world p)
      | None \<Rightarrow> throw_if_cancelled poll (pool_world p))"

definition inline_loop ::
  "('w \<Rightarrow> bool \<times> 'w) \<Rightarrow> (nat \<Rightarrow> ('w \<Rightarrow> 'w run) list) \<Rightarrow> nat \<Rightarrow> 'w \<Rightarrow> 'w run" where
  "inline_loop poll body count =
     run_each (\<lambda>i w. and_then (throw_if_cancelled poll w) (run_actions (body i))) [0..<count]"

text \<open>\<open>order\<close> is \<open>None\<close> for a scheduler without workers.\<close>

definition parallelFor ::
  "('w \<Rightarrow> bool \<times> 'w) \<Rightarrow> nat list option \<Rightarrow> (nat \<Rightarrow> ('w \<Rightarrow> 'w run) list) \<Rightarrow> nat \<Rightarrow> 'w \<Rightarrow> 'w run" where
  "parallelFor poll order body count w =
     and_then (throw_if_cancelled poll w)
       (\<lambda>w. if count = 0 then Returned w
         else case order of
           Some o' \<Rightarrow> if 1 < count then parallelForIndexed poll o' body count w else inline_loop poll body count w
         | None \<Rightarrow> inline_loop poll body count w)"

subsection \<open>Local tasks\<close>

text \<open>
  The effect of an action on what its task owns, given what all tasks only read: the exception, if
  it throws, and the new value.
\<close>

type_synonym ('c, 'v) own_effect = "'c \<Rightarrow> 'v \<Rightarrow> exn option \<times> 'v"

fun apply_effects :: "('c, 'v) own_effect list \<Rightarrow> 'c \<Rightarrow> 'v \<Rightarrow> exn option \<times> 'v" where
  "apply_effects [] c v = (None, v)"
| "apply_effects (f # fs) c v = (case f c v of (None, v') \<Rightarrow> apply_effects fs c v' | (Some e, v') \<Rightarrow> (Some e, v'))"

lemma apply_effects_snoc:
  "apply_effects (fs @ [f]) c v = (case apply_effects fs c v of (None, v') \<Rightarrow> f c v' | (Some e, v') \<Rightarrow> (Some e, v'))"
  by (induction fs arbitrary: v) (auto split: prod.splits option.splits)

text \<open>What a prefix of the task has made of the value it owned.\<close>

definition reached :: "('c, 'v) own_effect list \<Rightarrow> 'c \<Rightarrow> 'v \<Rightarrow> 'v \<Rightarrow> bool" where
  "reached fs c v v' \<longleftrightarrow> (\<exists>j \<le> length fs. v' = snd (apply_effects (take j fs) c v))"

lemma reached_start: "reached fs c v v"
  unfolding reached_def by (rule exI [of _ 0]) simp

lemma reached_prefix: "j \<le> length fs \<Longrightarrow> reached fs c v (snd (apply_effects (take j fs) c v))"
  unfolding reached_def by blast

lemma reached_all: "reached fs c v (snd (apply_effects fs c v))"
  using reached_prefix [of "length fs" fs c v] by simp

lemma and_then_simps [simp]: "and_then (Returned w) f = f w" "and_then (Raised e w) f = Raised e w"
  by (simp_all add: and_then_def)

definition local_action :: "('w \<Rightarrow> bool \<times> 'w) \<Rightarrow> ('w \<Rightarrow> nat \<Rightarrow> 'v) \<Rightarrow> ('w \<Rightarrow> 'c) \<Rightarrow> ('w \<Rightarrow> bool) \<Rightarrow> nat \<Rightarrow>
    ('w \<Rightarrow> 'w run) \<Rightarrow> ('c, 'v) own_effect \<Rightarrow> bool" where
  "local_action poll own shared ok h a f \<longleftrightarrow> (\<forall>w. ok w \<longrightarrow>
     raised (a w) = fst (f (shared w) (own w h)) \<and>
     own (final (a w)) = (own w)(h := snd (f (shared w) (own w h))) \<and>
     shared (final (a w)) = shared w \<and> ok (final (a w)) \<and> (fst (poll w) \<longrightarrow> fst (poll (final (a w)))))"

lemma local_actionD:
  assumes "local_action poll own shared ok h a f" "ok w"
  shows "raised (a w) = fst (f (shared w) (own w h))" "own (final (a w)) = (own w)(h := snd (f (shared w) (own w h)))"
    "shared (final (a w)) = shared w" "ok (final (a w))" "fst (poll w) \<Longrightarrow> fst (poll (final (a w)))"
  using assms unfolding local_action_def by blast+

text \<open>A task in a pool: \<open>ended\<close> if the pool has failed or a stop was requested.\<close>

definition task_ok :: "bool \<Rightarrow> 'a list \<Rightarrow> ('c, 'v) own_effect list \<Rightarrow> 'c \<Rightarrow> 'v \<Rightarrow> 'v \<Rightarrow> 'a list option \<Rightarrow> bool" where
  "task_ok ended body fs c v0 v t \<longleftrightarrow>
     (case t of
        None \<Rightarrow> v = v0
      | Some rest \<Rightarrow> reached fs c v0 v \<and>
          ((\<exists>j \<le> length fs. rest = drop j body \<and> apply_effects (take j fs) c v0 = (None, v)) \<or> rest = [] \<and> ended))"

lemma task_ok_mono: "task_ok e body fs c v0 v t \<Longrightarrow> (e \<Longrightarrow> e') \<Longrightarrow> task_ok e' body fs c v0 v t"
  unfolding task_ok_def by (cases t) auto

lemma task_start: "task_ok e body fs c v v (Some body)" "task_ok True body fs c v v (Some [])"
  unfolding task_ok_def using reached_start by fastforce+

lemma task_next:
  assumes "task_ok e body fs c v0 v (Some (a # rest))" and "length body = length fs"
  shows "\<exists>j < length fs. a = body ! j \<and> (\<forall>e' v'. (fs ! j) c v = (e', v') \<longrightarrow>
    task_ok (e \<or> e' \<noteq> None) body fs c v0 v' (Some (if e' = None then rest else [])))"
proof -
  obtain j where j: "j \<le> length fs" "a # rest = drop j body" "apply_effects (take j fs) c v0 = (None, v)"
    using assms(1) by (auto simp: task_ok_def)
  have "drop j body \<noteq> []" using j(2) by (metis list.discI)
  then have lt: "j < length fs" using assms(2) by simp
  then have a: "a = body ! j" "rest = drop (Suc j) body"
    using trans [OF j(2) Cons_nth_drop_Suc [of j body, symmetric]] lt assms(2) by simp_all
  have step: "apply_effects (take (Suc j) fs) c v0 = (fs ! j) c v"
    using lt j(3) by (simp add: take_Suc_conv_app_nth apply_effects_snoc)
  have "task_ok (e \<or> e' \<noteq> None) body fs c v0 v' (Some (if e' = None then rest else []))" if "(fs ! j) c v = (e', v')" for e' v'
  proof -
    have "reached fs c v0 v'" using reached_prefix [of "Suc j" fs c v0] lt step that by simp
    moreover have "\<exists>i \<le> length fs. rest = drop i body \<and> apply_effects (take i fs) c v0 = (None, v')" if "e' = None"
      using lt a(2) step that \<open>(fs ! j) c v = (e', v')\<close> by (intro exI [of _ "Suc j"]) simp
    ultimately show ?thesis by (simp add: task_ok_def)
  qed
  then show ?thesis using lt a(1) by blast
qed

definition pool_ok :: "('w \<Rightarrow> bool \<times> 'w) \<Rightarrow> ('w \<Rightarrow> nat \<Rightarrow> 'v) \<Rightarrow> ('w \<Rightarrow> 'c) \<Rightarrow> ('w \<Rightarrow> bool) \<Rightarrow> nat \<Rightarrow> (nat \<Rightarrow> nat) \<Rightarrow>
    (nat \<Rightarrow> ('w \<Rightarrow> 'w run) list) \<Rightarrow> (nat \<Rightarrow> ('c, 'v) own_effect list) \<Rightarrow> 'w \<Rightarrow> 'w pool \<Rightarrow> bool" where
  "pool_ok poll own shared ok count hs body fs w0 p \<longleftrightarrow>
     ok (pool_world p) \<and> shared (pool_world p) = shared w0 \<and> length (pool_tasks p) = count \<and>
     (\<forall>h. h \<notin> hs ` {..<count} \<longrightarrow> own (pool_world p) h = own w0 h) \<and>
     (\<forall>i < count. task_ok (firstException p \<noteq> None \<or> fst (poll (pool_world p))) (body i) (fs i) (shared w0)
        (own w0 (hs i)) (own (pool_world p) (hs i)) (pool_tasks p ! i))"

text \<open>The tasks work on different values, and what a loop over them makes of the values.\<close>

definition bodies_local :: "('w \<Rightarrow> bool \<times> 'w) \<Rightarrow> ('w \<Rightarrow> nat \<Rightarrow> 'v) \<Rightarrow> ('w \<Rightarrow> 'c) \<Rightarrow> ('w \<Rightarrow> bool) \<Rightarrow> nat \<Rightarrow> (nat \<Rightarrow> nat) \<Rightarrow>
    (nat \<Rightarrow> ('w \<Rightarrow> 'w run) list) \<Rightarrow> (nat \<Rightarrow> ('c, 'v) own_effect list) \<Rightarrow> bool" where
  "bodies_local poll own shared ok count hs body fs \<longleftrightarrow> inj_on hs {..<count} \<and>
     (\<forall>i < count. list_all2 (local_action poll own shared ok (hs i)) (body i) (fs i))"

definition local_result :: "('w \<Rightarrow> nat \<Rightarrow> 'v) \<Rightarrow> ('w \<Rightarrow> 'c) \<Rightarrow> ('w \<Rightarrow> bool) \<Rightarrow> nat set \<Rightarrow> (nat \<Rightarrow> nat) \<Rightarrow>
    (nat \<Rightarrow> ('c, 'v) own_effect list) \<Rightarrow> 'w \<Rightarrow> 'w run \<Rightarrow> bool" where
  "local_result own shared ok I hs fs w r \<longleftrightarrow> ok (final r) \<and> shared (final r) = shared w \<and>
     (\<forall>h. h \<notin> hs ` I \<longrightarrow> own (final r) h = own w h) \<and>
     (\<forall>i \<in> I. reached (fs i) (shared w) (own w (hs i)) (own (final r) (hs i)) \<and>
        (raised r = None \<longrightarrow> apply_effects (fs i) (shared w) (own w (hs i)) = (None, own (final r) (hs i))))"

text \<open>How many steps a task of a pool still has.\<close>

definition left :: "(nat \<Rightarrow> ('w \<Rightarrow> 'w run) list) \<Rightarrow> 'w pool \<Rightarrow> nat \<Rightarrow> nat" where
  "left body p i = (case pool_tasks p ! i of None \<Rightarrow> Suc (length (body i)) | Some rest \<Rightarrow> length rest)"

lemma pool_step_length: "length (pool_tasks (pool_step poll body i p)) = length (pool_tasks p)"
  by (auto simp: pool_step_def start_task_def continue_task_def split_beta Let_def split: option.splits list.splits run.splits)

lemma left_step: "i < length (pool_tasks p) \<Longrightarrow> left body (pool_step poll body i p) i \<le> left body p i - 1"
  by (auto simp: left_def pool_step_def start_task_def continue_task_def split_beta Let_def
      split: option.splits list.splits run.splits)

lemma left_other: "k \<noteq> i \<Longrightarrow> left body (pool_step poll body i p) k = left body p k"
  by (auto simp: left_def pool_step_def start_task_def continue_task_def split_beta Let_def
      split: option.splits list.splits run.splits)

lemma left_fold: "k < length (pool_tasks p) \<Longrightarrow>
    left body (fold (pool_step poll body) order p) k \<le> left body p k - count_list order k"
proof (induction order arbitrary: p)
  case (Cons i order)
  have "left body (fold (pool_step poll body) order (pool_step poll body i p)) k \<le>
      left body (pool_step poll body i p) k - count_list order k"
    using Cons by (simp add: pool_step_length)
  moreover have "left body (pool_step poll body i p) k \<le> left body p k - (if i = k then 1 else 0)"
    using left_step [of k p body poll] left_other [of k i body poll p] Cons.prems by auto
  ultimately show ?case by (cases "i = k") simp_all
qed simp

lemma count_drain: "k < count \<Longrightarrow> count_list (drain body count) k = Suc (length (body k))"
proof (induction count)
  case (Suc n)
  have rep: "count_list (replicate m x) k = (if x = k then m else 0)" for m and x :: nat by (induction m) auto
  have "count_list (drain body n) k = 0" if "k = n"
    using that by (simp add: drain_def count_list_0_iff)
  moreover have "drain body (Suc n) = drain body n @ replicate (Suc (length (body n))) n" by (simp add: drain_def)
  ultimately show ?case using Suc rep [of "Suc (length (body n))" n] by (cases "k = n") simp_all
qed simp

lemma run_pool_finished:
  assumes "i < count"
  shows "length (pool_tasks (run_pool poll body count order w)) = count \<and>
    pool_tasks (run_pool poll body count order w) ! i = Some []"
proof -
  let ?p = "\<lparr>pool_world = w, pool_tasks = replicate count None, firstException = None\<rparr>"
  have len: "length (pool_tasks (fold (pool_step poll body) xs p)) = length (pool_tasks p)" for xs and p :: "'a pool"
    by (induction xs arbitrary: p) (simp_all add: pool_step_length)
  have "left body (run_pool poll body count order w) i = 0"
    using left_fold [of i ?p body poll "order @ drain body count"] assms
    by (simp add: run_pool_def left_def count_drain)
  then show ?thesis using len by (auto simp: left_def run_pool_def split: option.splits)
qed

locale local_tasks =
  fixes poll :: "'w \<Rightarrow> bool \<times> 'w" and own :: "'w \<Rightarrow> nat \<Rightarrow> 'v" and shared :: "'w \<Rightarrow> 'c" and ok :: "'w \<Rightarrow> bool"
  assumes poll_own: "own (snd (poll w)) = own w" and poll_shared: "shared (snd (poll w)) = shared w"
    and poll_ok: "ok w \<Longrightarrow> ok (snd (poll w))" and poll_sticky: "fst (poll w) \<Longrightarrow> fst (poll (snd (poll w)))"
begin

lemma throw_local:
  assumes "ok w"
  shows "own (final (throw_if_cancelled poll w)) = own w" "shared (final (throw_if_cancelled poll w)) = shared w"
    "ok (final (throw_if_cancelled poll w))" "raised (throw_if_cancelled poll w) = (if fst (poll w) then Some Cancelled else None)"
    "fst (poll w) \<Longrightarrow> fst (poll (final (throw_if_cancelled poll w)))"
  using assms poll_own poll_shared poll_ok poll_sticky by (auto simp: throw_if_cancelled_def split_beta Let_def)

text \<open>A task alone.\<close>

lemma run_actions_local:
  assumes "list_all2 (local_action poll own shared ok h) as fs" and "ok w"
  shows "raised (run_actions as w) = fst (apply_effects fs (shared w) (own w h)) \<and>
    own (final (run_actions as w)) = (own w)(h := snd (apply_effects fs (shared w) (own w h))) \<and>
    shared (final (run_actions as w)) = shared w \<and> ok (final (run_actions as w))"
  using assms
proof (induction as fs arbitrary: w rule: list_all2_induct)
  case Nil
  then show ?case by (simp add: run_actions_def)
next
  case (Cons a as f fs)
  note l = local_actionD [OF Cons.hyps(1) Cons.prems]
  show ?case
  proof (cases "a w")
    case (Returned w')
    then show ?thesis using l Cons.IH [of w'] by (cases "f (shared w) (own w h)") (auto simp: run_actions_def fun_eq_iff)
  next
    case (Raised e w')
    then show ?thesis using l by (cases "f (shared w) (own w h)") (auto simp: run_actions_def split: option.splits)
  qed
qed

lemma start_ok:
  assumes "pool_ok poll own shared ok count hs body fs w0 p" and "i < count" and "pool_tasks p ! i = None"
  shows "pool_ok poll own shared ok count hs body fs w0 (start_task poll (body i) i p)"
proof -
  let ?w = "snd (poll (pool_world p))" and ?e = "firstException p \<noteq> None \<or> fst (poll (pool_world p))"
  have own: "own ?w = own (pool_world p)" by (rule poll_own)
  have stays: "?e \<Longrightarrow> firstException p \<noteq> None \<or> fst (poll ?w)" using poll_sticky by blast
  have old: "task_ok ?e (body k) (fs k) (shared w0) (own w0 (hs k)) (own (pool_world p) (hs k)) (pool_tasks p ! k)" if "k < count" for k
    using assms(1) that by (simp add: pool_ok_def)
  have "task_ok (firstException p \<noteq> None \<or> fst (poll ?w)) (body k) (fs k) (shared w0) (own w0 (hs k)) (own ?w (hs k))
      ((pool_tasks p)[i := Some (if ?e then [] else body i)] ! k)" if k: "k < count" for k
  proof (cases "k = i")
    case True
    have "own (pool_world p) (hs i) = own w0 (hs i)" using old [OF assms(2)] assms(3) by (simp add: task_ok_def)
    then have own0: "own ?w (hs i) = own w0 (hs i)" by (simp add: own)
    have "task_ok ?e (body i) (fs i) (shared w0) (own w0 (hs i)) (own w0 (hs i)) (Some (if ?e then [] else body i))"
      using task_start by (cases ?e) simp_all
    from task_ok_mono [OF this stays] show ?thesis using True assms(1) k own0 by (simp add: pool_ok_def)
  next
    case False
    then show ?thesis using task_ok_mono [OF old [OF k] stays] by (simp add: own)
  qed
  then show ?thesis using assms(1)
    by (simp add: pool_ok_def start_task_def split_beta Let_def own poll_shared poll_ok disj_commute)
qed

lemma continue_ok:
  assumes "bodies_local poll own shared ok count hs body fs" and "pool_ok poll own shared ok count hs body fs w0 p"
    and "i < count" and "pool_tasks p ! i = Some (a # rest)"
  shows "pool_ok poll own shared ok count hs body fs w0 (continue_task a rest i p)"
proof -
  let ?w = "pool_world p" and ?e = "firstException p \<noteq> None \<or> fst (poll (pool_world p))"
  let ?p = "continue_task a rest i p"
  have ok: "ok ?w" "shared ?w = shared w0" using assms(2) by (simp_all add: pool_ok_def)
  have old: "task_ok ?e (body k) (fs k) (shared w0) (own w0 (hs k)) (own ?w (hs k)) (pool_tasks p ! k)" if "k < count" for k
    using assms(2) that by (simp add: pool_ok_def)
  have all: "list_all2 (local_action poll own shared ok (hs i)) (body i) (fs i)"
    using assms(1,3) by (simp add: bodies_local_def)
  obtain j where j: "j < length (fs i)" "a = body i ! j" and next_ok: "\<forall>e' v'. (fs i ! j) (shared w0) (own ?w (hs i)) = (e', v') \<longrightarrow>
      task_ok (?e \<or> e' \<noteq> None) (body i) (fs i) (shared w0) (own w0 (hs i)) v' (Some (if e' = None then rest else []))"
    using task_next [OF old [OF assms(3), unfolded assms(4)] list_all2_lengthD [OF all]] by blast
  have "local_action poll own shared ok (hs i) a (fs i ! j)"
    using all j by (simp add: list_all2_conv_all_nth)
  note l = local_actionD [OF this ok(1), unfolded ok(2)]
  have p': "pool_world ?p = final (a ?w)"
      "pool_tasks ?p = (pool_tasks p)[i := Some (if raised (a ?w) = None then rest else [])]"
      "(firstException ?p = None) = (firstException p = None \<and> raised (a ?w) = None)"
    by (auto simp: continue_task_def split: run.splits option.splits)
  have ends: "?e \<or> raised (a ?w) \<noteq> None \<Longrightarrow> firstException ?p \<noteq> None \<or> fst (poll (pool_world ?p))"
    using l(5) p'(3) by (auto simp: p'(1))
  have "task_ok (firstException ?p \<noteq> None \<or> fst (poll (pool_world ?p))) (body k) (fs k) (shared w0) (own w0 (hs k))
      (own (final (a ?w)) (hs k)) (pool_tasks ?p ! k)" if k: "k < count" for k
  proof (cases "k = i")
    case True
    have "task_ok (?e \<or> raised (a ?w) \<noteq> None) (body i) (fs i) (shared w0) (own w0 (hs i)) (own (final (a ?w)) (hs i))
        (Some (if raised (a ?w) = None then rest else []))"
      using next_ok l(1,2) by (metis fun_upd_same prod.collapse)
    from task_ok_mono [OF this ends] show ?thesis using True assms(2,3) by (simp add: p'(2) pool_ok_def)
  next
    case False
    then have "hs k \<noteq> hs i" using assms(1,3) k by (auto simp: bodies_local_def inj_on_def)
    have "task_ok (firstException ?p \<noteq> None \<or> fst (poll (pool_world ?p))) (body k) (fs k) (shared w0) (own w0 (hs k))
        (own ?w (hs k)) (pool_tasks p ! k)" by (rule task_ok_mono [OF old [OF k]]) (rule ends, blast)
    then show ?thesis using False l(2) \<open>hs k \<noteq> hs i\<close> by (simp add: p'(2))
  qed
  moreover have "\<forall>h. h \<notin> hs ` {..<count} \<longrightarrow> own (final (a ?w)) h = own w0 h"
    using assms(2,3) l(2) by (auto simp: pool_ok_def)
  ultimately show ?thesis using assms(2) l(3,4) by (simp add: pool_ok_def p'(1,2))
qed

lemma pool_run_ok:
  assumes "bodies_local poll own shared ok count hs body fs" and "pool_ok poll own shared ok count hs body fs w0 p"
  shows "pool_ok poll own shared ok count hs body fs w0 (fold (pool_step poll body) order p)"
  using assms(2)
proof (induction order arbitrary: p)
  case (Cons i order)
  have len: "length (pool_tasks p) = count" using Cons.prems by (simp add: pool_ok_def)
  have "pool_ok poll own shared ok count hs body fs w0 (pool_step poll body i p)"
  proof (cases "i < count")
    case True
    then show ?thesis using start_ok [OF Cons.prems True] continue_ok [OF assms(1) Cons.prems True] Cons.prems
      by (auto simp: pool_step_def len split: option.splits list.splits)
  qed (use Cons.prems in \<open>simp add: pool_step_def len\<close>)
  then show ?case using Cons.IH by simp
qed simp

lemma indexed_result:
  assumes "bodies_local poll own shared ok count hs body fs" and "ok w"
  shows "local_result own shared ok {..<count} hs fs w (parallelForIndexed poll order body count w)"
proof -
  let ?p = "run_pool poll body count order w"
  let ?r = "parallelForIndexed poll order body count w"
  have "pool_ok poll own shared ok count hs body fs w \<lparr>pool_world = w, pool_tasks = replicate count None, firstException = None\<rparr>"
    using assms(2) by (simp add: pool_ok_def task_ok_def)
  from pool_run_ok [OF assms(1) this] have p: "pool_ok poll own shared ok count hs body fs w ?p"
    unfolding run_pool_def .
  then have okp: "ok (pool_world ?p)" by (simp add: pool_ok_def)
  have r: "own (final ?r) = own (pool_world ?p)" "shared (final ?r) = shared (pool_world ?p)" "ok (final ?r)"
    "raised ?r = None \<Longrightarrow> firstException ?p = None \<and> \<not> fst (poll (pool_world ?p))"
    using throw_local(1-4) [OF okp] okp by (cases "firstException ?p"; simp add: parallelForIndexed_def Let_def split: if_splits)+
  have "reached (fs i) (shared w) (own w (hs i)) (own (final ?r) (hs i)) \<and>
      (raised ?r = None \<longrightarrow> apply_effects (fs i) (shared w) (own w (hs i)) = (None, own (final ?r) (hs i)))" if i: "i < count" for i
  proof -
    have fin: "task_ok (firstException ?p \<noteq> None \<or> fst (poll (pool_world ?p))) (body i) (fs i) (shared w) (own w (hs i))
        (own (pool_world ?p) (hs i)) (Some [])"
      using p i run_pool_finished [OF i, of poll body order w] unfolding pool_ok_def by metis
    have len: "length (body i) = length (fs i)" using assms(1) i by (auto simp: bodies_local_def dest: list_all2_lengthD)
    have "apply_effects (fs i) (shared w) (own w (hs i)) = (None, own (pool_world ?p) (hs i))" if fine: "raised ?r = None"
    proof -
      obtain j where "j \<le> length (fs i)" "[] = drop j (body i)"
          "apply_effects (take j (fs i)) (shared w) (own w (hs i)) = (None, own (pool_world ?p) (hs i))"
        using fin r(4) [OF fine] by (auto simp: task_ok_def)
      then show ?thesis using len by (metis drop_eq_Nil le_antisym take_all)
    qed
    then show ?thesis using fin r(1) by (simp add: task_ok_def)
  qed
  then show ?thesis using p r by (simp add: local_result_def pool_ok_def)
qed

lemma each_result:
  assumes "bodies_local poll own shared ok count hs body fs" and "ok w" and "distinct is" and "set is \<subseteq> {..<count}"
  shows "local_result own shared ok (set is) hs fs w
    (run_each (\<lambda>i w. and_then (throw_if_cancelled poll w) (run_actions (body i))) is w)"
  using assms(2-4)
proof (induction "is" arbitrary: w)
  case (Cons i "is")
  let ?step = "\<lambda>i w. and_then (throw_if_cancelled poll w) (run_actions (body i))"
  have i: "i < count" "i \<notin> set is" "set is \<subseteq> {..<count}" using Cons.prems by auto
  have inj: "hs k \<noteq> hs i" if "k \<in> set is" for k
    using assms(1) i that unfolding bodies_local_def inj_on_def by blast
  have l: "list_all2 (local_action poll own shared ok (hs i)) (body i) (fs i)"
    using assms(1) i by (simp add: bodies_local_def)
  have one: "reached (fs i) (shared w) (own w (hs i)) (own (final (?step i w)) (hs i)) \<and>
      (raised (?step i w) = None \<longrightarrow> apply_effects (fs i) (shared w) (own w (hs i)) = (None, own (final (?step i w)) (hs i))) \<and>
      shared (final (?step i w)) = shared w \<and> ok (final (?step i w)) \<and>
      (\<forall>h. h \<noteq> hs i \<longrightarrow> own (final (?step i w)) h = own w h)"
  proof (cases "throw_if_cancelled poll w")
    case (Returned w1)
    have w1: "ok w1" "own w1 = own w" "shared w1 = shared w"
      using throw_local [OF Cons.prems(1)] Returned by simp_all
    show ?thesis using run_actions_local [OF l w1(1)] Returned reached_all [of "fs i" "shared w" "own w (hs i)"]
      by (auto simp: w1(2,3) prod_eq_iff)
  next
    case (Raised e w1)
    then show ?thesis using throw_local(1-3) [OF Cons.prems(1)] by (simp add: reached_start)
  qed
  show ?case
  proof (cases "?step i w")
    case (Raised e w2)
    then show ?thesis using one inj by (auto simp: local_result_def reached_start)
  next
    case (Returned w2)
    have w2: "own w2 (hs k) = own w (hs k)" if "k \<in> set is" for k
      using one Returned inj [OF that] by simp
    have "local_result own shared ok (set is) hs fs w2 (run_each ?step is w2)"
      using Cons.prems one Returned by (intro Cons.IH) auto
    moreover have "hs i \<notin> hs ` set is" using inj by fastforce
    ultimately show ?thesis using one Returned w2 by (auto simp: local_result_def)
  qed
qed (simp add: local_result_def)

lemma inline_result:
  assumes "bodies_local poll own shared ok count hs body fs" and "ok w"
  shows "local_result own shared ok {..<count} hs fs w (inline_loop poll body count w)"
  using each_result [OF assms, of "[0..<count]"] by (simp add: inline_loop_def atLeast0LessThan)

theorem parallelFor_result:
  assumes "bodies_local poll own shared ok count hs body fs" and "ok w"
  shows "local_result own shared ok {..<count} hs fs w (parallelFor poll order body count w)"
proof (cases "throw_if_cancelled poll w")
  case (Raised e w1)
  then show ?thesis using throw_local(1-3) [OF assms(2)] by (simp add: parallelFor_def local_result_def reached_start)
next
  case (Returned w1)
  have w1: "ok w1" "own w1 = own w" "shared w1 = shared w"
    using throw_local [OF assms(2)] Returned by simp_all
  have "local_result own shared ok {..<count} hs fs w1 (parallelForIndexed poll o' body count w1)"
    "local_result own shared ok {..<count} hs fs w1 (inline_loop poll body count w1)" for o'
    using indexed_result [OF assms(1) w1(1)] inline_result [OF assms(1) w1(1)] by blast+
  then show ?thesis using Returned w1
    by (cases order) (auto simp: parallelFor_def local_result_def)
qed

end

subsection \<open>Undisturbed runs\<close>

text \<open>Without a stop request a loop over actions that do not throw returns.\<close>

definition safe :: "('w \<Rightarrow> bool) \<Rightarrow> ('w \<Rightarrow> 'w run) \<Rightarrow> bool" where
  "safe P a \<longleftrightarrow> (\<forall>w. P w \<longrightarrow> raised (a w) = None \<and> P (final (a w)))"

lemma safeI: "(\<And>w. P w \<Longrightarrow> raised (a w) = None \<and> P (final (a w))) \<Longrightarrow> safe P a"
  by (simp add: safe_def)

lemma safeD: "safe P a \<Longrightarrow> P w \<Longrightarrow> \<exists>w'. a w = Returned w' \<and> P w'"
  unfolding safe_def by (cases "a w") force+

lemma safe_Returned: "(\<And>w. P w \<Longrightarrow> P (f w)) \<Longrightarrow> safe P (\<lambda>w. Returned (f w))"
  by (simp add: safe_def)

lemma safe_and_then: "safe P a \<Longrightarrow> (\<And>w. safe P f) \<Longrightarrow> safe P (\<lambda>w. and_then (a w) f)"
  by (rule safeI) (drule (1) safeD, auto simp: safe_def)

lemma safe_each: "(\<And>x. x \<in> set xs \<Longrightarrow> safe P (f x)) \<Longrightarrow> safe P (run_each f xs)"
proof (induction xs)
  case (Cons x xs)
  have "safe P (\<lambda>w. and_then (f x w) (run_each f xs))" using Cons by (intro safe_and_then) simp_all
  then show ?case by simp
qed (simp add: safe_def)

definition calm_pool :: "('w \<Rightarrow> bool) \<Rightarrow> 'w pool \<Rightarrow> bool" where
  "calm_pool P p \<longleftrightarrow> P (pool_world p) \<and> firstException p = None \<and>
     (\<forall>rest. Some rest \<in> set (pool_tasks p) \<longrightarrow> (\<forall>a \<in> set rest. safe P a))"

locale undisturbed =
  fixes poll :: "'w \<Rightarrow> bool \<times> 'w" and P :: "'w \<Rightarrow> bool"
  assumes calm: "P w \<Longrightarrow> \<not> fst (poll w) \<and> P (snd (poll w))"
begin

lemma throw_safe: "safe P (throw_if_cancelled poll)"
  using calm by (simp add: safe_def throw_if_cancelled_def split_beta Let_def)

lemma inline_safe:
  assumes "\<And>i. i < count \<Longrightarrow> \<forall>a \<in> set (body i). safe P a"
  shows "safe P (inline_loop poll body count)"
  unfolding inline_loop_def run_actions_def
  by (intro safe_each safe_and_then throw_safe) (use assms in auto)

lemma calm_step:
  assumes "calm_pool P p" and "i < length (pool_tasks p) \<Longrightarrow> \<forall>a \<in> set (body i). safe P a"
  shows "calm_pool P (pool_step poll body i p)"
proof (cases "i < length (pool_tasks p)")
  case True
  have upd: "Some rest \<in> set ((pool_tasks p)[i := Some new]) \<Longrightarrow> Some rest \<in> set (pool_tasks p) \<or> rest = new" for rest new
    using set_update_subset_insert [of "pool_tasks p" i "Some new"] by auto
  show ?thesis
  proof (cases "pool_tasks p ! i")
    case None
    then show ?thesis using assms True calm [of "pool_world p"]
      by (auto simp: calm_pool_def pool_step_def start_task_def split_beta Let_def dest!: upd)
  next
    case (Some rest)
    show ?thesis
    proof (cases rest)
      case (Cons a rest')
      have mem: "Some (a # rest') \<in> set (pool_tasks p)" using Some Cons True by (metis nth_mem)
      then have "safe P a" "\<forall>b \<in> set rest'. safe P b" using assms(1) by (auto simp: calm_pool_def)
      moreover obtain w where "a (pool_world p) = Returned w" "P w"
        using safeD [OF \<open>safe P a\<close>, of "pool_world p"] assms(1) by (auto simp: calm_pool_def)
      ultimately show ?thesis using assms(1) True Some Cons
        by (auto simp: calm_pool_def pool_step_def continue_task_def dest!: upd)
    qed (use assms Some True in \<open>simp add: pool_step_def\<close>)
  qed
qed (use assms in \<open>simp add: pool_step_def\<close>)

lemma pool_safe:
  assumes "\<And>i. i < count \<Longrightarrow> \<forall>a \<in> set (body i). safe P a"
  shows "safe P (parallelForIndexed poll order body count)"
proof (rule safeI)
  fix w
  assume w: "P w"
  have run: "calm_pool P (fold (pool_step poll body) xs p)" if "calm_pool P p" "length (pool_tasks p) = count" for xs p
    using that
  proof (induction xs arbitrary: p)
    case (Cons i xs)
    have "calm_pool P (pool_step poll body i p)" using Cons.prems assms by (intro calm_step) simp_all
    then show ?case using Cons by (simp add: pool_step_length)
  qed simp
  have "calm_pool P \<lparr>pool_world = w, pool_tasks = replicate count None, firstException = None\<rparr>"
    using w by (simp add: calm_pool_def)
  then have "calm_pool P (run_pool poll body count order w)"
    unfolding run_pool_def by (rule run) simp
  then show "raised (parallelForIndexed poll order body count w) = None \<and> P (final (parallelForIndexed poll order body count w))"
    using throw_safe by (simp add: parallelForIndexed_def Let_def calm_pool_def safe_def)
qed

lemma parallelFor_safe:
  assumes "\<And>i. i < count \<Longrightarrow> \<forall>a \<in> set (body i). safe P a"
  shows "safe P (parallelFor poll order body count)"
  unfolding parallelFor_def
  by (intro safe_and_then throw_safe) (use pool_safe [OF assms] inline_safe [OF assms] in \<open>auto simp: safe_def split: option.split\<close>)

end

end
