(* ===== verification/Builder.thy ===== *)
theory Builder
  imports Tasks IndexMgr
begin

text \<open>
  The document builder (\<open>core/workspace/DefaultDocumentBuilder.cpp\<close>): it takes documents through the
  states \<open>Changed\<close>, \<open>Parsed\<close>, \<open>IndexedContent\<close>, \<open>ComputedScopes\<close>, \<open>Linked\<close>,
  \<open>IndexedReferences\<close> and \<open>Validated\<close>, in three parallel phases with barriers between them. The
  services it calls through virtual interfaces (parser, scope computation, linker, validator, listeners) are
  the fields of \<open>services\<close>; each may throw. The stop request, which comes from another thread at any
  time, is the number of polls it still lets pass.
\<close>

subsection \<open>Options\<close>

record validation_options =
  categories :: "string list"
  stopAfterParsingErrors :: "bool option"
  stopAfterLinkingErrors :: "bool option"

datatype build_validation = Unset | Enabled bool | Detailed validation_options

record build_options =
  eagerLinking :: "bool option"
  validation :: build_validation

definition default_options :: build_options where
  "default_options = \<lparr>eagerLinking = None, validation = Unset\<rparr>"

text \<open>The options of \<open>update\<close>, as the constructor sets them.\<close>

definition update_build_options :: build_options where
  "update_build_options = \<lparr>eagerLinking = None, validation = Detailed
     \<lparr>categories = [''built-in'', ''fast''], stopAfterParsingErrors = None, stopAfterLinkingErrors = None\<rparr>\<rparr>"

record build_state =
  completed :: bool
  options :: build_options
  result :: "string list option"

subsection \<open>The workspace\<close>

text \<open>What the phases compute for a document; the references are \<open>None\<close> while they are not linked.\<close>

record ('a, 's, 'l, 'd) analysed =
  ast :: "'a option"
  localSymbols :: "'s option"
  links :: "'l option"
  diagnostics :: "'d list"

datatype event = Announced "nat list" "nat list" | DocumentReached document_state nat
  | PhaseReached document_state "nat list" | Downgraded

record ('a, 's, 'l, 'd) workspace =
  registry :: documents
  analysis :: "nat \<Rightarrow> ('a, 's, 'l, 'd) analysed"
  index :: index_manager
  buildStates :: "nat \<rightharpoonup> build_state"
  currentState :: document_state
  published :: "document_state \<Rightarrow> nat"
  polls :: "nat option"
  trace :: "event list"

record ('a, 's, 'l, 'd) services =
  cwd :: string
  read_latest :: "string \<Rightarrow> exn + string"
  parse_document :: "string \<Rightarrow> string \<Rightarrow> exn + 'a"
  collectExportedSymbols :: "nat \<Rightarrow> 'a option \<Rightarrow> exn + node_description list"
  collectLocalSymbols :: "'a option \<Rightarrow> exn + 's"
  link_document :: "'a option \<Rightarrow> 's option \<Rightarrow> (nat \<times> node_description list) list \<Rightarrow> exn + 'l"
  has_error :: "'l \<Rightarrow> bool"
  createDescriptions :: "'l option \<Rightarrow> exn + reference_description list"
  validateDocument :: "'a option \<Rightarrow> 'l option \<Rightarrow> validation_options \<Rightarrow> exn + 'd list"
  getAllValidationCategories :: "string \<Rightarrow> string list"
  has_text :: "string \<Rightarrow> bool"
  update_listeners :: "(nat list \<Rightarrow> nat list \<Rightarrow> exn option) list"
  phase_listeners :: "document_state \<Rightarrow> (nat list \<Rightarrow> exn option) list"
  document_listeners :: "document_state \<Rightarrow> (nat \<Rightarrow> exn option) list"
  orders :: "document_state \<Rightarrow> nat list option option"

definition poll :: "('a, 's, 'l, 'd) workspace \<Rightarrow> bool \<times> ('a, 's, 'l, 'd) workspace" where
  "poll w = (case polls w of None \<Rightarrow> (False, w) | Some 0 \<Rightarrow> (True, w) | Some (Suc n) \<Rightarrow> (False, w\<lparr>polls := Some n\<rparr>))"

abbreviation check_cancelled :: "('a, 's, 'l, 'd) workspace \<Rightarrow> ('a, 's, 'l, 'd) workspace run" where
  "check_cancelled \<equiv> throw_if_cancelled poll"

definition uri_of :: "nat \<Rightarrow> ('a, 's, 'l, 'd) workspace \<Rightarrow> string" where
  "uri_of h w = docUri (heap (registry w) h)"

definition id_of :: "nat \<Rightarrow> ('a, 's, 'l, 'd) workspace \<Rightarrow> nat" where
  "id_of h w = docId (heap (registry w) h)"

definition state_of :: "nat \<Rightarrow> ('a, 's, 'l, 'd) workspace \<Rightarrow> document_state" where
  "state_of h w = docState (heap (registry w) h)"

text \<open>\<open>advance\<close> sets the state of a document.\<close>

definition advance :: "nat \<Rightarrow> document_state \<Rightarrow> ('a, 's, 'l, 'd) workspace \<Rightarrow> ('a, 's, 'l, 'd) workspace" where
  "advance h s w = w\<lparr>registry := (registry w)\<lparr>heap := (heap (registry w))(h := (heap (registry w) h)\<lparr>docState := s\<rparr>)\<rparr>\<rparr>"

definition analyse :: "nat \<Rightarrow> (('a, 's, 'l, 'd) analysed \<Rightarrow> ('a, 's, 'l, 'd) analysed) \<Rightarrow> ('a, 's, 'l, 'd) workspace \<Rightarrow>
    ('a, 's, 'l, 'd) workspace" where
  "analyse h f w = w\<lparr>analysis := (analysis w)(h := f (analysis w h))\<rparr>"

definition ensure_document_id :: "string \<Rightarrow> nat \<Rightarrow> ('a, 's, 'l, 'd) workspace \<Rightarrow> nat \<times> ('a, 's, 'l, 'd) workspace" where
  "ensure_document_id dir h w =
     (if id_of h w \<noteq> InvalidDocumentId then (id_of h w, w)
      else let (i, r) = getOrCreateDocumentId dir (uri_of h w) (registry w) in
        (i, w\<lparr>registry := r\<lparr>heap := (heap r)(h := (heap r h)\<lparr>docId := i\<rparr>)\<rparr>\<rparr>))"

subsection \<open>Build states\<close>

definition getBuildOptions :: "nat \<Rightarrow> ('a, 's, 'l, 'd) workspace \<Rightarrow> build_options" where
  "getBuildOptions h w = (case buildStates w (id_of h w) of Some st \<Rightarrow> options st | None \<Rightarrow> default_options)"

definition shouldLink :: "nat \<Rightarrow> ('a, 's, 'l, 'd) workspace \<Rightarrow> bool" where
  "shouldLink h w = (case eagerLinking (getBuildOptions h w) of None \<Rightarrow> True | Some b \<Rightarrow> b)"

definition validates :: "build_options \<Rightarrow> bool" where
  "validates o' = (case validation o' of Unset \<Rightarrow> False | Enabled b \<Rightarrow> b | Detailed _ \<Rightarrow> True)"

definition shouldValidate :: "nat \<Rightarrow> ('a, 's, 'l, 'd) workspace \<Rightarrow> bool" where
  "shouldValidate h w = validates (getBuildOptions h w)"

definition executed_categories :: "string list \<Rightarrow> build_state option \<Rightarrow> string list" where
  "executed_categories all st =
     (case st of None \<Rightarrow> []
      | Some s \<Rightarrow>
          if result s \<noteq> None \<and> the (result s) \<noteq> [] then the (result s)
          else if completed s then all else [])"

definition requested_categories :: "string list \<Rightarrow> build_options \<Rightarrow> string list" where
  "requested_categories all o' =
     (case validation o' of
        Unset \<Rightarrow> []
      | Enabled b \<Rightarrow> (if b then all else [])
      | Detailed v \<Rightarrow> (if categories v = [] then all else categories v))"

definition findMissingValidationCategories ::
  "('a, 's, 'l, 'd) services \<Rightarrow> nat \<Rightarrow> build_options \<Rightarrow> ('a, 's, 'l, 'd) workspace \<Rightarrow> string list" where
  "findMissingValidationCategories svc h o' w =
     (let all = getAllValidationCategories svc (uri_of h w);
          executed = executed_categories all (buildStates w (id_of h w)) in
      filter (\<lambda>c. c \<notin> set executed) (requested_categories all o'))"

definition resultsAreIncomplete ::
  "('a, 's, 'l, 'd) services \<Rightarrow> nat \<Rightarrow> build_options \<Rightarrow> ('a, 's, 'l, 'd) workspace \<Rightarrow> bool" where
  "resultsAreIncomplete svc h o' w = (findMissingValidationCategories svc h o' w \<noteq> [])"

definition markAsCompleted :: "nat \<Rightarrow> ('a, 's, 'l, 'd) workspace \<Rightarrow> ('a, 's, 'l, 'd) workspace" where
  "markAsCompleted h w =
     (case buildStates w (id_of h w) of
        None \<Rightarrow> w
      | Some st \<Rightarrow> w\<lparr>buildStates := (buildStates w)(id_of h w \<mapsto> st\<lparr>completed := True\<rparr>)\<rparr>)"

fun prepareBuild :: "string \<Rightarrow> nat list \<Rightarrow> build_options \<Rightarrow> ('a, 's, 'l, 'd) workspace \<Rightarrow> ('a, 's, 'l, 'd) workspace" where
  "prepareBuild dir [] o' w = w"
| "prepareBuild dir (h # hs) o' w =
     (let (i, w) = ensure_document_id dir h w in
      prepareBuild dir hs o'
        (case buildStates w i of
           None \<Rightarrow> w\<lparr>buildStates := (buildStates w)(i \<mapsto> \<lparr>completed = False, options = o', result = None\<rparr>)\<rparr>
         | Some st \<Rightarrow> if completed st
             then w\<lparr>buildStates := (buildStates w)(i \<mapsto> \<lparr>completed = False, options = o', result = result st\<rparr>)\<rparr>
             else w))"

definition resetToState :: "string \<Rightarrow> nat \<Rightarrow> document_state \<Rightarrow> ('a, 's, 'l, 'd) workspace \<Rightarrow> ('a, 's, 'l, 'd) workspace" where
  "resetToState dir h s w =
     (let (i, w) = ensure_document_id dir h w;
          w = (if s \<le> Parsed then w\<lparr>index := snd (removeContent i (index w))\<rparr> else w);
          w = (if s \<le> IndexedContent then analyse h (\<lambda>x. x\<lparr>localSymbols := None\<rparr>) w else w);
          w = (if s \<le> ComputedScopes then analyse h (\<lambda>x. x\<lparr>links := None\<rparr>) w else w);
          w = (if s \<le> Linked then w\<lparr>index := snd (removeReferences i (index w))\<rparr> else w);
          w = (if s \<le> IndexedReferences
               then (analyse h (\<lambda>x. x\<lparr>diagnostics := []\<rparr>) w)\<lparr>buildStates := (buildStates w)(i := None)\<rparr> else w)
      in if s < state_of h w then advance h s w else w)"

subsection \<open>The steps of a document\<close>

text \<open>Each takes the state the document entered the phase with.\<close>

definition reparse_step :: "('a, 's, 'l, 'd) services \<Rightarrow> nat \<Rightarrow> document_state \<Rightarrow> ('a, 's, 'l, 'd) workspace \<Rightarrow>
    ('a, 's, 'l, 'd) workspace run" where
  "reparse_step svc h s0 w =
     (if s0 < Parsed then
        (case read_latest svc (uri_of h w) of
           Inl e \<Rightarrow> Raised e w
         | Inr latest \<Rightarrow>
             (let w = advance h Changed
                  (analyse h (\<lambda>x. x\<lparr>ast := None, localSymbols := None, links := None, diagnostics := []\<rparr>) w) in
              case parse_document svc (uri_of h w) latest of
                Inl e \<Rightarrow> Raised e w
              | Inr a \<Rightarrow> Returned (advance h Parsed (analyse h (\<lambda>x. x\<lparr>ast := Some a\<rparr>) w))))
      else Returned w)"

definition content_step :: "('a, 's, 'l, 'd) services \<Rightarrow> nat \<Rightarrow> document_state \<Rightarrow> ('a, 's, 'l, 'd) workspace \<Rightarrow>
    ('a, 's, 'l, 'd) workspace run" where
  "content_step svc h s0 w =
     (if s0 < IndexedContent then
        (case collectExportedSymbols svc (id_of h w) (ast (analysis w h)) of
           Inl e \<Rightarrow> Raised e w
         | Inr xs \<Rightarrow> Returned (advance h IndexedContent (w\<lparr>index := updateContent (id_of h w) xs (index w)\<rparr>)))
      else Returned w)"

definition scope_step :: "('a, 's, 'l, 'd) services \<Rightarrow> nat \<Rightarrow> document_state \<Rightarrow> ('a, 's, 'l, 'd) workspace \<Rightarrow>
    ('a, 's, 'l, 'd) workspace run" where
  "scope_step svc h s0 w =
     (if s0 < ComputedScopes then
        (case collectLocalSymbols svc (ast (analysis w h)) of
           Inl e \<Rightarrow> Raised e w
         | Inr s \<Rightarrow> Returned (advance h ComputedScopes (analyse h (\<lambda>x. x\<lparr>localSymbols := Some s\<rparr>) w)))
      else Returned w)"

definition link_step :: "('a, 's, 'l, 'd) services \<Rightarrow> nat \<Rightarrow> document_state \<Rightarrow> ('a, 's, 'l, 'd) workspace \<Rightarrow>
    ('a, 's, 'l, 'd) workspace run" where
  "link_step svc h s0 w =
     (if shouldLink h w \<and> s0 < Linked then
        (case link_document svc (ast (analysis w h)) (localSymbols (analysis w h)) (exportsByDocument (index w)) of
           Inl e \<Rightarrow> Raised e w
         | Inr l \<Rightarrow> Returned (advance h Linked (analyse h (\<lambda>x. x\<lparr>links := Some l\<rparr>) w)))
      else Returned w)"

definition reference_step :: "('a, 's, 'l, 'd) services \<Rightarrow> nat \<Rightarrow> document_state \<Rightarrow> ('a, 's, 'l, 'd) workspace \<Rightarrow>
    ('a, 's, 'l, 'd) workspace run" where
  "reference_step svc h s0 w =
     (if shouldLink h w \<and> s0 < IndexedReferences then
        (case createDescriptions svc (links (analysis w h)) of
           Inl e \<Rightarrow> Raised e w
         | Inr rs \<Rightarrow> Returned (advance h IndexedReferences (w\<lparr>index := updateReferences (id_of h w) rs (index w)\<rparr>)))
      else Returned w)"

definition add_checks :: "string list \<Rightarrow> string list \<Rightarrow> string list" where
  "add_checks checks cs = fold (\<lambda>c acc. if c \<in> set acc then acc else acc @ [c]) cs checks"

definition validate :: "('a, 's, 'l, 'd) services \<Rightarrow> nat \<Rightarrow> ('a, 's, 'l, 'd) workspace \<Rightarrow>
    ('a, 's, 'l, 'd) workspace run" where
  "validate svc h w =
     (let o' = getBuildOptions h w;
          v = (case validation o' of Detailed v \<Rightarrow> v
             | _ \<Rightarrow> \<lparr>categories = [], stopAfterParsingErrors = None, stopAfterLinkingErrors = None\<rparr>);
          cs = findMissingValidationCategories svc h o' w in
      case validateDocument svc (ast (analysis w h)) (links (analysis w h)) (v\<lparr>categories := cs\<rparr>) of
        Inl e \<Rightarrow> Raised e w
      | Inr ds \<Rightarrow>
          (let w = analyse h (\<lambda>x. x\<lparr>diagnostics := diagnostics x @ ds\<rparr>) w;
               st = (case buildStates w (id_of h w) of
                   None \<Rightarrow> \<lparr>completed = False, options = default_options, result = None\<rparr> | Some st \<Rightarrow> st);
               checks = (case result st of None \<Rightarrow> [] | Some cs \<Rightarrow> cs) in
           Returned (w\<lparr>buildStates := (buildStates w)(id_of h w \<mapsto> st\<lparr>result := Some (add_checks checks cs)\<rparr>)\<rparr>)))"

definition validate_step :: "('a, 's, 'l, 'd) services \<Rightarrow> nat \<Rightarrow> document_state \<Rightarrow> ('a, 's, 'l, 'd) workspace \<Rightarrow>
    ('a, 's, 'l, 'd) workspace run" where
  "validate_step svc h s0 w =
     (if s0 < Validated then
        and_then (validate svc h w) (\<lambda>w. Returned (advance h Validated (markAsCompleted h w)))
      else Returned w)"

subsection \<open>Listeners\<close>

text \<open>A listener returns or throws; what it does elsewhere is not part of the model.\<close>

fun call_isolated :: "(('a, 's, 'l, 'd) workspace \<Rightarrow> ('a, 's, 'l, 'd) workspace run) \<Rightarrow> exn option list \<Rightarrow>
    ('a, 's, 'l, 'd) workspace \<Rightarrow> ('a, 's, 'l, 'd) workspace run" where
  "call_isolated before [] w = Returned w"
| "call_isolated before (e # es) w =
     and_then (before w) (\<lambda>w. if e = Some Cancelled then Raised Cancelled w else call_isolated before es w)"

definition emitUpdate :: "('a, 's, 'l, 'd) services \<Rightarrow> nat list \<Rightarrow> nat list \<Rightarrow> ('a, 's, 'l, 'd) workspace \<Rightarrow>
    ('a, 's, 'l, 'd) workspace run" where
  "emitUpdate svc changed deleted w =
     call_isolated Returned (map (\<lambda>l. l changed deleted) (update_listeners svc))
       (w\<lparr>trace := trace w @ [Announced changed deleted]\<rparr>)"

definition notifyBuildPhase :: "('a, 's, 'l, 'd) services \<Rightarrow> nat list \<Rightarrow> document_state \<Rightarrow> ('a, 's, 'l, 'd) workspace \<Rightarrow>
    ('a, 's, 'l, 'd) workspace run" where
  "notifyBuildPhase svc hs s w =
     (if hs = [] then Returned w
      else call_isolated check_cancelled (map (\<lambda>l. l hs) (phase_listeners svc s))
        (w\<lparr>trace := trace w @ [PhaseReached s hs]\<rparr>))"

text \<open>
  The listeners of a document: a cancellation is kept while the others run (each behind a poll),
  another exception stops the loop and goes first.
\<close>

fun call_document :: "exn option list \<Rightarrow> exn option \<Rightarrow> ('a, 's, 'l, 'd) workspace \<Rightarrow> ('a, 's, 'l, 'd) workspace run" where
  "call_document [] cancellation w = (case cancellation of None \<Rightarrow> Returned w | Some e \<Rightarrow> Raised e w)"
| "call_document (e # es) cancellation w =
     (let (stop, w) = poll w in
      if stop then call_document es (Some Cancelled) w
      else if e = Some Failed then Raised Failed w
      else call_document es (if e = Some Cancelled then Some Cancelled else cancellation) w)"

definition notifyDocumentPhase :: "('a, 's, 'l, 'd) services \<Rightarrow> nat \<Rightarrow> document_state \<Rightarrow> ('a, 's, 'l, 'd) workspace \<Rightarrow>
    ('a, 's, 'l, 'd) workspace run" where
  "notifyDocumentPhase svc h s w =
     call_document (map (\<lambda>l. l h) (document_listeners svc s)) None (w\<lparr>trace := trace w @ [DocumentReached s h]\<rparr>)"

definition publishWorkspaceState :: "document_state \<Rightarrow> ('a, 's, 'l, 'd) workspace \<Rightarrow> ('a, 's, 'l, 'd) workspace" where
  "publishWorkspaceState s w = w\<lparr>currentState := s, published := (published w)(s := published w s + 1)\<rparr>"

subsection \<open>Phases\<close>

definition notify_reached :: "('a, 's, 'l, 'd) services \<Rightarrow> document_state list \<Rightarrow> nat \<times> document_state \<Rightarrow>
    ('a, 's, 'l, 'd) workspace \<Rightarrow> ('a, 's, 'l, 'd) workspace run" where
  "notify_reached svc ss p w =
     run_each (\<lambda>s w. if snd p < s \<and> s \<le> state_of (fst p) w then notifyDocumentPhase svc (fst p) s w else Returned w) ss w"

definition publish_reached :: "('a, 's, 'l, 'd) services \<Rightarrow> nat list \<Rightarrow> document_state \<Rightarrow>
    ('a, 's, 'l, 'd) workspace \<Rightarrow> ('a, 's, 'l, 'd) workspace run" where
  "publish_reached svc hs s w =
     and_then (notifyBuildPhase svc (filter (\<lambda>h. s \<le> state_of h w) hs) s w)
       (\<lambda>w. Returned (publishWorkspaceState s w))"

text \<open>The order of the scheduler for a phase: \<open>None\<close> without a scheduler, \<open>Some None\<close> for one without workers.\<close>

definition run_tasks :: "('a, 's, 'l, 'd) services \<Rightarrow> document_state \<Rightarrow>
    (nat \<Rightarrow> (('a, 's, 'l, 'd) workspace \<Rightarrow> ('a, 's, 'l, 'd) workspace run) list) \<Rightarrow> nat \<Rightarrow>
    ('a, 's, 'l, 'd) workspace \<Rightarrow> ('a, 's, 'l, 'd) workspace run" where
  "run_tasks svc phase body n w =
     (case orders svc phase of
        None \<Rightarrow> inline_loop poll body n w
      | Some order \<Rightarrow> if n \<le> 1 then inline_loop poll body n w else parallelFor poll order body n w)"

definition runMergedPhase :: "('a, 's, 'l, 'd) services \<Rightarrow> nat list \<Rightarrow> document_state \<Rightarrow> document_state list \<Rightarrow>
    (nat \<Rightarrow> document_state \<Rightarrow> (('a, 's, 'l, 'd) workspace \<Rightarrow> ('a, 's, 'l, 'd) workspace run) list) \<Rightarrow>
    ('a, 's, 'l, 'd) workspace \<Rightarrow> ('a, 's, 'l, 'd) workspace run" where
  "runMergedPhase svc hs phaseEnd publishStates body w =
     (let pending = map (\<lambda>h. (h, state_of h w)) (filter (\<lambda>h. state_of h w < phaseEnd) hs) in
      and_then (run_tasks svc phaseEnd (\<lambda>i. body (fst (pending ! i)) (snd (pending ! i))) (length pending) w)
        (\<lambda>w. and_then (run_each (notify_reached svc publishStates) pending w)
          (run_each (publish_reached svc hs) publishStates)))"

definition phase_a :: "('a, 's, 'l, 'd) services \<Rightarrow> nat list \<Rightarrow> ('a, 's, 'l, 'd) workspace \<Rightarrow> ('a, 's, 'l, 'd) workspace run" where
  "phase_a svc hs = runMergedPhase svc hs IndexedContent [Parsed, IndexedContent]
     (\<lambda>h s0. [reparse_step svc h s0, content_step svc h s0])"

definition phase_b :: "('a, 's, 'l, 'd) services \<Rightarrow> nat list \<Rightarrow> ('a, 's, 'l, 'd) workspace \<Rightarrow> ('a, 's, 'l, 'd) workspace run" where
  "phase_b svc hs = runMergedPhase svc hs IndexedReferences [ComputedScopes, Linked, IndexedReferences]
     (\<lambda>h s0. [scope_step svc h s0, link_step svc h s0, reference_step svc h s0])"

definition phase_c :: "('a, 's, 'l, 'd) services \<Rightarrow> nat list \<Rightarrow> ('a, 's, 'l, 'd) workspace \<Rightarrow> ('a, 's, 'l, 'd) workspace run" where
  "phase_c svc hs = runMergedPhase svc hs Validated [Validated] (\<lambda>h s0. [validate_step svc h s0])"

text \<open>The documents to validate; the others are complete.\<close>

fun select_validated :: "nat list \<Rightarrow> ('a, 's, 'l, 'd) workspace \<Rightarrow> nat list \<times> ('a, 's, 'l, 'd) workspace" where
  "select_validated [] w = ([], w)"
| "select_validated (h # hs) w =
     (if shouldValidate h w then (let (vs, w) = select_validated hs w in (h # vs, w))
      else select_validated hs (markAsCompleted h w))"

definition buildDocuments :: "('a, 's, 'l, 'd) services \<Rightarrow> nat list \<Rightarrow> build_options \<Rightarrow> bool \<Rightarrow>
    ('a, 's, 'l, 'd) workspace \<Rightarrow> ('a, 's, 'l, 'd) workspace run" where
  "buildDocuments svc hs o' downgrades w =
     and_then (phase_a svc hs (prepareBuild (cwd svc) hs o' w)) (\<lambda>w.
     and_then (phase_b svc hs w) (\<lambda>w.
       let (vs, w) = select_validated hs w;
           w = (if downgrades then w\<lparr>trace := trace w @ [Downgraded]\<rparr> else w) in
       phase_c svc vs w))"

subsection \<open>\<open>build\<close>\<close>

definition request_document :: "('a, 's, 'l, 'd) services \<Rightarrow> build_options \<Rightarrow> nat \<Rightarrow> ('a, 's, 'l, 'd) workspace \<Rightarrow>
    nat \<times> ('a, 's, 'l, 'd) workspace" where
  "request_document svc o' h w =
     (let (i, w) = ensure_document_id (cwd svc) h w in
      (i, if state_of h w = Validated then
            (case validation o' of
               Enabled b \<Rightarrow> (if b then resetToState (cwd svc) h IndexedReferences w else w)
             | Detailed v \<Rightarrow>
                 (let cs = findMissingValidationCategories svc h o' w in
                  if cs = [] then w
                  else advance h IndexedReferences
                    (w\<lparr>buildStates := (buildStates w)(i \<mapsto>
                        \<lparr>completed = False,
                         options = \<lparr>eagerLinking = None, validation = Detailed
                           \<lparr>categories = cs, stopAfterParsingErrors = None, stopAfterLinkingErrors = None\<rparr>\<rparr>,
                         result = (case buildStates w i of None \<Rightarrow> None | Some st \<Rightarrow> result st)\<rparr>)\<rparr>))
             | Unset \<Rightarrow> w)
          else w\<lparr>buildStates := (buildStates w)(i := None)\<rparr>))"

fun request_documents :: "('a, 's, 'l, 'd) services \<Rightarrow> build_options \<Rightarrow> nat list \<Rightarrow> ('a, 's, 'l, 'd) workspace \<Rightarrow>
    nat list \<times> ('a, 's, 'l, 'd) workspace" where
  "request_documents svc o' [] w = ([], w)"
| "request_documents svc o' (h # hs) w =
     (let (i, w) = request_document svc o' h w; (is, w) = request_documents svc o' hs w in (i # is, w))"

definition build :: "('a, 's, 'l, 'd) services \<Rightarrow> nat list \<Rightarrow> build_options \<Rightarrow> bool \<Rightarrow> ('a, 's, 'l, 'd) workspace \<Rightarrow>
    ('a, 's, 'l, 'd) workspace run" where
  "build svc hs o' downgrades w =
     (let (is, w) = request_documents svc o' hs w in
      and_then (emitUpdate svc is [] (w\<lparr>currentState := Changed\<rparr>)) (buildDocuments svc hs o' downgrades))"

subsection \<open>\<open>update\<close>\<close>

fun distinct_valid :: "nat list \<Rightarrow> nat list \<Rightarrow> nat list \<Rightarrow> ('a, 's, 'l, 'd) workspace \<Rightarrow>
    nat list \<times> ('a, 's, 'l, 'd) workspace run" where
  "distinct_valid excluded acc [] w = (acc, Returned w)"
| "distinct_valid excluded acc (i # is) w =
     (case check_cancelled w of
        Raised e w \<Rightarrow> (acc, Raised e w)
      | Returned w \<Rightarrow> distinct_valid excluded
          (if i \<noteq> InvalidDocumentId \<and> i \<notin> set excluded \<and> i \<notin> set acc then acc @ [i] else acc) is w)"

definition cleanUpDeleted :: "nat \<Rightarrow> ('a, 's, 'l, 'd) workspace \<Rightarrow> ('a, 's, 'l, 'd) workspace" where
  "cleanUpDeleted i w = w\<lparr>buildStates := (buildStates w)(i := None), index := snd (index_remove i (index w))\<rparr>"

definition delete_document :: "('a, 's, 'l, 'd) services \<Rightarrow> nat \<Rightarrow> ('a, 's, 'l, 'd) workspace \<Rightarrow>
    ('a, 's, 'l, 'd) workspace run" where
  "delete_document svc i w = and_then (check_cancelled w) (\<lambda>w.
     let w = cleanUpDeleted i w; (found, r) = deleteDocumentById (cwd svc) i (registry w); w = w\<lparr>registry := r\<rparr> in
     Returned (case found of None \<Rightarrow> w | Some h \<Rightarrow> advance h Changed w))"

text \<open>The document factory behind \<open>getOrCreateDocument\<close>: a new, parsed document of the URI.\<close>

definition fromUri :: "('a, 's, 'l, 'd) services \<Rightarrow> string \<Rightarrow> ('a, 's, 'l, 'd) workspace \<Rightarrow>
    exn + nat \<times> ('a, 's, 'l, 'd) workspace" where
  "fromUri svc uri w =
     (let u = normalize_uri (cwd svc) uri in
      case read_latest svc u of
        Inl e \<Rightarrow> Inl e
      | Inr latest \<Rightarrow>
          (case parse_document svc u latest of
             Inl e \<Rightarrow> Inl e
           | Inr a \<Rightarrow>
               (let (h, r) = new_document u (registry w) in
                Inr (h, advance h Parsed (w\<lparr>registry := r,
                  analysis := (analysis w)(h := \<lparr>ast = Some a, localSymbols = None, links = None, diagnostics = []\<rparr>)\<rparr>)))))"

definition getOrCreateDocument :: "('a, 's, 'l, 'd) services \<Rightarrow> string \<Rightarrow> ('a, 's, 'l, 'd) workspace \<Rightarrow>
    exn + nat option \<times> ('a, 's, 'l, 'd) workspace" where
  "getOrCreateDocument svc uri w =
     (case getOrCreate_find (cwd svc) uri (registry w) of
        Inl found \<Rightarrow> Inr (found, w)
      | Inr u \<Rightarrow>
          (case fromUri svc u w of
             Inl e \<Rightarrow> Inl e
           | Inr (h, w) \<Rightarrow> (let (g, r) = getOrCreate_add (cwd svc) h (registry w) in Inr (Some g, w\<lparr>registry := r\<rparr>))))"

definition change_document :: "('a, 's, 'l, 'd) services \<Rightarrow> nat \<Rightarrow> ('a, 's, 'l, 'd) workspace \<Rightarrow>
    ('a, 's, 'l, 'd) workspace run" where
  "change_document svc i w = and_then (check_cancelled w) (\<lambda>w.
     case getDocumentById i (registry w) of
       Some h \<Rightarrow> Returned (resetToState (cwd svc) h Changed w)
     | None \<Rightarrow>
         if getDocumentUri i (registry w) = [] then Returned w
         else case getOrCreateDocument svc (getDocumentUri i (registry w)) w of
             Inl Cancelled \<Rightarrow> Raised Cancelled w
           | Inl Failed \<Rightarrow> Returned w
           | Inr (None, w) \<Rightarrow> Returned w
           | Inr (Some h, w) \<Rightarrow> Returned (resetToState (cwd svc) h Changed w))"

definition shouldRelink :: "('a, 's, 'l, 'd) services \<Rightarrow> nat \<Rightarrow> nat list \<Rightarrow> ('a, 's, 'l, 'd) workspace \<Rightarrow> bool" where
  "shouldRelink svc h changed w =
     (case links (analysis w h) of
        None \<Rightarrow> isAffected (id_of h w) changed (index w)
      | Some l \<Rightarrow> has_error svc l \<or> isAffected (id_of h w) changed (index w))"

definition relink_document :: "('a, 's, 'l, 'd) services \<Rightarrow> nat list \<Rightarrow> nat \<Rightarrow> ('a, 's, 'l, 'd) workspace \<Rightarrow>
    ('a, 's, 'l, 'd) workspace run" where
  "relink_document svc changed h w = and_then (check_cancelled w) (\<lambda>w.
     Returned (if id_of h w \<notin> set changed \<and> shouldRelink svc h changed w
       then resetToState (cwd svc) h ComputedScopes w else w))"

definition needs_build :: "('a, 's, 'l, 'd) services \<Rightarrow> build_options \<Rightarrow> nat \<Rightarrow> ('a, 's, 'l, 'd) workspace \<Rightarrow> bool" where
  "needs_build svc o' h w =
     (state_of h w < Validated \<or>
      (case buildStates w (id_of h w) of None \<Rightarrow> True | Some st \<Rightarrow> \<not> completed st) \<or>
      resultsAreIncomplete svc h o' w)"

text \<open>\<open>std::partition\<close> may permute either part; here both keep their order.\<close>

definition sortDocuments :: "('a, 's, 'l, 'd) services \<Rightarrow> nat list \<Rightarrow> ('a, 's, 'l, 'd) workspace \<Rightarrow> nat list" where
  "sortDocuments svc hs w =
     filter (\<lambda>h. has_text svc (uri_of h w)) hs @ filter (\<lambda>h. \<not> has_text svc (uri_of h w)) hs"

definition update :: "('a, 's, 'l, 'd) services \<Rightarrow> build_options \<Rightarrow> nat list \<Rightarrow> nat list \<Rightarrow> bool \<Rightarrow>
    ('a, 's, 'l, 'd) workspace \<Rightarrow> ('a, 's, 'l, 'd) workspace run" where
  "update svc o' changed deleted downgrades w =
     and_then (check_cancelled w) (\<lambda>w.
     let (dels, r) = distinct_valid [] [] deleted (w\<lparr>currentState := Changed\<rparr>) in
     and_then r (\<lambda>w.
     let (chgs, r) = distinct_valid dels [] changed w in
     and_then r (\<lambda>w.
     and_then (run_each (delete_document svc) dels w) (\<lambda>w.
     and_then (run_each (change_document svc) chgs w) (\<lambda>w.
     and_then (run_each (relink_document svc (chgs @ dels)) (all_documents (registry w)) w) (\<lambda>w.
     and_then (emitUpdate svc chgs dels w) (\<lambda>w.
     and_then (check_cancelled w) (\<lambda>w.
     let todo = filter (\<lambda>h. needs_build svc o' h w) (all_documents (registry w)) in
     buildDocuments svc (sortDocuments svc todo w) o' downgrades w))))))))"

subsection \<open>Waiting\<close>

text \<open>\<open>waitUntil\<close> returns when its condition holds, the caller blocks while it does not.\<close>

definition builder_state_reached :: "document_state \<Rightarrow> nat \<Rightarrow> ('a, 's, 'l, 'd) workspace \<Rightarrow> bool" where
  "builder_state_reached s seen w = (s \<le> currentState w \<or> published w s \<noteq> seen)"

datatype wait_result = Reached | NoDocument | TooLate document_state document_state | KeepWaiting

definition check_now :: "document_state \<Rightarrow> nat \<Rightarrow> ('a, 's, 'l, 'd) workspace \<Rightarrow> wait_result" where
  "check_now s i w =
     (case getDocumentById i (registry w) of
        None \<Rightarrow> NoDocument
      | Some h \<Rightarrow> if s \<le> state_of h w then Reached
          else if s \<le> currentState w \<and> state_of h w < s then TooLate (state_of h w) (currentState w)
          else KeepWaiting)"

end
