(* ===== verification/BuilderViews.thy ===== *)
theory BuilderViews
  imports Builder IndexProps
begin

text \<open>
  What the tasks of a phase own: the view of a document, with its entries in the index and in the
  table of build states. Every step of a phase is a local action on the view of its document, so the
  interpretation of \<open>local_tasks\<close> describes a whole phase, in any order of the steps.
\<close>

subsection \<open>Views\<close>

record ('a, 's, 'l, 'd) view =
  v_uri :: string
  v_id :: nat
  v_state :: document_state
  v_analysed :: "('a, 's, 'l, 'd) analysed"
  v_exports :: "node_description list option"
  v_references :: "reference_description list option"
  v_build :: "build_state option"

definition exports_at :: "nat \<Rightarrow> ('a, 's, 'l, 'd) workspace \<Rightarrow> node_description list option" where
  "exports_at i w = map_of (exportsByDocument (index w)) i"

definition references_at :: "nat \<Rightarrow> ('a, 's, 'l, 'd) workspace \<Rightarrow> reference_description list option" where
  "references_at i w = map_of (referencesByDocument (index w)) i"

definition view_of :: "nat \<Rightarrow> ('a, 's, 'l, 'd) workspace \<Rightarrow> ('a, 's, 'l, 'd) view" where
  "view_of h w = \<lparr>v_uri = uri_of h w, v_id = id_of h w, v_state = state_of h w, v_analysed = analysis w h,
     v_exports = exports_at (id_of h w) w, v_references = references_at (id_of h w) w,
     v_build = buildStates w (id_of h w)\<rparr>"

definition blank_view :: "('a, 's, 'l, 'd) view" where
  "blank_view = \<lparr>v_uri = [], v_id = 0, v_state = Changed,
     v_analysed = \<lparr>ast = None, localSymbols = None, links = None, diagnostics = []\<rparr>,
     v_exports = None, v_references = None, v_build = None\<rparr>"

lemma view_sel [simp]: "v_uri (view_of h w) = uri_of h w" "v_id (view_of h w) = id_of h w"
  "v_state (view_of h w) = state_of h w" "v_analysed (view_of h w) = analysis w h"
  "v_exports (view_of h w) = exports_at (id_of h w) w" "v_references (view_of h w) = references_at (id_of h w) w"
  "v_build (view_of h w) = buildStates w (id_of h w)"
  by (simp_all add: view_of_def)

subsection \<open>What the primitive updates do to the parts\<close>

lemma advance_sel [simp]:
  "uri_of x (advance h s w) = uri_of x w" "id_of x (advance h s w) = id_of x w"
  "state_of x (advance h s w) = (if x = h then s else state_of x w)"
  "analysis (advance h s w) = analysis w" "index (advance h s w) = index w" "buildStates (advance h s w) = buildStates w"
  "trace (advance h s w) = trace w" "currentState (advance h s w) = currentState w" "published (advance h s w) = published w"
  "polls (advance h s w) = polls w" "exports_at i (advance h s w) = exports_at i w" "references_at i (advance h s w) = references_at i w"
  by (simp_all add: advance_def uri_of_def id_of_def state_of_def exports_at_def references_at_def)

lemma analyse_sel [simp]:
  "uri_of x (analyse h f w) = uri_of x w" "id_of x (analyse h f w) = id_of x w" "state_of x (analyse h f w) = state_of x w"
  "analysis (analyse h f w) = (analysis w)(h := f (analysis w h))" "index (analyse h f w) = index w"
  "buildStates (analyse h f w) = buildStates w" "registry (analyse h f w) = registry w"
  "trace (analyse h f w) = trace w" "currentState (analyse h f w) = currentState w" "published (analyse h f w) = published w"
  "polls (analyse h f w) = polls w" "exports_at i (analyse h f w) = exports_at i w" "references_at i (analyse h f w) = references_at i w"
  by (simp_all add: analyse_def uri_of_def id_of_def state_of_def exports_at_def references_at_def)

lemma index_sel [simp]:
  "uri_of x (w\<lparr>index := m\<rparr>) = uri_of x w" "id_of x (w\<lparr>index := m\<rparr>) = id_of x w" "state_of x (w\<lparr>index := m\<rparr>) = state_of x w"
  "exports_at i (w\<lparr>index := m\<rparr>) = map_of (exportsByDocument m) i"
  "references_at i (w\<lparr>index := m\<rparr>) = map_of (referencesByDocument m) i"
  by (simp_all add: uri_of_def id_of_def state_of_def exports_at_def references_at_def)

lemma build_states_sel [simp]:
  "uri_of x (w\<lparr>buildStates := b\<rparr>) = uri_of x w" "id_of x (w\<lparr>buildStates := b\<rparr>) = id_of x w"
  "state_of x (w\<lparr>buildStates := b\<rparr>) = state_of x w" "exports_at i (w\<lparr>buildStates := b\<rparr>) = exports_at i w"
  "references_at i (w\<lparr>buildStates := b\<rparr>) = references_at i w"
  by (simp_all add: uri_of_def id_of_def state_of_def exports_at_def references_at_def)

lemma polls_sel [simp]:
  "uri_of x (w\<lparr>polls := p\<rparr>) = uri_of x w" "id_of x (w\<lparr>polls := p\<rparr>) = id_of x w"
  "state_of x (w\<lparr>polls := p\<rparr>) = state_of x w" "exports_at i (w\<lparr>polls := p\<rparr>) = exports_at i w"
  "references_at i (w\<lparr>polls := p\<rparr>) = references_at i w"
  by (simp_all add: uri_of_def id_of_def state_of_def exports_at_def references_at_def)

lemma index_update [simp]:
  "ordered (exportsByDocument m) \<Longrightarrow> map_of (exportsByDocument (updateContent i xs m)) = (map_of (exportsByDocument m))(i \<mapsto> xs)"
  "referencesByDocument (updateContent i xs m) = referencesByDocument m"
  "map_of (referencesByDocument (updateReferences i rs m)) = (map_of (referencesByDocument m))(i \<mapsto> map (\<lambda>r. r\<lparr>sourceDocumentId := i\<rparr>) rs)"
  "exportsByDocument (updateReferences i rs m) = exportsByDocument m"
  "ordered (exportsByDocument m) \<Longrightarrow> ordered (exportsByDocument (updateContent i xs m))"
  by (simp_all add: updateContent_def updateReferences_def Let_def map_of_ordered_update AList.update_conv' ordered_update_ordered)

subsection \<open>The frame\<close>

text \<open>What the tasks of the documents \<open>M\<close> leave alone.\<close>

definition same_registry :: "documents \<Rightarrow> documents \<Rightarrow> bool" where
  "same_registry d d' \<longleftrightarrow> store d' = store d \<and> documentsById d' = documentsById d \<and>
     documentIdsByUri d' = documentIdsByUri d \<and> documentUrisById d' = documentUrisById d \<and>
     nextDocumentId d' = nextDocumentId d \<and> nextHandle d' = nextHandle d \<and>
     (\<forall>x. docUri (heap d' x) = docUri (heap d x) \<and> docId (heap d' x) = docId (heap d x))"

definition kept :: "nat set \<Rightarrow> ('a, 's, 'l, 'd) workspace \<Rightarrow> ('a, 's, 'l, 'd) workspace \<Rightarrow> bool" where
  "kept M w0 w \<longleftrightarrow> inj_on (\<lambda>h. id_of h w0) M \<and> ordered (exportsByDocument (index w)) \<and>
     same_registry (registry w0) (registry w) \<and>
     (\<forall>h. h \<notin> M \<longrightarrow> state_of h w = state_of h w0 \<and> analysis w h = analysis w0 h) \<and>
     (\<forall>i. i \<notin> (\<lambda>h. id_of h w0) ` M \<longrightarrow> exports_at i w = exports_at i w0 \<and> references_at i w = references_at i w0 \<and>
        buildStates w i = buildStates w0 i)"

text \<open>The tasks, unlike the notifications behind them, do not call listeners or publish states either.\<close>

definition framed :: "nat set \<Rightarrow> ('a, 's, 'l, 'd) workspace \<Rightarrow> ('a, 's, 'l, 'd) workspace \<Rightarrow> bool" where
  "framed M w0 w \<longleftrightarrow> kept M w0 w \<and> trace w = trace w0 \<and> currentState w = currentState w0"

lemma same_registry_refl [simp]: "same_registry d d"
  by (simp add: same_registry_def)

lemma same_registry_advance: "same_registry d (registry w) \<Longrightarrow> same_registry d (registry (advance h s w))"
  by (simp add: same_registry_def advance_def)

lemma framed_ids: "framed M w0 w \<Longrightarrow> id_of h w = id_of h w0 \<and> uri_of h w = uri_of h w0"
  by (simp add: framed_def kept_def same_registry_def id_of_def uri_of_def)

lemma framed_inj: "framed M w0 w \<Longrightarrow> x \<in> M \<Longrightarrow> h \<in> M \<Longrightarrow> id_of x w = id_of h w \<longleftrightarrow> x = h"
  using framed_ids [of M w0 w] by (metis framed_def kept_def inj_on_def)

lemma framed_refl: "inj_on (\<lambda>h. id_of h w) M \<Longrightarrow> ordered (exportsByDocument (index w)) \<Longrightarrow> framed M w w"
  by (simp add: framed_def kept_def)

lemma framed_advance: "framed M w0 w \<Longrightarrow> h \<in> M \<Longrightarrow> framed M w0 (advance h s w)"
  by (auto simp: framed_def kept_def same_registry_advance)

lemma framed_analyse: "framed M w0 w \<Longrightarrow> h \<in> M \<Longrightarrow> framed M w0 (analyse h f w)"
  by (auto simp: framed_def kept_def)

lemma framed_content: "framed M w0 w \<Longrightarrow> h \<in> M \<Longrightarrow> framed M w0 (w\<lparr>index := updateContent (id_of h w) xs (index w)\<rparr>)"
  using framed_ids [of M w0 w h] by (auto simp: framed_def kept_def exports_at_def references_at_def)

lemma framed_references: "framed M w0 w \<Longrightarrow> h \<in> M \<Longrightarrow> framed M w0 (w\<lparr>index := updateReferences (id_of h w) rs (index w)\<rparr>)"
  using framed_ids [of M w0 w h] by (auto simp: framed_def kept_def exports_at_def references_at_def)

lemma framed_build: "framed M w0 w \<Longrightarrow> h \<in> M \<Longrightarrow> framed M w0 (w\<lparr>buildStates := (buildStates w)(id_of h w := b)\<rparr>)"
  using framed_ids [of M w0 w h] by (auto simp: framed_def kept_def)

lemma framed_polls: "framed M w0 w \<Longrightarrow> framed M w0 (w\<lparr>polls := p\<rparr>)"
  by (simp add: framed_def kept_def)

lemmas framed_intros = framed_advance framed_analyse framed_content framed_references framed_build framed_polls

lemma views_upd:
  assumes "framed M w0 w" "h \<in> M" "x \<in> M"
  shows "view_of x (advance h s w) = (if x = h then (view_of h w)\<lparr>v_state := s\<rparr> else view_of x w)"
    "view_of x (analyse h f w) = (if x = h then (view_of h w)\<lparr>v_analysed := f (analysis w h)\<rparr> else view_of x w)"
    "view_of x (w\<lparr>index := updateContent (id_of h w) xs (index w)\<rparr>) =
      (if x = h then (view_of h w)\<lparr>v_exports := Some xs\<rparr> else view_of x w)"
    "view_of x (w\<lparr>index := updateReferences (id_of h w) rs (index w)\<rparr>) =
      (if x = h then (view_of h w)\<lparr>v_references := Some (map (\<lambda>r. r\<lparr>sourceDocumentId := id_of h w\<rparr>) rs)\<rparr> else view_of x w)"
    "view_of x (w\<lparr>buildStates := (buildStates w)(id_of h w := b)\<rparr>) =
      (if x = h then (view_of h w)\<lparr>v_build := b\<rparr> else view_of x w)"
  using framed_inj [OF assms(1,3,2)] assms(1)
  by (auto simp: view_of_def framed_def kept_def exports_at_def references_at_def)

subsection \<open>The steps on views\<close>

definition view_links :: "('a, 's, 'l, 'd) view \<Rightarrow> bool" where
  "view_links v = (case v_build v of None \<Rightarrow> True
     | Some st \<Rightarrow> (case eagerLinking (options st) of None \<Rightarrow> True | Some b \<Rightarrow> b))"

definition eff_parse :: "('a, 's, 'l, 'd) services \<Rightarrow> document_state \<Rightarrow>
    ((nat \<times> node_description list) list, ('a, 's, 'l, 'd) view) own_effect" where
  "eff_parse svc s0 c v =
     (if s0 < Parsed then
        (case read_latest svc (v_uri v) of
           Inl e \<Rightarrow> (Some e, v)
         | Inr latest \<Rightarrow>
             (let x = \<lparr>ast = None, localSymbols = None, links = None, diagnostics = []\<rparr> in
              case parse_document svc (v_uri v) latest of
                Inl e \<Rightarrow> (Some e, v\<lparr>v_state := Changed, v_analysed := x\<rparr>)
              | Inr a \<Rightarrow> (None, v\<lparr>v_state := Parsed, v_analysed := x\<lparr>ast := Some a\<rparr>\<rparr>)))
      else (None, v))"

definition eff_content :: "('a, 's, 'l, 'd) services \<Rightarrow> document_state \<Rightarrow>
    ((nat \<times> node_description list) list, ('a, 's, 'l, 'd) view) own_effect" where
  "eff_content svc s0 c v =
     (if s0 < IndexedContent then
        (case collectExportedSymbols svc (v_id v) (ast (v_analysed v)) of
           Inl e \<Rightarrow> (Some e, v)
         | Inr xs \<Rightarrow> (None, v\<lparr>v_state := IndexedContent, v_exports := Some xs\<rparr>))
      else (None, v))"

definition eff_scope :: "('a, 's, 'l, 'd) services \<Rightarrow> document_state \<Rightarrow>
    ((nat \<times> node_description list) list, ('a, 's, 'l, 'd) view) own_effect" where
  "eff_scope svc s0 c v =
     (if s0 < ComputedScopes then
        (case collectLocalSymbols svc (ast (v_analysed v)) of
           Inl e \<Rightarrow> (Some e, v)
         | Inr s \<Rightarrow> (None, v\<lparr>v_state := ComputedScopes, v_analysed := (v_analysed v)\<lparr>localSymbols := Some s\<rparr>\<rparr>))
      else (None, v))"

definition eff_link :: "('a, 's, 'l, 'd) services \<Rightarrow> document_state \<Rightarrow>
    ((nat \<times> node_description list) list, ('a, 's, 'l, 'd) view) own_effect" where
  "eff_link svc s0 c v =
     (if view_links v \<and> s0 < Linked then
        (case link_document svc (ast (v_analysed v)) (localSymbols (v_analysed v)) c of
           Inl e \<Rightarrow> (Some e, v)
         | Inr l \<Rightarrow> (None, v\<lparr>v_state := Linked, v_analysed := (v_analysed v)\<lparr>links := Some l\<rparr>\<rparr>))
      else (None, v))"

definition eff_reference :: "('a, 's, 'l, 'd) services \<Rightarrow> document_state \<Rightarrow>
    ((nat \<times> node_description list) list, ('a, 's, 'l, 'd) view) own_effect" where
  "eff_reference svc s0 c v =
     (if view_links v \<and> s0 < IndexedReferences then
        (case createDescriptions svc (links (v_analysed v)) of
           Inl e \<Rightarrow> (Some e, v)
         | Inr rs \<Rightarrow> (None, v\<lparr>v_state := IndexedReferences,
             v_references := Some (map (\<lambda>r. r\<lparr>sourceDocumentId := v_id v\<rparr>) rs)\<rparr>))
      else (None, v))"

definition missing_in :: "('a, 's, 'l, 'd) services \<Rightarrow> build_options \<Rightarrow> ('a, 's, 'l, 'd) view \<Rightarrow> string list" where
  "missing_in svc o' v =
     (let all = getAllValidationCategories svc (v_uri v); executed = executed_categories all (v_build v) in
      filter (\<lambda>c. c \<notin> set executed) (requested_categories all o'))"

definition view_options :: "('a, 's, 'l, 'd) view \<Rightarrow> build_options" where
  "view_options v = (case v_build v of None \<Rightarrow> default_options | Some st \<Rightarrow> options st)"

definition eff_validate :: "('a, 's, 'l, 'd) services \<Rightarrow> document_state \<Rightarrow>
    ((nat \<times> node_description list) list, ('a, 's, 'l, 'd) view) own_effect" where
  "eff_validate svc s0 c v =
     (if s0 < Validated then
        (let o' = view_options v; cs = missing_in svc o' v;
             vo = (case validation o' of Detailed vo \<Rightarrow> vo
               | _ \<Rightarrow> \<lparr>categories = [], stopAfterParsingErrors = None, stopAfterLinkingErrors = None\<rparr>) in
         case validateDocument svc (ast (v_analysed v)) (links (v_analysed v)) (vo\<lparr>categories := cs\<rparr>) of
           Inl e \<Rightarrow> (Some e, v)
         | Inr ds \<Rightarrow>
             (let checks = (case v_build v of None \<Rightarrow> [] | Some st \<Rightarrow> (case result st of None \<Rightarrow> [] | Some r \<Rightarrow> r)) in
              (None, v\<lparr>v_state := Validated, v_analysed := (v_analysed v)\<lparr>diagnostics := diagnostics (v_analysed v) @ ds\<rparr>,
                v_build := Some \<lparr>completed = True, options = o', result = Some (add_checks checks cs)\<rparr>\<rparr>)))
      else (None, v))"

subsection \<open>Local actions\<close>

definition own_view :: "nat set \<Rightarrow> ('a, 's, 'l, 'd) workspace \<Rightarrow> nat \<Rightarrow> ('a, 's, 'l, 'd) view" where
  "own_view M w h = (if h \<in> M then view_of h w else blank_view)"

text \<open>The second phase reads the exports of all documents, and none of its steps changes them.\<close>

definition shared_exports :: "bool \<Rightarrow> ('a, 's, 'l, 'd) workspace \<Rightarrow> (nat \<times> node_description list) list" where
  "shared_exports b w = (if b then exportsByDocument (index w) else [])"

lemma poll_cases: "\<exists>p. snd (poll w) = w\<lparr>polls := p\<rparr>"
  by (cases "polls w"; cases "the (polls w)") (auto simp: poll_def intro: exI [of _ "polls w"])

lemma poll_fst: "fst (poll w) \<longleftrightarrow> polls w = Some 0"
  by (auto simp: poll_def split: option.splits nat.splits)

lemma poll_stopped: "fst (poll w) \<Longrightarrow> snd (poll w) = w"
  by (auto simp: poll_def split: option.splits nat.splits)

lemma shared_polls [simp]: "shared_exports b (w\<lparr>polls := p\<rparr>) = shared_exports b w"
  by (simp add: shared_exports_def)

lemma view_polls [simp]: "view_of h (w\<lparr>polls := p\<rparr>) = view_of h w"
  by (simp add: view_of_def)

interpretation phase: local_tasks poll "own_view M" "shared_exports b" "framed M w0" for M b w0
proof
  fix w :: "('a, 'b, 'c, 'd) workspace"
  obtain p where p: "snd (poll w) = w\<lparr>polls := p\<rparr>" using poll_cases by blast
  show "own_view M (snd (poll w)) = own_view M w" "shared_exports b (snd (poll w)) = shared_exports b w"
    by (simp_all add: p own_view_def fun_eq_iff)
  show "framed M w0 w \<Longrightarrow> framed M w0 (snd (poll w))" by (simp add: p framed_polls)
  show "fst (poll w) \<Longrightarrow> fst (poll (snd (poll w)))" by (simp add: poll_stopped)
qed

definition steps_as :: "nat set \<Rightarrow> bool \<Rightarrow> ('a, 's, 'l, 'd) workspace \<Rightarrow> nat \<Rightarrow>
    (('a, 's, 'l, 'd) workspace \<Rightarrow> ('a, 's, 'l, 'd) workspace run) \<Rightarrow>
    ((nat \<times> node_description list) list, ('a, 's, 'l, 'd) view) own_effect \<Rightarrow> ('a, 's, 'l, 'd) workspace \<Rightarrow> bool" where
  "steps_as M b w0 h a f w \<longleftrightarrow>
     raised (a w) = fst (f (shared_exports b w) (view_of h w)) \<and> framed M w0 (final (a w)) \<and>
     (\<forall>x \<in> M. view_of x (final (a w)) = (if x = h then snd (f (shared_exports b w) (view_of h w)) else view_of x w)) \<and>
     shared_exports b (final (a w)) = shared_exports b w \<and> polls (final (a w)) = polls w"

lemma local_actionI:
  assumes "h \<in> M" and "\<And>w. framed M w0 w \<Longrightarrow> steps_as M b w0 h a f w"
  shows "local_action poll (own_view M) (shared_exports b) (framed M w0) h a f"
  unfolding local_action_def
proof (intro allI impI)
  fix w :: "('a, 'b, 'c, 'd) workspace"
  assume "framed M w0 w"
  note a = assms(2) [OF this, unfolded steps_as_def]
  have "own_view M (final (a w)) = (own_view M w)(h := snd (f (shared_exports b w) (own_view M w h)))"
    using a assms(1) by (auto simp: own_view_def fun_eq_iff)
  then show "raised (a w) = fst (f (shared_exports b w) (own_view M w h)) \<and>
      own_view M (final (a w)) = (own_view M w)(h := snd (f (shared_exports b w) (own_view M w h))) \<and>
      shared_exports b (final (a w)) = shared_exports b w \<and> framed M w0 (final (a w)) \<and>
      (fst (poll w) \<longrightarrow> fst (poll (final (a w))))"
    using a assms(1) by (simp add: own_view_def poll_fst)
qed

lemma shouldLink_view: "shouldLink h w = view_links (view_of h w)"
  by (auto simp: shouldLink_def view_links_def getBuildOptions_def default_options_def split: option.splits)

lemma parse_local: "h \<in> M \<Longrightarrow> local_action poll (own_view M) (shared_exports b) (framed M w0) h (reparse_step svc h s0) (eff_parse svc s0)"
  by (rule local_actionI) (auto simp: steps_as_def reparse_step_def eff_parse_def Let_def shared_exports_def views_upd [of M w0 _ h]
      framed_intros split: sum.splits)

lemma content_local: "h \<in> M \<Longrightarrow>
    local_action poll (own_view M) (shared_exports False) (framed M w0) h (content_step svc h s0) (eff_content svc s0)"
  by (rule local_actionI) (auto simp: steps_as_def content_step_def eff_content_def shared_exports_def views_upd [of M w0 _ h]
      framed_intros split: sum.splits)

lemma scope_local: "h \<in> M \<Longrightarrow> local_action poll (own_view M) (shared_exports b) (framed M w0) h (scope_step svc h s0) (eff_scope svc s0)"
  by (rule local_actionI) (auto simp: steps_as_def scope_step_def eff_scope_def shared_exports_def views_upd [of M w0 _ h]
      framed_intros split: sum.splits)

lemma link_local: "h \<in> M \<Longrightarrow> local_action poll (own_view M) (shared_exports True) (framed M w0) h (link_step svc h s0) (eff_link svc s0)"
  by (rule local_actionI) (auto simp: steps_as_def link_step_def eff_link_def shouldLink_view shared_exports_def
      views_upd [of M w0 _ h] framed_intros split: sum.splits)

lemma reference_local: "h \<in> M \<Longrightarrow>
    local_action poll (own_view M) (shared_exports b) (framed M w0) h (reference_step svc h s0) (eff_reference svc s0)"
  by (rule local_actionI) (auto simp: steps_as_def reference_step_def eff_reference_def shouldLink_view shared_exports_def
      views_upd [of M w0 _ h] framed_intros split: sum.splits)

lemma missing_view: "findMissingValidationCategories svc h o' w = missing_in svc o' (view_of h w)"
  by (simp add: findMissingValidationCategories_def missing_in_def)

lemma options_view: "getBuildOptions h w = view_options (view_of h w)"
  by (simp add: getBuildOptions_def view_options_def)

lemma markAsCompleted_eq: "markAsCompleted h w = w\<lparr>buildStates := (buildStates w)(id_of h w :=
    map_option (\<lambda>st. st\<lparr>completed := True\<rparr>) (buildStates w (id_of h w)))\<rparr>"
  by (auto simp: markAsCompleted_def fun_upd_idem split: option.splits)

lemma build_state_eta:
  "(st :: build_state)\<lparr>result := r, completed := b\<rparr> = \<lparr>completed = b, options = options st, result = r\<rparr>"
  by (cases st) simp

lemma validate_local: "h \<in> M \<Longrightarrow>
    local_action poll (own_view M) (shared_exports b) (framed M w0) h (validate_step svc h s0) (eff_validate svc s0)"
proof (rule local_actionI)
  fix w :: "('a, 'b, 'c, 'd) workspace"
  assume h: "h \<in> M" and w: "framed M w0 w"
  let ?o = "getBuildOptions h w"
  let ?cs = "findMissingValidationCategories svc h ?o w"
  let ?v = "case validation ?o of Detailed v \<Rightarrow> v
     | _ \<Rightarrow> \<lparr>categories = [], stopAfterParsingErrors = None, stopAfterLinkingErrors = None\<rparr>"
  let ?st = "case buildStates w (id_of h w) of
     None \<Rightarrow> \<lparr>completed = False, options = default_options, result = None\<rparr> | Some st \<Rightarrow> st"
  let ?checks = "case result ?st of None \<Rightarrow> [] | Some cs \<Rightarrow> cs"
  show "steps_as M b w0 h (validate_step svc h s0) (eff_validate svc s0) w"
  proof (cases "s0 < Validated")
    case True
    show ?thesis
    proof (cases "validateDocument svc (ast (analysis w h)) (links (analysis w h)) (?v\<lparr>categories := ?cs\<rparr>)")
      case (Inl e)
      then show ?thesis using True w by (simp add: steps_as_def validate_step_def validate_def eff_validate_def Let_def
            flip: missing_view options_view)
    next
      case (Inr ds)
      let ?w1 = "analyse h (\<lambda>x. x\<lparr>diagnostics := diagnostics x @ ds\<rparr>) w"
      let ?w2 = "?w1\<lparr>buildStates := (buildStates ?w1)(id_of h ?w1 := Some \<lparr>completed = True, options = options ?st,
          result = Some (add_checks ?checks ?cs)\<rparr>)\<rparr>"
      have step: "validate_step svc h s0 w = Returned (advance h Validated ?w2)"
        using True Inr by (simp add: validate_step_def validate_def Let_def markAsCompleted_eq build_state_eta)
      have f1: "framed M w0 ?w1" using w h by (rule framed_analyse)
      then have f2: "framed M w0 ?w2" using h by (rule framed_build)
      have o': "options ?st = view_options (view_of h w)" by (simp add: view_options_def split: option.splits)
      have checks: "?checks = (case v_build (view_of h w) of None \<Rightarrow> [] | Some st \<Rightarrow> (case result st of None \<Rightarrow> [] | Some r \<Rightarrow> r))"
        by (simp split: option.splits)
      have "eff_validate svc s0 c (view_of h w) = (None, (view_of h w)\<lparr>v_state := Validated,
          v_analysed := (analysis w h)\<lparr>diagnostics := diagnostics (analysis w h) @ ds\<rparr>,
          v_build := Some \<lparr>completed = True, options = options ?st, result = Some (add_checks ?checks ?cs)\<rparr>\<rparr>)" for c
        using True Inr unfolding eff_validate_def o' checks by (simp add: Let_def flip: missing_view options_view)
      moreover have "view_of x (advance h Validated ?w2) = (if x = h then (view_of h w)\<lparr>v_state := Validated,
          v_analysed := (analysis w h)\<lparr>diagnostics := diagnostics (analysis w h) @ ds\<rparr>,
          v_build := Some \<lparr>completed = True, options = options ?st, result = Some (add_checks ?checks ?cs)\<rparr>\<rparr>
          else view_of x w)" if "x \<in> M" for x
        unfolding views_upd(1) [OF f2 h that] views_upd(5) [OF f1 h h] views_upd(5) [OF f1 h that]
          views_upd(2) [OF w h h] views_upd(2) [OF w h that] by simp
      ultimately show ?thesis using framed_advance [OF f2 h]
        by (simp add: steps_as_def step shared_exports_def)
    qed
  qed (use w in \<open>simp add: steps_as_def validate_step_def eff_validate_def\<close>)
qed

subsection \<open>The parallel part of a phase\<close>

text \<open>The effects of a phase on a document that enters it in the state \<open>s0\<close>.\<close>

definition effects_a :: "('a, 's, 'l, 'd) services \<Rightarrow> document_state \<Rightarrow>
    ((nat \<times> node_description list) list, ('a, 's, 'l, 'd) view) own_effect list" where
  "effects_a svc s0 = [eff_parse svc s0, eff_content svc s0]"

definition effects_b :: "('a, 's, 'l, 'd) services \<Rightarrow> document_state \<Rightarrow>
    ((nat \<times> node_description list) list, ('a, 's, 'l, 'd) view) own_effect list" where
  "effects_b svc s0 = [eff_scope svc s0, eff_link svc s0, eff_reference svc s0]"

definition effects_c :: "('a, 's, 'l, 'd) services \<Rightarrow> document_state \<Rightarrow>
    ((nat \<times> node_description list) list, ('a, 's, 'l, 'd) view) own_effect list" where
  "effects_c svc s0 = [eff_validate svc s0]"

text \<open>What a phase makes of its documents; \<open>fine\<close> if it returned.\<close>

definition phase_result :: "nat list \<Rightarrow> bool \<Rightarrow> document_state \<Rightarrow> (document_state \<Rightarrow>
    ((nat \<times> node_description list) list, ('a, 's, 'l, 'd) view) own_effect list) \<Rightarrow>
    ('a, 's, 'l, 'd) workspace \<Rightarrow> bool \<Rightarrow> ('a, 's, 'l, 'd) workspace \<Rightarrow> bool" where
  "phase_result hs b phaseEnd effs w fine w' \<longleftrightarrow>
     kept (set hs) w w' \<and> shared_exports b w' = shared_exports b w \<and>
     (\<forall>h \<in> set hs. if state_of h w < phaseEnd
        then reached (effs (state_of h w)) (shared_exports b w) (view_of h w) (view_of h w') \<and>
          (fine \<longrightarrow> apply_effects (effs (state_of h w)) (shared_exports b w) (view_of h w) = (None, view_of h w'))
        else view_of h w' = view_of h w)"

lemma run_tasks_result:
  assumes "bodies_local poll (own_view M) (shared_exports b) (framed M w0) n hs body fs" and "framed M w0 w"
  shows "local_result (own_view M) (shared_exports b) (framed M w0) {..<n} hs fs w (run_tasks svc phase body n w)"
  using phase.inline_result [OF assms] phase.parallelFor_result [OF assms]
  by (simp add: run_tasks_def split: option.split)

definition pending :: "nat list \<Rightarrow> document_state \<Rightarrow> ('a, 's, 'l, 'd) workspace \<Rightarrow> (nat \<times> document_state) list" where
  "pending hs phaseEnd w = map (\<lambda>h. (h, state_of h w)) (filter (\<lambda>h. state_of h w < phaseEnd) hs)"

lemma tasks_result:
  fixes phaseEnd :: document_state
  assumes "distinct hs" and w: "framed (set hs) w w"
    and local: "\<And>h s0. h \<in> set hs \<Longrightarrow>
      list_all2 (local_action poll (own_view (set hs)) (shared_exports b) (framed (set hs) w) h) (body h s0) (effs s0)"
  defines "p \<equiv> pending hs phaseEnd w"
  shows "let r = run_tasks svc phaseEnd (\<lambda>i. body (fst (p ! i)) (snd (p ! i))) (length p) w in
    phase_result hs b phaseEnd effs w (raised r = None) (final r) \<and> trace (final r) = trace w"
proof -
  let ?r = "run_tasks svc phaseEnd (\<lambda>i. body (fst (p ! i)) (snd (p ! i))) (length p) w"
  have p: "map fst p = filter (\<lambda>h. state_of h w < phaseEnd) hs" by (simp add: p_def pending_def comp_def)
  have ith: "fst (p ! i) \<in> set hs \<and> snd (p ! i) = state_of (fst (p ! i)) w" if "i < length p" for i
    using that by (auto simp: p_def pending_def dest!: nth_mem)
  have fsts: "(\<lambda>i. fst (p ! i)) ` {..<length p} = set (filter (\<lambda>h. state_of h w < phaseEnd) hs)"
  proof -
    have "(\<lambda>i. fst (p ! i)) ` {..<length p} = nth (map fst p) ` {0..<length p}" by (auto simp: image_iff)
    also have "\<dots> = set (map fst p)" using nth_image [of "length p" "map fst p"] by simp
    finally show ?thesis by (simp only: p)
  qed
  have "inj_on (\<lambda>i. fst (p ! i)) {..<length p}"
  proof (rule inj_onI)
    fix i k
    assume "i \<in> {..<length p}" "k \<in> {..<length p}" "fst (p ! i) = fst (p ! k)"
    moreover have "distinct (map fst p)" unfolding p by (rule distinct_filter [OF assms(1)])
    ultimately show "i = k" by (simp add: distinct_conv_nth) (metis nth_map)
  qed
  then have "bodies_local poll (own_view (set hs)) (shared_exports b) (framed (set hs) w) (length p) (\<lambda>i. fst (p ! i))
      (\<lambda>i. body (fst (p ! i)) (snd (p ! i))) (\<lambda>i. effs (snd (p ! i)))"
    using local ith by (simp add: bodies_local_def)
  from run_tasks_result [OF this w] have r: "local_result (own_view (set hs)) (shared_exports b) (framed (set hs) w) {..<length p}
      (\<lambda>i. fst (p ! i)) (\<lambda>i. effs (snd (p ! i))) w ?r" .
  have "if state_of h w < phaseEnd
      then reached (effs (state_of h w)) (shared_exports b w) (view_of h w) (view_of h (final ?r)) \<and>
        (raised ?r = None \<longrightarrow> apply_effects (effs (state_of h w)) (shared_exports b w) (view_of h w) = (None, view_of h (final ?r)))
      else view_of h (final ?r) = view_of h w" if h: "h \<in> set hs" for h
  proof (cases "state_of h w < phaseEnd")
    case True
    then have "h \<in> (\<lambda>i. fst (p ! i)) ` {..<length p}" using h unfolding fsts by simp
    then obtain i where i: "i < length p" "h = fst (p ! i)" by blast
    then have "reached (effs (snd (p ! i))) (shared_exports b w) (own_view (set hs) w h) (own_view (set hs) (final ?r) h) \<and>
        (raised ?r = None \<longrightarrow>
          apply_effects (effs (snd (p ! i))) (shared_exports b w) (own_view (set hs) w h) = (None, own_view (set hs) (final ?r) h))"
      using r unfolding local_result_def by blast
    then show ?thesis using True h ith [OF i(1)] i(2) by (simp add: own_view_def)
  next
    case False
    then have "h \<notin> (\<lambda>i. fst (p ! i)) ` {..<length p}" unfolding fsts by simp
    then have "own_view (set hs) (final ?r) h = own_view (set hs) w h" using r unfolding local_result_def by blast
    then show ?thesis using False h by (simp add: own_view_def)
  qed
  then show ?thesis using r unfolding phase_result_def local_result_def Let_def framed_def by blast
qed

end
