(* ===== verification/BuilderProps.thy ===== *)
theory BuilderProps
  imports BuilderViews
begin

text \<open>
  Whole builds: a phase is its parallel part and the notifications behind it, which leave the data
  alone. A build that returns has made of every document what the steps make of it alone, in
  the order of the phases and against the exports of all documents.
\<close>

subsection \<open>Notifications\<close>

definition same_data :: "('a, 's, 'l, 'd) workspace \<Rightarrow> ('a, 's, 'l, 'd) workspace \<Rightarrow> bool" where
  "same_data w w' \<longleftrightarrow> registry w' = registry w \<and> analysis w' = analysis w \<and> index w' = index w \<and> buildStates w' = buildStates w"

lemma same_data_refl [simp]: "same_data w w"
  by (simp add: same_data_def)

lemma same_data_trans: "same_data w w1 \<Longrightarrow> same_data w1 w2 \<Longrightarrow> same_data w w2"
  by (simp add: same_data_def)

lemma same_data_sel:
  assumes "same_data w w'"
  shows "state_of h w' = state_of h w" "id_of h w' = id_of h w" "uri_of h w' = uri_of h w" "view_of h w' = view_of h w"
    "exports_at i w' = exports_at i w" "references_at i w' = references_at i w" "shared_exports b w' = shared_exports b w"
    "kept M w0 w' = kept M w0 w"
  using assms by (simp_all add: same_data_def state_of_def id_of_def uri_of_def view_of_def exports_at_def references_at_def
      shared_exports_def kept_def)

lemma poll_data: "same_data w (snd (poll w))" "trace (snd (poll w)) = trace w" "currentState (snd (poll w)) = currentState w"
  using poll_cases [of w] by (auto simp: same_data_def)

lemma check_data: "same_data w (final (check_cancelled w))" "trace (final (check_cancelled w)) = trace w"
  "currentState (final (check_cancelled w)) = currentState w"
  using poll_data [of w] by (auto simp: throw_if_cancelled_def split_beta Let_def)

lemma and_then_final: "final (and_then r f) = (if raised r = None then final (f (final r)) else final r)"
  by (cases r) simp_all

lemma and_then_raised: "raised (and_then r f) = (if raised r = None then raised (f (final r)) else raised r)"
  by (cases r) simp_all

lemmas and_then_sel = and_then_final and_then_raised

lemma run_each_inv:
  assumes "\<And>x w. x \<in> set xs \<Longrightarrow> P w \<Longrightarrow> P (final (f x w))" and "P w"
  shows "P (final (run_each f xs w))"
  using assms by (induction xs arbitrary: w) (simp_all add: and_then_final)

lemma call_isolated_data:
  assumes "\<And>w. same_data w (final (before w)) \<and> trace (final (before w)) = trace w"
  shows "same_data w (final (call_isolated before es w)) \<and> trace (final (call_isolated before es w)) = trace w"
proof (induction es arbitrary: w)
  case (Cons e es)
  then show ?case using assms [of w] by (auto simp: and_then_final intro: same_data_trans)
qed simp

lemma call_document_data: "same_data w (final (call_document es c w)) \<and> trace (final (call_document es c w)) = trace w"
proof (induction es arbitrary: c w)
  case (Cons e es)
  then show ?case using poll_data [of w] by (auto simp: split_beta Let_def intro: same_data_trans)
qed (simp split: option.split)

lemma trace_data [simp]: "same_data (w\<lparr>trace := t\<rparr>) = same_data w"
  by (simp add: same_data_def fun_eq_iff)

lemma notify_document_data: "same_data w (final (notifyDocumentPhase svc h s w))"
    "trace (final (notifyDocumentPhase svc h s w)) = trace w @ [DocumentReached s h]"
  using call_document_data [of "w\<lparr>trace := trace w @ [DocumentReached s h]\<rparr>"]
  by (simp_all add: notifyDocumentPhase_def)

lemma notify_build_data: "same_data w (final (notifyBuildPhase svc hs s w))"
    "trace (final (notifyBuildPhase svc hs s w)) = trace w @ (if hs = [] then [] else [PhaseReached s hs])"
  using call_isolated_data [of check_cancelled "w\<lparr>trace := trace w @ [PhaseReached s hs]\<rparr>", OF conjI [OF check_data(1,2)]]
  by (simp_all add: notifyBuildPhase_def)

lemma emit_update_data: "same_data w (final (emitUpdate svc cs ds w))"
    "trace (final (emitUpdate svc cs ds w)) = trace w @ [Announced cs ds]"
  using call_isolated_data [of Returned "w\<lparr>trace := trace w @ [Announced cs ds]\<rparr>"]
  by (simp_all add: emitUpdate_def)

text \<open>The events of a phase: first the documents in their order, then the states of the phase.\<close>

definition document_events :: "document_state list \<Rightarrow> ('a, 's, 'l, 'd) workspace \<Rightarrow> nat \<times> document_state \<Rightarrow> event list" where
  "document_events ss w p = map (\<lambda>s. DocumentReached s (fst p)) (filter (\<lambda>s. snd p < s \<and> s \<le> state_of (fst p) w) ss)"

definition phase_events :: "nat list \<Rightarrow> ('a, 's, 'l, 'd) workspace \<Rightarrow> document_state \<Rightarrow> event list" where
  "phase_events hs w s = (let reached = filter (\<lambda>h. s \<le> state_of h w) hs in if reached = [] then [] else [PhaseReached s reached])"

lemma run_each_trace:
  assumes "\<And>x w'. same_data w w' \<Longrightarrow> same_data w' (final (f x w')) \<and>
      (raised (f x w') = None \<longrightarrow> trace (final (f x w')) = trace w' @ ev x)"
    and "same_data w w1"
  shows "same_data w1 (final (run_each f xs w1)) \<and>
    (raised (run_each f xs w1) = None \<longrightarrow> trace (final (run_each f xs w1)) = trace w1 @ concat (map ev xs))"
  using assms(2)
proof (induction xs arbitrary: w1)
  case (Cons x xs)
  note x = assms(1) [OF Cons.prems, of x]
  then have "same_data w (final (f x w1))" using Cons.prems same_data_trans by blast
  from Cons.IH [OF this] show ?case using x same_data_trans
    by (cases "f x w1") (auto simp: and_then_sel)
qed simp

lemma notify_reached_trace:
  assumes "same_data w w'"
  shows "same_data w' (final (notify_reached svc ss p w')) \<and>
    (raised (notify_reached svc ss p w') = None \<longrightarrow> trace (final (notify_reached svc ss p w')) = trace w' @ document_events ss w p)"
proof -
  have ev: "document_events ss w p =
      concat (map (\<lambda>s. if snd p < s \<and> s \<le> state_of (fst p) w then [DocumentReached s (fst p)] else []) ss)"
    unfolding document_events_def by (induction ss) auto
  show ?thesis unfolding notify_reached_def ev
    by (rule run_each_trace [OF _ assms]) (auto simp: notify_document_data same_data_sel)
qed

lemma publish_reached_trace:
  assumes "same_data w w'"
  shows "same_data w' (final (publish_reached svc hs s w')) \<and>
    (raised (publish_reached svc hs s w') = None \<longrightarrow> trace (final (publish_reached svc hs s w')) = trace w' @ phase_events hs w s)"
  using notify_build_data [where w = w' and svc = svc and s = s and hs = "filter (\<lambda>h. s \<le> state_of h w') hs"]
  by (auto simp: publish_reached_def and_then_sel publishWorkspaceState_def phase_events_def Let_def same_data_def
      same_data_sel(1) [OF assms])

subsection \<open>A phase\<close>

lemma phase_result_data: "phase_result hs b e effs w fine w1 \<Longrightarrow> same_data w1 w2 \<Longrightarrow> (fine' \<longrightarrow> fine) \<Longrightarrow>
    phase_result hs b e effs w fine' w2"
  by (auto simp: phase_result_def same_data_sel)

lemma runMergedPhase_result:
  fixes phaseEnd :: document_state and svc :: "('a, 's, 'l, 'd) services" and ss :: "document_state list"
  assumes "distinct hs" and "kept (set hs) w w"
    and "\<And>h s0. h \<in> set hs \<Longrightarrow>
      list_all2 (local_action poll (own_view (set hs)) (shared_exports b) (framed (set hs) w) h) (body h s0) (effs s0)"
  defines "r \<equiv> runMergedPhase svc hs phaseEnd ss body w"
  shows "phase_result hs b phaseEnd effs w (raised r = None) (final r) \<and>
    (raised r = None \<longrightarrow> trace (final r) = trace w @
      concat (map (document_events ss (final r)) (pending hs phaseEnd w)) @ concat (map (phase_events hs (final r)) ss))"
proof -
  let ?p = "pending hs phaseEnd w"
  let ?t = "run_tasks svc phaseEnd (\<lambda>i. body (fst (?p ! i)) (snd (?p ! i))) (length ?p) w"
  have "framed (set hs) w w" using assms(2) by (simp add: framed_def)
  from tasks_result [where body = body and effs = effs and svc = svc and phaseEnd = phaseEnd, OF assms(1) this assms(3)]
  have t: "phase_result hs b phaseEnd effs w (raised ?t = None) (final ?t)" "trace (final ?t) = trace w"
    by (simp_all add: Let_def)
  have r: "r = and_then ?t (\<lambda>w. and_then (run_each (notify_reached svc ss) ?p w) (run_each (publish_reached svc hs) ss))"
    by (simp add: r_def runMergedPhase_def pending_def Let_def)
  let ?n = "run_each (notify_reached svc ss) ?p (final ?t)"
  have n: "same_data (final ?t) (final ?n) \<and> (raised ?n = None \<longrightarrow>
      trace (final ?n) = trace (final ?t) @ concat (map (document_events ss (final ?t)) ?p))"
    by (rule run_each_trace [where w = "final ?t"]) (erule notify_reached_trace, rule same_data_refl)
  let ?q = "run_each (publish_reached svc hs) ss (final ?n)"
  have q: "same_data (final ?n) (final ?q) \<and> (raised ?q = None \<longrightarrow>
      trace (final ?q) = trace (final ?n) @ concat (map (phase_events hs (final ?n)) ss))"
    by (rule run_each_trace [where w = "final ?n"]) (erule publish_reached_trace, rule same_data_refl)
  have data: "same_data (final ?t) (final r)" "raised r = None \<longrightarrow> raised ?t = None"
    using n q same_data_trans by (auto simp: r and_then_sel)
  have same: "document_events ss w' = document_events ss w''" "phase_events hs w' = phase_events hs w''"
    if "same_data w' w''" for w' w'' :: "('a, 's, 'l, 'd) workspace"
    using same_data_sel(1) [OF that] by (auto simp: document_events_def phase_events_def fun_eq_iff Let_def)
  have "trace (final r) = trace w @ concat (map (document_events ss (final r)) ?p) @ concat (map (phase_events hs (final r)) ss)"
    if "raised r = None"
  proof -
    have fine: "raised ?t = None" "raised ?n = None" "raised ?q = None" "final r = final ?q"
      using that by (auto simp: r and_then_sel split: if_splits)
    have "same_data (final ?n) (final r)" using q fine(4) by simp
    note at_n = same [OF this] and at_t = same [OF data(1)]
    have "trace (final r) = trace (final ?n) @ concat (map (phase_events hs (final r)) ss)"
      using q fine(3) unfolding fine(4) [symmetric] at_n by simp
    moreover have "trace (final ?n) = trace w @ concat (map (document_events ss (final r)) ?p)"
      using n fine(2) unfolding at_t t(2) by simp
    ultimately show ?thesis by simp
  qed
  then show ?thesis using phase_result_data [OF t(1) data] by simp
qed

lemma kept_ids: "kept M w0 w \<Longrightarrow> id_of h w = id_of h w0 \<and> uri_of h w = uri_of h w0"
  by (simp add: kept_def same_registry_def id_of_def uri_of_def)

lemma kept_self: "kept M w0 w \<Longrightarrow> kept M w w"
  using kept_ids [of M w0 w] by (simp add: kept_def)

lemma kept_trans: "kept M w0 w1 \<Longrightarrow> kept M w1 w2 \<Longrightarrow> kept M w0 w2"
  using kept_ids [of M w0 w1] by (simp add: kept_def same_registry_def)

lemmas phase_locals = parse_local content_local scope_local link_local reference_local validate_local

lemma phase_a_result:
  assumes "distinct hs" and "kept (set hs) w w"
  shows "phase_result hs False IndexedContent (effects_a svc) w (raised (phase_a svc hs w) = None) (final (phase_a svc hs w))"
  unfolding phase_a_def by (rule conjunct1 [OF runMergedPhase_result [OF assms]]) (simp add: effects_a_def phase_locals)

lemma phase_b_result:
  assumes "distinct hs" and "kept (set hs) w w"
  shows "phase_result hs True IndexedReferences (effects_b svc) w (raised (phase_b svc hs w) = None) (final (phase_b svc hs w))"
  unfolding phase_b_def by (rule conjunct1 [OF runMergedPhase_result [OF assms]]) (simp add: effects_b_def phase_locals)

lemma phase_c_result:
  assumes "distinct hs" and "kept (set hs) w w"
  shows "phase_result hs b Validated (effects_c svc) w (raised (phase_c svc hs w) = None) (final (phase_c svc hs w))"
  unfolding phase_c_def by (rule conjunct1 [OF runMergedPhase_result [OF assms]]) (simp add: effects_c_def phase_locals)

end
