(* ===== verification/BuildRuns.thy ===== *)
theory BuildRuns
  imports BuilderProps
begin

text \<open>
  A whole build, document by document: the result of a build that returns is a function of each
  document alone and of the exports of all of them, so the order in which the executor runs the
  steps cannot be seen in it.
\<close>

subsection \<open>The bookkeeping between the phases\<close>

definition prepared :: "build_options \<Rightarrow> build_state option \<Rightarrow> build_state" where
  "prepared o' b = (case b of
     None \<Rightarrow> \<lparr>completed = False, options = o', result = None\<rparr>
   | Some st \<Rightarrow> if completed st then \<lparr>completed = False, options = o', result = result st\<rparr> else st)"

definition closed :: "build_state option \<Rightarrow> build_state option" where
  "closed b = map_option (\<lambda>st. st\<lparr>completed := True\<rparr>) b"

lemma prepared_idem [simp]: "prepared o' (Some (prepared o' b)) = prepared o' b"
  by (simp add: prepared_def split: option.split)

lemma closed_idem [simp]: "closed (closed b) = closed b"
  by (cases b) (simp_all add: closed_def)

lemma closed_None [simp]: "closed b = None \<longleftrightarrow> b = None"
  by (simp add: closed_def)

definition rebuild_at :: "nat set \<Rightarrow> (build_state option \<Rightarrow> build_state option) \<Rightarrow> ('a, 's, 'l, 'd) workspace \<Rightarrow>
    ('a, 's, 'l, 'd) workspace" where
  "rebuild_at I f w = w\<lparr>buildStates := (\<lambda>i. if i \<in> I then f (buildStates w i) else buildStates w i)\<rparr>"

lemma rebuild_empty [simp]: "rebuild_at {} f w = w"
  by (simp add: rebuild_at_def)

lemma rebuild_twice:
  assumes "\<And>b. f (f b) = f b"
  shows "rebuild_at I f (rebuild_at {i} f w) = rebuild_at (insert i I) f w"
  using assms by (auto simp: rebuild_at_def fun_eq_iff)

lemma rebuild_sel [simp]:
  "uri_of x (rebuild_at I f w) = uri_of x w" "id_of x (rebuild_at I f w) = id_of x w"
  "state_of x (rebuild_at I f w) = state_of x w" "analysis (rebuild_at I f w) = analysis w" "index (rebuild_at I f w) = index w"
  "registry (rebuild_at I f w) = registry w" "trace (rebuild_at I f w) = trace w"
  "exports_at i (rebuild_at I f w) = exports_at i w" "references_at i (rebuild_at I f w) = references_at i w"
  "buildStates (rebuild_at I f w) = (\<lambda>i. if i \<in> I then f (buildStates w i) else buildStates w i)"
  by (simp_all add: rebuild_at_def)

lemma rebuild_view: "view_of h (rebuild_at I f w) =
    (if id_of h w \<in> I then (view_of h w)\<lparr>v_build := f (v_build (view_of h w))\<rparr> else view_of h w)"
  by (simp add: view_of_def)

lemma ensured: "id_of h w \<noteq> InvalidDocumentId \<Longrightarrow> ensure_document_id dir h w = (id_of h w, w)"
  by (simp add: ensure_document_id_def)

lemma prepareBuild_eq:
  assumes "\<And>h. h \<in> set hs \<Longrightarrow> id_of h w \<noteq> InvalidDocumentId"
  shows "prepareBuild dir hs o' w = rebuild_at ((\<lambda>h. id_of h w) ` set hs) (\<lambda>b. Some (prepared o' b)) w"
  using assms
proof (induction hs arbitrary: w)
  case (Cons h hs)
  have "prepareBuild dir (h # hs) o' w = prepareBuild dir hs o' (rebuild_at {id_of h w} (\<lambda>b. Some (prepared o' b)) w)"
    using Cons.prems [of h] by (auto simp: ensured rebuild_at_def prepared_def fun_upd_idem fun_eq_iff
        intro!: arg_cong [of _ _ "prepareBuild dir hs o'"] split: option.split)
  also have "\<dots> = rebuild_at ((\<lambda>h. id_of h w) ` set hs) (\<lambda>b. Some (prepared o' b))
      (rebuild_at {id_of h w} (\<lambda>b. Some (prepared o' b)) w)"
    using Cons by simp
  finally show ?case by (simp add: rebuild_twice)
qed simp

lemma markAsCompleted_rebuild: "markAsCompleted h w = rebuild_at {id_of h w} closed w"
  by (simp add: markAsCompleted_eq rebuild_at_def closed_def fun_upd_def cong: if_cong)

lemma shouldValidate_view: "shouldValidate h w = validates (view_options (view_of h w))"
  by (simp add: shouldValidate_def options_view)

lemma shouldValidate_closed: "shouldValidate h (rebuild_at I closed w) = shouldValidate h w"
  by (simp add: shouldValidate_def getBuildOptions_def closed_def split: option.split)

lemma select_validated_eq: "select_validated hs w = (filter (\<lambda>h. shouldValidate h w) hs,
    rebuild_at ((\<lambda>h. id_of h w) ` {h \<in> set hs. \<not> shouldValidate h w}) closed w)"
proof (induction hs arbitrary: w)
  case (Cons h hs)
  show ?case
  proof (cases "shouldValidate h w")
    case True
    then have "{x. (x = h \<or> x \<in> set hs) \<and> \<not> shouldValidate x w} = {x \<in> set hs. \<not> shouldValidate x w}" by auto
    then show ?thesis using True Cons by simp
  next
    case False
    then have "{x. (x = h \<or> x \<in> set hs) \<and> \<not> shouldValidate x w} = insert h {x \<in> set hs. \<not> shouldValidate x w}" by auto
    then show ?thesis using False Cons by (simp add: markAsCompleted_rebuild shouldValidate_closed rebuild_twice)
  qed
qed simp

lemma kept_rebuild: "kept M w0 w \<Longrightarrow> I \<subseteq> (\<lambda>h. id_of h w0) ` M \<Longrightarrow> kept M w0 (rebuild_at I f w)"
  by (auto simp: kept_def)

subsection \<open>The pipeline of a document\<close>

text \<open>What the three phases make of one document, given the exports of all documents.\<close>

definition phase_on :: "(document_state \<Rightarrow> ((nat \<times> node_description list) list, ('a, 's, 'l, 'd) view) own_effect list) \<Rightarrow>
    document_state \<Rightarrow> (nat \<times> node_description list) list \<Rightarrow> ('a, 's, 'l, 'd) view \<Rightarrow>
    exn option \<times> ('a, 's, 'l, 'd) view" where
  "phase_on effs phaseEnd c v = (if v_state v < phaseEnd then apply_effects (effs (v_state v)) c v else (None, v))"

definition content_of :: "('a, 's, 'l, 'd) services \<Rightarrow> build_options \<Rightarrow> ('a, 's, 'l, 'd) view \<Rightarrow>
    exn option \<times> ('a, 's, 'l, 'd) view" where
  "content_of svc o' v = phase_on (effects_a svc) IndexedContent [] (v\<lparr>v_build := Some (prepared o' (v_build v))\<rparr>)"

definition references_of :: "('a, 's, 'l, 'd) services \<Rightarrow> (nat \<times> node_description list) list \<Rightarrow> ('a, 's, 'l, 'd) view \<Rightarrow>
    exn option \<times> ('a, 's, 'l, 'd) view" where
  "references_of svc ex v = phase_on (effects_b svc) IndexedReferences ex v"

definition checks_of :: "('a, 's, 'l, 'd) services \<Rightarrow> ('a, 's, 'l, 'd) view \<Rightarrow> exn option \<times> ('a, 's, 'l, 'd) view" where
  "checks_of svc v =
     (if validates (view_options v) then phase_on (effects_c svc) Validated [] v
      else (None, v\<lparr>v_build := closed (v_build v)\<rparr>))"

definition document_pipeline :: "('a, 's, 'l, 'd) services \<Rightarrow> build_options \<Rightarrow> (nat \<times> node_description list) list \<Rightarrow>
    ('a, 's, 'l, 'd) view \<Rightarrow> exn option \<times> ('a, 's, 'l, 'd) view" where
  "document_pipeline svc o' ex v =
     (case content_of svc o' v of
        (Some e, v) \<Rightarrow> (Some e, v)
      | (None, v) \<Rightarrow> (case references_of svc ex v of (Some e, v) \<Rightarrow> (Some e, v) | (None, v) \<Rightarrow> checks_of svc v))"

lemma phase_result_on:
  assumes "phase_result hs b e effs w True w'" "h \<in> set hs"
  shows "phase_on effs e (shared_exports b w) (view_of h w) = (None, view_of h w')"
  using assms by (auto simp: phase_result_def phase_on_def)

text \<open>The documents of a build: different, with ids of their own.\<close>

definition buildable :: "nat list \<Rightarrow> ('a, 's, 'l, 'd) workspace \<Rightarrow> bool" where
  "buildable hs w \<longleftrightarrow> distinct hs \<and> (\<forall>h \<in> set hs. id_of h w \<noteq> InvalidDocumentId) \<and>
     inj_on (\<lambda>h. id_of h w) (set hs) \<and> ordered (exportsByDocument (index w))"

lemma buildable_kept: "buildable hs w \<Longrightarrow> kept (set hs) w w"
  by (simp add: buildable_def kept_def)

lemma checks_shared: "phase_on (effects_c svc) e c v = phase_on (effects_c svc) e [] v"
proof -
  have "eff_validate svc s c = eff_validate svc s []" for s by (simp add: eff_validate_def fun_eq_iff)
  then have "apply_effects (effects_c svc s) c v = apply_effects (effects_c svc s) [] v" for s
    by (simp add: effects_c_def split: option.split prod.split)
  then show ?thesis unfolding phase_on_def by metis
qed

text \<open>A build that returns went through four worlds.\<close>

definition build_stages :: "('a, 's, 'l, 'd) services \<Rightarrow> nat list \<Rightarrow> build_options \<Rightarrow> bool \<Rightarrow> ('a, 's, 'l, 'd) workspace \<Rightarrow>
    ('a, 's, 'l, 'd) workspace \<Rightarrow> ('a, 's, 'l, 'd) workspace \<Rightarrow> ('a, 's, 'l, 'd) workspace \<Rightarrow> bool" where
  "build_stages svc hs o' downgrades w0 w1 w2 w3 \<longleftrightarrow>
     phase_a svc hs w0 = Returned w1 \<and> phase_b svc hs w1 = Returned w2 \<and>
     phase_c svc (filter (\<lambda>h. shouldValidate h w2) hs)
       ((rebuild_at ((\<lambda>h. id_of h w2) ` {h \<in> set hs. \<not> shouldValidate h w2}) closed w2)
         \<lparr>trace := trace w2 @ (if downgrades then [Downgraded] else [])\<rparr>) = Returned w3"

lemma returned_and_then: "and_then r f = Returned w' \<longleftrightarrow> (\<exists>w. r = Returned w \<and> f w = Returned w')"
  by (cases r) simp_all

lemma rebuild_trace: "rebuild_at I f w = (rebuild_at I f w)\<lparr>trace := trace w\<rparr>"
  by (simp add: rebuild_at_def)

lemma buildDocuments_stages:
  assumes "buildable hs w"
  shows "buildDocuments svc hs o' d w = Returned w' \<longleftrightarrow>
    (\<exists>w1 w2. build_stages svc hs o' d (rebuild_at ((\<lambda>h. id_of h w) ` set hs) (\<lambda>b. Some (prepared o' b)) w) w1 w2 w')"
proof -
  have p: "prepareBuild (cwd svc) hs o' w = rebuild_at ((\<lambda>h. id_of h w) ` set hs) (\<lambda>b. Some (prepared o' b)) w"
    using assms by (intro prepareBuild_eq) (simp add: buildable_def)
  show ?thesis
    by (cases d) (simp_all add: buildDocuments_def p returned_and_then build_stages_def select_validated_eq
        flip: rebuild_trace)
qed

lemma kept_view: "kept M w0 w \<Longrightarrow> h \<notin> M \<Longrightarrow> id_of h w0 \<notin> (\<lambda>h. id_of h w0) ` M \<Longrightarrow> view_of h w = view_of h w0"
  using kept_ids [of M w0 w h] by (simp add: kept_def view_of_def)

lemma kept_subset: "kept N w w \<Longrightarrow> M \<subseteq> N \<Longrightarrow> kept M w w"
  by (auto simp: kept_def intro: inj_on_subset)

lemma kept_superset: "kept M w0 w \<Longrightarrow> M \<subseteq> N \<Longrightarrow> inj_on (\<lambda>h. id_of h w0) N \<Longrightarrow> kept N w0 w"
  using image_mono [of M N "\<lambda>h. id_of h w0"] unfolding kept_def by blast

lemma kept_inj: "kept M w0 w \<Longrightarrow> inj_on (\<lambda>h. id_of h w0) M"
  by (simp add: kept_def)

lemma phase_c_kept:
  assumes "kept (set hs) w w" and "vs = filter P hs" and "distinct hs" and "phase_c svc vs w = Returned w'"
  shows "kept (set hs) w w'" "exportsByDocument (index w') = exportsByDocument (index w)"
    "\<And>h. h \<in> set hs \<Longrightarrow> if P h then phase_on (effects_c svc) Validated [] (view_of h w) = (None, view_of h w')
       else view_of h w' = view_of h w"
proof -
  have sub: "set vs \<subseteq> set hs" using assms(2) by auto
  have vs: "kept (set vs) w w" "distinct vs" using kept_subset [OF assms(1) sub] assms(2,3) by simp_all
  from phase_c_result [OF vs(2,1), of True svc] have c: "phase_result vs True Validated (effects_c svc) w True w'"
    using assms(4) by simp
  then have k: "kept (set vs) w w'" and ex: "shared_exports True w' = shared_exports True w"
    by (simp_all add: phase_result_def)
  show "kept (set hs) w w'" by (rule kept_superset [OF k sub kept_inj [OF assms(1)]])
  show "exportsByDocument (index w') = exportsByDocument (index w)" using ex by (simp add: shared_exports_def)
  fix h
  assume h: "h \<in> set hs"
  show "if P h then phase_on (effects_c svc) Validated [] (view_of h w) = (None, view_of h w') else view_of h w' = view_of h w"
  proof (cases "P h")
    case True
    then have "h \<in> set vs" using h assms(2) by simp
    from phase_result_on [OF c this] show ?thesis
      using True unfolding checks_shared [of svc Validated "shared_exports True w"] by simp
  next
    case False
    then have "id_of h w \<notin> (\<lambda>h. id_of h w) ` set vs"
      using inj_on_image_mem_iff [OF kept_inj [OF assms(1)] h sub] assms(2) by simp
    then show ?thesis using False kept_view [OF k] h assms(2) by simp
  qed
qed

lemma stages_result:
  assumes "build_stages svc hs o' d w0 w1 w2 w3" and "distinct hs" and "kept (set hs) w0 w0"
  shows "kept (set hs) w0 w3" "exportsByDocument (index w2) = exportsByDocument (index w1)"
    "exportsByDocument (index w3) = exportsByDocument (index w1)"
    "\<And>h. h \<in> set hs \<Longrightarrow> phase_on (effects_a svc) IndexedContent [] (view_of h w0) = (None, view_of h w1) \<and>
      references_of svc (exportsByDocument (index w1)) (view_of h w1) = (None, view_of h w2) \<and>
      checks_of svc (view_of h w2) = (None, view_of h w3)"
proof -
  let ?I = "(\<lambda>h. id_of h w2) ` {h \<in> set hs. \<not> shouldValidate h w2}"
  define w2' where "w2' = (rebuild_at ?I closed w2)\<lparr>trace := trace w2 @ (if d then [Downgraded] else [])\<rparr>"
  from phase_a_result [OF assms(2,3), of svc] assms(1)
  have a: "phase_result hs False IndexedContent (effects_a svc) w0 True w1" by (simp add: build_stages_def)
  then have k1: "kept (set hs) w0 w1" by (simp add: phase_result_def)
  from phase_b_result [OF assms(2) kept_self [OF k1], of svc] assms(1)
  have b: "phase_result hs True IndexedReferences (effects_b svc) w1 True w2" by (simp add: build_stages_def)
  then have k2: "kept (set hs) w1 w2" by (simp add: phase_result_def)
  show ex: "exportsByDocument (index w2) = exportsByDocument (index w1)"
    using b by (simp add: phase_result_def shared_exports_def)
  have data: "same_data (rebuild_at ?I closed w2) w2'" by (simp add: w2'_def same_data_def)
  have "kept (set hs) w2 (rebuild_at ?I closed w2)" by (rule kept_rebuild [OF kept_self [OF k2]]) auto
  then have k2': "kept (set hs) w2 w2'" using same_data_sel(8) [OF data] by simp
  have c: "phase_c svc (filter (\<lambda>h. shouldValidate h w2) hs) w2' = Returned w3"
    using assms(1) by (simp add: build_stages_def w2'_def)
  note c = phase_c_kept [OF kept_self [OF k2'] refl assms(2) c]
  show "kept (set hs) w0 w3" using kept_trans [OF kept_trans [OF kept_trans [OF k1 k2] k2'] c(1)] .
  show "exportsByDocument (index w3) = exportsByDocument (index w1)" using c(2) ex by (simp add: w2'_def)
  fix h
  assume h: "h \<in> set hs"
  have inj: "id_of h w2 \<in> ?I \<longleftrightarrow> \<not> shouldValidate h w2"
    using inj_on_image_mem_iff [OF kept_inj [OF kept_self [OF k2]] h, of "{h \<in> set hs. \<not> shouldValidate h w2}"] h by simp
  then have v: "view_of h w2' = (if shouldValidate h w2 then view_of h w2 else (view_of h w2)\<lparr>v_build := closed (buildStates w2 (id_of h w2))\<rparr>)"
    unfolding same_data_sel(4) [OF data] by (simp add: rebuild_view)
  show "phase_on (effects_a svc) IndexedContent [] (view_of h w0) = (None, view_of h w1) \<and>
      references_of svc (exportsByDocument (index w1)) (view_of h w1) = (None, view_of h w2) \<and>
      checks_of svc (view_of h w2) = (None, view_of h w3)"
    using phase_result_on [OF a h] phase_result_on [OF b h] c(3) [OF h] v
    by (auto simp: references_of_def checks_of_def shared_exports_def shouldValidate_view split: if_splits)
qed

lemma start_views:
  assumes "h \<in> set hs"
  shows "view_of h (rebuild_at ((\<lambda>h. id_of h w) ` set hs) (\<lambda>b. Some (prepared o' b)) w) =
    (view_of h w)\<lparr>v_build := Some (prepared o' (v_build (view_of h w)))\<rparr>"
  using assms by (simp add: rebuild_view)

end
