(* ===== verification/BuildAgree.thy ===== *)
theory BuildAgree
  imports BuildRuns
begin

text \<open>
  The properties of builds that return: each document has gone through its own pipeline, it
  has reached the state its options ask for, and two builds that run their steps in different orders end
  with the same workspace.
\<close>

subsection \<open>Agreement of two runs\<close>

definition same_outcome :: "('a, 's, 'l, 'd) workspace \<Rightarrow> ('a, 's, 'l, 'd) workspace \<Rightarrow> bool" where
  "same_outcome w1 w2 \<longleftrightarrow> registry w1 = registry w2 \<and> analysis w1 = analysis w2 \<and>
     exportsByDocument (index w1) = exportsByDocument (index w2) \<and> (\<forall>i. references_at i w1 = references_at i w2) \<and>
     buildStates w1 = buildStates w2 \<and> trace w1 = trace w2"

lemma same_outcome_sel:
  assumes "same_outcome w1 w2"
  shows "state_of h w1 = state_of h w2" "id_of h w1 = id_of h w2" "view_of h w1 = view_of h w2"
    "shared_exports b w1 = shared_exports b w2" "shouldValidate h w1 = shouldValidate h w2" "pending hs e w1 = pending hs e w2"
  using assms by (simp_all add: same_outcome_def state_of_def id_of_def view_of_def uri_of_def exports_at_def shared_exports_def
      shouldValidate_def getBuildOptions_def pending_def)

lemma same_registry_unique:
  assumes "same_registry d r1" "same_registry d r2" and "\<And>x. docState (heap r1 x) = docState (heap r2 x)"
  shows "r1 = r2"
proof -
  have "heap r1 = heap r2" using assms by (auto simp: same_registry_def fun_eq_iff intro!: document.equality)
  then show ?thesis using assms(1,2) by (auto simp: same_registry_def intro!: documents.equality)
qed

lemma ordered_unique:
  assumes "ordered xs" "ordered ys" "map_of xs = map_of ys"
  shows "xs = ys"
proof -
  have "zs = map (\<lambda>k. (k, the (map_of zs k))) (map fst zs)" if "ordered zs" for zs :: "(nat \<times> 'a) list"
    using ordered_lookup [OF that] by (auto intro!: map_idI [symmetric] simp: comp_def)
  from this [OF assms(1)] this [OF assms(2)] show ?thesis
    using ordered_keys [OF assms(1)] ordered_keys [OF assms(2)] assms(3) by metis
qed

lemma merged_agree:
  assumes "distinct hs" and ka: "kept (set hs) wa wa" and kb: "kept (set hs) wb wb" and same: "same_outcome wa wb"
    and "\<And>h s0. h \<in> set hs \<Longrightarrow>
      list_all2 (local_action poll (own_view (set hs)) (shared_exports b) (framed (set hs) wa) h) (body h s0) (effs s0)"
    and "\<And>h s0. h \<in> set hs \<Longrightarrow>
      list_all2 (local_action poll (own_view (set hs)) (shared_exports b) (framed (set hs) wb) h) (body' h s0) (effs s0)"
    and ra: "runMergedPhase svc hs e ss body wa = Returned wa'" and rb: "runMergedPhase svc' hs e ss body' wb = Returned wb'"
  shows "same_outcome wa' wb'"
proof -
  note a = runMergedPhase_result [where ss = ss and phaseEnd = e and svc = svc and body = body and effs = effs,
      OF assms(1) ka assms(5), unfolded ra]
  note b = runMergedPhase_result [where ss = ss and phaseEnd = e and svc = svc' and body = body' and effs = effs,
      OF assms(1) kb assms(6), unfolded rb]
  have pa: "phase_result hs b e effs wa True wa'" and pb: "phase_result hs b e effs wb True wb'" using a b by simp_all
  have view: "view_of h wa' = view_of h wb'" if "h \<in> set hs" for h
    using phase_result_on [OF pa that] phase_result_on [OF pb that] same_outcome_sel(3,4) [OF same] by simp
  have kept: "kept (set hs) wa wa'" "kept (set hs) wb wb'" using pa pb by (simp_all add: phase_result_def)
  note ids = same_outcome_sel(2) [OF same]
  have state: "state_of h wa' = state_of h wb'" "analysis wa' h = analysis wb' h" for h
  proof -
    show "state_of h wa' = state_of h wb'"
    proof (cases "h \<in> set hs")
      case True
      from view [OF this] have "v_state (view_of h wa') = v_state (view_of h wb')" by simp
      then show ?thesis by simp
    qed (use kept same_outcome_sel(1) [OF same, of h] in \<open>simp add: kept_def\<close>)
    show "analysis wa' h = analysis wb' h"
    proof (cases "h \<in> set hs")
      case True
      from view [OF this] have "v_analysed (view_of h wa') = v_analysed (view_of h wb')" by simp
      then show ?thesis by simp
    qed (use kept same in \<open>simp add: kept_def same_outcome_def\<close>)
  qed
  have at: "exports_at i wa' = exports_at i wb' \<and> references_at i wa' = references_at i wb' \<and> buildStates wa' i = buildStates wb' i"
    for i
  proof (cases "i \<in> (\<lambda>h. id_of h wa) ` set hs")
    case True
    then obtain h where h: "h \<in> set hs" "i = id_of h wa" by blast
    then have i: "id_of h wa' = i" "id_of h wb' = i" using kept_ids [OF kept(1), of h] kept_ids [OF kept(2), of h] ids by auto
    from view [OF h(1)] have "v_exports (view_of h wa') = v_exports (view_of h wb') \<and>
        v_references (view_of h wa') = v_references (view_of h wb') \<and> v_build (view_of h wa') = v_build (view_of h wb')" by simp
    then show ?thesis by (simp add: i)
  next
    case False
    then show ?thesis using kept same unfolding kept_def ids [symmetric] by (simp add: same_outcome_def exports_at_def)
  qed
  have "registry wa' = registry wb'"
    using kept same state(1) by (intro same_registry_unique [of "registry wa"]) (simp_all add: kept_def same_outcome_def state_of_def)
  moreover have "exportsByDocument (index wa') = exportsByDocument (index wb')"
    using kept at by (intro ordered_unique) (simp_all add: kept_def fun_eq_iff exports_at_def)
  moreover have "trace wa' = trace wb'"
  proof -
    have "document_events ss wa' = document_events ss wb'" "phase_events hs wa' = phase_events hs wb'"
      using state(1) by (simp_all add: document_events_def phase_events_def fun_eq_iff)
    then show ?thesis using a b same_outcome_sel(6) [OF same] same by (simp add: same_outcome_def)
  qed
  ultimately show ?thesis using state(2) at by (simp add: same_outcome_def fun_eq_iff)
qed

text \<open>The same services, with another executor.\<close>

lemma effects_orders [simp]: "effects_a (svc\<lparr>orders := x\<rparr>) = effects_a svc" "effects_b (svc\<lparr>orders := x\<rparr>) = effects_b svc"
  "effects_c (svc\<lparr>orders := x\<rparr>) = effects_c svc"
  by (simp_all add: fun_eq_iff effects_a_def effects_b_def effects_c_def eff_parse_def eff_content_def eff_scope_def eff_link_def
      eff_reference_def eff_validate_def missing_in_def Let_def split: sum.split)

lemma phases_local:
  assumes "h \<in> M"
  shows "list_all2 (local_action poll (own_view M) (shared_exports False) (framed M w) h)
      [reparse_step svc h s, content_step svc h s] (effects_a svc s)"
    "list_all2 (local_action poll (own_view M) (shared_exports True) (framed M w) h)
      [scope_step svc h s, link_step svc h s, reference_step svc h s] (effects_b svc s)"
    "list_all2 (local_action poll (own_view M) (shared_exports b) (framed M w) h) [validate_step svc h s] (effects_c svc s)"
  using assms by (simp_all add: effects_a_def effects_b_def effects_c_def phase_locals)

lemma phase_a_agree:
  assumes "distinct hs" "kept (set hs) wa wa" "kept (set hs) wb wb" "same_outcome wa wb"
    and "phase_a svc hs wa = Returned wa'" and "phase_a (svc\<lparr>orders := x\<rparr>) hs wb = Returned wb'"
  shows "same_outcome wa' wb'"
  by (rule merged_agree [OF assms(1-4) _ _ assms(5,6) [unfolded phase_a_def], of False "effects_a svc"])
    (use phases_local(1) [of _ "set hs" _ "svc\<lparr>orders := x\<rparr>"] in \<open>simp_all add: phases_local\<close>)

lemma phase_b_agree:
  assumes "distinct hs" "kept (set hs) wa wa" "kept (set hs) wb wb" "same_outcome wa wb"
    and "phase_b svc hs wa = Returned wa'" and "phase_b (svc\<lparr>orders := x\<rparr>) hs wb = Returned wb'"
  shows "same_outcome wa' wb'"
  by (rule merged_agree [OF assms(1-4) _ _ assms(5,6) [unfolded phase_b_def], of True "effects_b svc"])
    (use phases_local(2) [of _ "set hs" _ "svc\<lparr>orders := x\<rparr>"] in \<open>simp_all add: phases_local\<close>)

lemma phase_c_agree:
  assumes "distinct hs" "kept (set hs) wa wa" "kept (set hs) wb wb" "same_outcome wa wb"
    and "phase_c svc hs wa = Returned wa'" and "phase_c (svc\<lparr>orders := x\<rparr>) hs wb = Returned wb'"
  shows "same_outcome wa' wb'"
  by (rule merged_agree [OF assms(1-4) _ _ assms(5,6) [unfolded phase_c_def], of False "effects_c svc"])
    (use phases_local(3) [of _ "set hs" False _ "svc\<lparr>orders := x\<rparr>"] in \<open>simp_all add: phases_local\<close>)

lemma kept_trace: "kept M w0 (w\<lparr>trace := t\<rparr>) = kept M w0 w"
  by (rule same_data_sel(8)) (simp add: same_data_def)

lemma stages_kept:
  assumes "build_stages svc hs o' d w0 w1 w2 w3" and "distinct hs" and "kept (set hs) w0 w0"
  shows "kept (set hs) w1 w1" "kept (set hs) w2 w2"
proof -
  have "phase_result hs False IndexedContent (effects_a svc) w0 True w1"
    using phase_a_result [OF assms(2,3), of svc] assms(1) by (simp add: build_stages_def)
  then show k: "kept (set hs) w1 w1" unfolding phase_result_def using kept_self by blast
  have "phase_result hs True IndexedReferences (effects_b svc) w1 True w2"
    using phase_b_result [OF assms(2) k, of svc] assms(1) by (simp add: build_stages_def)
  then show "kept (set hs) w2 w2" unfolding phase_result_def using kept_self by blast
qed

lemma stages_agree:
  assumes "build_stages svc hs o' d wa wa1 wa2 wa3" and "build_stages (svc\<lparr>orders := x\<rparr>) hs o' d wb wb1 wb2 wb3"
    and hs: "distinct hs" and ka: "kept (set hs) wa wa" and kb: "kept (set hs) wb wb" and same: "same_outcome wa wb"
  shows "same_outcome wa3 wb3"
proof -
  let ?w = "\<lambda>w :: ('a, 'b, 'c, 'd) workspace. (rebuild_at ((\<lambda>h. id_of h w) ` {h \<in> set hs. \<not> shouldValidate h w}) closed w)
      \<lparr>trace := trace w @ (if d then [Downgraded] else [])\<rparr>"
  let ?vs = "\<lambda>w. filter (\<lambda>h. shouldValidate h w) hs"
  note a = assms(1) [unfolded build_stages_def] and b = assms(2) [unfolded build_stages_def]
  note k1 = stages_kept(1) [OF assms(1) hs ka] stages_kept(1) [OF assms(2) hs kb]
  note k2 = stages_kept(2) [OF assms(1) hs ka] stages_kept(2) [OF assms(2) hs kb]
  from phase_a_agree [OF hs ka kb same, of svc _ x] a b have "same_outcome wa1 wb1" by blast
  from phase_b_agree [OF hs k1 this, of svc _ x] a b have s2: "same_outcome wa2 wb2" by blast
  have k3: "kept (set (?vs w)) (?w w) (?w w)" if "kept (set hs) w w" for w
  proof -
    have "kept (set hs) w (rebuild_at ((\<lambda>h. id_of h w) ` {h \<in> set hs. \<not> shouldValidate h w}) closed w)"
      by (rule kept_rebuild [OF that]) auto
    then have "kept (set hs) w (?w w)" by (simp add: kept_trace)
    from kept_subset [OF kept_self [OF this]] show ?thesis by simp
  qed
  have vs: "?vs wa2 = ?vs wb2" using same_outcome_sel(5) [OF s2] by simp
  have "same_outcome (?w wa2) (?w wb2)"
    using s2 same_outcome_sel(2,5) [OF s2] by (simp add: same_outcome_def references_at_def cong: if_cong)
  moreover have "distinct (?vs wa2)" using hs by simp
  moreover have "phase_c svc (?vs wa2) (?w wa2) = Returned wa3" "phase_c (svc\<lparr>orders := x\<rparr>) (?vs wa2) (?w wb2) = Returned wb3"
    using a b unfolding vs by simp_all
  ultimately show ?thesis
    using phase_c_agree [of "?vs wa2"] k3 [OF k2(1)] k3 [OF k2(2)] unfolding vs by blast
qed

subsection \<open>What a pipeline reaches\<close>

lemma content_reaches: "content_of svc o' v = (None, v') \<Longrightarrow> v_state v' = max (v_state v) IndexedContent \<and>
    v_build v' = Some (prepared o' (v_build v)) \<and> (IndexedContent \<le> v_state v \<longrightarrow> v' = v\<lparr>v_build := Some (prepared o' (v_build v))\<rparr>)"
  by (auto simp: content_of_def phase_on_def effects_a_def eff_parse_def eff_content_def Let_def max_def
      split: sum.splits if_splits)

lemma view_links_sel [simp]: "view_links (v\<lparr>v_state := s\<rparr>) = view_links v" "view_links (v\<lparr>v_analysed := x\<rparr>) = view_links v"
  "view_links (v\<lparr>v_references := r\<rparr>) = view_links v"
  by (simp_all add: view_links_def)

lemma references_reaches: "references_of svc ex v = (None, v') \<Longrightarrow>
    v_state v' = max (v_state v) (if view_links v then IndexedReferences else ComputedScopes) \<and>
    v_build v' = v_build v \<and> (IndexedReferences \<le> v_state v \<longrightarrow> v' = v)"
  by (cases "v_state v") (auto simp: references_of_def phase_on_def effects_b_def eff_scope_def eff_link_def eff_reference_def
      less_eq_document_state_def less_document_state_def max_def split: sum.splits if_splits)

lemma checks_reach: "checks_of svc v = (None, v') \<Longrightarrow>
    (validates (view_options v) \<longrightarrow> v_state v' = max (v_state v) Validated \<and>
       (v_state v < Validated \<longrightarrow> (\<exists>st. v_build v' = Some st \<and> completed st)) \<and> (\<not> v_state v < Validated \<longrightarrow> v' = v)) \<and>
    (\<not> validates (view_options v) \<longrightarrow> v' = v\<lparr>v_build := closed (v_build v)\<rparr>)"
  by (auto simp: checks_of_def phase_on_def effects_c_def eff_validate_def Let_def max_def split: sum.splits if_splits)

definition links_eagerly :: "build_options \<Rightarrow> bool" where
  "links_eagerly o' = (case eagerLinking o' of None \<Rightarrow> True | Some b \<Rightarrow> b)"

lemma view_links_options: "view_links v = links_eagerly (view_options v)"
  by (simp add: view_links_def view_options_def links_eagerly_def default_options_def split: option.split)

lemma pipeline_stages: "document_pipeline svc o' ex v = (None, v3) \<longleftrightarrow>
    (\<exists>v1 v2. content_of svc o' v = (None, v1) \<and> references_of svc ex v1 = (None, v2) \<and> checks_of svc v2 = (None, v3))"
  by (auto simp: document_pipeline_def split: prod.split option.split)

lemma pipeline_reaches:
  assumes "document_pipeline svc o' ex v = (None, v')"
  defines "o'' \<equiv> options (prepared o' (v_build v))"
  shows "v_state v' = (if validates o'' then Validated
      else max (v_state v) (if links_eagerly o'' then IndexedReferences else ComputedScopes))"
    "v_state v < Validated \<or> \<not> validates o'' \<Longrightarrow> \<exists>st. v_build v' = Some st \<and> completed st"
    "v_state v = Validated \<Longrightarrow> validates o'' \<Longrightarrow> v' = v\<lparr>v_build := Some (prepared o' (v_build v))\<rparr>"
proof -
  obtain v1 v2 where v1: "content_of svc o' v = (None, v1)" and v2: "references_of svc ex v1 = (None, v2)"
    and v3: "checks_of svc v2 = (None, v')"
    using assms(1) by (auto simp: pipeline_stages)
  note r1 = content_reaches [OF v1] and r2 = references_reaches [OF v2] and r3 = checks_reach [OF v3]
  have o'': "view_options v1 = o''" "view_options v2 = o''" using r1 r2 by (simp_all add: view_options_def o''_def)
  then have s2: "v_state v2 = max (v_state v) (if links_eagerly o'' then IndexedReferences else ComputedScopes)"
    using r1 r2 by (auto simp: view_links_options less_eq_document_state_def max_def)
  show "v_state v' = (if validates o'' then Validated
      else max (v_state v) (if links_eagerly o'' then IndexedReferences else ComputedScopes))"
  proof (cases "validates o''")
    case True
    moreover have "max s Validated = Validated" for s
      by (cases s) (simp_all add: less_eq_document_state_def max_def)
    ultimately show ?thesis using r3 o''(2) by simp
  qed (use r3 o''(2) s2 in simp)
  have "v_build v2 \<noteq> None" using r1 r2 by simp
  then have "\<exists>st. closed (v_build v2) = Some st \<and> completed st" by (auto simp: closed_def)
  moreover have "v_state v2 < Validated" if "v_state v < Validated"
    using s2 that by (auto simp: less_document_state_def less_eq_document_state_def max_def split: if_splits)
  ultimately show "\<exists>st. v_build v' = Some st \<and> completed st" if "v_state v < Validated \<or> \<not> validates o''"
    using that r3 o''(2) by (cases "validates o''") auto
  show "v' = v\<lparr>v_build := Some (prepared o' (v_build v))\<rparr>" if "v_state v = Validated" "validates o''"
  proof -
    have "v1 = v\<lparr>v_build := Some (prepared o' (v_build v))\<rparr>" "v_state v1 = Validated"
      using r1 that(1) by (simp_all add: less_eq_document_state_def max_def)
    moreover from this(2) have "v2 = v1" using r2 by (simp add: less_eq_document_state_def)
    moreover have "v' = v2" using r3 that(2) o''(2) calculation by simp
    ultimately show ?thesis by simp
  qed
qed

end
