(* ===== verification/BuildReturns.thy ===== *)
theory BuildReturns
  imports BuildAgree
begin

text \<open>
  A build without a stop request, whose services and listeners do not throw, returns, whatever the executor does.
\<close>

definition calm :: "('a, 's, 'l, 'd) workspace \<Rightarrow> bool" where
  "calm w \<longleftrightarrow> polls w = None"

definition never_fails :: "('a, 's, 'l, 'd) services \<Rightarrow> bool" where
  "never_fails svc \<longleftrightarrow>
     (\<forall>u e. read_latest svc u \<noteq> Inl e) \<and> (\<forall>u t e. parse_document svc u t \<noteq> Inl e) \<and>
     (\<forall>i a e. collectExportedSymbols svc i a \<noteq> Inl e) \<and> (\<forall>a e. collectLocalSymbols svc a \<noteq> Inl e) \<and>
     (\<forall>a s ex e. link_document svc a s ex \<noteq> Inl e) \<and> (\<forall>l e. createDescriptions svc l \<noteq> Inl e) \<and>
     (\<forall>a l v e. validateDocument svc a l v \<noteq> Inl e) \<and>
     (\<forall>f \<in> set (update_listeners svc). \<forall>x y. f x y = None) \<and>
     (\<forall>s. \<forall>f \<in> set (phase_listeners svc s). \<forall>x. f x = None) \<and> (\<forall>s. \<forall>f \<in> set (document_listeners svc s). \<forall>x. f x = None)"

interpretation calm: undisturbed poll calm
  by unfold_locales (simp add: calm_def poll_def)

lemma calm_upd [simp]: "calm (advance h s w) = calm w" "calm (analyse h f w) = calm w" "calm (w\<lparr>index := m\<rparr>) = calm w"
  "calm (w\<lparr>buildStates := b\<rparr>) = calm w" "calm (w\<lparr>trace := t\<rparr>) = calm w" "calm (publishWorkspaceState s w) = calm w"
  "calm (markAsCompleted h w) = calm w" "calm (rebuild_at I g w) = calm w" "calm (w\<lparr>currentState := s\<rparr>) = calm w"
  by (simp_all add: calm_def advance_def analyse_def publishWorkspaceState_def markAsCompleted_eq rebuild_at_def)

lemma steps_safe:
  assumes "never_fails svc"
  shows "safe calm (reparse_step svc h s)" "safe calm (content_step svc h s)" "safe calm (scope_step svc h s)"
    "safe calm (link_step svc h s)" "safe calm (reference_step svc h s)" "safe calm (validate_step svc h s)"
  using assms by (auto simp: safe_def never_fails_def reparse_step_def content_step_def scope_step_def link_step_def
      reference_step_def validate_step_def validate_def Let_def split: sum.splits)

lemma isolated_safe: "safe calm before \<Longrightarrow> \<forall>e \<in> set es. e = None \<Longrightarrow> safe calm (call_isolated before es)"
proof (induction es)
  case (Cons e es)
  then show ?case by (auto simp: safe_def and_then_sel)
qed (simp add: safe_def)

lemma document_safe: "\<forall>e \<in> set es. e = None \<Longrightarrow> safe calm (call_document es None)"
proof (induction es)
  case (Cons e es)
  then show ?case using calm.calm by (auto simp: safe_def split_beta Let_def)
qed (simp add: safe_def)

lemma notify_safe:
  fixes svc :: "('a, 's, 'l, 'd) services"
  assumes "never_fails svc"
  shows "safe calm (notifyDocumentPhase svc h s)" "safe calm (notifyBuildPhase svc hs s)" "safe calm (emitUpdate svc cs ds)"
proof -
  have d: "safe (calm :: ('a, 's, 'l, 'd) workspace \<Rightarrow> bool) (call_document (map (\<lambda>l. l h) (document_listeners svc s)) None)"
    using assms by (intro document_safe) (auto simp: never_fails_def)
  have p: "safe (calm :: ('a, 's, 'l, 'd) workspace \<Rightarrow> bool) (call_isolated check_cancelled (map (\<lambda>l. l hs) (phase_listeners svc s)))"
    using assms by (intro isolated_safe calm.throw_safe) (auto simp: never_fails_def)
  have u: "safe (calm :: ('a, 's, 'l, 'd) workspace \<Rightarrow> bool) (call_isolated Returned (map (\<lambda>l. l cs ds) (update_listeners svc)))"
    using assms by (intro isolated_safe) (auto simp: never_fails_def safe_def)
  show "safe calm (notifyDocumentPhase svc h s)" using d by (auto simp: safe_def notifyDocumentPhase_def)
  show "safe calm (notifyBuildPhase svc hs s)" using p by (auto simp: safe_def notifyBuildPhase_def)
  show "safe calm (emitUpdate svc cs ds)" using u by (auto simp: safe_def emitUpdate_def)
qed

lemma merged_safe:
  assumes "never_fails svc" and "\<And>h s a. a \<in> set (body h s) \<Longrightarrow> safe calm a"
  shows "safe calm (runMergedPhase svc hs e ss body)"
proof -
  have t: "safe calm (run_tasks svc e bd n)" if "\<And>i. i < n \<Longrightarrow> \<forall>a \<in> set (bd i). safe calm a" for bd n
    using calm.inline_safe [OF that] calm.parallelFor_safe [OF that]
    by (auto simp: run_tasks_def safe_def split: option.split)
  have n: "safe calm (run_each (notify_reached svc ss) ps)" for ps
    unfolding notify_reached_def by (intro safe_each) (use notify_safe(1) [OF assms(1)] in \<open>auto simp: safe_def\<close>)
  have p: "safe calm (publish_reached svc hs s)" for s
    using notify_safe(2) [OF assms(1)] by (auto simp: publish_reached_def safe_def and_then_sel)
  then have q: "safe calm (run_each (publish_reached svc hs) ss)" by (intro safe_each)
  show ?thesis
  proof (rule safeI)
    fix w :: "('a, 'b, 'c, 'd) workspace"
    let ?p = "map (\<lambda>h. (h, state_of h w)) (filter (\<lambda>h. state_of h w < e) hs)"
    assume w: "calm w"
    have "safe calm (\<lambda>w. and_then (run_tasks svc e (\<lambda>i. body (fst (?p ! i)) (snd (?p ! i))) (length ?p) w)
        (\<lambda>w. and_then (run_each (notify_reached svc ss) ?p w) (run_each (publish_reached svc hs) ss)))"
      using assms(2) n q by (intro safe_and_then t) auto
    then show "raised (runMergedPhase svc hs e ss body w) = None \<and> calm (final (runMergedPhase svc hs e ss body w))"
      using w unfolding safe_def runMergedPhase_def Let_def by blast
  qed
qed

lemma phases_safe:
  assumes "never_fails svc"
  shows "safe calm (phase_a svc hs)" "safe calm (phase_b svc hs)" "safe calm (phase_c svc hs)"
  unfolding phase_a_def phase_b_def phase_c_def
  by (rule merged_safe [OF assms], use steps_safe [OF assms] in auto)+

lemma build_documents_returns:
  assumes "never_fails svc" and "buildable hs w" and "calm w"
  shows "\<exists>w'. buildDocuments svc hs o' d w = Returned w' \<and> calm w'"
proof -
  let ?w0 = "rebuild_at ((\<lambda>h. id_of h w) ` set hs) (\<lambda>b. Some (prepared o' b)) w"
  have p: "prepareBuild (cwd svc) hs o' w = ?w0"
    using assms(2) by (intro prepareBuild_eq) (simp add: buildable_def)
  have w0: "calm ?w0" using assms(3) by simp
  obtain w1 where w1: "phase_a svc hs ?w0 = Returned w1" "calm w1" using safeD [OF phases_safe(1) [OF assms(1)] w0] by blast
  obtain w2 where w2: "phase_b svc hs w1 = Returned w2" "calm w2" using safeD [OF phases_safe(2) [OF assms(1)] w1(2)] by blast
  let ?vs = "filter (\<lambda>h. shouldValidate h w2) hs"
  let ?w2 = "rebuild_at ((\<lambda>h. id_of h w2) ` {h \<in> set hs. \<not> shouldValidate h w2}) closed w2"
  let ?w2' = "if d then ?w2\<lparr>trace := trace ?w2 @ [Downgraded]\<rparr> else ?w2"
  have "calm ?w2'" using w2(2) by simp
  then obtain w3 where "phase_c svc ?vs ?w2' = Returned w3" "calm w3" using safeD [OF phases_safe(3) [OF assms(1)]] by blast
  then show ?thesis by (simp only: buildDocuments_def p w1(1) w2(1) and_then_simps select_validated_eq Let_def prod.case) blast
qed

end
