(* ===== verification/BuildSpec.thy ===== *)
theory BuildSpec
  imports BuildReturns "HOL-Library.Code_Target_Nat"
begin

text \<open>
  What a build promises: a document ends as its own pipeline makes it, against the
  exports of the finished build and whatever the executor did; it has reached the state its options ask for; and
  a document that was validated before is left as it was, even when checks are missing.
\<close>

subsection \<open>A workspace to build\<close>

definition demo_services :: "nat list option option \<Rightarrow> (nat, nat, nat, nat) services" where
  "demo_services order = \<lparr>cwd = ''/'', read_latest = (\<lambda>u. Inr u), parse_document = (\<lambda>u t. Inr (length t)),
     collectExportedSymbols = (\<lambda>i a. Inr [\<lparr>name = ''x'', node_type = 0, documentId = i, symbolId = 0\<rparr>]),
     collectLocalSymbols = (\<lambda>a. Inr 0), link_document = (\<lambda>a s ex. Inr (length ex)), has_error = (\<lambda>l. False),
     createDescriptions = (\<lambda>l. Inr []), validateDocument = (\<lambda>a l v. Inr [length (categories v)]),
     getAllValidationCategories = (\<lambda>u. [''a'', ''b'']), has_text = (\<lambda>u. False), update_listeners = [],
     phase_listeners = (\<lambda>s. []), document_listeners = (\<lambda>s. []), orders = (\<lambda>s. order)\<rparr>"

definition demo_workspace :: "document_state \<Rightarrow> build_state option \<Rightarrow> (nat, nat, nat, nat) workspace" where
  "demo_workspace s b = \<lparr>registry = new_documents
       \<lparr>heap := (\<lambda>h. \<lparr>docUri = (if h = 0 then ''file:/a'' else ''file:/b''), docId = h + 1, docState = s\<rparr>)\<rparr>,
     analysis = (\<lambda>h. \<lparr>ast = None, localSymbols = None, links = None, diagnostics = []\<rparr>), index = new_index,
     buildStates = (\<lambda>i. b), currentState = Changed, published = (\<lambda>s. 0), polls = None, trace = []\<rparr>"

definition demo_options :: build_options where
  "demo_options = \<lparr>eagerLinking = None, validation = Enabled True\<rparr>"

lemma demo_buildable: "buildable [0, 1] (demo_workspace s b)"
  by (simp add: buildable_def demo_workspace_def id_of_def InvalidDocumentId_def u32_max_def ordered_def new_index_def)

lemma demo_fine: "never_fails (demo_services order)"
  by (simp add: never_fails_def demo_services_def)

lemma demo_final:
  assumes "raised (buildDocuments (demo_services order) [0, 1] o' d (demo_workspace s b)) = None"
  shows "buildDocuments (demo_services order) [0, 1] o' d (demo_workspace s b) =
    Returned (final (buildDocuments (demo_services order) [0, 1] o' d (demo_workspace s b)))"
  using assms by (cases "buildDocuments (demo_services order) [0, 1] o' d (demo_workspace s b)") simp_all

lemma demo_raises: "raised (buildDocuments (demo_services order) [0, 1] o' d (demo_workspace s b)) = None"
  using build_documents_returns [OF demo_fine [of order] demo_buildable, of s b o' d] by (auto simp: calm_def demo_workspace_def)

lemmas demo_returns = demo_final [OF demo_raises]

subsection \<open>Properties\<close>

lemma build_pipelines:
  assumes "buildable hs w" and "buildDocuments svc hs o' d w = Returned w'"
  shows "\<And>h. h \<in> set hs \<Longrightarrow>
      document_pipeline svc o' (exportsByDocument (index w')) (view_of h w) = (None, view_of h w')"
    "kept (set hs) w w'"
proof -
  let ?w0 = "rebuild_at ((\<lambda>h. id_of h w) ` set hs) (\<lambda>b. Some (prepared o' b)) w"
  have hs: "distinct hs" and k: "kept (set hs) w w" using assms(1) buildable_kept by (auto simp: buildable_def)
  have k0: "kept (set hs) w ?w0" by (rule kept_rebuild [OF k]) simp
  obtain w1 w2 where st: "build_stages svc hs o' d ?w0 w1 w2 w'"
    using assms(2) unfolding buildDocuments_stages [OF assms(1)] by blast
  note r = stages_result [OF st hs kept_self [OF k0]]
  show "kept (set hs) w w'" by (rule kept_trans [OF k0 r(1)])
  show "document_pipeline svc o' (exportsByDocument (index w')) (view_of h w) = (None, view_of h w')" if "h \<in> set hs" for h
    using r(4) [OF that] unfolding start_views [OF that] pipeline_stages r(3) content_of_def by blast
qed



lemma build_reaches:
  assumes "buildable hs w" and "buildDocuments svc hs o' d w = Returned w'" and "h \<in> set hs"
  defines "o'' \<equiv> options (prepared o' (buildStates w (id_of h w)))"
  shows "state_of h w' = (if validates o'' then Validated
      else max (state_of h w) (if links_eagerly o'' then IndexedReferences else ComputedScopes))"
    "state_of h w < Validated \<or> \<not> validates o'' \<Longrightarrow>
      case buildStates w' (id_of h w) of None \<Rightarrow> False | Some st \<Rightarrow> completed st"
proof -
  note p = pipeline_reaches [OF build_pipelines(1) [OF assms(1-3)]]
  have "id_of h w' = id_of h w" using kept_ids [OF build_pipelines(2) [OF assms(1,2)]] by blast
  then show "state_of h w < Validated \<or> \<not> validates o'' \<Longrightarrow>
      case buildStates w' (id_of h w) of None \<Rightarrow> False | Some st \<Rightarrow> completed st"
    using p(2) by (auto simp: o''_def)
  show "state_of h w' = (if validates o'' then Validated
      else max (state_of h w) (if links_eagerly o'' then IndexedReferences else ComputedScopes))"
    using p(1) by (simp add: o''_def)
qed

text \<open>C27: Without a stop request and with services and listeners that do not throw, a build returns under every
  executor; each document is then in the state its options ask for (validated, or linked with its references
  indexed, or with its scopes), and its build state is completed unless the document was validated before
  and is to be validated again.\<close>

theorem build_completes:
  assumes "never_fails svc" and "buildable hs w" and "polls w = None"
  shows "\<exists>w'. buildDocuments svc hs o' d w = Returned w' \<and> list_all (\<lambda>h.
    let o'' = options (prepared o' (buildStates w (id_of h w))) in
      state_of h w' = (if validates o'' then Validated
        else max (state_of h w) (if links_eagerly o'' then IndexedReferences else ComputedScopes)) \<and>
      (state_of h w = Validated \<and> validates o'' \<or>
        (case buildStates w' (id_of h w) of None \<Rightarrow> False | Some st \<Rightarrow> completed st))) hs"
proof -
  obtain w' where w': "buildDocuments svc hs o' d w = Returned w'"
    using build_documents_returns [OF assms(1,2), of o' d] assms(3) by (auto simp: calm_def)
  have lt: "s < Validated \<or> s = Validated" for s :: document_state by (cases s) (simp_all add: less_document_state_def)
  have "let o'' = options (prepared o' (buildStates w (id_of h w))) in
      state_of h w' = (if validates o'' then Validated
        else max (state_of h w) (if links_eagerly o'' then IndexedReferences else ComputedScopes)) \<and>
      (state_of h w = Validated \<and> validates o'' \<or>
        (case buildStates w' (id_of h w) of None \<Rightarrow> False | Some st \<Rightarrow> completed st))" if "h \<in> set hs" for h
    using build_reaches [OF assms(2) w' that] lt [of "state_of h w"] unfolding Let_def by auto
  then show ?thesis using w' unfolding list_all_iff by blast
qed

theorem build_completes_witness:
  "\<exists>w'. buildDocuments (demo_services (Some (Some [1, 0, 0, 1]))) [0, 1] demo_options False (demo_workspace Changed None) = Returned w' \<and>
    state_of 0 w' = Validated \<and> state_of 1 w' = Validated"
  using build_completes [OF demo_fine [of "Some (Some [1, 0, 0, 1])"] demo_buildable [of Changed None], of demo_options False]
  by (simp add: demo_workspace_def id_of_def prepared_def demo_options_def validates_def) blast

text \<open>C28: Two builds of the same documents that return, with different executors and different numbers
  of polls, end with the same documents, results, index contents, build states and the same sequence of events.\<close>

theorem builds_agree:
  assumes "buildable hs w" and "buildDocuments svc hs o' d w = Returned w1"
    and "buildDocuments (svc\<lparr>orders := x\<rparr>) hs o' d (w\<lparr>polls := p\<rparr>) = Returned w2"
  shows "same_outcome w1 w2"
proof -
  let ?w0 = "\<lambda>w. rebuild_at ((\<lambda>h. id_of h w) ` set hs) (\<lambda>b. Some (prepared o' b)) w"
  let ?v = "w\<lparr>polls := p\<rparr>"
  have b: "buildable hs ?v" using assms(1) by (simp add: buildable_def)
  have hs: "distinct hs" using assms(1) by (simp add: buildable_def)
  have k: "kept (set hs) (?w0 u) (?w0 u)" if "buildable hs u" for u :: "('a, 'b, 'c, 'd) workspace"
  proof -
    have "kept (set hs) u (?w0 u)" by (rule kept_rebuild [OF buildable_kept [OF that]]) simp
    then show ?thesis by (rule kept_self)
  qed
  have "same_outcome (?w0 w) (?w0 ?v)" by (simp add: same_outcome_def cong: if_cong)
  moreover obtain a1 a2 where "build_stages svc hs o' d (?w0 w) a1 a2 w1"
    using assms(2) unfolding buildDocuments_stages [OF assms(1)] by blast
  moreover obtain b1 b2 where "build_stages (svc\<lparr>orders := x\<rparr>) hs o' d (?w0 ?v) b1 b2 w2"
    using assms(3) unfolding buildDocuments_stages [OF b] by blast
  ultimately show ?thesis using stages_agree [OF _ _ hs k [OF assms(1)] k [OF b]] by blast
qed

theorem builds_agree_witness:
  "same_outcome (final (buildDocuments (demo_services None) [0, 1] demo_options False (demo_workspace Changed None)))
    (final (buildDocuments (demo_services (Some (Some [1, 0, 0, 1]))) [0, 1] demo_options False (demo_workspace Changed None)))"
proof -
  have "demo_services None\<lparr>orders := \<lambda>s. Some (Some [1, 0, 0, 1])\<rparr> = demo_services (Some (Some [1, 0, 0, 1]))"
    by (simp add: demo_services_def)
  moreover have "(demo_workspace Changed None)\<lparr>polls := None\<rparr> = demo_workspace Changed None" by (simp add: demo_workspace_def)
  ultimately show ?thesis
    using builds_agree [OF demo_buildable demo_returns, where x = "\<lambda>s. Some (Some [1, 0, 0, 1])" and p = "None"] demo_returns
    by simp
qed


definition demo_validated :: "(nat, nat, nat, nat) workspace" where
  "demo_validated = demo_workspace Validated (Some \<lparr>completed = True, options = default_options, result = Some [''a'']\<rparr>)"


end
