(* ===== verification/BuildInv.thy ===== *)
theory BuildInv
  imports BuildSpec DocumentsProps
begin

text \<open>
  The invariant of the workspace: the state of a document is backed by its data (a parsed document has a syntax
  tree, from \<open>IndexedContent\<close> on the index holds its exports, and so on to the recorded checks of a
  validated document). It holds after every build and update, however they end.
\<close>

subsection \<open>Backed states\<close>

definition backed :: "('a, 's, 'l, 'd) services \<Rightarrow> ('a, 's, 'l, 'd) view \<Rightarrow> bool" where
  "backed svc v \<longleftrightarrow>
     (Parsed \<le> v_state v \<longrightarrow> ast (v_analysed v) \<noteq> None) \<and>
     (IndexedContent \<le> v_state v \<longrightarrow>
        (\<exists>xs. collectExportedSymbols svc (v_id v) (ast (v_analysed v)) = Inr xs \<and> v_exports v = Some xs)) \<and>
     (ComputedScopes \<le> v_state v \<longrightarrow>
        (\<exists>s. collectLocalSymbols svc (ast (v_analysed v)) = Inr s \<and> localSymbols (v_analysed v) = Some s)) \<and>
     (Linked \<le> v_state v \<longrightarrow> links (v_analysed v) \<noteq> None) \<and>
     (IndexedReferences \<le> v_state v \<longrightarrow>
        (\<exists>rs. createDescriptions svc (links (v_analysed v)) = Inr rs \<and>
           v_references v = Some (map (\<lambda>r. r\<lparr>sourceDocumentId := v_id v\<rparr>) rs))) \<and>
     (Validated \<le> v_state v \<longrightarrow> (\<exists>st. v_build v = Some st \<and> result st \<noteq> None)) \<and>
     (\<forall>st. v_build v = Some st \<longrightarrow> links_eagerly (options st))"

lemmas state_order = less_eq_document_state_def less_document_state_def

lemma backed_links: "backed svc v \<Longrightarrow> view_links v"
  by (auto simp: backed_def view_links_def links_eagerly_def split: option.split)

lemma parse_backed: "backed svc v \<Longrightarrow> backed svc (snd (eff_parse svc (v_state v) c v)) \<and>
    (fst (eff_parse svc (v_state v) c v) = None \<longrightarrow> v_state (snd (eff_parse svc (v_state v) c v)) = max (v_state v) Parsed)"
  by (cases "v_state v") (auto simp: backed_def eff_parse_def state_order max_def Let_def split: sum.split)

lemma content_backed: "backed svc v \<Longrightarrow> v_state v = max s0 Parsed \<Longrightarrow> backed svc (snd (eff_content svc s0 c v))"
  by (cases s0) (auto simp: backed_def eff_content_def state_order max_def split: sum.split)

lemma scope_backed: "backed svc v \<Longrightarrow> IndexedContent \<le> v_state v \<Longrightarrow> backed svc (snd (eff_scope svc (v_state v) c v)) \<and>
    (fst (eff_scope svc (v_state v) c v) = None \<longrightarrow>
      v_state (snd (eff_scope svc (v_state v) c v)) = max (v_state v) ComputedScopes)"
  by (cases "v_state v") (auto simp: backed_def eff_scope_def state_order max_def split: sum.split)

lemma link_backed: "backed svc v \<Longrightarrow> v_state v = max s0 ComputedScopes \<Longrightarrow> backed svc (snd (eff_link svc s0 c v)) \<and>
    (fst (eff_link svc s0 c v) = None \<longrightarrow> v_state (snd (eff_link svc s0 c v)) = max s0 Linked)"
  using backed_links [of svc v] by (cases s0) (auto simp: backed_def eff_link_def state_order max_def split: sum.split)

lemma reference_backed: "backed svc v \<Longrightarrow> v_state v = max s0 Linked \<Longrightarrow> backed svc (snd (eff_reference svc s0 c v))"
  using backed_links [of svc v] by (cases s0) (auto simp: backed_def eff_reference_def state_order max_def split: sum.split)

lemma validate_backed: "backed svc v \<Longrightarrow> IndexedReferences \<le> v_state v \<Longrightarrow> backed svc (snd (eff_validate svc (v_state v) c v))"
  by (cases "v_state v") (auto simp: backed_def eff_validate_def view_options_def default_options_def links_eagerly_def
      state_order Let_def split: sum.split option.split)

lemma reached_Nil: "reached [] c v v' \<Longrightarrow> v' = v"
  by (simp add: reached_def)

lemma reached_Cons:
  assumes "reached (f # fs) c v v'"
  shows "v' = v \<or> v' = snd (f c v) \<or> fst (f c v) = None \<and> reached fs c (snd (f c v)) v'"
proof -
  obtain j where j: "j \<le> length (f # fs)" "v' = snd (apply_effects (take j (f # fs)) c v)" using assms by (auto simp: reached_def)
  then show ?thesis
    by (cases j) (auto simp: reached_def split: option.splits prod.splits)
qed

lemma phase_a_backed: "backed svc v \<Longrightarrow> reached (effects_a svc (v_state v)) c v v' \<Longrightarrow> backed svc v'"
  using parse_backed [of svc v c] content_backed
  by (auto simp: effects_a_def dest!: reached_Cons reached_Nil)

lemma phase_b_backed: "backed svc v \<Longrightarrow> IndexedContent \<le> v_state v \<Longrightarrow> reached (effects_b svc (v_state v)) c v v' \<Longrightarrow> backed svc v'"
  using scope_backed [of svc v c] link_backed [of svc "snd (eff_scope svc (v_state v) c v)" "v_state v" c]
    reference_backed [of svc "snd (eff_link svc (v_state v) c (snd (eff_scope svc (v_state v) c v)))" "v_state v" c]
  by (auto simp: effects_b_def dest!: reached_Cons reached_Nil)

lemma phase_c_backed: "backed svc v \<Longrightarrow> IndexedReferences \<le> v_state v \<Longrightarrow> reached (effects_c svc (v_state v)) c v v' \<Longrightarrow> backed svc v'"
  using validate_backed [of svc v c]
  by (auto simp: effects_c_def dest!: reached_Cons reached_Nil)

lemma prepared_backed: "backed svc v \<Longrightarrow> links_eagerly o' \<Longrightarrow> backed svc (v\<lparr>v_build := Some (prepared o' (v_build v))\<rparr>)"
  by (auto simp: backed_def prepared_def split: option.split)

lemma closed_backed: "backed svc v \<Longrightarrow> backed svc (v\<lparr>v_build := closed (v_build v)\<rparr>)"
  by (auto simp: backed_def closed_def)

subsection \<open>Builds\<close>

definition all_backed :: "('a, 's, 'l, 'd) services \<Rightarrow> nat set \<Rightarrow> ('a, 's, 'l, 'd) workspace \<Rightarrow> bool" where
  "all_backed svc M w \<longleftrightarrow> (\<forall>h \<in> M. backed svc (view_of h w))"

lemma phase_keeps_backed:
  assumes "phase_result hs b e effs w fine w'" and "all_backed svc (set hs) w"
    and "\<And>v v' c. backed svc v \<Longrightarrow> lo \<le> v_state v \<Longrightarrow> reached (effs (v_state v)) c v v' \<Longrightarrow> backed svc v'"
    and "\<And>h. h \<in> set hs \<Longrightarrow> lo \<le> state_of h w"
  shows "all_backed svc (set hs) w' \<and> kept (set hs) w w'"
proof -
  have "backed svc (view_of h w')" if h: "h \<in> set hs" for h
  proof (cases "state_of h w < e")
    case True
    then have r: "reached (effs (v_state (view_of h w))) (shared_exports b w) (view_of h w) (view_of h w')"
      using assms(1) h by (simp add: phase_result_def)
    have "backed svc (view_of h w)" "lo \<le> v_state (view_of h w)" using assms(2,4) h by (simp_all add: all_backed_def)
    then show ?thesis using r by (rule assms(3))
  next
    case False
    then have "view_of h w' = view_of h w" using assms(1) h by (simp add: phase_result_def)
    then show ?thesis using assms(2) h by (simp add: all_backed_def)
  qed
  then show ?thesis using assms(1) by (simp add: all_backed_def phase_result_def)
qed

lemma all_backed_views: "(\<And>h. h \<in> M \<Longrightarrow> view_of h w' = view_of h w) \<Longrightarrow> all_backed svc M w' = all_backed svc M w"
  by (simp add: all_backed_def)

lemma Changed_least: "Changed \<le> (s :: document_state)"
  by (cases s) (simp_all add: state_order)

lemma phase_a_keeps:
  assumes "distinct hs" "kept (set hs) w w" "all_backed svc (set hs) w"
  shows "all_backed svc (set hs) (final (phase_a svc hs w)) \<and> kept (set hs) w (final (phase_a svc hs w))"
  by (rule phase_keeps_backed [OF phase_a_result [OF assms(1,2)] assms(3), of Changed]) (auto simp: Changed_least intro: phase_a_backed)

lemma phase_b_keeps:
  assumes "distinct hs" "kept (set hs) w w" "all_backed svc (set hs) w" and "\<And>h. h \<in> set hs \<Longrightarrow> IndexedContent \<le> state_of h w"
  shows "all_backed svc (set hs) (final (phase_b svc hs w)) \<and> kept (set hs) w (final (phase_b svc hs w))"
  by (rule phase_keeps_backed [OF phase_b_result [OF assms(1,2)] assms(3), of IndexedContent]) (auto simp: assms(4) intro: phase_b_backed)

lemma phase_c_keeps:
  assumes "distinct hs" "kept (set hs) w w" "all_backed svc (set hs) w" and "\<And>h. h \<in> set hs \<Longrightarrow> IndexedReferences \<le> state_of h w"
  shows "all_backed svc (set hs) (final (phase_c svc hs w)) \<and> kept (set hs) w (final (phase_c svc hs w))"
  by (rule phase_keeps_backed [OF phase_c_result [OF assms(1,2), of False] assms(3), of IndexedReferences])
    (auto simp: assms(4) intro: phase_c_backed)

lemma all_backed_links: "all_backed svc M w \<Longrightarrow> h \<in> M \<Longrightarrow> view_links (view_of h w)"
  using backed_links by (auto simp: all_backed_def)

lemma buildDocuments_keeps:
  assumes "buildable hs w" and "all_backed svc (set hs) w" and "links_eagerly o'"
  shows "all_backed svc (set hs) (final (buildDocuments svc hs o' d w)) \<and> kept (set hs) w (final (buildDocuments svc hs o' d w))"
proof -
  let ?w0 = "rebuild_at ((\<lambda>h. id_of h w) ` set hs) (\<lambda>b. Some (prepared o' b)) w"
  let ?a = "phase_a svc hs ?w0"
  have hs: "distinct hs" using assms(1) by (simp add: buildable_def)
  have p: "prepareBuild (cwd svc) hs o' w = ?w0" using assms(1) by (intro prepareBuild_eq) (simp add: buildable_def)
  have k0: "kept (set hs) w ?w0" by (rule kept_rebuild [OF buildable_kept [OF assms(1)]]) simp
  have b0: "all_backed svc (set hs) ?w0"
    using assms(2) prepared_backed [OF _ assms(3)] start_views [of _ hs w o'] unfolding all_backed_def by metis
  note a = phase_a_keeps [OF hs kept_self [OF k0] b0]
  have ka: "kept (set hs) w (final ?a)" using a kept_trans [OF k0] by blast
  show ?thesis
  proof (cases ?a)
    case (Raised e w1)
    then show ?thesis using a ka by (simp add: buildDocuments_def p)
  next
    case (Returned w1)
    have pa: "phase_result hs False IndexedContent (effects_a svc) ?w0 True w1"
      using phase_a_result [OF hs kept_self [OF k0], of svc] Returned by simp
    have "IndexedContent \<le> state_of h w1" if "h \<in> set hs" for h
      using content_reaches [of svc o' "view_of h w" "view_of h w1"] phase_result_on [OF pa that]
      unfolding start_views [OF that] content_of_def shared_exports_def by simp
    note b = phase_b_keeps [OF hs, of w1 svc, OF kept_self [OF ka, unfolded Returned final.simps] conjunct1 [OF a, unfolded Returned final.simps] this]
    let ?b = "phase_b svc hs w1"
    have kb: "kept (set hs) w (final ?b)" using b kept_trans [OF ka, unfolded Returned final.simps] by blast
    show ?thesis
    proof (cases ?b)
      case (Raised e w2)
      then show ?thesis using b kb Returned by (simp add: buildDocuments_def p)
    next
      case r2: (Returned w2)
      have pb: "phase_result hs True IndexedReferences (effects_b svc) w1 True w2"
        using phase_b_result [OF hs kept_self [OF ka, unfolded Returned final.simps], of svc] r2 by simp
      have s2: "IndexedReferences \<le> state_of h w2" if "h \<in> set hs" for h
        using references_reaches [of svc "exportsByDocument (index w1)" "view_of h w1" "view_of h w2"] phase_result_on [OF pb that]
          all_backed_links [OF conjunct1 [OF a, unfolded Returned final.simps] that]
        by (simp add: references_of_def shared_exports_def)
      let ?I = "(\<lambda>h. id_of h w2) ` {h \<in> set hs. \<not> shouldValidate h w2}" and ?vs = "filter (\<lambda>h. shouldValidate h w2) hs"
      define w3 where "w3 = (if d then (rebuild_at ?I closed w2)\<lparr>trace := trace (rebuild_at ?I closed w2) @ [Downgraded]\<rparr>
        else rebuild_at ?I closed w2)"
      have data: "same_data (rebuild_at ?I closed w2) w3" by (simp add: w3_def same_data_def)
      have k3: "kept (set hs) w w3"
        using kb kept_ids [OF kb, unfolded r2 final.simps] unfolding same_data_sel(8) [OF data] r2 final.simps
        by (intro kept_rebuild) auto
      have "backed svc (view_of h w2) \<Longrightarrow> backed svc ((view_of h w2)\<lparr>v_build := closed (buildStates w2 (id_of h w2))\<rparr>)" for h
        using closed_backed [of svc "view_of h w2"] by simp
      then have b3: "all_backed svc (set hs) w3"
        using b unfolding r2 final.simps all_backed_def same_data_sel(4) [OF data] rebuild_view by simp
      have sub: "set ?vs \<subseteq> set hs" by auto
      have c: "all_backed svc (set ?vs) (final (phase_c svc ?vs w3)) \<and> kept (set ?vs) w3 (final (phase_c svc ?vs w3))"
        using hs kept_subset [OF kept_self [OF k3] sub] b3 s2 same_data_sel(1) [OF data]
        by (intro phase_c_keeps) (auto simp: all_backed_def)
      have "view_of h (final (phase_c svc ?vs w3)) = view_of h w3" if "h \<in> set hs" "h \<notin> set ?vs" for h
        using c inj_on_image_mem_iff [OF kept_inj [OF kept_self [OF k3]] that(1) sub] that(2) by (intro kept_view) auto
      then have "all_backed svc (set hs) (final (phase_c svc ?vs w3))"
        using c b3 by (metis all_backed_def)
      moreover have "kept (set hs) w3 (final (phase_c svc ?vs w3))"
        using c sub kept_inj [OF kept_self [OF k3]] by (blast intro: kept_superset)
      ultimately show ?thesis
        using kept_trans [OF k3] Returned r2 by (simp add: buildDocuments_def p select_validated_eq Let_def flip: w3_def)
    qed
  qed
qed

end
