(* ===== verification/WorkspaceInv.thy ===== *)
theory WorkspaceInv
  imports BuildInv
begin

text \<open>
  \<open>build\<close> and \<open>update\<close> keep the workspace consistent: the registry, the order of the index, and
  every registered document's state backed by its data, whether they return, are cancelled or fail.
\<close>

text \<open>The builds in flight link; without linking a validated document would have no links.\<close>

definition eager_states :: "('a, 's, 'l, 'd) workspace \<Rightarrow> bool" where
  "eager_states w \<longleftrightarrow> (\<forall>i st. buildStates w i = Some st \<longrightarrow> links_eagerly (options st))"

definition workspace_ok :: "('a, 's, 'l, 'd) services \<Rightarrow> ('a, 's, 'l, 'd) workspace \<Rightarrow> bool" where
  "workspace_ok svc w \<longleftrightarrow> documents_ok (cwd svc) (registry w) \<and> room (registry w) \<and>
     (\<forall>i u. documentUrisById (registry w) i = Some u \<longrightarrow> u \<noteq> [] \<and> normalize_uri (cwd svc) u = u) \<and>
     ordered (exportsByDocument (index w)) \<and> eager_states w \<and>
     (\<forall>h. registered (cwd svc) (registry w) h \<longrightarrow> backed svc (view_of h w))"

lemma registered_same: "same_registry d d' \<Longrightarrow> registered c d' h = registered c d h \<and> key d' h = key d h"
  by (simp add: same_registry_def registered_def key_def)

lemma registered_same1: "same_registry d d' \<Longrightarrow> registered c d' h = registered c d h"
  using registered_same by blast

lemma documents_same: "same_registry d d' \<Longrightarrow> documents_ok c d' = documents_ok c d"
proof -
  assume s: "same_registry d d'"
  then have "registered c d' h = registered c d h" "key d' h = key d h" for h using registered_same by blast+
  moreover have "store d' = store d" "documentsById d' = documentsById d" "ids_ok d' = ids_ok d" "docId (heap d' h) = docId (heap d h)" for h
    using s by (simp_all add: same_registry_def ids_ok_def)
  ultimately show ?thesis unfolding documents_ok_def by simp
qed

lemma ids_of_registered:
  assumes d: "documents_ok (cwd svc) (registry w)" "room (registry w)" and "registered (cwd svc) (registry w) h"
  shows "id_of h w \<noteq> InvalidDocumentId"
    "registered (cwd svc) (registry w) x \<Longrightarrow> id_of x w = id_of h w \<Longrightarrow> x = h"
proof -
  have "documentUrisById (registry w) (id_of h w) = Some (docUri (heap (registry w) h))"
    using d(1) assms(3) unfolding documents_ok_def ids_ok_def registered_def id_of_def by blast
  then have "id_of h w < nextDocumentId (registry w)" using d(1) unfolding documents_ok_def ids_ok_def by blast
  then show "id_of h w \<noteq> InvalidDocumentId" using d(2) by (simp add: room_def InvalidDocumentId_def)
  show "x = h" if "registered (cwd svc) (registry w) x" "id_of x w = id_of h w"
    using registered_byId [OF assms(3)] registered_byId [OF that(1)] that(2) by (simp add: id_of_def)
qed

lemma registered_ids:
  assumes "workspace_ok svc w" and "registered (cwd svc) (registry w) h"
  shows "id_of h w \<noteq> InvalidDocumentId"
    "registered (cwd svc) (registry w) x \<Longrightarrow> id_of x w = id_of h w \<Longrightarrow> x = h"
  using ids_of_registered [of svc w h] assms by (auto simp: workspace_ok_def)

lemma registered_inj:
  "workspace_ok svc w \<Longrightarrow> \<forall>h \<in> M. registered (cwd svc) (registry w) h \<Longrightarrow> inj_on (\<lambda>h. id_of h w) M"
  by (rule inj_onI) (blast dest: registered_ids(2))

lemma workspace_kept:
  assumes ok: "workspace_ok svc w" and k: "kept M w w'" and reg: "\<forall>h \<in> M. registered (cwd svc) (registry w) h"
    and "all_backed svc M w'"
  shows "workspace_ok svc w'"
proof -
  have s: "same_registry (registry w) (registry w')" using k by (simp add: kept_def)
  then have fields: "nextDocumentId (registry w') = nextDocumentId (registry w)"
    "documentUrisById (registry w') = documentUrisById (registry w)" by (simp_all add: same_registry_def)
  have "backed svc (view_of h w')" if h: "registered (cwd svc) (registry w) h" for h
  proof (cases "h \<in> M")
    case False
    then have "id_of h w \<notin> (\<lambda>h. id_of h w) ` M" using registered_ids(2) [OF ok] reg h by blast
    then have "view_of h w' = view_of h w" using k False by (rule kept_view [rotated 2])
    then show ?thesis using ok h by (simp add: workspace_ok_def)
  qed (use assms(4) in \<open>simp add: all_backed_def\<close>)
  moreover have "documents_ok (cwd svc) (registry w')" "room (registry w')"
    using ok by (simp_all add: workspace_ok_def documents_same [OF s] room_def fields)
  moreover have "ordered (exportsByDocument (index w'))" using k by (simp add: kept_def)
  moreover have "eager_states w'"
  proof -
    have "links_eagerly (options st)" if st: "buildStates w' i = Some st" for i st
    proof (cases "i \<in> (\<lambda>h. id_of h w) ` M")
      case True
      then obtain h where "h \<in> M" "i = id_of h w'" using kept_ids [OF k] by auto
      then show ?thesis using assms(4) st by (auto simp: all_backed_def backed_def)
    next
      case False
      then have "buildStates w i = Some st" using st k by (simp add: kept_def)
      then show ?thesis using ok unfolding workspace_ok_def eager_states_def by blast
    qed
    then show ?thesis by (simp add: eager_states_def)
  qed
  moreover have "registered (cwd svc) (registry w') h \<Longrightarrow> registered (cwd svc) (registry w) h" for h
    using registered_same [OF s] by blast
  ultimately show ?thesis using ok unfolding workspace_ok_def fields by blast
qed

lemma workspace_same: "same_data w w' \<Longrightarrow> workspace_ok svc w' = workspace_ok svc w"
  unfolding workspace_ok_def eager_states_def by (simp add: same_data_def view_of_def uri_of_def id_of_def state_of_def exports_at_def references_at_def)

lemma workspace_backed: "workspace_ok svc w \<Longrightarrow> \<forall>h \<in> M. registered (cwd svc) (registry w) h \<Longrightarrow> all_backed svc M w"
  by (simp add: workspace_ok_def all_backed_def)

lemma registered_buildable: "workspace_ok svc w \<Longrightarrow> distinct hs \<Longrightarrow> \<forall>h \<in> set hs. registered (cwd svc) (registry w) h \<Longrightarrow> buildable hs w"
proof -
  assume w: "workspace_ok svc w" and hs: "distinct hs" "\<forall>h \<in> set hs. registered (cwd svc) (registry w) h"
  then have "ordered (exportsByDocument (index w))" by (simp add: workspace_ok_def)
  then show "buildable hs w" using registered_ids(1) [OF w] registered_inj [OF w hs(2)] hs by (simp add: buildable_def)
qed

lemma buildDocuments_ok:
  assumes "workspace_ok svc w" and "distinct hs" and "\<forall>h \<in> set hs. registered (cwd svc) (registry w) h" and "links_eagerly o'"
  shows "workspace_ok svc (final (buildDocuments svc hs o' d w))"
  using buildDocuments_keeps [OF registered_buildable [OF assms(1-3)] workspace_backed [OF assms(1,3)] assms(4)]
    workspace_kept [OF assms(1) _ assms(3)] by blast

subsection \<open>Resets\<close>

definition reset_view :: "document_state \<Rightarrow> ('a, 's, 'l, 'd) view \<Rightarrow> ('a, 's, 'l, 'd) view" where
  "reset_view s v = v\<lparr>v_state := min s (v_state v),
     v_analysed := \<lparr>ast = ast (v_analysed v),
       localSymbols = (if s \<le> IndexedContent then None else localSymbols (v_analysed v)),
       links = (if s \<le> ComputedScopes then None else links (v_analysed v)),
       diagnostics = (if s \<le> IndexedReferences then [] else diagnostics (v_analysed v))\<rparr>,
     v_exports := (if s \<le> Parsed then None else v_exports v), v_references := (if s \<le> Linked then None else v_references v),
     v_build := (if s \<le> IndexedReferences then None else v_build v)\<rparr>"

lemma reset_view_backed: "backed svc v \<or> s = Changed \<Longrightarrow> backed svc (reset_view s v)"
  by (cases s; cases "v_state v") (auto simp: backed_def reset_view_def state_order min_def)

lemma remove_content: "exportsByDocument (snd (removeContent i m)) = (if i = InvalidDocumentId then exportsByDocument m else AList.delete i (exportsByDocument m))"
  "referencesByDocument (snd (removeContent i m)) = referencesByDocument m"
  by (auto simp: removeContent_def erase_exports_def map_of_eq_None_iff AList.delete_id)

lemma remove_references: "referencesByDocument (snd (removeReferences i m)) = (if i = InvalidDocumentId then referencesByDocument m else AList.delete i (referencesByDocument m))"
  "exportsByDocument (snd (removeReferences i m)) = exportsByDocument m"
  by (auto simp: removeReferences_def erase_references_def map_of_eq_None_iff AList.delete_id)

lemma reset_kept:
  assumes "id_of h w \<noteq> InvalidDocumentId" and "ordered (exportsByDocument (index w))"
  shows "kept {h} w (resetToState dir h s w)"
  using assms by (auto simp: resetToState_def ensured Let_def kept_def remove_content remove_references exports_at_def references_at_def
      ordered_delete AList.delete_conv' same_registry_advance)

lemma reset_at:
  assumes "id_of h w \<noteq> InvalidDocumentId"
  shows "view_of h (resetToState dir h s w) = reset_view s (view_of h w)"
  using assms by (cases "analysis w h"; cases s; cases "state_of h w") (simp_all add: resetToState_def ensured Let_def view_of_def reset_view_def remove_content remove_references
      exports_at_def references_at_def AList.delete_conv' state_order min_def)

lemma reset_document_ok:
  assumes "workspace_ok svc w" and "registered (cwd svc) (registry w) h"
  shows "workspace_ok svc (resetToState (cwd svc) h s w)" "same_registry (registry w) (registry (resetToState (cwd svc) h s w))"
proof -
  have k: "kept {h} w (resetToState (cwd svc) h s w)"
    using registered_ids(1) [OF assms] assms(1) by (intro reset_kept) (simp_all add: workspace_ok_def)
  have "backed svc (view_of h w)" using assms by (simp add: workspace_ok_def)
  then have "all_backed svc {h} (resetToState (cwd svc) h s w)"
    using reset_view_backed [OF disjI1] reset_at [OF registered_ids(1) [OF assms]] by (simp add: all_backed_def)
  then show "workspace_ok svc (resetToState (cwd svc) h s w)" using workspace_kept [OF assms(1) k] assms(2) by simp
  show "same_registry (registry w) (registry (resetToState (cwd svc) h s w))" using k by (simp add: kept_def)
qed

text \<open>A document that is reset to \<open>Changed\<close> may have been anything before.\<close>

lemma reset_fresh:
  assumes d: "documents_ok (cwd svc) (registry w)" "room (registry w)" and h: "registered (cwd svc) (registry w) h"
    and uris: "\<forall>i u. documentUrisById (registry w) i = Some u \<longrightarrow> u \<noteq> [] \<and> normalize_uri (cwd svc) u = u"
    and "ordered (exportsByDocument (index w))" and eager: "eager_states w"
    and others: "\<And>x. registered (cwd svc) (registry w) x \<Longrightarrow> x \<noteq> h \<Longrightarrow> backed svc (view_of x w)"
  shows "workspace_ok svc (resetToState (cwd svc) h Changed w)"
proof -
  let ?w = "resetToState (cwd svc) h Changed w"
  note ids = ids_of_registered [OF d h]
  have k: "kept {h} w ?w" using ids(1) assms(5) by (rule reset_kept)
  then have s: "same_registry (registry w) (registry ?w)" by (simp add: kept_def)
  have "backed svc (view_of x ?w)" if x: "registered (cwd svc) (registry ?w) x" for x
  proof (cases "x = h")
    case True
    then show ?thesis using reset_at [OF ids(1)] reset_view_backed [of svc _ Changed] by simp
  next
    case False
    have x': "registered (cwd svc) (registry w) x" using x registered_same1 [OF s] by blast
    then have "view_of x ?w = view_of x w" using False ids(2) by (intro kept_view [OF k]) auto
    then show ?thesis using others [OF x' False] by simp
  qed
  moreover have "documents_ok (cwd svc) (registry ?w)" using d(1) documents_same [OF s] by blast
  moreover have "room (registry ?w)" "documentUrisById (registry ?w) = documentUrisById (registry w)"
    using d(2) s by (simp_all add: room_def same_registry_def)
  moreover have "ordered (exportsByDocument (index ?w))" using k by (simp add: kept_def)
  moreover have "eager_states ?w"
    using eager by (auto simp: eager_states_def resetToState_def ensured [OF ids(1)] Let_def split: if_splits)
  ultimately show ?thesis using uris by (simp add: workspace_ok_def)
qed

subsection \<open>\<open>build\<close>\<close>

lemma build_state_ok:
  assumes "workspace_ok svc w" and h: "registered (cwd svc) (registry w) h"
  shows "workspace_ok svc (w\<lparr>buildStates := (buildStates w)(id_of h w := None)\<rparr>) \<or> state_of h w = Validated"
proof (cases "state_of h w = Validated")
  case False
  let ?w = "w\<lparr>buildStates := (buildStates w)(id_of h w := None)\<rparr>"
  have "\<not> Validated \<le> state_of h w" using False by (cases "state_of h w") (auto simp: state_order)
  moreover have "backed svc (view_of h w)" using assms by (simp add: workspace_ok_def)
  ultimately have "backed svc (view_of h ?w)" by (simp add: backed_def)
  moreover have "kept {h} w ?w" using assms(1) by (auto simp: kept_def workspace_ok_def)
  ultimately show ?thesis using workspace_kept [OF assms(1)] h by (auto simp: all_backed_def)
qed simp

lemma reopen_ok:
  assumes "workspace_ok svc w" and h: "registered (cwd svc) (registry w) h" and "state_of h w = Validated"
    and "links_eagerly (options st)"
  shows "workspace_ok svc (advance h IndexedReferences (w\<lparr>buildStates := (buildStates w)(id_of h w \<mapsto> st)\<rparr>))"
    (is "workspace_ok svc ?w")
proof -
  have "backed svc (view_of h w)" using assms by (simp add: workspace_ok_def)
  then have "backed svc (view_of h ?w)" using assms(3,4) by (simp add: backed_def state_order)
  moreover have "kept {h} w ?w" using assms(1) by (auto simp: kept_def workspace_ok_def same_registry_advance)
  ultimately show ?thesis using workspace_kept [OF assms(1)] h by (auto simp: all_backed_def)
qed

lemma request_document_ok:
  assumes "workspace_ok svc w" and h: "registered (cwd svc) (registry w) h" and "request_document svc o' h w = (i, w')"
  shows "workspace_ok svc w' \<and> same_registry (registry w) (registry w')"
proof (cases "state_of h w = Validated")
  case False
  then show ?thesis using assms(3) build_state_ok [OF assms(1,2)]
    by (auto simp: request_document_def ensured [OF registered_ids(1) [OF assms(1,2)]])
next
  case True
  note r = reset_document_ok [OF assms(1,2), of IndexedReferences]
  show ?thesis
  proof (cases "validation o'")
    case (Detailed v)
    let ?cs = "findMissingValidationCategories svc h o' w"
    show ?thesis
      using assms True Detailed reopen_ok [OF assms(1,2) True]
      by (auto simp: request_document_def ensured [OF registered_ids(1) [OF assms(1,2)]] Let_def links_eagerly_def
          same_registry_advance split: if_splits)
  qed (use assms True r in \<open>auto simp: request_document_def ensured [OF registered_ids(1) [OF assms(1,2)]] split: if_splits\<close>)
qed

lemma same_registry_trans: "same_registry a b \<Longrightarrow> same_registry b c \<Longrightarrow> same_registry a c"
  by (simp add: same_registry_def)

lemma request_documents_ok:
  assumes "workspace_ok svc w" and "\<forall>h \<in> set hs. registered (cwd svc) (registry w) h" and "request_documents svc o' hs w = (is, w')"
  shows "workspace_ok svc w' \<and> same_registry (registry w) (registry w')"
  using assms
proof (induction hs arbitrary: w "is")
  case (Cons h hs)
  obtain i w1 where r: "request_document svc o' h w = (i, w1)" by fastforce
  obtain js w2 where rs: "request_documents svc o' hs w1 = (js, w2)" by fastforce
  have rs': "request_documents svc o' hs w1 = (js, w')" using Cons.prems(3) rs by (simp add: r)
  have h: "registered (cwd svc) (registry w) h" using Cons.prems(2) by simp
  note r1 = request_document_ok [OF Cons.prems(1) h r]
  have "\<forall>h \<in> set hs. registered (cwd svc) (registry w1) h"
    using Cons.prems(2) registered_same1 [OF conjunct2 [OF r1]] by simp
  from Cons.IH [OF _ this rs'] r1 show ?case using same_registry_trans by blast
qed simp

lemma build_ok:
  assumes "workspace_ok svc w" and "distinct hs" and "\<forall>h \<in> set hs. registered (cwd svc) (registry w) h" and "links_eagerly o'"
  shows "workspace_ok svc (final (build svc hs o' d w))"
proof -
  obtain js w1 where r: "request_documents svc o' hs w = (js, w1)" by fastforce
  note r1 = request_documents_ok [OF assms(1,3) r]
  let ?e = "emitUpdate svc js [] (w1\<lparr>currentState := Changed\<rparr>)"
  have "same_data w1 (w1\<lparr>currentState := Changed\<rparr>)" by (simp add: same_data_def)
  from same_data_trans [OF this emit_update_data(1)] have e: "same_data w1 (final ?e)" .
  then have ok: "workspace_ok svc (final ?e)" using r1 workspace_same by blast
  have "\<forall>h \<in> set hs. registered (cwd svc) (registry (final ?e)) h"
    using assms(3) registered_same1 [OF conjunct2 [OF r1]] e by (simp add: same_data_def)
  from buildDocuments_ok [OF ok assms(2) this assms(4)] show ?thesis
    using ok by (simp add: build_def r and_then_sel)
qed

end
