(* ===== verification/UpdateInv.thy ===== *)
theory UpdateInv
  imports WorkspaceInv
begin

text \<open>\<open>update\<close>: deleting, changing and relinking documents keep the workspace consistent, and so does the whole.\<close>

subsection \<open>The documents of the registry\<close>

lemma collect_distinct:
  assumes "wf_trie t" and "\<And>k k' v. find_at k t = Some v \<Longrightarrow> find_at k' t = Some v \<Longrightarrow> k = k'"
  shows "distinct (collectValues t)"
  using assms
proof (induction t rule: collectValues.induct)
  case (1 e cs)
  note key = "1.prems"(2)
  have child: "wf_trie c" "map_of cs s = Some c" if "(s, c) \<in> set cs" for s c
    using that "1.prems"(1) by (auto simp: list_all_iff)
  have at: "find_at (s # k) (Node e cs) = Some v" if "(s, c) \<in> set cs" "find_at k c = Some v" for s c k v
    using child [OF that(1)] that(2) by (simp add: find_at_Cons)
  have "distinct (concat (map (\<lambda>(s, c). collectValues c) xs))" if "set xs \<subseteq> set cs" "distinct (map fst xs)" for xs
    using that
  proof (induction xs)
    case (Cons p xs)
    obtain s c where p: "p = (s, c)" by fastforce
    have c: "(s, c) \<in> set cs" using Cons.prems p by simp
    have "k = k'" if "find_at k c = Some v" "find_at k' c = Some v" for k k' v
      using key [OF at [OF c that(1)] at [OF c that(2)]] by simp
    then have "distinct (collectValues c)" using "1.IH" [OF c refl child(1) [OF c]] by blast
    moreover have "set (collectValues c) \<inter> set (concat (map (\<lambda>(s, c). collectValues c) xs)) = {}"
    proof (rule equals0I)
      fix v
      assume "v \<in> set (collectValues c) \<inter> set (concat (map (\<lambda>(s, c). collectValues c) xs))"
      then obtain s' c' where v: "v \<in> set (collectValues c)" "(s', c') \<in> set xs" "v \<in> set (collectValues c')" by auto
      then have c': "(s', c') \<in> set cs" using Cons.prems(1) by auto
      obtain k k' where "find_at k c = Some v" "find_at k' c' = Some v"
        using v(1,3) collect_find [OF child(1) [OF c]] collect_find [OF child(1) [OF c']] by blast
      from key [OF at [OF c this(1)] at [OF c' this(2)]] have "s = s'" by simp
      then have "s \<in> fst ` set xs" using v(2) by force
      then show False using Cons.prems(2) p by simp
    qed
    ultimately show ?case using Cons by (simp add: p)
  qed simp
  then have "distinct (concat (map (\<lambda>(s, c). collectValues c) cs))" using "1.prems"(1) by simp
  moreover have "v \<notin> set (concat (map (\<lambda>(s, c). collectValues c) cs))" if "e = Some v" for v
  proof
    assume "v \<in> set (concat (map (\<lambda>(s, c). collectValues c) cs))"
    then obtain s c where c: "(s, c) \<in> set cs" "v \<in> set (collectValues c)" by auto
    then obtain k where "find_at k c = Some v" using collect_find [OF child(1) [OF c(1)]] by blast
    from key [OF at [OF c(1) this], of "[]"] show False using that by simp
  qed
  ultimately show ?case by (auto split: option.split)
qed

lemma all_documents_registered:
  assumes "documents_ok c d"
  shows "distinct (all_documents d)" "\<And>h. h \<in> set (all_documents d) \<longleftrightarrow> registered c d h"
proof -
  have wf: "wf_trie (store d)" using assms by (simp add: documents_ok_def)
  show "distinct (all_documents d)" unfolding all_documents_def trie_all_def
    using stored [OF assms] by (intro collect_distinct [OF wf]) metis
  show "h \<in> set (all_documents d) \<longleftrightarrow> registered c d h" for h
    using collect_find [OF wf, of h] stored [OF assms] unfolding all_documents_def trie_all_def registered_def by blast
qed

subsection \<open>Deletion\<close>

text \<open>What the code asserts of a document that is deleted alone: no document lies below another.\<close>

definition flat :: "string \<Rightarrow> documents \<Rightarrow> bool" where
  "flat c d \<longleftrightarrow> (\<forall>h h'. registered c d h \<longrightarrow> registered c d h' \<longrightarrow> prefix (key d h) (key d h') \<longrightarrow> h = h')"

lemma flat_alone:
  assumes "documents_ok c d" and "flat c d" and "registered c d h"
  shows "length (all_at (key d h) (store d)) \<le> 1"
proof -
  have wf: "wf_trie (store d)" using assms(1) by (simp add: documents_ok_def)
  have only: "v = h" if v: "v \<in> set (all_at (key d h) (store d))" for v
  proof -
    obtain k where k: "prefix (key d h) k" "find_at k (store d) = Some v" using v all_at_find [OF wf] by blast
    then show ?thesis using stored [OF assms(1) k(2)] assms(2,3) unfolding flat_def by blast
  qed
  obtain n where n: "find_node (key d h) (store d) = Some n"
    using assms(3) by (auto simp: registered_def find_at_def split: option.splits)
  have "k = k'" if "find_at k n = Some v" "find_at k' n = Some v" for k k' v
  proof -
    have "find_at (key d h @ k) (store d) = Some v" "find_at (key d h @ k') (store d) = Some v"
      using that by (simp_all add: find_node_append n)
    then have "key d h @ k = key d h @ k'" using stored [OF assms(1)] by metis
    then show ?thesis by simp
  qed
  then have "distinct (all_at (key d h) (store d))" unfolding all_at_def n
    using collect_distinct [OF wf_node [OF wf n]] by simp
  then have "card (set (all_at (key d h) (store d))) = length (all_at (key d h) (store d))" by (rule distinct_card)
  moreover have "card (set (all_at (key d h) (store d))) \<le> card {h}" using only by (intro card_mono) auto
  ultimately show ?thesis by simp
qed

lemma delete_by_id:
  assumes ok: "documents_ok c d" and "room d" and "flat c d" and del: "deleteDocumentById c i d = (found, d')" and i: "i \<noteq> InvalidDocumentId"
  shows "documents_ok c d'" "nextDocumentId d' = nextDocumentId d" "documentUrisById d' = documentUrisById d"
    "\<And>x. docUri (heap d' x) = docUri (heap d x) \<and> docId (heap d' x) = docId (heap d x)"
    "\<And>x. registered c d' x \<Longrightarrow> registered c d x \<and> docId (heap d x) \<noteq> i \<and> heap d' x = heap d x"
    "found = Some h \<Longrightarrow> docId (heap d h) = i"
proof -
  have "documents_ok c d' \<and> nextDocumentId d' = nextDocumentId d \<and> documentUrisById d' = documentUrisById d \<and>
    (\<forall>x. docUri (heap d' x) = docUri (heap d x) \<and> docId (heap d' x) = docId (heap d x)) \<and>
    (\<forall>x. registered c d' x \<longrightarrow> registered c d x \<and> docId (heap d x) \<noteq> i \<and> heap d' x = heap d x) \<and>
    (found = Some h \<longrightarrow> docId (heap d h) = i)"
  proof (cases "documentsById d i")
    case None
    then have d': "d' = d" "found = None" using del i by (auto simp: deleteDocumentById_def)
    then show ?thesis using ok registered_byId None by fastforce
  next
    case (Some g)
    then have g: "registered c d g" "docId (heap d g) = i" using indexed [OF ok] by auto
    then have n: "normalize_uri c (docUri (heap d g)) = docUri (heap d g)" "find_at (key d g) (store d) = Some g"
      by (simp_all add: registered_def)
    have d': "deleteDocumentLocked c (docUri (heap d g)) d = (found, d')"
      using del i Some by (simp add: deleteDocumentById_def)
    then have eq: "d' = (mark_changed g d)\<lparr>store := trie_erase c (docUri (heap d g)) (store d)\<rparr>" "found = Some g"
      using n by (auto simp: deleteDocumentLocked_def trie_find_def key_def)
    have ok': "documents_ok c d'"
      using delete_locked_ok [OF ok n(1)] flat_alone [OF ok assms(3) g(1)] d' by (simp add: key_def)
    have "registered c d x \<and> docId (heap d x) \<noteq> i \<and> heap d' x = heap d x" if x: "registered c d' x" for x
    proof -
      have "documentsById d' (docId (heap d' x)) = Some x" using registered_byId [OF x] .
      then have ne: "docId (heap d x) \<noteq> i" and at: "documentsById d (docId (heap d x)) = Some x"
        by (auto simp: eq(1) g(2) split: if_splits)
      have "x \<noteq> g" using ne g(2) by blast
      then have "heap d' x = heap d x" by (simp add: eq(1) mark_changed_def)
      then show ?thesis using ne indexed [OF ok at] by blast
    qed
    moreover have "nextDocumentId d' = nextDocumentId d" "documentUrisById d' = documentUrisById d"
      "\<forall>x. docUri (heap d' x) = docUri (heap d x) \<and> docId (heap d' x) = docId (heap d x)" by (simp_all add: eq(1))
    ultimately show ?thesis using ok' g(2) eq(2) by blast
  qed
  then show "documents_ok c d'" "nextDocumentId d' = nextDocumentId d" "documentUrisById d' = documentUrisById d"
    "\<And>x. docUri (heap d' x) = docUri (heap d x) \<and> docId (heap d' x) = docId (heap d x)"
    "\<And>x. registered c d' x \<Longrightarrow> registered c d x \<and> docId (heap d x) \<noteq> i \<and> heap d' x = heap d x"
    "found = Some h \<Longrightarrow> docId (heap d h) = i" by blast+
qed

definition update_ok :: "('a, 's, 'l, 'd) services \<Rightarrow> ('a, 's, 'l, 'd) workspace \<Rightarrow> bool" where
  "update_ok svc w \<longleftrightarrow> workspace_ok svc w \<and> flat (cwd svc) (registry w)"

lemma update_ok_same: "same_data w w' \<Longrightarrow> update_ok svc w' = update_ok svc w"
  using workspace_same by (auto simp: update_ok_def same_data_def)

lemma index_remove_at:
  "map_of (exportsByDocument (snd (index_remove i m))) j = (if j = i \<and> i \<noteq> InvalidDocumentId then None else map_of (exportsByDocument m) j)"
  "map_of (referencesByDocument (snd (index_remove i m))) j = (if j = i \<and> i \<noteq> InvalidDocumentId then None else map_of (referencesByDocument m) j)"
  "ordered (exportsByDocument m) \<Longrightarrow> ordered (exportsByDocument (snd (index_remove i m)))"
  by (auto simp: index_remove_def erase_exports_def erase_references_def split_beta Let_def AList.delete_conv' ordered_delete)

lemma clean_view: "id_of x w \<noteq> i \<Longrightarrow> view_of x (cleanUpDeleted i w) = view_of x w"
  by (simp add: cleanUpDeleted_def view_of_def index_remove_at exports_at_def references_at_def uri_of_def id_of_def state_of_def)

lemma delete_document_ok:
  assumes ok: "update_ok svc w" and i: "i \<noteq> InvalidDocumentId"
  shows "update_ok svc (final (delete_document svc i w))"
proof (cases "check_cancelled w")
  case (Raised e w1)
  then show ?thesis using check_data(1) [of w] update_ok_same ok by (auto simp: delete_document_def)
next
  case (Returned w1)
  then have ok1: "workspace_ok svc w1" "flat (cwd svc) (registry w1)"
    using check_data(1) [of w] update_ok_same ok by (auto simp: update_ok_def)
  let ?c = "cwd svc" and ?w2 = "cleanUpDeleted i w1"
  have r2: "registry ?w2 = registry w1" by (simp add: cleanUpDeleted_def)
  obtain found d' where del: "deleteDocumentById ?c i (registry w1) = (found, d')" by fastforce
  have d1: "documents_ok ?c (registry w1)" "room (registry w1)" using ok1(1) by (simp_all add: workspace_ok_def)
  note d = delete_by_id [OF d1 ok1(2) del i]
  define w3 where "w3 = (case found of None \<Rightarrow> ?w2\<lparr>registry := d'\<rparr> | Some h \<Rightarrow> advance h Changed (?w2\<lparr>registry := d'\<rparr>))"
  have w3: "final (delete_document svc i w) = w3"
    using Returned by (simp add: delete_document_def Let_def r2 del w3_def split: option.split)
  have same: "same_registry d' (registry w3)" by (simp add: w3_def same_registry_def advance_def split: option.split)
  have index: "index w3 = index ?w2" "analysis w3 = analysis ?w2" "buildStates w3 = buildStates ?w2"
    by (simp_all add: w3_def split: option.split)
  have reg: "registered ?c (registry w1) x \<and> id_of x w1 \<noteq> i \<and> view_of x w3 = view_of x w1"
    if "registered ?c (registry w3) x" for x
  proof -
    have "registered ?c d' x" using that registered_same1 [OF same] by blast
    note x = d(5) [OF this]
    then have ne: "id_of x w1 \<noteq> i" by (simp add: id_of_def)
    have "heap (registry w3) x = heap d' x"
      using x d(6) by (auto simp: w3_def advance_def split: option.split)
    then have "heap (registry w3) x = heap (registry w1) x" using x by simp
    then have "view_of x w3 = view_of x ?w2" using r2
      by (simp add: view_of_def uri_of_def id_of_def state_of_def exports_at_def references_at_def index)
    then show ?thesis using x ne clean_view [OF ne] by (simp add: id_of_def)
  qed
  have "ordered (exportsByDocument (index w3))"
    using ok1(1) by (simp add: index cleanUpDeleted_def workspace_ok_def index_remove_at)
  moreover have "documents_ok ?c (registry w3)" using d(1) documents_same [OF same] by blast
  moreover have "room (registry w3)" "documentUrisById (registry w3) = documentUrisById (registry w1)"
    using d1(2) d(2,3) same by (simp_all add: room_def same_registry_def)
  moreover have "backed svc (view_of x w3)" if "registered ?c (registry w3) x" for x
    using reg [OF that] ok1(1) by (simp add: workspace_ok_def)
  moreover have "eager_states w3" using ok1(1) by (simp add: workspace_ok_def eager_states_def index cleanUpDeleted_def)
  ultimately have "workspace_ok svc w3" using ok1(1) by (simp add: workspace_ok_def)
  moreover have "flat ?c (registry w3)"
  proof -
    have "key (registry w3) x = key (registry w1) x" for x
      using same d(4) by (simp add: key_def same_registry_def)
    then show ?thesis using reg ok1(2) unfolding flat_def by metis
  qed
  ultimately show ?thesis by (simp add: w3 update_ok_def)
qed

subsection \<open>Changes\<close>

lemma add_new_document:
  assumes d: "documents_ok c d" "room d" and uris: "\<forall>i u. documentUrisById d i = Some u \<longrightarrow> u \<noteq> [] \<and> normalize_uri c u = u"
    and u: "u \<noteq> []" "normalize_uri c u = u" and free: "trie_find c u (store d) = None"
  defines "h \<equiv> nextHandle d"
  defines "d1 \<equiv> snd (new_document u d)"
  defines "d2 \<equiv> d1\<lparr>heap := (heap d1)(h := (heap d1 h)\<lparr>docState := Parsed\<rparr>)\<rparr>"
  defines "d3 \<equiv> addDocumentLocked c h d2"
  shows "documents_ok c d3" "registered c d3 h" "docState (heap d3 h) = Parsed"
    "\<forall>i u. documentUrisById d3 i = Some u \<longrightarrow> u \<noteq> [] \<and> normalize_uri c u = u"
    "\<And>x. registered c d3 x \<Longrightarrow> x \<noteq> h \<Longrightarrow> registered c d x \<and> heap d3 x = heap d x"
    "documentUrisById d i = Some u \<Longrightarrow> room d3"
proof -
  have fields: "store d2 = store d" "documentsById d2 = documentsById d" "documentIdsByUri d2 = documentIdsByUri d"
    "documentUrisById d2 = documentUrisById d" "nextDocumentId d2 = nextDocumentId d" "nextHandle d2 = nextHandle d + 1"
    "docUri (heap d2 h) = u" "\<And>x. x \<noteq> h \<Longrightarrow> heap d2 x = heap d x" "docState (heap d2 h) = Parsed"
    by (simp_all add: d2_def d1_def new_document_def h_def)
  have "same_registry d1 d2" by (simp add: d2_def same_registry_def)
  then have ok2: "documents_ok c d2" "room d2"
    using new_document_ok [OF d(1), of u] documents_same d(2) by (auto simp: d1_def room_def fields(5))
  then have ids2: "ids_ok d2" by (simp add: documents_ok_def)
  have key: "find_at (key d2 h) (store d2) = None" using free by (simp add: trie_find_def u(2) key_def fields(1,7))
  have small: "h < nextHandle d2" by (simp add: fields(6) h_def)
  show ok3: "documents_ok c d3"
    unfolding d3_def using add_locked_ok [OF ok2 small _ _ key] u by (simp add: fields(7))
  obtain j where j: "heap d3 = (heap d2)(h := (heap d2 h)\<lparr>docId := j\<rparr>)" "documentsById d3 = (documentsById d2)(j \<mapsto> h)"
    using add_locked_fields [OF ids2 ok2(2), of c h] unfolding d3_def by blast
  have "documentsById d3 j = Some h" by (simp add: j(2))
  then show "registered c d3 h" using indexed [OF ok3] by blast
  show "docState (heap d3 h) = Parsed" using fields(9) by (simp add: j(1))
  show "\<forall>i u. documentUrisById d3 i = Some u \<longrightarrow> u \<noteq> [] \<and> normalize_uri c u = u"
    using uris u by (auto simp: d3_def addDocumentLocked_def ensureDocumentIdLocked_def Let_def fields(3,4,5,7) split: option.splits if_splits)
  show "registered c d x \<and> heap d3 x = heap d x" if x: "registered c d3 x" "x \<noteq> h" for x
  proof -
    have "documentsById d3 (docId (heap d3 x)) = Some x" by (rule registered_byId [OF x(1)])
    then have "documentsById d (docId (heap d3 x)) = Some x" using x(2) by (auto simp: j fields split: if_splits)
    then have "registered c d x" using indexed [OF d(1)] by blast
    then show ?thesis using x(2) by (simp add: j(1) fields(8))
  qed
  show "room d3" if "documentUrisById d i = Some u"
  proof -
    have "ids_ok d" using d(1) by (simp add: documents_ok_def)
    then have "documentIdsByUri d2 u = Some i" using that by (simp add: ids_ok_def fields)
    then have "nextDocumentId d3 = nextDocumentId d2"
      by (simp add: d3_def addDocumentLocked_def ensureDocumentIdLocked_def fields(7))
    then show ?thesis using ok2(2) by (simp add: room_def)
  qed
qed

text \<open>A document the factory made for \<open>getOrCreateDocument\<close>.\<close>

lemma getOrCreate_new:
  assumes w: "workspace_ok svc w" and abs: "is_absolute (cwd svc)"
    and e: "getOrCreateDocument svc uri w = Inr (Some h, w')" and new: "getOrCreate_find (cwd svc) uri (registry w) = Inr u"
  shows "documents_ok (cwd svc) (registry w')" "registered (cwd svc) (registry w') h" "state_of h w' = Parsed"
    "ast (analysis w' h) \<noteq> None"
    "\<forall>i u. documentUrisById (registry w') i = Some u \<longrightarrow> u \<noteq> [] \<and> normalize_uri (cwd svc) u = u"
    "index w' = index w" "buildStates w' = buildStates w"
    "\<And>x. registered (cwd svc) (registry w') x \<Longrightarrow> x \<noteq> h \<Longrightarrow> registered (cwd svc) (registry w) x \<and> view_of x w' = view_of x w"
    "documentUrisById (registry w) i = Some u \<Longrightarrow> room (registry w')"
proof -
  let ?d = "registry w" and ?c = "cwd svc"
  have d: "documents_ok ?c ?d" "room ?d" and uris: "\<forall>i u. documentUrisById ?d i = Some u \<longrightarrow> u \<noteq> [] \<and> normalize_uri ?c u = u"
    using w by (simp_all add: workspace_ok_def)
  have n: "u = normalize_uri ?c uri" "u \<noteq> []" "trie_find ?c u (store ?d) = None"
    using new by (auto simp: getOrCreate_find_def Let_def split: if_splits option.splits)
  then have u: "normalize_uri ?c u = u" using normalize_idem [OF abs] by simp
  obtain g w1 where f: "fromUri svc u w = Inr (g, w1)"
    using e by (auto simp: getOrCreateDocument_def new split: sum.splits)
  obtain latest a where s: "read_latest svc u = Inr latest" "parse_document svc u latest = Inr a"
    using f by (auto simp: fromUri_def u Let_def split: sum.splits prod.splits)
  define d1 where "d1 = snd (new_document u ?d)"
  define d2 where "d2 = d1\<lparr>heap := (heap d1)(nextHandle ?d := (heap d1 (nextHandle ?d))\<lparr>docState := Parsed\<rparr>)\<rparr>"
  have fst: "fst (new_document u ?d) = nextHandle ?d" by (simp add: new_document_def)
  have g: "g = nextHandle ?d" "registry w1 = d2" "index w1 = index w" "\<And>x. x \<noteq> g \<Longrightarrow> analysis w1 x = analysis w x"
    "buildStates w1 = buildStates w" "ast (analysis w1 g) = Some a"
    using f by (auto simp: fromUri_def u Let_def s split_beta fst d1_def d2_def advance_def)
  have "docUri (heap d2 g) = u" "store d2 = store ?d" by (simp_all add: d2_def d1_def new_document_def g(1))
  then have add: "getOrCreate_add ?c g d2 = (g, addDocumentLocked ?c g d2)" using n(3) by (simp add: getOrCreate_add_def)
  then have w': "h = g" "w' = w1\<lparr>registry := addDocumentLocked ?c g d2\<rparr>"
    using e by (auto simp: getOrCreateDocument_def new f g(2) Let_def)
  note r = add_new_document [OF d uris n(2) u n(3), folded d1_def, folded d2_def, folded g(1), folded w'(1)]
  have reg: "registry w' = addDocumentLocked ?c h d2" using w' by simp
  show "documents_ok (cwd svc) (registry w')" "registered (cwd svc) (registry w') h" "state_of h w' = Parsed"
    "\<forall>i u. documentUrisById (registry w') i = Some u \<longrightarrow> u \<noteq> [] \<and> normalize_uri (cwd svc) u = u"
    using r(1-4) by (simp_all add: reg state_of_def)
  show "ast (analysis w' h) \<noteq> None" "index w' = index w" "buildStates w' = buildStates w" using w' g(3,5,6) by simp_all
  show "registered (cwd svc) (registry w) x \<and> view_of x w' = view_of x w"
    if "registered (cwd svc) (registry w') x" "x \<noteq> h" for x
    using r(5) [of x] that w' g(3-5) unfolding reg
    by (simp add: view_of_def uri_of_def id_of_def state_of_def exports_at_def references_at_def)
  show "documentUrisById (registry w) i = Some u \<Longrightarrow> room (registry w')" using r(6) by (simp add: reg)
qed

lemma getOrCreate_ok:
  assumes w: "workspace_ok svc w" and abs: "is_absolute (cwd svc)" and known: "getDocumentUri i (registry w) \<noteq> []"
    and e: "getOrCreateDocument svc (getDocumentUri i (registry w)) w = Inr (Some h, w')"
  shows "workspace_ok svc (resetToState (cwd svc) h Changed w')"
proof -
  let ?d = "registry w" and ?c = "cwd svc" and ?u = "getDocumentUri i (registry w)"
  have d: "documents_ok ?c ?d" using w by (simp add: workspace_ok_def)
  have at: "documentUrisById ?d i = Some ?u" using known by (auto simp: getDocumentUri_def split: option.splits if_splits)
  then have u: "normalize_uri ?c ?u = ?u" using w unfolding workspace_ok_def by blast
  show ?thesis
  proof (cases "getOrCreate_find ?c ?u ?d")
    case (Inl found)
    then have h: "found = Some h" "w' = w" using e by (simp_all add: getOrCreateDocument_def)
    then have "find_at (splitSegments ?u) (store ?d) = Some h"
      using Inl known by (auto simp: getOrCreate_find_def Let_def u trie_find_def split: option.splits)
    then show ?thesis using stored [OF d] reset_document_ok(1) [OF w] h(2) by blast
  next
    case (Inr v)
    then have "v = ?u" using known by (auto simp: getOrCreate_find_def Let_def u split: option.splits)
    note r = getOrCreate_new [OF w abs e Inr, unfolded this]
    show ?thesis
      using r w at by (intro reset_fresh) (auto simp: workspace_ok_def eager_states_def)
  qed
qed

lemma change_document_ok:
  assumes "workspace_ok svc w" and abs: "is_absolute (cwd svc)"
  shows "workspace_ok svc (final (change_document svc i w))"
proof (cases "check_cancelled w")
  case (Raised e w1)
  then show ?thesis using check_data(1) [of w] workspace_same assms by (auto simp: change_document_def)
next
  case (Returned w1)
  then have ok: "workspace_ok svc w1" using check_data(1) [of w] workspace_same assms by auto
  then have d: "documents_ok (cwd svc) (registry w1)" by (simp add: workspace_ok_def)
  show ?thesis
  proof (cases "getDocumentById i (registry w1)")
    case (Some h)
    then show ?thesis using reset_document_ok(1) [OF ok] getDocumentById_registered [OF d Some]
      by (simp add: change_document_def Returned)
  next
    case None
    show ?thesis
    proof (cases "getOrCreateDocument svc (getDocumentUri i (registry w1)) w1")
      case (Inl e)
      then show ?thesis using ok None by (cases e) (simp_all add: change_document_def Returned)
    next
      case (Inr p)
      obtain found w2 where p: "p = (found, w2)" by fastforce
      show ?thesis
      proof (cases found)
        case none: None
        then have "w2 = w1 \<or> getDocumentUri i (registry w1) = []"
          using Inr p by (auto simp: getOrCreateDocument_def split_beta Let_def split: sum.splits)
        then show ?thesis using none ok Inr p None by (auto simp: change_document_def Returned)
      next
        case (Some h)
        then show ?thesis using getOrCreate_ok [OF ok abs, of i h w2] ok Inr p None
          by (simp add: change_document_def Returned)
      qed
    qed
  qed
qed

subsection \<open>Relinking\<close>

lemma relink_document_ok:
  assumes "workspace_ok svc w" and "registered (cwd svc) (registry w) h"
  shows "workspace_ok svc (final (relink_document svc changed h w)) \<and>
    same_registry (registry w) (registry (final (relink_document svc changed h w)))"
proof (cases "check_cancelled w")
  case (Raised e w1)
  then show ?thesis using check_data(1) [of w] workspace_same assms by (auto simp: relink_document_def same_data_def)
next
  case (Returned w1)
  then have w1: "workspace_ok svc w1" "registry w1 = registry w"
    using check_data(1) [of w] workspace_same assms(1) by (auto simp: same_data_def)
  then show ?thesis using reset_document_ok [OF w1(1), of h ComputedScopes] assms(2)
    by (simp add: relink_document_def Returned)
qed

lemma relink_all_ok:
  assumes "workspace_ok svc w" and "\<forall>h \<in> set hs. registered (cwd svc) (registry w) h"
  shows "workspace_ok svc (final (run_each (relink_document svc changed) hs w))"
proof -
  let ?P = "\<lambda>w'. workspace_ok svc w' \<and> same_registry (registry w) (registry w')"
  have "?P (final (run_each (relink_document svc changed) hs w))"
  proof (rule run_each_inv)
    fix h w'
    assume h: "h \<in> set hs" and P: "?P w'"
    then have "registered (cwd svc) (registry w') h" using assms(2) registered_same1 by blast
    from relink_document_ok [OF _ this] P show "?P (final (relink_document svc changed h w'))"
      using same_registry_trans by blast
  qed (use assms(1) in simp)
  then show ?thesis ..
qed

subsection \<open>The whole update\<close>

lemma distinct_valid_ok:
  assumes "distinct_valid ex acc is w = (ds, r)" and "\<forall>i \<in> set acc. i \<noteq> InvalidDocumentId"
  shows "same_data w (final r) \<and> (\<forall>i \<in> set ds. i \<noteq> InvalidDocumentId)"
  using assms
proof (induction "is" arbitrary: acc w)
  case (Cons i "is")
  show ?case
  proof (cases "check_cancelled w")
    case (Raised e w1)
    then show ?thesis using Cons.prems check_data(1) [of w] by auto
  next
    case (Returned w1)
    define acc' where "acc' = (if i \<noteq> InvalidDocumentId \<and> i \<notin> set ex \<and> i \<notin> set acc then acc @ [i] else acc)"
    have "distinct_valid ex acc' is w1 = (ds, r)" "\<forall>i \<in> set acc'. i \<noteq> InvalidDocumentId"
      using Cons.prems by (simp_all add: Returned acc'_def)
    moreover have "same_data w w1" using check_data(1) [of w] by (simp add: Returned)
    ultimately show ?thesis using Cons.IH same_data_trans by blast
  qed
qed auto

lemma and_then_inv: "P (final r) \<Longrightarrow> (\<And>w. P w \<Longrightarrow> Q w) \<Longrightarrow> (\<And>w. P w \<Longrightarrow> Q (final (f w))) \<Longrightarrow> Q (final (and_then r f))"
  by (cases r) simp_all

lemma update_tail_ok:
  assumes "workspace_ok svc w" and "links_eagerly o'"
  shows "workspace_ok svc (final (let todo = filter (\<lambda>h. needs_build svc o' h w) (all_documents (registry w)) in
    buildDocuments svc (sortDocuments svc todo w) o' d w))"
proof -
  let ?hs = "sortDocuments svc (filter (\<lambda>h. needs_build svc o' h w) (all_documents (registry w))) w"
  have ok: "documents_ok (cwd svc) (registry w)" using assms(1) by (simp add: workspace_ok_def)
  note all = all_documents_registered [OF ok]
  have "distinct ?hs" using all(1) by (auto simp: sortDocuments_def)
  moreover have "\<forall>h \<in> set ?hs. registered (cwd svc) (registry w) h" using all(2) by (auto simp: sortDocuments_def)
  ultimately show ?thesis unfolding Let_def using buildDocuments_ok [OF assms(1) _ _ assms(2)] by blast
qed

lemma update_keeps_ok:
  assumes "update_ok svc w" and "links_eagerly o'" and abs: "is_absolute (cwd svc)"
  shows "workspace_ok svc (final (update svc o' changed deleted d w))"
proof -
  let ?P = "workspace_ok svc" and ?Q = "update_ok svc"
  have weaken: "?Q w \<Longrightarrow> ?P w" for w by (simp add: update_ok_def)
  have check: "?P w \<Longrightarrow> ?P (final (check_cancelled w))" "?Q w \<Longrightarrow> ?Q (final (check_cancelled w))" for w
    using check_data(1) [of w] workspace_same update_ok_same by blast+
  have reset: "?Q w \<Longrightarrow> ?Q (w\<lparr>currentState := Changed\<rparr>)" for w
    using update_ok_same [of w "w\<lparr>currentState := Changed\<rparr>"] by (simp add: same_data_def)
  have dels: "?Q (final r) \<and> (\<forall>i \<in> set ds. i \<noteq> InvalidDocumentId)" if "?Q w" "distinct_valid ex [] is w = (ds, r)" for ex "is" w ds r
    using distinct_valid_ok [OF that(2)] that(1) update_ok_same by auto
  have del_all: "?Q (final (run_each (delete_document svc) ds w))" if "?Q w" "\<forall>i \<in> set ds. i \<noteq> InvalidDocumentId" for ds w
    using that by (intro run_each_inv [of ds ?Q]) (auto simp: delete_document_ok)
  have chg_all: "?P (final (run_each (change_document svc) cs w))" if "?P w" for cs w
    using that by (intro run_each_inv [of cs ?P]) (auto simp: change_document_ok abs)
  have rel_all: "?P (final (run_each (relink_document svc cs) (all_documents (registry w)) w))" if "?P w" for cs w
    using that all_documents_registered by (intro relink_all_ok) (auto simp: workspace_ok_def)
  have emit: "?P (final (emitUpdate svc cs ds w))" if "?P w" for cs ds w
    using that emit_update_data(1) workspace_same by blast
  let ?tail = "\<lambda>cs ds w. and_then (run_each (relink_document svc (cs @ ds)) (all_documents (registry w)) w) (\<lambda>w.
     and_then (emitUpdate svc cs ds w) (\<lambda>w.
     and_then (check_cancelled w) (\<lambda>w.
     let todo = filter (\<lambda>h. needs_build svc o' h w) (all_documents (registry w)) in
     buildDocuments svc (sortDocuments svc todo w) o' d w)))"
  have tail: "?P (final (?tail cs ds w))" if "?P w" for cs ds w
    using that by (intro and_then_inv [of ?P _ ?P] rel_all emit check(1) update_tail_ok assms(2))
  let ?change = "\<lambda>cs ds w. and_then (run_each (change_document svc) cs w) (?tail cs ds)"
  have change: "?P (final (?change cs ds w))" if "?P w" for cs ds w
    by (rule and_then_inv [of ?P _ ?P]) (rule chg_all [OF that], assumption, rule tail)
  let ?delete = "\<lambda>ds cs w. and_then (run_each (delete_document svc) ds w) (?change cs ds)"
  have delete: "?P (final (?delete ds cs w))" if "?Q w" "\<forall>i \<in> set ds. i \<noteq> InvalidDocumentId" for ds cs w
    by (rule and_then_inv [of ?Q _ ?P, OF del_all [OF that] weaken change [OF weaken]])
  let ?changed = "\<lambda>ds w. let (cs, r) = distinct_valid ds [] changed w in and_then r (?delete ds cs)"
  have changed: "?P (final (?changed ds w))" if "?Q w" "\<forall>i \<in> set ds. i \<noteq> InvalidDocumentId" for ds w
  proof (cases "distinct_valid ds [] changed w")
    case (Pair cs r)
    then show ?thesis
      using and_then_inv [of ?Q r ?P "?delete ds cs", OF _ weaken delete [OF _ that(2)]] dels [OF that(1) Pair] by simp
  qed
  let ?deleted = "\<lambda>w. let (ds, r) = distinct_valid [] [] deleted (w\<lparr>currentState := Changed\<rparr>) in and_then r (?changed ds)"
  have deleted: "?P (final (?deleted w))" if "?Q w" for w
  proof (cases "distinct_valid [] [] deleted (w\<lparr>currentState := Changed\<rparr>)")
    case (Pair ds r)
    note ds = dels [OF reset [OF that] Pair]
    show ?thesis
      using and_then_inv [of ?Q r ?P "?changed ds", OF conjunct1 [OF ds] weaken changed [OF _ conjunct2 [OF ds]]] Pair by simp
  qed
  show ?thesis unfolding update_def
    by (rule and_then_inv [of ?Q _ ?P, OF check(2) [OF assms(1)] weaken deleted])
qed

end
