(* ===== verification/WorkspaceProps.thy ===== *)
theory WorkspaceProps
  imports UpdateInv
begin

text \<open>The workspaces that runs of the builder can reach, and what holds in all of them.\<close>

definition empty_workspace :: "('a, 's, 'l, 'd) workspace \<Rightarrow> bool" where
  "empty_workspace w \<longleftrightarrow> registry w = new_documents \<and> exportsByDocument (index w) = [] \<and> buildStates w = (\<lambda>_. None)"

inductive workspace_reachable :: "('a, 's, 'l, 'd) services \<Rightarrow> ('a, 's, 'l, 'd) workspace \<Rightarrow> bool" for svc where
  start: "empty_workspace w \<Longrightarrow> workspace_reachable svc w"
| opened: "workspace_reachable svc w \<Longrightarrow> getOrCreateDocument svc uri w = Inr (found, w') \<Longrightarrow> room (registry w') \<Longrightarrow>
    workspace_reachable svc w'"
| built: "workspace_reachable svc w \<Longrightarrow> distinct hs \<Longrightarrow> set hs \<subseteq> set (all_documents (registry w)) \<Longrightarrow> links_eagerly o' \<Longrightarrow>
    workspace_reachable svc (final (build svc hs o' d w))"
| updated: "workspace_reachable svc w \<Longrightarrow> flat (cwd svc) (registry w) \<Longrightarrow> links_eagerly o' \<Longrightarrow>
    workspace_reachable svc (final (update svc o' changed deleted d w))"
| polled: "workspace_reachable svc w \<Longrightarrow> workspace_reachable svc (w\<lparr>polls := p\<rparr>)"

lemma open_ok:
  assumes w: "workspace_ok svc w" and abs: "is_absolute (cwd svc)" and "room (registry w')"
    and e: "getOrCreateDocument svc uri w = Inr (found, w')"
  shows "workspace_ok svc w'"
proof (cases "getOrCreate_find (cwd svc) uri (registry w)")
  case (Inl f)
  then show ?thesis using e w by (simp add: getOrCreateDocument_def)
next
  case (Inr u)
  then obtain h where h: "found = Some h" using e
    by (auto simp: getOrCreateDocument_def split_beta Let_def split: sum.splits)
  note r = getOrCreate_new [OF w abs e [unfolded h] Inr]
  have "links_eagerly (options st)" if "buildStates w' i = Some st" for i st
    using w that r(7) by (auto simp: workspace_ok_def eager_states_def)
  then have "backed svc (view_of h w')" using r(3,4) by (auto simp: backed_def state_order)
  then have "backed svc (view_of x w')" if "registered (cwd svc) (registry w') x" for x
    using r(8) [OF that] w by (cases "x = h") (simp_all add: workspace_ok_def)
  then show ?thesis using w r(1,5-7) assms(3) by (simp add: workspace_ok_def eager_states_def)
qed

lemma reachable_ok: "workspace_reachable svc w \<Longrightarrow> is_absolute (cwd svc) \<Longrightarrow> workspace_ok svc w"
proof (induction rule: workspace_reachable.induct)
  case (start w)
  have "\<not> registered c new_documents h" for c h by (simp add: registered_def new_documents_def)
  moreover have "room new_documents" by (simp add: room_def new_documents_def u32_max_def)
  ultimately show ?case using start new_documents_ok
    by (simp add: workspace_ok_def empty_workspace_def eager_states_def ordered_def) (simp add: new_documents_def)
next
  case (opened w uri found w')
  then show ?case using open_ok by blast
next
  case (built w hs o' d)
  then have ok: "workspace_ok svc w" by blast
  then have "documents_ok (cwd svc) (registry w)" by (simp add: workspace_ok_def)
  then have "\<forall>h \<in> set hs. registered (cwd svc) (registry w) h"
    using all_documents_registered(2) built.hyps by blast
  then show ?case using build_ok [OF ok] built.hyps by blast
next
  case (updated w o' changed deleted d)
  then show ?case by (simp add: update_ok_def update_keeps_ok)
next
  case (polled w p)
  then show ?case using workspace_same [of w "w\<lparr>polls := p\<rparr>"] by (simp add: same_data_def)
qed

subsection \<open>Property\<close>


definition demo_empty :: "(nat, nat, nat, nat) workspace" where
  "demo_empty = (demo_workspace Changed None)\<lparr>registry := new_documents\<rparr>"

definition demo_opened :: "(nat, nat, nat, nat) workspace" where
  "demo_opened = (case getOrCreateDocument (demo_services None) ''file:///a'' demo_empty of Inl e \<Rightarrow> demo_empty | Inr p \<Rightarrow> snd p)"

lemma demo_facts:
  "case getOrCreateDocument (demo_services None) ''file:///a'' demo_empty of Inl e \<Rightarrow> False | Inr p \<Rightarrow> True"
  "room (registry demo_opened)" "all_documents (registry demo_opened) = [0]" "state_of 0 demo_opened = Parsed"
  "is_absolute (cwd (demo_services None))"
  by code_simp+

lemma demo_reachable: "workspace_reachable (demo_services None) demo_opened"
proof -
  have e: "workspace_reachable (demo_services None) demo_empty"
    by (rule start) (simp add: empty_workspace_def demo_empty_def demo_workspace_def new_index_def)
  obtain f w where p: "getOrCreateDocument (demo_services None) ''file:///a'' demo_empty = Inr (f, w)"
    using demo_facts(1) by (auto split: sum.splits)
  then have "demo_opened = w" by (simp add: demo_opened_def)
  then show ?thesis using opened [OF e p] demo_facts(2) by simp
qed


end
