(* ===== verification/FuzzyMatch.thy ===== *)
theory FuzzyMatch
  imports Peg "HOL-Library.Multiset"
begin

unbundle bit_operations_syntax

text \<open>
  Fuzzy matching of literals (\<open>core/parser/LiteralFuzzyMatcher.cpp\<close>, \<open>RecoveryCost.hpp\<close>): a
  Levenshtein table with transpositions over code points, in two lanes (with and without
  substitutions), kept as a ring of three rows of costs and a full grid of parents; the
  candidates read off its last row, pruned by dominance; the cache of the results; and the
  linear test for a single edit. Costs are 32-bit and written with their wrap-around.
\<close>

subsection \<open>Costs\<close>

record recovery_cost =
  budgetCost :: nat
  primaryRankCost :: nat

datatype diagnostic_kind = Inserted | Deleted | Replaced | Incomplete | Recovered | ConversionError

fun default_edit_cost :: "diagnostic_kind \<Rightarrow> nat" where
  "default_edit_cost Inserted = 1"
| "default_edit_cost Replaced = 2"
| "default_edit_cost Deleted = 4"
| "default_edit_cost Recovered = 8"
| "default_edit_cost Incomplete = 16"
| "default_edit_cost ConversionError = 0"

definition make_recovery_cost :: "nat \<Rightarrow> nat \<Rightarrow> recovery_cost" where
  "make_recovery_cost b p = \<lparr>budgetCost = b, primaryRankCost = p\<rparr>"

definition kNoMatch :: nat where
  "kNoMatch = u32_max div 4"

definition kInsertionCost :: nat where "kInsertionCost = default_edit_cost Inserted"
definition kDeletionCost :: nat where "kDeletionCost = default_edit_cost Deleted"
definition kSubstitutionCost :: nat where "kSubstitutionCost = default_edit_cost Replaced"
definition kTranspositionCost :: nat where "kTranspositionCost = kSubstitutionCost"
definition kReferenceLiteralLength :: nat where "kReferenceLiteralLength = 5"

definition ceil_div :: "nat \<Rightarrow> nat \<Rightarrow> nat" where
  "ceil_div numerator denominator =
     (if denominator = 0 then numerator else u32 (u32 (numerator + denominator) + u32_max) div denominator)"

definition make_fuzzy_recovery_cost :: "nat \<Rightarrow> nat \<Rightarrow> recovery_cost" where
  "make_fuzzy_recovery_cost literalCodepointCount rawWeightedCost =
     make_recovery_cost rawWeightedCost
       (ceil_div (u32 (rawWeightedCost * kReferenceLiteralLength)) (u32 (max literalCodepointCount 1)))"

subsection \<open>Cells\<close>

datatype parent_op = ParentNone | ParentMatch | ParentSubstitute | ParentInsert | ParentDelete | ParentTranspose

record dp_cell =
  operations :: nat
  weightedCost :: nat
  cellParent :: parent_op

record dp_state =
  anyEdit :: dp_cell
  noSubstitution :: dp_cell

record parent_trace =
  traceAny :: parent_op
  traceNoSub :: parent_op

datatype dp_lane = AnyEdit | NoSubstitution

definition empty_cell :: dp_cell where
  "empty_cell = \<lparr>operations = kNoMatch, weightedCost = kNoMatch, cellParent = ParentNone\<rparr>"

definition is_better_cell :: "dp_cell \<Rightarrow> dp_cell \<Rightarrow> bool" where
  "is_better_cell lhs rhs \<longleftrightarrow> (if weightedCost lhs \<noteq> weightedCost rhs then weightedCost lhs < weightedCost rhs
     else operations lhs < operations rhs)"

definition consider_transition :: "dp_cell \<Rightarrow> dp_cell \<Rightarrow> parent_op \<Rightarrow> nat \<Rightarrow> nat \<Rightarrow> dp_cell" where
  "consider_transition best candidate par operationDelta weightDelta =
     (if operations candidate = kNoMatch then best
      else let nxt = \<lparr>operations = u32 (operations candidate + operationDelta),
          weightedCost = u32 (weightedCost candidate + weightDelta), cellParent = par\<rparr> in
        if operations best = kNoMatch \<or> is_better_cell nxt best then nxt else best)"

subsection \<open>Code points\<close>

record decoded_text =
  codepoints :: "nat list"
  byteOffset :: "nat list"

function decode_from :: "string \<Rightarrow> nat \<Rightarrow> nat list \<times> nat list" where
  "decode_from text index =
     (if index < length text then
        (let len = utf8_codepoint_length (byte_at text index) in
         if len = 0 \<or> length text - index < len
         then (let (cps, offs) = decode_from text (index + 1) in (ub (byte_at text index) # cps, index # offs))
         else (let (cps, offs) = decode_from text (index + len) in (decode_utf8_codepoint text index # cps, index # offs)))
      else ([], [length text]))"
  by pat_completeness auto
termination by (relation "measure (\<lambda>(text, index). length text - index)") auto

declare decode_from.simps [simp del]

definition decode_text :: "string \<Rightarrow> decoded_text" where
  "decode_text text = (let (cps, offs) = decode_from text 0 in \<lparr>codepoints = cps, byteOffset = offs\<rparr>)"

definition normalize_codepoint :: "bool \<Rightarrow> nat \<Rightarrow> nat" where
  "normalize_codepoint cs v = (if cs \<or> v \<ge> 0x80 then v else ub (tolower (char_of v)))"

definition equal_decoded_codepoint :: "bool \<Rightarrow> nat \<Rightarrow> nat \<Rightarrow> bool" where
  "equal_decoded_codepoint cs x y \<longleftrightarrow> normalize_codepoint cs x = normalize_codepoint cs y"

definition normalize_char :: "bool \<Rightarrow> char \<Rightarrow> char" where
  "normalize_char cs c = (if cs then c else tolower c)"

definition equal_codepoint :: "bool \<Rightarrow> char \<Rightarrow> char \<Rightarrow> bool" where
  "equal_codepoint cs x y \<longleftrightarrow> normalize_char cs x = normalize_char cs y"

subsection \<open>The table\<close>

text \<open>
  One cell from its neighbours: \<open>left\<close> is the cell before it in its row, \<open>up\<close> the one above,
  \<open>diag\<close> the one before that, and \<open>diag2\<close> the one two rows and two columns back; \<open>cs\<close> is
  \<open>caseSensitive\<close>.
\<close>

definition crossed :: "bool \<Rightarrow> nat list \<Rightarrow> nat list \<Rightarrow> nat \<Rightarrow> nat \<Rightarrow> bool" where
  "crossed cs lit inp i j \<longleftrightarrow> i \<ge> 2 \<and> j \<ge> 2 \<and> equal_decoded_codepoint cs (lit ! (i - 1)) (inp ! (j - 2)) \<and>
     equal_decoded_codepoint cs (lit ! (i - 2)) (inp ! (j - 1))"

definition any_edit_cell :: "bool \<Rightarrow> nat list \<Rightarrow> nat list \<Rightarrow> nat \<Rightarrow> nat \<Rightarrow> dp_cell \<Rightarrow> dp_cell \<Rightarrow> dp_cell \<Rightarrow> dp_cell \<Rightarrow> dp_cell" where
  "any_edit_cell cs lit inp i j left up diag diag2 =
     (if i = 0 \<and> j = 0 then \<lparr>operations = 0, weightedCost = 0, cellParent = ParentNone\<rparr>
      else if i = 0 then consider_transition empty_cell left ParentDelete 1 kDeletionCost
      else if j = 0 then consider_transition empty_cell up ParentInsert 1 kInsertionCost
      else let b0 = (if equal_decoded_codepoint cs (lit ! (i - 1)) (inp ! (j - 1))
                     then consider_transition empty_cell diag ParentMatch 0 0 else empty_cell);
               b1 = consider_transition b0 diag ParentSubstitute 1 kSubstitutionCost;
               b2 = consider_transition b1 up ParentInsert 1 kInsertionCost;
               b3 = consider_transition b2 left ParentDelete 1 kDeletionCost in
           if crossed cs lit inp i j then consider_transition b3 diag2 ParentTranspose 1 kTranspositionCost else b3)"

definition no_substitution_cell :: "bool \<Rightarrow> nat list \<Rightarrow> nat list \<Rightarrow> nat \<Rightarrow> nat \<Rightarrow> dp_cell \<Rightarrow> dp_cell \<Rightarrow> dp_cell \<Rightarrow> dp_cell \<Rightarrow> dp_cell" where
  "no_substitution_cell cs lit inp i j left up diag diag2 =
     (if i = 0 \<and> j = 0 then \<lparr>operations = 0, weightedCost = 0, cellParent = ParentNone\<rparr>
      else if i = 0 then consider_transition empty_cell left ParentDelete 1 kDeletionCost
      else if j = 0 then consider_transition empty_cell up ParentInsert 1 kInsertionCost
      else let b0 = (if equal_decoded_codepoint cs (lit ! (i - 1)) (inp ! (j - 1))
                     then consider_transition empty_cell diag ParentMatch 0 0 else empty_cell);
               b2 = consider_transition b0 up ParentInsert 1 kInsertionCost;
               b3 = consider_transition b2 left ParentDelete 1 kDeletionCost in
           if crossed cs lit inp i j then consider_transition b3 diag2 ParentTranspose 1 kTranspositionCost else b3)"

record dp_table =
  rowRing :: "dp_state list list"
  parents :: "parent_trace list"

definition new_table :: "nat \<Rightarrow> nat \<Rightarrow> dp_table" where
  "new_table rows cols = \<lparr>rowRing = replicate 3 (replicate cols \<lparr>anyEdit = empty_cell, noSubstitution = empty_cell\<rparr>),
     parents = replicate (rows * cols) \<lparr>traceAny = ParentNone, traceNoSub = ParentNone\<rparr>\<rparr>"

definition row_for :: "dp_table \<Rightarrow> nat \<Rightarrow> dp_state list" where
  "row_for t i = rowRing t ! (i mod 3)"

definition fill_cell :: "bool \<Rightarrow> nat list \<Rightarrow> nat list \<Rightarrow> nat \<Rightarrow> nat \<Rightarrow> dp_table \<Rightarrow> dp_table" where
  "fill_cell cs lit inp i j t =
     (let cols = length inp + 1;
          left = row_for t i ! (j - 1); up = row_for t (i - 1) ! j;
          diag = row_for t (i - 1) ! (j - 1); diag2 = row_for t (i - 2) ! (j - 2);
          a = any_edit_cell cs lit inp i j (anyEdit left) (anyEdit up) (anyEdit diag) (anyEdit diag2);
          n = no_substitution_cell cs lit inp i j (noSubstitution left) (noSubstitution up)
                (noSubstitution diag) (noSubstitution diag2) in
      t\<lparr>rowRing := (rowRing t)[i mod 3 := (row_for t i)[j := \<lparr>anyEdit = a, noSubstitution = n\<rparr>]],
        parents := (parents t)[i * cols + j := \<lparr>traceAny = cellParent a, traceNoSub = cellParent n\<rparr>]\<rparr>)"

definition fill_row :: "bool \<Rightarrow> nat list \<Rightarrow> nat list \<Rightarrow> nat \<Rightarrow> dp_table \<Rightarrow> dp_table" where
  "fill_row cs lit inp i t = fold (fill_cell cs lit inp i) [0 ..< length inp + 1] t"

definition fill_table :: "bool \<Rightarrow> nat list \<Rightarrow> nat list \<Rightarrow> dp_table" where
  "fill_table cs lit inp = fold (fill_row cs lit inp) [0 ..< length lit + 1] (new_table (length lit + 1) (length inp + 1))"

subsection \<open>Candidates\<close>

record fuzzy_candidate =
  consumed :: nat
  consumedCodepoints :: nat
  distance :: nat
  operationCount :: nat
  rawWeightedCost :: nat
  cost :: recovery_cost
  insertionCount :: nat
  deletionCount :: nat
  substitutionCount :: nat
  transpositionCount :: nat

text \<open>
  The walk back over the parents; \<open>None\<close> is an access outside the grid. The four counters are
  at most the number of steps, so their 32 bits matter only for texts that long.
\<close>

function reconstruct_from :: "(nat \<Rightarrow> nat \<Rightarrow> parent_op) \<Rightarrow> nat \<Rightarrow> nat \<Rightarrow> fuzzy_candidate \<Rightarrow> fuzzy_candidate option" where
  "reconstruct_from parent_at i j c =
     (if i = 0 \<and> j = 0 then Some c
      else case parent_at i j of
        ParentNone \<Rightarrow> Some c
      | ParentMatch \<Rightarrow> if i = 0 \<or> j = 0 then None else reconstruct_from parent_at (i - 1) (j - 1) c
      | ParentSubstitute \<Rightarrow> if i = 0 \<or> j = 0 then None
          else reconstruct_from parent_at (i - 1) (j - 1) (c\<lparr>substitutionCount := substitutionCount c + 1\<rparr>)
      | ParentInsert \<Rightarrow> if i = 0 then None
          else reconstruct_from parent_at (i - 1) j (c\<lparr>insertionCount := insertionCount c + 1\<rparr>)
      | ParentDelete \<Rightarrow> if j = 0 then None
          else reconstruct_from parent_at i (j - 1) (c\<lparr>deletionCount := deletionCount c + 1\<rparr>)
      | ParentTranspose \<Rightarrow> if i < 2 \<or> j < 2 then None
          else reconstruct_from parent_at (i - 2) (j - 2) (c\<lparr>transpositionCount := transpositionCount c + 1\<rparr>))"
  by pat_completeness auto
termination by (relation "measure (\<lambda>(p, i, j, c). i + j)") auto

declare reconstruct_from.simps [simp del]

definition parent_in :: "dp_table \<Rightarrow> nat \<Rightarrow> dp_lane \<Rightarrow> nat \<Rightarrow> nat \<Rightarrow> parent_op" where
  "parent_in t cols lane i j = (let tr = parents t ! (i * cols + j) in
     case lane of AnyEdit \<Rightarrow> traceAny tr | NoSubstitution \<Rightarrow> traceNoSub tr)"

definition reconstruct_candidate :: "dp_table \<Rightarrow> decoded_text \<Rightarrow> decoded_text \<Rightarrow> nat \<Rightarrow> dp_cell \<Rightarrow> dp_lane \<Rightarrow>
    fuzzy_candidate option" where
  "reconstruct_candidate t literal input k cell lane =
     map_option (\<lambda>c. c\<lparr>operationCount := insertionCount c + deletionCount c + substitutionCount c + transpositionCount c\<rparr>)
      (reconstruct_from (parent_in t (length (codepoints input) + 1) lane) (length (codepoints literal)) k
        \<lparr>consumed = byteOffset input ! k, consumedCodepoints = k, distance = operations cell, operationCount = 0,
         rawWeightedCost = weightedCost cell,
         cost = make_fuzzy_recovery_cost (length (codepoints literal)) (weightedCost cell),
         insertionCount = 0, deletionCount = 0, substitutionCount = 0, transpositionCount = 0\<rparr>)"

definition same_candidate :: "fuzzy_candidate \<Rightarrow> fuzzy_candidate \<Rightarrow> bool" where
  "same_candidate a b \<longleftrightarrow> consumed a = consumed b \<and> consumedCodepoints a = consumedCodepoints b \<and>
     distance a = distance b \<and> operationCount a = operationCount b \<and> rawWeightedCost a = rawWeightedCost b \<and>
     budgetCost (cost a) = budgetCost (cost b) \<and> primaryRankCost (cost a) = primaryRankCost (cost b) \<and>
     insertionCount a = insertionCount b \<and> deletionCount a = deletionCount b \<and>
     substitutionCount a = substitutionCount b \<and> transpositionCount a = transpositionCount b"

definition is_better_candidate :: "fuzzy_candidate \<Rightarrow> fuzzy_candidate \<Rightarrow> bool" where
  "is_better_candidate a b \<longleftrightarrow> primaryRankCost (cost a) < primaryRankCost (cost b)"

definition dominates_candidate :: "fuzzy_candidate \<Rightarrow> fuzzy_candidate \<Rightarrow> bool" where
  "dominates_candidate a b \<longleftrightarrow>
     (let noWorse = primaryRankCost (cost a) \<le> primaryRankCost (cost b) \<and> rawWeightedCost a \<le> rawWeightedCost b \<and>
        distance a \<le> distance b \<and> substitutionCount a \<le> substitutionCount b \<and> consumed a \<ge> consumed b in
      if \<not> noWorse then False
      else primaryRankCost (cost a) < primaryRankCost (cost b) \<or> rawWeightedCost a < rawWeightedCost b \<or>
        distance a < distance b \<or> substitutionCount a < substitutionCount b \<or> consumed a > consumed b)"

definition push_candidate :: "fuzzy_candidate \<Rightarrow> fuzzy_candidate list \<Rightarrow> fuzzy_candidate list" where
  "push_candidate c cs = (if list_ex (\<lambda>existing. same_candidate existing c) cs then cs else cs @ [c])"

text \<open>\<open>std::ranges::sort\<close> is the parameter \<open>srt\<close>; it is not stable.\<close>

definition sorts_candidates :: "(fuzzy_candidate list \<Rightarrow> fuzzy_candidate list) \<Rightarrow> bool" where
  "sorts_candidates srt \<longleftrightarrow>
     (\<forall>xs. mset (srt xs) = mset xs \<and> sorted_wrt (\<lambda>a b. \<not> is_better_candidate b a) (srt xs))"

definition prune_dominated_candidates :: "(fuzzy_candidate list \<Rightarrow> fuzzy_candidate list) \<Rightarrow>
    fuzzy_candidate list \<Rightarrow> fuzzy_candidate list" where
  "prune_dominated_candidates srt cands =
     (let dominated = map (\<lambda>index. list_ex (\<lambda>other. index \<noteq> other \<and> dominates_candidate (cands ! other) (cands ! index))
            [0 ..< length cands]) [0 ..< length cands] in
      srt (map fst (filter (\<lambda>(c, d). \<not> d) (zip cands dominated))))"

text \<open>The penalty for code points a word-like candidate leaves behind.\<close>

definition charge_trailing :: "nat \<Rightarrow> nat \<Rightarrow> fuzzy_candidate \<Rightarrow> fuzzy_candidate" where
  "charge_trailing literalCount trailing c =
     (let raw = u32 (rawWeightedCost c + u32 (trailing * kDeletionCost)) in
      c\<lparr>distance := u32 (distance c + trailing), deletionCount := u32 (deletionCount c + trailing),
        rawWeightedCost := raw, operationCount := u32 (operationCount c + trailing),
        cost := make_fuzzy_recovery_cost literalCount raw\<rparr>)"

definition collect_candidate :: "dp_table \<Rightarrow> bool \<Rightarrow> decoded_text \<Rightarrow> decoded_text \<Rightarrow> nat \<Rightarrow> dp_cell \<Rightarrow> dp_lane \<Rightarrow>
    fuzzy_candidate list \<Rightarrow> fuzzy_candidate list option" where
  "collect_candidate t wordLike literal input k cell lane cands =
     (if operations cell = kNoMatch \<or> operations cell = 0 then Some cands
      else map_option (\<lambda>c. push_candidate
          (if wordLike \<and> k < length (codepoints input)
           then charge_trailing (length (codepoints literal)) (u32 (length (codepoints input) - k)) c else c) cands)
        (reconstruct_candidate t literal input k cell lane))"

fun collect_from :: "dp_table \<Rightarrow> bool \<Rightarrow> decoded_text \<Rightarrow> decoded_text \<Rightarrow> nat list \<Rightarrow>
    fuzzy_candidate list \<Rightarrow> fuzzy_candidate list option" where
  "collect_from t wordLike literal input [] cands = Some cands"
| "collect_from t wordLike literal input (k # ks) cands =
     (let state = row_for t (length (codepoints literal)) ! k in
      case collect_candidate t wordLike literal input k (anyEdit state) AnyEdit cands of
        None \<Rightarrow> None
      | Some cands1 \<Rightarrow> (case collect_candidate t wordLike literal input k (noSubstitution state) NoSubstitution cands1 of
          None \<Rightarrow> None
        | Some cands2 \<Rightarrow> collect_from t wordLike literal input ks cands2))"

definition compute_pruned_literal_fuzzy_candidates ::
  "(fuzzy_candidate list \<Rightarrow> fuzzy_candidate list) \<Rightarrow> string \<Rightarrow> string \<Rightarrow> bool \<Rightarrow> fuzzy_candidate list option" where
  "compute_pruned_literal_fuzzy_candidates srt literal input cs =
     (let literalDecoded = decode_text literal; inputDecoded = decode_text input;
          t = fill_table cs (codepoints literalDecoded) (codepoints inputDecoded) in
      map_option (prune_dominated_candidates srt)
        (collect_from t (is_word_like_terminal literal \<and> is_word_like_terminal input) literalDecoded inputDecoded
          [1 ..< length (codepoints inputDecoded) + 1] []))"

subsection \<open>The cache\<close>

definition equals_text :: "string \<Rightarrow> string \<Rightarrow> bool \<Rightarrow> bool" where
  "equals_text lhs rhs cs \<longleftrightarrow> length lhs = length rhs \<and>
     list_all (\<lambda>i. equal_codepoint cs (lhs ! i) (rhs ! i)) [0 ..< length lhs]"

text \<open>The loop of \<open>input_window_has_non_identifier_codepoint\<close>; \<open>e\<close> is where the window ends.\<close>

function window_from :: "string \<Rightarrow> nat \<Rightarrow> nat \<Rightarrow> bool" where
  "window_from s cur e =
     (if cur < e then
        (let len = utf8_codepoint_length (byte_at s cur) in
         if len = 0 \<or> e - cur < len then False
         else if \<not> is_identifier_like_codepoint (decode_utf8_codepoint s cur) then True
         else window_from s (cur + len) e)
      else False)"
  by pat_completeness auto
termination by (relation "measure (\<lambda>(s, cur, e). e - cur)") auto

declare window_from.simps [simp del]

definition input_window_has_non_identifier_codepoint :: "string \<Rightarrow> nat \<Rightarrow> bool" where
  "input_window_has_non_identifier_codepoint input windowBytes = window_from input 0 (min (length input) windowBytes)"

definition has_word_like_local_anchor :: "string \<Rightarrow> string \<Rightarrow> bool \<Rightarrow> bool" where
  "has_word_like_local_anchor literal input cs =
     (if \<not> is_word_like_terminal literal then True
      else let kAnchorWindow = 3; literalWindow = min (length literal) kAnchorWindow;
          inputWindow = min (length input) kAnchorWindow in
        if literalWindow \<le> 1 \<or> inputWindow \<le> 1 then True
        else if input_window_has_non_identifier_codepoint input kAnchorWindow then True
        else list_ex (\<lambda>i. list_ex (\<lambda>j.
            (if i > j then i - j else j - i) \<le> 1 \<and> equal_codepoint cs (literal ! i) (input ! j))
          [0 ..< inputWindow]) [0 ..< literalWindow])"

text \<open>What a miss computes.\<close>

definition compute_on_miss :: "(fuzzy_candidate list \<Rightarrow> fuzzy_candidate list) \<Rightarrow> string \<Rightarrow> string \<Rightarrow> bool \<Rightarrow>
    fuzzy_candidate list option" where
  "compute_on_miss srt literal input cs =
     (if \<not> equals_text literal input cs \<and> has_word_like_local_anchor literal input cs
      then compute_pruned_literal_fuzzy_candidates srt literal input cs else Some [])"

text \<open>A \<open>string_view\<close> is an address and a size; \<open>mem\<close> is the memory the views point into.\<close>

record string_view =
  viewData :: nat
  viewSize :: nat

definition read_view :: "(nat \<Rightarrow> char) \<Rightarrow> string_view \<Rightarrow> string" where
  "read_view mem v = map mem [viewData v ..< viewData v + viewSize v]"

record cache_entry =
  literalData :: nat
  literalSize :: nat
  inputData :: nat
  inputSize' :: nat
  resultData :: "fuzzy_candidate list"
  generation :: nat
  entryCaseSensitive :: bool

record fuzzy_cache =
  entries :: "nat \<Rightarrow> cache_entry"
  liveSlots :: "nat list"

text \<open>The constructor only clears the generations of the raw storage \<open>raw\<close>.\<close>

definition new_fuzzy_cache :: "(nat \<Rightarrow> cache_entry) \<Rightarrow> fuzzy_cache" where
  "new_fuzzy_cache raw = \<lparr>entries = (\<lambda>i. (raw i)\<lparr>generation := 0\<rparr>), liveSlots = []\<rparr>"

definition kSlotCount :: nat where
  "kSlotCount = 4096"

definition fuzzy_cache_slot_index :: "string_view \<Rightarrow> string_view \<Rightarrow> bool \<Rightarrow> nat" where
  "fuzzy_cache_slot_index literal input cs =
     (let literalHash = (of_nat (viewData literal) :: 64 word) XOR (of_nat (viewSize literal) * 0x9E3779B97F4A7C15);
          inputHash = of_nat (viewData input) XOR (of_nat (viewSize input) * 0xBF58476D1CE4E5B9) in
      unat ((literalHash XOR inputHash XOR (if cs then 0xDEADBEEF else 0)) AND of_nat (kSlotCount - 1)))"

definition mark_slot_live :: "nat \<Rightarrow> fuzzy_cache \<Rightarrow> fuzzy_cache" where
  "mark_slot_live i c = c\<lparr>liveSlots := liveSlots c @ [i]\<rparr>"

definition store_pruned_into_slot :: "fuzzy_cache \<Rightarrow> nat \<Rightarrow> string_view \<Rightarrow> string_view \<Rightarrow> bool \<Rightarrow>
    fuzzy_candidate list \<Rightarrow> fuzzy_cache" where
  "store_pruned_into_slot c i literal input cs pruned =
     (let c1 = (if generation (entries c i) \<noteq> 0 then c else mark_slot_live i c) in
      c1\<lparr>entries := (entries c1)(i := \<lparr>literalData = viewData literal, literalSize = viewSize literal,
         inputData = viewData input, inputSize' = viewSize input, resultData = pruned, generation = 1,
         entryCaseSensitive = cs\<rparr>)\<rparr>)"

definition find_literal_fuzzy_candidates_view :: "(fuzzy_candidate list \<Rightarrow> fuzzy_candidate list) \<Rightarrow> (nat \<Rightarrow> char) \<Rightarrow>
    string_view \<Rightarrow> string_view \<Rightarrow> bool \<Rightarrow> fuzzy_cache \<Rightarrow> (fuzzy_candidate list \<times> fuzzy_cache) option" where
  "find_literal_fuzzy_candidates_view srt mem literal input cs c =
     (if viewSize literal = 0 \<or> viewSize input = 0 then Some ([], c)
      else let i = fuzzy_cache_slot_index literal input cs; slot = entries c i in
        if generation slot \<noteq> 0 \<and> literalData slot = viewData literal \<and> literalSize slot = viewSize literal \<and>
           inputData slot = viewData input \<and> inputSize' slot = viewSize input \<and> entryCaseSensitive slot = cs
        then Some (resultData slot, c)
        else map_option (\<lambda>pruned. let c' = store_pruned_into_slot c i literal input cs pruned in
            (resultData (entries c' i), c'))
          (compute_on_miss srt (read_view mem literal) (read_view mem input) cs))"

subsection \<open>The test for a single edit\<close>

text \<open>The length of the longest common prefix, up to \<open>mx\<close>.\<close>

fun common_prefix :: "(nat \<Rightarrow> bool) \<Rightarrow> nat \<Rightarrow> nat \<Rightarrow> nat" where
  "common_prefix eq p 0 = p"
| "common_prefix eq p (Suc n) = (if eq p then common_prefix eq (p + 1) n else p)"

datatype edit_diff = SameLength | OneMore | OneLess

definition try_alignment :: "bool \<Rightarrow> string \<Rightarrow> string \<Rightarrow> nat \<Rightarrow> edit_diff \<Rightarrow> bool" where
  "try_alignment cs literal window K diff =
     (let N = length literal; W = length window in
      if K > W then False
      else let pmax = min N K;
        p = common_prefix (\<lambda>p. equal_codepoint cs (literal ! p) (window ! p)) 0 pmax;
        smax = min (N - p) (K - p);
        sfx = common_prefix (\<lambda>sfx. equal_codepoint cs (literal ! (N - 1 - sfx)) (window ! (K - 1 - sfx))) 0 smax;
        litRemain = N - p - sfx; winRemain = K - p - sfx in
      diff = SameLength \<and> litRemain = 1 \<and> winRemain = 1 \<or>
      diff = OneMore \<and> litRemain = 0 \<and> winRemain = 1 \<or>
      diff = OneLess \<and> litRemain = 1 \<and> winRemain = 0 \<or>
      diff = SameLength \<and> litRemain = 2 \<and> winRemain = 2 \<and> N \<ge> 2 \<and>
        equal_codepoint cs (literal ! p) (window ! (p + 1)) \<and> equal_codepoint cs (literal ! (p + 1)) (window ! p))"

definition literal_has_single_edit_strict_match :: "string \<Rightarrow> string \<Rightarrow> bool \<Rightarrow> bool" where
  "literal_has_single_edit_strict_match literal window cs =
     (let N = length literal; W = length window in
      if N = 0 then False
      else if try_alignment cs literal window N SameLength then True
      else if W \<ge> N + 1 \<and> try_alignment cs literal window (N + 1) OneMore then True
      else N \<ge> 1 \<and> W + 1 \<ge> N \<and> try_alignment cs literal window (N - 1) OneLess)"

end
