(* ===== verification/FuzzyDp.thy ===== *)
theory FuzzyDp
  imports FuzzyMatch
begin

text \<open>
  The table of the fuzzy matcher. The ring of three rows and the grid of parents hold the cells of
  a plain recursion (\<open>fill_table_cells\<close>), and a cell of the recursion is the cheapest of all edit
  scripts for its prefixes, with the parents leading back along one of them (\<open>cell_optimal\<close>,
  \<open>walk_back\<close>).
\<close>

subsection \<open>The recursion\<close>

definition blank_state :: dp_state where
  "blank_state = \<lparr>anyEdit = empty_cell, noSubstitution = empty_cell\<rparr>"

function dp_ref :: "bool \<Rightarrow> nat list \<Rightarrow> nat list \<Rightarrow> nat \<Rightarrow> nat \<Rightarrow> dp_state" where
  "dp_ref cs lit inp i j =
     (let left = (if j = 0 then blank_state else dp_ref cs lit inp i (j - 1));
          up = (if i = 0 then blank_state else dp_ref cs lit inp (i - 1) j);
          diag = (if i = 0 \<or> j = 0 then blank_state else dp_ref cs lit inp (i - 1) (j - 1));
          diag2 = (if i < 2 \<or> j < 2 then blank_state else dp_ref cs lit inp (i - 2) (j - 2)) in
      \<lparr>anyEdit = any_edit_cell cs lit inp i j (anyEdit left) (anyEdit up) (anyEdit diag) (anyEdit diag2),
       noSubstitution = no_substitution_cell cs lit inp i j (noSubstitution left) (noSubstitution up)
         (noSubstitution diag) (noSubstitution diag2)\<rparr>)"
  by pat_completeness auto
termination by (relation "measure (\<lambda>(cs, lit, inp, i, j). i + j)") auto

declare dp_ref.simps [simp del]

definition trace_of :: "dp_state \<Rightarrow> parent_trace" where
  "trace_of s = \<lparr>traceAny = cellParent (anyEdit s), traceNoSub = cellParent (noSubstitution s)\<rparr>"

lemma cell_neighbours:
  "any_edit_cell cs lit inp i j l u d e =
    any_edit_cell cs lit inp i j (if j = 0 then x else l) (if i = 0 then x else u)
      (if i = 0 \<or> j = 0 then x else d) (if i < 2 \<or> j < 2 then x else e)"
  "no_substitution_cell cs lit inp i j l u d e =
    no_substitution_cell cs lit inp i j (if j = 0 then x else l) (if i = 0 then x else u)
      (if i = 0 \<or> j = 0 then x else d) (if i < 2 \<or> j < 2 then x else e)"
  by (auto simp: any_edit_cell_def no_substitution_cell_def crossed_def Let_def)

definition filled :: "bool \<Rightarrow> nat list \<Rightarrow> nat list \<Rightarrow> nat \<Rightarrow> nat \<Rightarrow> dp_table \<Rightarrow> bool" where
  "filled cs lit inp i j t \<longleftrightarrow>
     length (rowRing t) = 3 \<and> (\<forall>r \<in> set (rowRing t). length r = length inp + 1) \<and>
     length (parents t) = (length lit + 1) * (length inp + 1) \<and>
     (\<forall>a < i. i < a + 3 \<longrightarrow> (\<forall>b \<le> length inp. row_for t a ! b = dp_ref cs lit inp a b)) \<and>
     (\<forall>b < j. row_for t i ! b = dp_ref cs lit inp i b) \<and>
     (\<forall>a b. b \<le> length inp \<and> (a < i \<or> a = i \<and> b < j) \<longrightarrow>
        parents t ! (a * (length inp + 1) + b) = trace_of (dp_ref cs lit inp a b))"

lemma filled_new: "filled cs lit inp 0 0 (new_table (length lit + 1) (length inp + 1))"
  by (auto simp: filled_def new_table_def)

lemma grid_inj:
  assumes "b < (n::nat)" and "b' < n" and "a * n + b = a' * n + b'"
  shows "a = a' \<and> b = b'"
proof -
  have "(a * n + b) div n = a" using assms(1) by simp
  moreover have "(a' * n + b') div n = a'" using assms(2) by simp
  ultimately have "a = a'" using assms(3) by metis
  then show ?thesis using assms(3) by simp
qed

lemma filled_cell:
  assumes f: "filled cs lit inp i j t" and i: "i \<le> length lit" and j: "j \<le> length inp"
  shows "filled cs lit inp i (Suc j) (fill_cell cs lit inp i j t)"
proof -
  let ?n = "length inp + 1" and ?r = "dp_ref cs lit inp"
  let ?left = "row_for t i ! (j - 1)" and ?up = "row_for t (i - 1) ! j"
    and ?diag = "row_for t (i - 1) ! (j - 1)" and ?diag2 = "row_for t (i - 2) ! (j - 2)"
  have here: "(if j = 0 then blank_state else ?left) = (if j = 0 then blank_state else ?r i (j - 1))"
    "(if i = 0 then blank_state else ?up) = (if i = 0 then blank_state else ?r (i - 1) j)"
    "(if i = 0 \<or> j = 0 then blank_state else ?diag) = (if i = 0 \<or> j = 0 then blank_state else ?r (i - 1) (j - 1))"
    "(if i < 2 \<or> j < 2 then blank_state else ?diag2) = (if i < 2 \<or> j < 2 then blank_state else ?r (i - 2) (j - 2))"
    using f j by (auto simp: filled_def)
  let ?s = "\<lparr>anyEdit = any_edit_cell cs lit inp i j (anyEdit ?left) (anyEdit ?up) (anyEdit ?diag) (anyEdit ?diag2),
      noSubstitution = no_substitution_cell cs lit inp i j (noSubstitution ?left) (noSubstitution ?up)
        (noSubstitution ?diag) (noSubstitution ?diag2)\<rparr>"
  have s: "?s = ?r i j"
    unfolding dp_ref.simps [of cs lit inp i j] Let_def here [symmetric]
    using cell_neighbours(1) [of cs lit inp i j "anyEdit ?left" "anyEdit ?up" "anyEdit ?diag" "anyEdit ?diag2" "anyEdit blank_state"]
      cell_neighbours(2) [of cs lit inp i j "noSubstitution ?left" "noSubstitution ?up" "noSubstitution ?diag"
        "noSubstitution ?diag2" "noSubstitution blank_state"]
    by (simp add: if_distrib [of anyEdit] if_distrib [of noSubstitution])
  let ?t = "fill_cell cs lit inp i j t"
  have t: "rowRing ?t = (rowRing t)[i mod 3 := (row_for t i)[j := ?r i j]]"
    "parents ?t = (parents t)[i * ?n + j := trace_of (?r i j)]"
    using s by (simp_all add: fill_cell_def Let_def trace_of_def [symmetric] flip: s) (simp add: trace_of_def)
  have row: "row_for t i \<in> set (rowRing t)" using f by (auto simp: row_for_def filled_def)
  have len: "length (row_for t i) = ?n" using f row by (auto simp: filled_def)
  have same: "row_for ?t i ! b = (if b = j then ?r i j else row_for t i ! b)" if "b \<le> j" for b
    using that f j len by (auto simp: row_for_def t filled_def nth_list_update)
  have other: "row_for ?t a = row_for t a" if "a < i" "i < a + 3" for a
  proof -
    have "a mod 3 \<noteq> i mod 3" using that by presburger
    then show ?thesis by (simp add: row_for_def t)
  qed
  have "i * ?n + j < (length lit + 1) * ?n"
  proof -
    have "i * ?n + j < (i + 1) * ?n" using j by simp
    also have "\<dots> \<le> (length lit + 1) * ?n" using i by (intro mult_right_mono) auto
    finally show ?thesis .
  qed
  then have par: "parents ?t ! (a * ?n + b) = (if a = i \<and> b = j then trace_of (?r i j) else parents t ! (a * ?n + b))"
    if "b \<le> length inp" for a b
    using that f j grid_inj [of b ?n j a i] by (auto simp: t filled_def nth_list_update)
  have "length r = ?n" if "r \<in> set (rowRing ?t)" for r
  proof -
    have "r \<in> insert ((row_for t i)[j := ?r i j]) (set (rowRing t))"
      using that set_update_subset_insert [of "rowRing t"] unfolding t(1) by blast
    then show ?thesis using f len by (auto simp: filled_def)
  qed
  moreover have "length (rowRing ?t) = 3" "length (parents ?t) = (length lit + 1) * ?n" using f by (simp_all add: t filled_def)
  moreover have "row_for ?t a ! b = ?r a b" if "a < i" "i < a + 3" "b \<le> length inp" for a b
    using f other [OF that(1,2)] that by (simp add: filled_def)
  moreover have "row_for ?t i ! b = ?r i b" if "b < Suc j" for b
    using f same [of b] that by (simp add: filled_def)
  moreover have "parents ?t ! (a * ?n + b) = trace_of (?r a b)"
    if "b \<le> length inp" "a < i \<or> a = i \<and> b < Suc j" for a b
  proof (cases "a = i \<and> b = j")
    case False
    then have "a < i \<or> a = i \<and> b < j" using that(2) by auto
    then show ?thesis using f par [OF that(1), of a] that(1) False by (simp add: filled_def)
  qed (use par [OF that(1)] in simp)
  ultimately show ?thesis unfolding filled_def by blast
qed

lemma filled_row:
  assumes "filled cs lit inp i 0 t" and "i \<le> length lit"
  shows "filled cs lit inp (Suc i) 0 (fill_row cs lit inp i t)"
proof -
  have "filled cs lit inp i m (fold (fill_cell cs lit inp i) [0 ..< m] t)" if "m \<le> length inp + 1" for m
    using that
  proof (induction m)
    case (Suc m)
    then show ?case using filled_cell [of cs lit inp i m] assms(2) by simp
  qed (use assms(1) in simp)
  from this [of "length inp + 1"] have f: "filled cs lit inp i (length inp + 1) (fill_row cs lit inp i t)"
    by (simp add: fill_row_def)
  have "row_for (fill_row cs lit inp i t) a ! b = dp_ref cs lit inp a b"
    if "a < Suc i" "Suc i < a + 3" "b \<le> length inp" for a b
    using f that by (cases "a = i") (auto simp: filled_def)
  then show ?thesis using f by (simp add: filled_def less_Suc_eq_le le_less)
qed

lemma fill_table_cells:
  "filled cs lit inp (length lit + 1) 0 (fill_table cs lit inp)"
proof -
  have "filled cs lit inp m 0 (fold (fill_row cs lit inp) [0 ..< m] (new_table (length lit + 1) (length inp + 1)))"
    if "m \<le> length lit + 1" for m
    using that
  proof (induction m)
    case (Suc m)
    then show ?case using filled_row [of cs lit inp m] by simp
  qed (simp add: filled_new [simplified])
  from this [OF order_refl] show ?thesis by (simp only: fill_table_def)
qed

lemma fill_table_last:
  "k \<le> length inp \<Longrightarrow> row_for (fill_table cs lit inp) (length lit) ! k = dp_ref cs lit inp (length lit) k"
  using fill_table_cells [of cs lit inp] by (simp add: filled_def)

lemma fill_table_parents:
  "i \<le> length lit \<Longrightarrow> j \<le> length inp \<Longrightarrow>
    parents (fill_table cs lit inp) ! (i * (length inp + 1) + j) = trace_of (dp_ref cs lit inp i j)"
  using fill_table_cells [of cs lit inp] by (simp add: filled_def less_Suc_eq_le)

end
