(* ===== verification/FuzzyEdit.thy ===== *)
theory FuzzyEdit
  imports FuzzyDp
begin

text \<open>
  Edit scripts, the specification of the fuzzy matcher's table: a script aligns a prefix of the
  literal with a prefix of the input, read backwards, and the cell for the two prefixes holds the
  cost of the cheapest one.
\<close>

subsection \<open>Scripts\<close>

datatype edit = EMatch | ESubstitute | EInsert | EDelete | ETranspose

fun parent_of :: "edit \<Rightarrow> parent_op" where
  "parent_of EMatch = ParentMatch"
| "parent_of ESubstitute = ParentSubstitute"
| "parent_of EInsert = ParentInsert"
| "parent_of EDelete = ParentDelete"
| "parent_of ETranspose = ParentTranspose"

definition head_parent :: "edit list \<Rightarrow> parent_op" where
  "head_parent es = (case es of [] \<Rightarrow> ParentNone | e # _ \<Rightarrow> parent_of e)"

fun edit_weight :: "edit \<Rightarrow> nat" where
  "edit_weight EMatch = 0"
| "edit_weight ESubstitute = 2"
| "edit_weight EInsert = 1"
| "edit_weight EDelete = 4"
| "edit_weight ETranspose = 2"

definition script_weight :: "edit list \<Rightarrow> nat" where
  "script_weight es = sum_list (map edit_weight es)"

definition script_edits :: "edit list \<Rightarrow> nat" where
  "script_edits es = length (filter (\<lambda>e. e \<noteq> EMatch) es)"

text \<open>\<open>sub\<close> says whether the script may substitute.\<close>

fun aligns :: "bool \<Rightarrow> bool \<Rightarrow> nat list \<Rightarrow> nat list \<Rightarrow> edit list \<Rightarrow> nat \<Rightarrow> nat \<Rightarrow> bool" where
  "aligns sub cs lit inp [] i j = (i = 0 \<and> j = 0)"
| "aligns sub cs lit inp (EMatch # es) i j = (0 < i \<and> 0 < j \<and>
     equal_decoded_codepoint cs (lit ! (i - 1)) (inp ! (j - 1)) \<and> aligns sub cs lit inp es (i - 1) (j - 1))"
| "aligns sub cs lit inp (ESubstitute # es) i j = (sub \<and> 0 < i \<and> 0 < j \<and> aligns sub cs lit inp es (i - 1) (j - 1))"
| "aligns sub cs lit inp (EInsert # es) i j = (0 < i \<and> aligns sub cs lit inp es (i - 1) j)"
| "aligns sub cs lit inp (EDelete # es) i j = (0 < j \<and> aligns sub cs lit inp es i (j - 1))"
| "aligns sub cs lit inp (ETranspose # es) i j = (crossed cs lit inp i j \<and> aligns sub cs lit inp es (i - 2) (j - 2))"

definition scripts :: "bool \<Rightarrow> bool \<Rightarrow> nat list \<Rightarrow> nat list \<Rightarrow> nat \<Rightarrow> nat \<Rightarrow> edit list set" where
  "scripts sub cs lit inp i j = {es. aligns sub cs lit inp es i j}"

lemma script_simps [simp]:
  "script_weight [] = 0" "script_weight (e # es) = edit_weight e + script_weight es"
  "script_edits [] = 0" "script_edits (e # es) = (if e = EMatch then 0 else 1) + script_edits es"
  by (simp_all add: script_weight_def script_edits_def)

lemma script_bounds:
  "aligns sub cs lit inp es i j \<Longrightarrow> script_edits es \<le> i + j \<and> script_weight es \<le> 4 * i + 4 * j"
proof (induction sub cs lit inp es i j rule: aligns.induct)
  case (6 sub cs lit inp es i j)
  then have "2 \<le> i" "2 \<le> j" "script_edits es \<le> i - 2 + (j - 2)" "script_weight es \<le> 4 * (i - 2) + 4 * (j - 2)"
    by (simp_all add: crossed_def)
  moreover obtain a b where "i = 2 + a" "j = 2 + b" using calculation(1,2) le_Suc_ex by metis
  ultimately show ?case by simp
qed auto

lemma scripts_nonempty: "scripts sub cs lit inp i j \<noteq> {}"
proof -
  have "aligns sub cs lit inp (replicate i EInsert @ replicate j EDelete) i j"
  proof (induction i)
    case 0
    show ?case by (induction j) auto
  qed simp
  then show ?thesis by (auto simp: scripts_def)
qed

subsection \<open>The cheapest script\<close>

definition cheaper :: "nat \<times> nat \<Rightarrow> nat \<times> nat \<Rightarrow> bool" where
  "cheaper a b \<longleftrightarrow> fst a < fst b \<or> fst a = fst b \<and> snd a \<le> snd b"

abbreviation script_cost :: "edit list \<Rightarrow> nat \<times> nat" where
  "script_cost es \<equiv> (script_weight es, script_edits es)"

abbreviation cell_cost :: "dp_cell \<Rightarrow> nat \<times> nat" where
  "cell_cost c \<equiv> (weightedCost c, operations c)"

lemma cheaper_trans: "cheaper a b \<Longrightarrow> cheaper b c \<Longrightarrow> cheaper a c"
  by (auto simp: cheaper_def)

lemma cheaper_refl [simp]: "cheaper a a"
  by (simp add: cheaper_def)

lemma cheaper_antisym: "cheaper a b \<Longrightarrow> cheaper b a \<Longrightarrow> a = b"
  by (cases a; cases b) (auto simp: cheaper_def)

text \<open>\<open>picks S c\<close>: the cell is the cheapest of the scripts \<open>S\<close> with its last edit as parent.\<close>

definition picks :: "edit list set \<Rightarrow> dp_cell \<Rightarrow> bool" where
  "picks S c \<longleftrightarrow> (if S = {} then c = empty_cell
     else operations c < kNoMatch \<and> (\<exists>es \<in> S. head_parent es = cellParent c \<and> script_cost es = cell_cost c) \<and>
       (\<forall>es \<in> S. cheaper (cell_cost c) (script_cost es)))"

definition prefixed :: "edit \<Rightarrow> edit list set \<Rightarrow> edit list set" where
  "prefixed e S = (\<lambda>es. e # es) ` S"

lemma picksI:
  "es \<in> S \<Longrightarrow> head_parent es = cellParent c \<Longrightarrow> script_cost es = cell_cost c \<Longrightarrow> operations c < kNoMatch \<Longrightarrow>
    (\<And>fs. fs \<in> S \<Longrightarrow> cheaper (cell_cost c) (script_cost fs)) \<Longrightarrow> picks S c"
  by (auto simp: picks_def)

lemma picksD:
  assumes "picks S c" and "S \<noteq> {}"
  obtains es where "es \<in> S" "head_parent es = cellParent c" "script_cost es = cell_cost c" "operations c < kNoMatch"
    "\<And>fs. fs \<in> S \<Longrightarrow> cheaper (cell_cost c) (script_cost fs)"
  using assms unfolding picks_def by (metis (no_types, lifting))

lemma picks_consider:
  assumes best: "picks S best" and cand: "picks T cand" "T \<noteq> {}"
    and od: "od = (if e = EMatch then 0 else 1)" and wd: "wd = edit_weight e" and par: "par = parent_of e"
    and small: "operations cand + 1 < kNoMatch" "weightedCost cand + 4 \<le> u32_max"
  shows "picks (S \<union> prefixed e T) (consider_transition best cand par od wd)"
proof -
  let ?nxt = "\<lparr>operations = operations cand + od, weightedCost = weightedCost cand + wd, cellParent = par\<rparr>"
  have no: "operations cand \<noteq> kNoMatch" using small by simp
  have "wd \<le> 4" using wd by (cases e) simp_all
  moreover have "kNoMatch \<le> u32_max" by (simp add: kNoMatch_def)
  ultimately have u: "u32 (operations cand + od) = operations cand + od" "u32 (weightedCost cand + wd) = weightedCost cand + wd"
    using small od by (auto simp: u32_id)
  have c: "consider_transition best cand par od wd =
      (if operations best = kNoMatch \<or> is_better_cell ?nxt best then ?nxt else best)"
    using no by (simp add: consider_transition_def u Let_def)
  obtain es where es: "es \<in> T" "script_cost es = cell_cost cand" and least: "\<forall>es \<in> T. cheaper (cell_cost cand) (script_cost es)"
    using cand by (auto simp: picks_def)
  have nxt: "e # es \<in> prefixed e T" "head_parent (e # es) = par" "script_cost (e # es) = cell_cost ?nxt"
    using es od wd par by (auto simp: prefixed_def head_parent_def)
  have nxt_least: "cheaper (cell_cost ?nxt) (script_cost fs)" if "fs \<in> prefixed e T" for fs
    using that least od wd by (auto simp: prefixed_def cheaper_def)
  have small': "operations ?nxt < kNoMatch" using small od by simp
  show ?thesis
  proof (cases "operations best = kNoMatch \<or> is_better_cell ?nxt best")
    case True
    have "cheaper (cell_cost ?nxt) (script_cost fs)" if "fs \<in> S" for fs
    proof -
      have "S \<noteq> {}" using that by blast
      then have b: "operations best < kNoMatch" "cheaper (cell_cost best) (script_cost fs)"
        using best that by (auto simp: picks_def)
      then have "cheaper (cell_cost ?nxt) (cell_cost best)" using True by (auto simp: is_better_cell_def cheaper_def split: if_splits)
      then show ?thesis using b(2) cheaper_trans by blast
    qed
    note s_least = this
    have "picks (S \<union> prefixed e T) ?nxt"
    proof (rule picksI [OF UnI2 [OF nxt(1)]])
      show "cheaper (cell_cost ?nxt) (script_cost fs)" if "fs \<in> S \<union> prefixed e T" for fs
        using that s_least nxt_least by blast
    qed (use nxt small' in simp_all)
    then show ?thesis using True c by simp
  next
    case False
    then have "S \<noteq> {}" using best by (auto simp: picks_def empty_cell_def)
    then obtain fs where fs: "fs \<in> S" "head_parent fs = cellParent best" "script_cost fs = cell_cost best"
        "operations best < kNoMatch" "\<And>gs. gs \<in> S \<Longrightarrow> cheaper (cell_cost best) (script_cost gs)"
      using picksD [OF best] by blast
    have "cheaper (cell_cost best) (cell_cost ?nxt)" using False by (auto simp: is_better_cell_def cheaper_def split: if_splits)
    then have "picks (S \<union> prefixed e T) best"
      using nxt_least fs(5) cheaper_trans by (intro picksI [OF UnI1 [OF fs(1)] fs(2-4)]) blast
    then show ?thesis using False c by simp
  qed
qed

lemma picks_empty: "picks {} empty_cell"
  by (simp add: picks_def)

subsection \<open>Scripts by their last edit\<close>

lemma scripts_split:
  "scripts sub cs lit inp 0 0 = {[]}"
  "0 < j \<Longrightarrow> scripts sub cs lit inp 0 j = prefixed EDelete (scripts sub cs lit inp 0 (j - 1))"
  "0 < i \<Longrightarrow> scripts sub cs lit inp i 0 = prefixed EInsert (scripts sub cs lit inp (i - 1) 0)"
  "0 < i \<Longrightarrow> 0 < j \<Longrightarrow> scripts sub cs lit inp i j =
     (if equal_decoded_codepoint cs (lit ! (i - 1)) (inp ! (j - 1))
      then prefixed EMatch (scripts sub cs lit inp (i - 1) (j - 1)) else {}) \<union>
     (if sub then prefixed ESubstitute (scripts sub cs lit inp (i - 1) (j - 1)) else {}) \<union>
     prefixed EInsert (scripts sub cs lit inp (i - 1) j) \<union> prefixed EDelete (scripts sub cs lit inp i (j - 1)) \<union>
     (if crossed cs lit inp i j then prefixed ETranspose (scripts sub cs lit inp (i - 2) (j - 2)) else {})"
proof -
  have mem: "es \<in> prefixed e (scripts sub cs lit inp a b) \<longleftrightarrow> (\<exists>fs. es = e # fs \<and> aligns sub cs lit inp fs a b)" for es e a b
    by (auto simp: prefixed_def scripts_def)
  have cons: "es = [] \<or> (\<exists>e fs. es = e # fs)" for es :: "edit list" by (cases es) auto
  show "scripts sub cs lit inp 0 0 = {[]}"
  proof (rule set_eqI)
    fix es show "es \<in> scripts sub cs lit inp 0 0 \<longleftrightarrow> es \<in> {[]}"
    proof (cases es)
      case (Cons e fs)
      then show ?thesis by (cases e) (auto simp: scripts_def crossed_def)
    qed (simp add: scripts_def)
  qed
  show "scripts sub cs lit inp 0 j = prefixed EDelete (scripts sub cs lit inp 0 (j - 1))" if "0 < j"
  proof (rule set_eqI)
    fix es show "es \<in> scripts sub cs lit inp 0 j \<longleftrightarrow> es \<in> prefixed EDelete (scripts sub cs lit inp 0 (j - 1))"
    proof (cases es)
      case (Cons e fs)
      then show ?thesis unfolding mem using that by (cases e) (auto simp: scripts_def crossed_def)
    qed (use that in \<open>simp add: mem, simp add: scripts_def\<close>)
  qed
  show "scripts sub cs lit inp i 0 = prefixed EInsert (scripts sub cs lit inp (i - 1) 0)" if "0 < i"
  proof (rule set_eqI)
    fix es show "es \<in> scripts sub cs lit inp i 0 \<longleftrightarrow> es \<in> prefixed EInsert (scripts sub cs lit inp (i - 1) 0)"
    proof (cases es)
      case (Cons e fs)
      then show ?thesis unfolding mem using that by (cases e) (auto simp: scripts_def crossed_def)
    qed (use that in \<open>simp add: mem, simp add: scripts_def\<close>)
  qed
  assume ij: "0 < i" "0 < j"
  show "scripts sub cs lit inp i j =
     (if equal_decoded_codepoint cs (lit ! (i - 1)) (inp ! (j - 1))
      then prefixed EMatch (scripts sub cs lit inp (i - 1) (j - 1)) else {}) \<union>
     (if sub then prefixed ESubstitute (scripts sub cs lit inp (i - 1) (j - 1)) else {}) \<union>
     prefixed EInsert (scripts sub cs lit inp (i - 1) j) \<union> prefixed EDelete (scripts sub cs lit inp i (j - 1)) \<union>
     (if crossed cs lit inp i j then prefixed ETranspose (scripts sub cs lit inp (i - 2) (j - 2)) else {})"
    (is "?l = ?r")
  proof (rule set_eqI)
    fix es show "es \<in> ?l \<longleftrightarrow> es \<in> ?r"
    proof (cases es)
      case (Cons e fs)
      then show ?thesis unfolding Un_iff if_distrib [of "\<lambda>S. es \<in> S"] mem using ij
        by (cases e) (simp_all add: scripts_def)
    qed (use ij in \<open>simp add: scripts_def prefixed_def image_iff\<close>)
  qed
qed


subsection \<open>Cells hold the cheapest script\<close>

definition lane_cell :: "bool \<Rightarrow> dp_state \<Rightarrow> dp_cell" where
  "lane_cell sub s = (if sub then anyEdit s else noSubstitution s)"

lemma cheapest_is_small:
  assumes "picks (scripts sub cs lit inp i j) c" and "4 * (i + j) < 2 ^ 29"
  shows "operations c + 1 < kNoMatch \<and> weightedCost c + 4 \<le> u32_max"
proof -
  obtain es where "es \<in> scripts sub cs lit inp i j" "script_cost es = cell_cost c"
    using picksD [OF assms(1) scripts_nonempty] by blast
  then have "operations c \<le> i + j \<and> weightedCost c \<le> 4 * i + 4 * j"
    using script_bounds [of sub cs lit inp es i j] by (auto simp: scripts_def)
  then show ?thesis using assms(2) by (simp add: kNoMatch_def u32_max_def)
qed

lemma picks_prefixed:
  assumes "picks S best" and "picks (scripts sub cs lit inp i j) c" and "4 * (i + j) < 2 ^ 29"
    and "od = (if e = EMatch then 0 else 1)" and "wd = edit_weight e" and "par = parent_of e"
  shows "picks (S \<union> prefixed e (scripts sub cs lit inp i j)) (consider_transition best c par od wd)"
  using picks_consider [OF assms(1,2) scripts_nonempty assms(4-6)] cheapest_is_small [OF assms(2,3)] by blast

lemmas cost_defs = kInsertionCost_def kDeletionCost_def kSubstitutionCost_def kTranspositionCost_def

text \<open>A cell of either lane, from neighbours that hold the cheapest scripts.\<close>

lemma lane_picks:
  assumes small: "4 * (i + j) < 2 ^ 29"
    and left: "0 < j \<Longrightarrow> picks (scripts sub cs lit inp i (j - 1)) l"
    and up: "0 < i \<Longrightarrow> picks (scripts sub cs lit inp (i - 1) j) u"
    and diag: "0 < i \<Longrightarrow> 0 < j \<Longrightarrow> picks (scripts sub cs lit inp (i - 1) (j - 1)) d"
    and diag2: "2 \<le> i \<Longrightarrow> 2 \<le> j \<Longrightarrow> picks (scripts sub cs lit inp (i - 2) (j - 2)) d2"
  shows "picks (scripts sub cs lit inp i j)
    ((if sub then any_edit_cell else no_substitution_cell) cs lit inp i j l u d d2)"
proof -
  consider (origin) "i = 0" "j = 0" | (row) "i = 0" "0 < j" | (column) "0 < i" "j = 0" | (inner) "0 < i" "0 < j" by auto
  then show ?thesis
  proof cases
    case origin
    then show ?thesis
      by (auto simp: any_edit_cell_def no_substitution_cell_def scripts_split(1) picks_def head_parent_def kNoMatch_def u32_max_def)
  next
    case row
    have "picks ({} \<union> prefixed EDelete (scripts sub cs lit inp 0 (j - 1))) (consider_transition empty_cell l ParentDelete 1 kDeletionCost)"
      by (rule picks_prefixed [OF picks_empty]) (use left row small in \<open>simp_all add: cost_defs\<close>)
    then show ?thesis using row by (cases sub) (simp_all add: any_edit_cell_def no_substitution_cell_def scripts_split(2))
  next
    case column
    have "picks ({} \<union> prefixed EInsert (scripts sub cs lit inp (i - 1) 0)) (consider_transition empty_cell u ParentInsert 1 kInsertionCost)"
      by (rule picks_prefixed [OF picks_empty]) (use up column small in \<open>simp_all add: cost_defs\<close>)
    then show ?thesis using column by (cases sub) (simp_all add: any_edit_cell_def no_substitution_cell_def scripts_split(3))
  next
    case inner
    let ?eq = "equal_decoded_codepoint cs (lit ! (i - 1)) (inp ! (j - 1))" and ?sc = "scripts sub cs lit inp"
    let ?S0 = "if ?eq then prefixed EMatch (?sc (i - 1) (j - 1)) else {}"
    let ?b0 = "if ?eq then consider_transition empty_cell d ParentMatch 0 0 else empty_cell"
    have dg: "picks (?sc (i - 1) (j - 1)) d" "4 * (i - 1 + (j - 1)) < 2 ^ 29" using diag inner small by auto
    have "picks ({} \<union> prefixed EMatch (?sc (i - 1) (j - 1))) (consider_transition empty_cell d ParentMatch 0 0)"
      by (rule picks_prefixed [OF picks_empty dg]) simp_all
    then have p0: "picks ?S0 ?b0" by (simp add: picks_empty)
    let ?S1 = "?S0 \<union> (if sub then prefixed ESubstitute (?sc (i - 1) (j - 1)) else {})"
    let ?b1 = "if sub then consider_transition ?b0 d ParentSubstitute 1 kSubstitutionCost else ?b0"
    have p1: "picks ?S1 ?b1"
    proof (cases sub)
      case True
      have "picks (?S0 \<union> prefixed ESubstitute (?sc (i - 1) (j - 1))) (consider_transition ?b0 d ParentSubstitute 1 kSubstitutionCost)"
        by (rule picks_prefixed [OF p0 dg]) (simp_all add: cost_defs)
      then show ?thesis using True by simp
    qed (use p0 in simp)
    let ?b2 = "consider_transition ?b1 u ParentInsert 1 kInsertionCost"
    have p2: "picks (?S1 \<union> prefixed EInsert (?sc (i - 1) j)) ?b2"
      by (rule picks_prefixed [OF p1]) (use up inner small in \<open>simp_all add: cost_defs\<close>)
    let ?b3 = "consider_transition ?b2 l ParentDelete 1 kDeletionCost"
    have p3: "picks (?S1 \<union> prefixed EInsert (?sc (i - 1) j) \<union> prefixed EDelete (?sc i (j - 1))) ?b3"
      by (rule picks_prefixed [OF p2]) (use left inner small in \<open>simp_all add: cost_defs\<close>)
    let ?b4 = "if crossed cs lit inp i j then consider_transition ?b3 d2 ParentTranspose 1 kTranspositionCost else ?b3"
    have p4: "picks (?sc i j) ?b4"
    proof (cases "crossed cs lit inp i j")
      case True
      then have ij: "2 \<le> i" "2 \<le> j" by (simp_all add: crossed_def)
      have "picks (?S1 \<union> prefixed EInsert (?sc (i - 1) j) \<union> prefixed EDelete (?sc i (j - 1)) \<union>
          prefixed ETranspose (?sc (i - 2) (j - 2))) (consider_transition ?b3 d2 ParentTranspose 1 kTranspositionCost)"
        by (rule picks_prefixed [OF p3 diag2 [OF ij]]) (use ij small in \<open>simp_all add: cost_defs\<close>)
      then show ?thesis using True scripts_split(4) [OF inner] by simp
    qed (use p3 scripts_split(4) [OF inner] in simp)
    have "(if sub then any_edit_cell else no_substitution_cell) cs lit inp i j l u d d2 = ?b4"
      using inner by (simp add: any_edit_cell_def no_substitution_cell_def Let_def)
    then show ?thesis using p4 by simp
  qed
qed

lemma cell_optimal:
  "4 * (i + j) < 2 ^ 29 \<Longrightarrow> picks (scripts sub cs lit inp i j) (lane_cell sub (dp_ref cs lit inp i j))"
proof (induction cs lit inp i j rule: dp_ref.induct)
  case (1 cs lit inp i j)
  have "lane_cell sub (dp_ref cs lit inp i j) = (if sub then any_edit_cell else no_substitution_cell) cs lit inp i j
      (lane_cell sub (if j = 0 then blank_state else dp_ref cs lit inp i (j - 1)))
      (lane_cell sub (if i = 0 then blank_state else dp_ref cs lit inp (i - 1) j))
      (lane_cell sub (if i = 0 \<or> j = 0 then blank_state else dp_ref cs lit inp (i - 1) (j - 1)))
      (lane_cell sub (if i < 2 \<or> j < 2 then blank_state else dp_ref cs lit inp (i - 2) (j - 2)))"
    unfolding dp_ref.simps [of cs lit inp i j] Let_def by (simp add: lane_cell_def)
  also have "picks (scripts sub cs lit inp i j) \<dots>"
  proof (rule lane_picks [OF 1(5)])
    show "picks (scripts sub cs lit inp i (j - 1)) (lane_cell sub (if j = 0 then blank_state else dp_ref cs lit inp i (j - 1)))"
      if "0 < j" using 1(1) 1(5) that by simp
    show "picks (scripts sub cs lit inp (i - 1) j) (lane_cell sub (if i = 0 then blank_state else dp_ref cs lit inp (i - 1) j))"
      if "0 < i" using 1(2) 1(5) that by simp
    show "picks (scripts sub cs lit inp (i - 1) (j - 1))
        (lane_cell sub (if i = 0 \<or> j = 0 then blank_state else dp_ref cs lit inp (i - 1) (j - 1)))"
      if "0 < i" "0 < j" using 1(3) 1(5) that by simp
    show "picks (scripts sub cs lit inp (i - 2) (j - 2))
        (lane_cell sub (if i < 2 \<or> j < 2 then blank_state else dp_ref cs lit inp (i - 2) (j - 2)))"
      if "2 \<le> i" "2 \<le> j" using 1(4) 1(5) that by simp
  qed
  finally show ?case .
qed


lemma cell_least:
  assumes "4 * (i + j) < 2 ^ 29" and "es \<in> scripts sub cs lit inp i j"
  shows "cheaper (cell_cost (lane_cell sub (dp_ref cs lit inp i j))) (script_cost es)"
  using picksD [OF cell_optimal [OF assms(1)] scripts_nonempty] assms(2) by blast

subsection \<open>The walk back\<close>

definition add_edits :: "edit list \<Rightarrow> fuzzy_candidate \<Rightarrow> fuzzy_candidate" where
  "add_edits es c = c\<lparr>insertionCount := insertionCount c + count_list es EInsert,
     deletionCount := deletionCount c + count_list es EDelete,
     substitutionCount := substitutionCount c + count_list es ESubstitute,
     transpositionCount := transpositionCount c + count_list es ETranspose\<rparr>"

lemma add_edits_simps:
  "add_edits [] c = c"
  "add_edits (EMatch # es) c = add_edits es c"
  "add_edits (ESubstitute # es) c = add_edits es (c\<lparr>substitutionCount := substitutionCount c + 1\<rparr>)"
  "add_edits (EInsert # es) c = add_edits es (c\<lparr>insertionCount := insertionCount c + 1\<rparr>)"
  "add_edits (EDelete # es) c = add_edits es (c\<lparr>deletionCount := deletionCount c + 1\<rparr>)"
  "add_edits (ETranspose # es) c = add_edits es (c\<lparr>transpositionCount := transpositionCount c + 1\<rparr>)"
  by (simp_all add: add_edits_def)

lemma edits_counted:
  "script_edits es = count_list es EInsert + count_list es EDelete + count_list es ESubstitute + count_list es ETranspose"
proof (induction es)
  case (Cons e es)
  then show ?case by (cases e) auto
qed simp

lemma walk_back:
  assumes par: "\<And>a b. a \<le> i \<Longrightarrow> b \<le> j \<Longrightarrow> parent_at a b = cellParent (lane_cell sub (dp_ref cs lit inp a b))"
    and small: "4 * (i + j) < 2 ^ 29"
  shows "\<exists>es \<in> scripts sub cs lit inp i j. script_cost es = cell_cost (lane_cell sub (dp_ref cs lit inp i j)) \<and>
    reconstruct_from parent_at i j c = Some (add_edits es c)"
  using par small
proof (induction "i + j" arbitrary: i j c rule: less_induct)
  case less
  let ?cell = "\<lambda>a b. lane_cell sub (dp_ref cs lit inp a b)"
  obtain es where es: "es \<in> scripts sub cs lit inp i j" "head_parent es = cellParent (?cell i j)" "script_cost es = cell_cost (?cell i j)"
      and least: "\<And>fs. fs \<in> scripts sub cs lit inp i j \<Longrightarrow> cheaper (cell_cost (?cell i j)) (script_cost fs)"
    using picksD [OF cell_optimal [OF less.prems(2)] scripts_nonempty] by blast
  show ?case
  proof (cases es)
    case Nil
    then have "i = 0" "j = 0" using es(1) by (simp_all add: scripts_def)
    then show ?thesis using es Nil by (intro bexI [OF _ es(1)]) (simp add: reconstruct_from.simps add_edits_simps)
  next
    case (Cons e fs)
    have at: "parent_at i j = parent_of e" using less.prems(1) [of i j] es(2) Cons by (simp add: head_parent_def)
    have step: ?thesis if lt: "a + b < i + j" and ab: "a \<le> i" "b \<le> j" and fs: "fs \<in> scripts sub cs lit inp a b"
        and pre: "\<And>gs. gs \<in> scripts sub cs lit inp a b \<Longrightarrow> e # gs \<in> scripts sub cs lit inp i j"
        and walk: "\<And>gs. reconstruct_from parent_at a b c' = Some (add_edits gs c') \<Longrightarrow>
          reconstruct_from parent_at i j c = Some (add_edits (e # gs) c)" for a b c'
    proof -
      have small': "4 * (a + b) < 2 ^ 29" using lt less.prems(2) by simp
      have par_ab: "parent_at a' b' = cellParent (?cell a' b')" if "a' \<le> a" "b' \<le> b" for a' b'
        using less.prems(1) [of a' b'] that ab by simp
      obtain gs where gs: "gs \<in> scripts sub cs lit inp a b" "script_cost gs = cell_cost (?cell a b)"
          "reconstruct_from parent_at a b c' = Some (add_edits gs c')"
        using less.hyps [OF lt par_ab small', of c'] by blast
      have "cheaper (script_cost gs) (script_cost fs)"
        using cell_least [OF small' fs] gs(2) by simp
      then have "cheaper (script_cost (e # gs)) (script_cost (e # fs))" by (auto simp: cheaper_def)
      moreover have "cheaper (script_cost (e # fs)) (script_cost (e # gs))" using least [OF pre [OF gs(1)]] es(3) Cons by simp
      ultimately have "script_cost (e # gs) = cell_cost (?cell i j)" using cheaper_antisym es(3) Cons by metis
      then show ?thesis using pre [OF gs(1)] walk [OF gs(3)] by blast
    qed
    have al: "aligns sub cs lit inp (e # fs) i j" using es(1) Cons by (simp add: scripts_def)
    show ?thesis
    proof (cases e)
      case EMatch
      show ?thesis by (rule step [of "i - 1" "j - 1" c])
        (use al at EMatch in \<open>auto simp: scripts_def reconstruct_from.simps [of _ i j] add_edits_simps\<close>)
    next
      case ESubstitute
      show ?thesis by (rule step [of "i - 1" "j - 1" "c\<lparr>substitutionCount := substitutionCount c + 1\<rparr>"])
        (use al at ESubstitute in \<open>auto simp: scripts_def reconstruct_from.simps [of _ i j] add_edits_simps\<close>)
    next
      case EInsert
      show ?thesis by (rule step [of "i - 1" j "c\<lparr>insertionCount := insertionCount c + 1\<rparr>"])
        (use al at EInsert in \<open>auto simp: scripts_def reconstruct_from.simps [of _ i j] add_edits_simps\<close>)
    next
      case EDelete
      show ?thesis by (rule step [of i "j - 1" "c\<lparr>deletionCount := deletionCount c + 1\<rparr>"])
        (use al at EDelete in \<open>auto simp: scripts_def reconstruct_from.simps [of _ i j] add_edits_simps\<close>)
    next
      case ETranspose
      show ?thesis by (rule step [of "i - 2" "j - 2" "c\<lparr>transpositionCount := transpositionCount c + 1\<rparr>"])
        (use al at ETranspose in \<open>auto simp: scripts_def crossed_def reconstruct_from.simps [of _ i j] add_edits_simps\<close>)
    qed
  qed
qed

end
