(* ===== verification/FuzzyCandidates.thy ===== *)
theory FuzzyCandidates
  imports FuzzyEdit
begin

text \<open>
  The candidates of the fuzzy matcher: each is the summary of a cheapest script, and pruning keeps
  exactly those that no other dominates.
\<close>

subsection \<open>Decoding\<close>

lemma decode_from_lengths:
  "length (snd (decode_from s i)) = length (fst (decode_from s i)) + 1 \<and> length (fst (decode_from s i)) \<le> length s - i"
proof (induction s i rule: decode_from.induct)
  case (1 s i)
  let ?len = "utf8_codepoint_length (byte_at s i)"
  show ?case
  proof (cases "i < length s")
    case True
    show ?thesis
    proof (cases "?len = 0 \<or> length s - i < ?len")
      case bad: True
      then have "decode_from s i = (ub (byte_at s i) # fst (decode_from s (i + 1)), i # snd (decode_from s (i + 1)))"
        using True by (simp add: decode_from.simps [of s i] Let_def split: prod.splits)
      then show ?thesis using 1(1) [OF True refl bad] Suc_diff_Suc [OF True] by simp
    next
      case False
      then have "decode_from s i = (decode_utf8_codepoint s i # fst (decode_from s (i + ?len)), i # snd (decode_from s (i + ?len)))"
        using True by (simp add: decode_from.simps [of s i] Let_def split: prod.splits)
      moreover have len: "?len \<le> length s - i" "0 < ?len" using False by auto
      have "length s - (i + ?len) + 1 \<le> length s - i"
        using len unfolding diff_diff_left [symmetric] by simp
      moreover note 1(2) [OF True refl False]
      ultimately show ?thesis by simp
    qed
  qed (simp add: decode_from.simps [of s i])
qed

lemma decode_text_lengths:
  "length (byteOffset (decode_text s)) = length (codepoints (decode_text s)) + 1"
  "length (codepoints (decode_text s)) \<le> length s"
  using decode_from_lengths [of s 0] by (auto simp: decode_text_def split: prod.splits)

subsection \<open>The candidate of a script\<close>

definition script_summary :: "decoded_text \<Rightarrow> decoded_text \<Rightarrow> nat \<Rightarrow> edit list \<Rightarrow> fuzzy_candidate" where
  "script_summary L I k es =
     \<lparr>consumed = byteOffset I ! k, consumedCodepoints = k, distance = script_edits es, operationCount = script_edits es,
      rawWeightedCost = script_weight es, cost = make_fuzzy_recovery_cost (length (codepoints L)) (script_weight es),
      insertionCount = count_list es EInsert, deletionCount = count_list es EDelete,
      substitutionCount = count_list es ESubstitute, transpositionCount = count_list es ETranspose\<rparr>"

definition script_candidate :: "bool \<Rightarrow> decoded_text \<Rightarrow> decoded_text \<Rightarrow> nat \<Rightarrow> edit list \<Rightarrow> fuzzy_candidate" where
  "script_candidate wordLike L I k es =
     (if wordLike \<and> k < length (codepoints I)
      then charge_trailing (length (codepoints L)) (u32 (length (codepoints I) - k)) (script_summary L I k es)
      else script_summary L I k es)"

abbreviation last_cell :: "bool \<Rightarrow> bool \<Rightarrow> decoded_text \<Rightarrow> decoded_text \<Rightarrow> nat \<Rightarrow> dp_cell" where
  "last_cell sub cs L I k \<equiv> lane_cell sub (dp_ref cs (codepoints L) (codepoints I) (length (codepoints L)) k)"

abbreviation last_scripts :: "bool \<Rightarrow> bool \<Rightarrow> decoded_text \<Rightarrow> decoded_text \<Rightarrow> nat \<Rightarrow> edit list set" where
  "last_scripts sub cs L I k \<equiv> scripts sub cs (codepoints L) (codepoints I) (length (codepoints L)) k"

definition small_texts :: "decoded_text \<Rightarrow> decoded_text \<Rightarrow> bool" where
  "small_texts L I \<longleftrightarrow> length (codepoints L) + length (codepoints I) < 2 ^ 26"

lemma reconstructed:
  assumes small: "small_texts L I" and k: "k \<le> length (codepoints I)"
    and lane: "lane = (if sub then AnyEdit else NoSubstitution)"
  shows "\<exists>es \<in> last_scripts sub cs L I k. script_cost es = cell_cost (last_cell sub cs L I k) \<and>
    reconstruct_candidate (fill_table cs (codepoints L) (codepoints I)) L I k (last_cell sub cs L I k) lane =
      Some (script_summary L I k es)"
proof -
  let ?t = "fill_table cs (codepoints L) (codepoints I)" and ?n = "length (codepoints L)"
  have par: "parent_in ?t (length (codepoints I) + 1) lane a b = cellParent (lane_cell sub (dp_ref cs (codepoints L) (codepoints I) a b))"
    if "a \<le> ?n" "b \<le> k" for a b
    using that k lane fill_table_parents [of a "codepoints L" b "codepoints I" cs]
    by (auto simp: parent_in_def trace_of_def lane_cell_def)
  have "4 * (?n + k) < 2 ^ 29" using small k by (simp add: small_texts_def)
  from walk_back [OF par this] obtain es where "es \<in> last_scripts sub cs L I k"
      "script_cost es = cell_cost (last_cell sub cs L I k)"
      "reconstruct_from (parent_in ?t (length (codepoints I) + 1) lane) ?n k
        \<lparr>consumed = byteOffset I ! k, consumedCodepoints = k, distance = operations (last_cell sub cs L I k), operationCount = 0,
         rawWeightedCost = weightedCost (last_cell sub cs L I k),
         cost = make_fuzzy_recovery_cost ?n (weightedCost (last_cell sub cs L I k)),
         insertionCount = 0, deletionCount = 0, substitutionCount = 0, transpositionCount = 0\<rparr> = Some (add_edits es
        \<lparr>consumed = byteOffset I ! k, consumedCodepoints = k, distance = operations (last_cell sub cs L I k), operationCount = 0,
         rawWeightedCost = weightedCost (last_cell sub cs L I k),
         cost = make_fuzzy_recovery_cost ?n (weightedCost (last_cell sub cs L I k)),
         insertionCount = 0, deletionCount = 0, substitutionCount = 0, transpositionCount = 0\<rparr>)" by blast
  then show ?thesis
    by (intro bexI [of _ es]) (auto simp: reconstruct_candidate_def script_summary_def add_edits_def edits_counted)
qed

subsection \<open>Collecting\<close>

lemma same_candidate_eq [simp]: "same_candidate a b \<longleftrightarrow> a = b"
  by (cases a; cases b) (auto simp: same_candidate_def)

lemma push_candidate_set [simp]: "set (push_candidate c cands) = insert c (set cands)"
  and push_candidate_distinct: "distinct cands \<Longrightarrow> distinct (push_candidate c cands)"
  by (auto simp: push_candidate_def list_ex_iff)

text \<open>\<open>gathered\<close>: the candidate of one lane for \<open>k\<close> code points is in \<open>cands\<close>, if it has an edit.\<close>

definition of_lane :: "bool \<Rightarrow> bool \<Rightarrow> decoded_text \<Rightarrow> decoded_text \<Rightarrow> bool \<Rightarrow> nat \<Rightarrow> fuzzy_candidate \<Rightarrow> bool" where
  "of_lane wordLike cs L I sub k c \<longleftrightarrow> operations (last_cell sub cs L I k) \<noteq> 0 \<and>
     (\<exists>es \<in> last_scripts sub cs L I k. script_cost es = cell_cost (last_cell sub cs L I k) \<and>
        c = script_candidate wordLike L I k es)"

lemma cell_found: "small_texts L I \<Longrightarrow> k \<le> length (codepoints I) \<Longrightarrow> operations (last_cell sub cs L I k) \<noteq> kNoMatch"
  using picksD [OF cell_optimal [of "length (codepoints L)" k sub cs "codepoints L" "codepoints I"] scripts_nonempty]
  by (fastforce simp: small_texts_def)

lemma collect_one:
  assumes "small_texts L I" and "k \<le> length (codepoints I)" and "lane = (if sub then AnyEdit else NoSubstitution)"
  shows "\<exists>r. collect_candidate (fill_table cs (codepoints L) (codepoints I)) wordLike L I k (last_cell sub cs L I k) lane cands = Some r \<and>
    (distinct cands \<longrightarrow> distinct r) \<and> set cands \<subseteq> set r \<and>
    (\<forall>c \<in> set r. c \<in> set cands \<or> of_lane wordLike cs L I sub k c) \<and>
    (operations (last_cell sub cs L I k) \<noteq> 0 \<longrightarrow> (\<exists>c \<in> set r. of_lane wordLike cs L I sub k c))"
proof (cases "operations (last_cell sub cs L I k) = 0")
  case False
  obtain es where es: "es \<in> last_scripts sub cs L I k" "script_cost es = cell_cost (last_cell sub cs L I k)"
      "reconstruct_candidate (fill_table cs (codepoints L) (codepoints I)) L I k (last_cell sub cs L I k) lane =
        Some (script_summary L I k es)"
    using reconstructed [OF assms] by blast
  have "of_lane wordLike cs L I sub k (script_candidate wordLike L I k es)" using es False by (auto simp: of_lane_def)
  then show ?thesis using False es(3) cell_found [OF assms(1,2), of sub cs]
    by (auto simp: collect_candidate_def script_candidate_def push_candidate_distinct)
qed (simp add: collect_candidate_def)

lemma collected:
  assumes "small_texts L I" and "\<forall>k \<in> set ks. k \<le> length (codepoints I)" and "distinct cands"
  shows "\<exists>r. collect_from (fill_table cs (codepoints L) (codepoints I)) wordLike L I ks cands = Some r \<and> distinct r \<and>
    set cands \<subseteq> set r \<and> (\<forall>c \<in> set r. c \<in> set cands \<or> (\<exists>k \<in> set ks. \<exists>sub. of_lane wordLike cs L I sub k c)) \<and>
    (\<forall>k \<in> set ks. \<forall>sub. operations (last_cell sub cs L I k) \<noteq> 0 \<longrightarrow> (\<exists>c \<in> set r. of_lane wordLike cs L I sub k c))"
  using assms(2,3)
proof (induction ks arbitrary: cands)
  case (Cons k ks)
  let ?t = "fill_table cs (codepoints L) (codepoints I)"
  have k: "k \<le> length (codepoints I)" using Cons.prems by simp
  have cells: "anyEdit (row_for ?t (length (codepoints L)) ! k) = last_cell True cs L I k"
    "noSubstitution (row_for ?t (length (codepoints L)) ! k) = last_cell False cs L I k"
    using fill_table_last [OF k, of cs "codepoints L"] by (simp_all add: lane_cell_def)
  obtain r1 where r1: "collect_candidate ?t wordLike L I k (last_cell True cs L I k) AnyEdit cands = Some r1"
      "distinct r1" "set cands \<subseteq> set r1" "\<forall>c \<in> set r1. c \<in> set cands \<or> of_lane wordLike cs L I True k c"
      "operations (last_cell True cs L I k) \<noteq> 0 \<longrightarrow> (\<exists>c \<in> set r1. of_lane wordLike cs L I True k c)"
    using collect_one [OF assms(1) k, of AnyEdit True cs wordLike cands] Cons.prems(2) by auto
  obtain r2 where r2: "collect_candidate ?t wordLike L I k (last_cell False cs L I k) NoSubstitution r1 = Some r2"
      "distinct r2" "set r1 \<subseteq> set r2" "\<forall>c \<in> set r2. c \<in> set r1 \<or> of_lane wordLike cs L I False k c"
      "operations (last_cell False cs L I k) \<noteq> 0 \<longrightarrow> (\<exists>c \<in> set r2. of_lane wordLike cs L I False k c)"
    using collect_one [OF assms(1) k, of NoSubstitution False cs wordLike r1] r1(2) by auto
  obtain r where r: "collect_from ?t wordLike L I ks r2 = Some r" "distinct r" "set r2 \<subseteq> set r"
      "\<forall>c \<in> set r. c \<in> set r2 \<or> (\<exists>k \<in> set ks. \<exists>sub. of_lane wordLike cs L I sub k c)"
      "\<forall>k \<in> set ks. \<forall>sub. operations (last_cell sub cs L I k) \<noteq> 0 \<longrightarrow> (\<exists>c \<in> set r. of_lane wordLike cs L I sub k c)"
    using Cons.IH [OF _ r2(2)] Cons.prems(1) by auto
  have here: "\<exists>c \<in> set r. of_lane wordLike cs L I sub k c" if nz: "operations (last_cell sub cs L I k) \<noteq> 0" for sub
  proof (cases sub)
    case True
    then obtain c where "c \<in> set r1" "of_lane wordLike cs L I True k c" using nz r1(5) by auto
    then show ?thesis using True r2(3) r(3) by auto
  next
    case False
    then obtain c where "c \<in> set r2" "of_lane wordLike cs L I False k c" using nz r2(5) by auto
    then show ?thesis using False r(3) by auto
  qed
  have "collect_from ?t wordLike L I (k # ks) cands = Some r" using r1(1) r2(1) r(1) cells by simp
  moreover have "set cands \<subseteq> set r" using r1(3) r2(3) r(3) by blast
  moreover have "\<forall>c \<in> set r. c \<in> set cands \<or> (\<exists>k' \<in> set (k # ks). \<exists>sub. of_lane wordLike cs L I sub k' c)"
    using r(4) r2(4) r1(4) unfolding set_simps by blast
  moreover have "\<forall>k' \<in> set (k # ks). \<forall>sub. operations (last_cell sub cs L I k') \<noteq> 0 \<longrightarrow> (\<exists>c \<in> set r. of_lane wordLike cs L I sub k' c)"
    using r(5) here by (simp only: set_simps) blast
  ultimately show ?case using r(2) by blast
qed auto

subsection \<open>Pruning\<close>

lemma dominates_trans: "dominates_candidate a b \<Longrightarrow> dominates_candidate b c \<Longrightarrow> dominates_candidate a c"
  by (auto simp: dominates_candidate_def Let_def split: if_splits)

lemma dominates_irrefl: "\<not> dominates_candidate a a"
  by (auto simp: dominates_candidate_def Let_def)

lemma prune_list:
  "map fst (filter (\<lambda>(c, d). \<not> d) (zip xs (map (\<lambda>i. list_ex (\<lambda>j. i \<noteq> j \<and> dominates_candidate (xs ! j) (xs ! i))
      [0 ..< length xs]) [0 ..< length xs]))) =
    filter (\<lambda>c. \<not> (\<exists>o' \<in> set xs. dominates_candidate o' c)) xs"
proof -
  let ?P = "\<lambda>c. \<not> (\<exists>o' \<in> set xs. dominates_candidate o' c)"
  have flag: "list_ex (\<lambda>j. i \<noteq> j \<and> dominates_candidate (xs ! j) (xs ! i)) [0 ..< length xs] = (\<not> ?P (xs ! i))"
    if "i < length xs" for i
  proof -
    have "(\<exists>j. j < length xs \<and> i \<noteq> j \<and> dominates_candidate (xs ! j) (xs ! i)) =
        (\<exists>j. j < length xs \<and> dominates_candidate (xs ! j) (xs ! i))"
      using dominates_irrefl by blast
    then show ?thesis by (simp add: list_ex_iff Bex_def in_set_conv_nth) metis
  qed
  have "map (\<lambda>i. list_ex (\<lambda>j. i \<noteq> j \<and> dominates_candidate (xs ! j) (xs ! i)) [0 ..< length xs]) [0 ..< length xs] =
      map (\<lambda>c. \<not> ?P c) xs"
    by (rule nth_equalityI) (use flag in auto)
  moreover have "map fst (filter (\<lambda>(c, d). \<not> d) (zip ys (map Q ys))) = filter (\<lambda>c. \<not> Q c) ys" for Q and ys :: "fuzzy_candidate list"
    by (induction ys) auto
  ultimately show ?thesis by simp
qed

lemma pruned:
  assumes "sorts_candidates srt"
  shows "mset (prune_dominated_candidates srt xs) = mset (filter (\<lambda>c. \<not> (\<exists>o' \<in> set xs. dominates_candidate o' c)) xs) \<and>
    sorted_wrt (\<lambda>a b. \<not> is_better_candidate b a) (prune_dominated_candidates srt xs)"
  using assms unfolding prune_dominated_candidates_def Let_def prune_list by (simp add: sorts_candidates_def)

lemma undominated_below:
  assumes "c \<in> set xs"
  shows "\<exists>c' \<in> set xs. (c' = c \<or> dominates_candidate c' c) \<and> \<not> (\<exists>o' \<in> set xs. dominates_candidate o' c')"
proof -
  let ?B = "Max (consumed ` set xs)"
  let ?m = "\<lambda>c. primaryRankCost (cost c) + rawWeightedCost c + distance c + substitutionCount c + (?B - consumed c)"
  have le: "consumed c \<le> ?B" if "c \<in> set xs" for c using that by simp
  have down: "?m a < ?m b" if "dominates_candidate a b" "a \<in> set xs" "b \<in> set xs" for a b
    using that(1) le [OF that(2)] le [OF that(3)] by (auto simp: dominates_candidate_def Let_def split: if_splits)
  show ?thesis
    using assms
  proof (induction "?m c" arbitrary: c rule: less_induct)
    case less
    show ?case
    proof (cases "\<exists>o' \<in> set xs. dominates_candidate o' c")
      case True
      then obtain o' where o': "o' \<in> set xs" "dominates_candidate o' c" by blast
      from less.hyps [OF down [OF o'(2,1) less.prems] o'(1)] show ?thesis using o'(2) dominates_trans by blast
    qed (use less.prems in blast)
  qed
qed

text \<open>On small texts the computation has a result.\<close>

lemma candidates_computed:
  assumes "length literal + length input < 2 ^ 26"
  shows "\<exists>r. compute_pruned_literal_fuzzy_candidates srt literal input cs = Some r"
proof -
  have small: "small_texts (decode_text literal) (decode_text input)"
    using assms decode_text_lengths(2) [of literal] decode_text_lengths(2) [of input] by (simp add: small_texts_def)
  define ks where "ks = [1 ..< length (codepoints (decode_text input)) + 1]"
  have ks: "\<forall>k \<in> set ks. k \<le> length (codepoints (decode_text input))" by (auto simp: ks_def)
  show ?thesis
    using collected [OF small ks, of "[]" cs "is_word_like_terminal literal \<and> is_word_like_terminal input"]
    unfolding compute_pruned_literal_fuzzy_candidates_def Let_def ks_def [symmetric] by auto
qed

end
