(* ===== verification/FuzzySingle.thy ===== *)
theory FuzzySingle
  imports FuzzyMatch
begin

text \<open>
  The linear test for a single edit (\<open>literal_has_single_edit_strict_match\<close>): the longest common
  prefix and then the longest common suffix leave the smallest possible middle, so comparing the
  middles decides whether one edit separates the two texts.
\<close>

inductive one_edit :: "'a list \<Rightarrow> 'a list \<Rightarrow> bool" where
  substituted: "c \<noteq> d \<Longrightarrow> one_edit (x @ [c] @ y) (x @ [d] @ y)"
| inserted: "one_edit (x @ y) (x @ [d] @ y)"
| removed: "one_edit (x @ [c] @ y) (x @ y)"
| swapped: "c \<noteq> d \<Longrightarrow> one_edit (x @ [c, d] @ y) (x @ [d, c] @ y)"

lemma common_prefix_spec:
  "p \<le> common_prefix eq p n \<and> common_prefix eq p n \<le> p + n \<and>
   (\<forall>i. p \<le> i \<and> i < common_prefix eq p n \<longrightarrow> eq i) \<and> (common_prefix eq p n < p + n \<longrightarrow> \<not> eq (common_prefix eq p n))"
proof (induction n arbitrary: p)
  case (Suc n)
  show ?case
  proof (cases "eq p")
    case True
    have "eq i" if "p \<le> i" "i < common_prefix eq (p + 1) n" for i
      using that True Suc [of "p + 1"] by (cases "i = p") auto
    then show ?thesis using True Suc [of "p + 1"] by simp
  qed auto
qed auto

lemma common_prefix_cong:
  "(\<And>i. p \<le> i \<Longrightarrow> i < p + n \<Longrightarrow> eq i = eq' i) \<Longrightarrow> common_prefix eq p n = common_prefix eq' p n"
proof (induction n arbitrary: p)
  case (Suc n)
  then show ?case using Suc.IH [of "p + 1"] Suc.prems [of p] by simp
qed simp

text \<open>The two walks over the texts \<open>a\<close> and \<open>b\<close>.\<close>

definition walked :: "'a list \<Rightarrow> 'a list \<Rightarrow> nat \<Rightarrow> nat \<Rightarrow> bool" where
  "walked a b p s \<longleftrightarrow> p = common_prefix (\<lambda>i. a ! i = b ! i) 0 (min (length a) (length b)) \<and>
     s = common_prefix (\<lambda>i. a ! (length a - 1 - i) = b ! (length b - 1 - i)) 0 (min (length a - p) (length b - p))"

lemma walked_prefix:
  assumes "walked a b p s"
  shows "p \<le> length a" "p \<le> length b" "take p a = take p b" "p < length a \<Longrightarrow> p < length b \<Longrightarrow> a ! p \<noteq> b ! p"
proof -
  note spec = common_prefix_spec [of 0 "\<lambda>i. a ! i = b ! i" "min (length a) (length b)"]
  show le: "p \<le> length a" "p \<le> length b" and "p < length a \<Longrightarrow> p < length b \<Longrightarrow> a ! p \<noteq> b ! p"
    using spec assms by (auto simp: walked_def)
  show "take p a = take p b"
    by (rule nth_equalityI) (use spec assms le in \<open>auto simp: walked_def\<close>)
qed

lemma walked_suffix:
  assumes "walked a b p s"
  shows "s \<le> length a - p" "s \<le> length b - p" "drop (length a - s) a = drop (length b - s) b"
    "s < length a - p \<Longrightarrow> s < length b - p \<Longrightarrow> a ! (length a - 1 - s) \<noteq> b ! (length b - 1 - s)"
proof -
  have s: "common_prefix (\<lambda>i. a ! (length a - 1 - i) = b ! (length b - 1 - i)) 0 (min (length a - p) (length b - p)) = s"
    using assms unfolding walked_def by (elim conjE) (rule sym)
  note spec = common_prefix_spec [of 0 "\<lambda>i. a ! (length a - 1 - i) = b ! (length b - 1 - i)"
      "min (length a - p) (length b - p)", unfolded s]
  show le: "s \<le> length a - p" "s \<le> length b - p"
    and "s < length a - p \<Longrightarrow> s < length b - p \<Longrightarrow> a ! (length a - 1 - s) \<noteq> b ! (length b - 1 - s)"
    using spec by auto
  show "drop (length a - s) a = drop (length b - s) b"
  proof (rule nth_equalityI)
    fix i
    assume "i < length (drop (length a - s) a)"
    then have i: "i < s" "s \<le> length a" "s \<le> length b" using le by auto
    have "\<forall>j. j < s \<longrightarrow> a ! (length a - 1 - j) = b ! (length b - 1 - j)" using spec by simp
    from this [rule_format, of "s - 1 - i"] show "drop (length a - s) a ! i = drop (length b - s) b ! i"
      using i by simp
  qed (use le in simp)
qed

lemma walked_parts:
  assumes "walked a b p s"
  shows "a = take p a @ take (length a - p - s) (drop p a) @ drop (length a - s) a"
    "b = take p a @ take (length b - p - s) (drop p b) @ drop (length a - s) a"
proof -
  have part: "zs = take p zs @ take (length zs - p - s) (drop p zs) @ drop (length zs - s) zs"
    if "s \<le> length zs - p" "p \<le> length zs" for zs :: "'a list"
  proof -
    have "length zs - p - s + p = length zs - s" using that by simp
    then have "drop (length zs - s) zs = drop (length zs - p - s) (drop p zs)" by simp
    then show ?thesis using append_take_drop_id [of p zs] append_take_drop_id [of "length zs - p - s" "drop p zs"]
      by simp
  qed
  show "a = take p a @ take (length a - p - s) (drop p a) @ drop (length a - s) a"
    using part walked_prefix [OF assms] walked_suffix [OF assms] by blast
  have "b = take p b @ take (length b - p - s) (drop p b) @ drop (length b - s) b"
    using part walked_prefix [OF assms] walked_suffix [OF assms] by blast
  then show "b = take p a @ take (length b - p - s) (drop p b) @ drop (length a - s) a"
    using walked_prefix(3) [OF assms] walked_suffix(3) [OF assms] by simp
qed

text \<open>No other common prefix and suffix leave a smaller middle.\<close>

lemma walked_most:
  assumes w: "walked a b p s" and a: "a = x @ u @ y" and b: "b = x @ v @ y"
  shows "length x \<le> p" "length x + length y \<le> p + s"
proof -
  have p: "p < length x \<Longrightarrow> False"
    using walked_prefix(4) [OF w] by (simp add: a b nth_append)
  then show "length x \<le> p" by (meson not_le)
  show "length x + length y \<le> p + s"
  proof (rule ccontr)
    assume less: "\<not> ?thesis"
    then have s: "s < length y" "s < length a - p" "s < length b - p"
      using \<open>length x \<le> p\<close> walked_prefix(1,2) [OF w] by (auto simp: a b)
    then have "a ! (length a - 1 - s) = y ! (length y - 1 - s)" "b ! (length b - 1 - s) = y ! (length y - 1 - s)"
      by (auto simp: a b nth_append)
    then show False using walked_suffix(4) [OF w s(2,3)] by simp
  qed
qed

lemma single_list: "length xs = 1 \<Longrightarrow> \<exists>c. xs = [c]"
  by (cases xs) auto

lemma double_list: "length xs = 2 \<Longrightarrow> xs = [xs ! 0, xs ! 1]"
  by (cases xs; cases "tl xs") auto

text \<open>What the two middles say, for each kind of edit.\<close>

lemma walked_same:
  assumes "walked a b p s" and "length a - p - s = 0" and "length b - p - s = 0"
  shows "a = b"
  using walked_parts [OF assms(1)] unfolding assms(2,3) by simp

lemma walked_heads:
  assumes w: "walked a b p s" and "0 < length a - p - s" and "0 < length b - p - s"
  shows "take (length a - p - s) (drop p a) ! 0 = a ! p" "take (length b - p - s) (drop p b) ! 0 = b ! p" "a ! p \<noteq> b ! p"
  using assms(2,3) walked_prefix(4) [OF w] by auto

lemma walked_substituted:
  assumes w: "walked a b p s"
  shows "length a - p - s = 1 \<and> length b - p - s = 1 \<longleftrightarrow>
    (\<exists>x y c d. c \<noteq> d \<and> a = x @ [c] @ y \<and> b = x @ [d] @ y)"
proof
  assume one: "length a - p - s = 1 \<and> length b - p - s = 1"
  obtain c where c: "take (length a - p - s) (drop p a) = [c]"
    using single_list [of "take (length a - p - s) (drop p a)"] one by auto
  obtain d where d: "take (length b - p - s) (drop p b) = [d]"
    using single_list [of "take (length b - p - s) (drop p b)"] one by auto
  have "0 < length a - p - s" "0 < length b - p - s" using one by auto
  then have "c \<noteq> d" using walked_heads [OF w] unfolding c d nth_Cons_0 by blast
  then show "\<exists>x y c d. c \<noteq> d \<and> a = x @ [c] @ y \<and> b = x @ [d] @ y"
    using walked_parts [OF w] unfolding c d by blast
next
  assume "\<exists>x y c d. c \<noteq> d \<and> a = x @ [c] @ y \<and> b = x @ [d] @ y"
  then obtain x y c d where e: "c \<noteq> d" "a = x @ [c] @ y" "b = x @ [d] @ y" by blast
  have "length x + length y \<le> p + s" using walked_most(2) [OF w e(2,3)] .
  moreover have "a \<noteq> b" using e by simp
  moreover have "length a = length x + length y + 1" "length b = length x + length y + 1" by (simp_all add: e(2,3))
  ultimately show "length a - p - s = 1 \<and> length b - p - s = 1" using walked_same [OF w] by fastforce
qed

lemma walked_inserted:
  assumes w: "walked a b p s"
  shows "length a - p - s = 0 \<and> length b - p - s = 1 \<longleftrightarrow> (\<exists>x y d. a = x @ y \<and> b = x @ [d] @ y)"
proof
  assume one: "length a - p - s = 0 \<and> length b - p - s = 1"
  obtain d where d: "take (length b - p - s) (drop p b) = [d]"
    using single_list [of "take (length b - p - s) (drop p b)"] one by auto
  have "take (length a - p - s) (drop p a) = []" using one by simp
  then have "a = take p a @ drop (length a - s) a" using walked_parts(1) [OF w] by (simp only: append_Nil)
  moreover have "b = take p a @ [d] @ drop (length a - s) a" using walked_parts(2) [OF w] unfolding d .
  ultimately show "\<exists>x y d. a = x @ y \<and> b = x @ [d] @ y" by blast
next
  assume "\<exists>x y d. a = x @ y \<and> b = x @ [d] @ y"
  then obtain x y d where e: "a = x @ [] @ y" "b = x @ [d] @ y" by auto
  have "length x + length y \<le> p + s" using walked_most(2) [OF w e] .
  moreover have "p + s \<le> length a" using walked_prefix(1) [OF w] walked_suffix(1) [OF w] by simp
  moreover have "length a = length x + length y" "length b = length x + length y + 1" by (simp_all add: e)
  ultimately show "length a - p - s = 0 \<and> length b - p - s = 1" by simp
qed

lemma walked_swap:
  assumes "walked a b p s"
  shows "walked b a p s"
proof -
  have "(\<lambda>i. b ! i = a ! i) = (\<lambda>i. a ! i = b ! i)"
    "(\<lambda>i. b ! (length b - 1 - i) = a ! (length a - 1 - i)) = (\<lambda>i. a ! (length a - 1 - i) = b ! (length b - 1 - i))"
    by (rule ext, rule eq_commute)+
  then show ?thesis
    using assms unfolding walked_def min.commute [of "length b"] min.commute [of "length b - p"] by simp
qed

lemma walked_removed:
  assumes w: "walked a b p s"
  shows "length a - p - s = 1 \<and> length b - p - s = 0 \<longleftrightarrow> (\<exists>x y c. a = x @ [c] @ y \<and> b = x @ y)"
proof -
  have "length a - p - s = 1 \<and> length b - p - s = 0 \<longleftrightarrow> length b - p - s = 0 \<and> length a - p - s = 1" by (rule conj_commute)
  also have "\<dots> \<longleftrightarrow> (\<exists>x y c. b = x @ y \<and> a = x @ [c] @ y)" by (rule walked_inserted [OF walked_swap [OF w]])
  finally show ?thesis by (simp only: conj_commute)
qed

lemma walked_swapped:
  assumes w: "walked a b p s"
  shows "length a - p - s = 2 \<and> length b - p - s = 2 \<and> a ! p = b ! (p + 1) \<and> a ! (p + 1) = b ! p \<longleftrightarrow>
    (\<exists>x y c d. c \<noteq> d \<and> a = x @ [c, d] @ y \<and> b = x @ [d, c] @ y)"
proof
  assume two: "length a - p - s = 2 \<and> length b - p - s = 2 \<and> a ! p = b ! (p + 1) \<and> a ! (p + 1) = b ! p"
  have mids: "take (length a - p - s) (drop p a) = [a ! p, a ! (p + 1)]"
    "take (length b - p - s) (drop p b) = [b ! p, b ! (p + 1)]"
    using double_list [of "take (length a - p - s) (drop p a)"] double_list [of "take (length b - p - s) (drop p b)"] two
    by auto
  have "0 < length a - p - s" "0 < length b - p - s" using two by auto
  then have "a ! p \<noteq> b ! p" using walked_heads(3) [OF w] by blast
  moreover have "a = take p a @ [a ! p, b ! p] @ drop (length a - s) a"
    using walked_parts(1) [OF w] two unfolding mids by simp
  moreover have "b = take p a @ [b ! p, a ! p] @ drop (length a - s) a"
    using walked_parts(2) [OF w] two unfolding mids by simp
  ultimately show "\<exists>x y c d. c \<noteq> d \<and> a = x @ [c, d] @ y \<and> b = x @ [d, c] @ y" by blast
next
  assume "\<exists>x y c d. c \<noteq> d \<and> a = x @ [c, d] @ y \<and> b = x @ [d, c] @ y"
  then obtain x y c d where e: "c \<noteq> d" "a = x @ [c, d] @ y" "b = x @ [d, c] @ y" by blast
  have at: "a ! length x = c" "b ! length x = d" "a ! (length x + 1) = d" "b ! (length x + 1) = c"
    by (simp_all add: e(2,3) nth_append)
  have most: "length x \<le> p" "length x + length y \<le> p + s" using walked_most [OF w e(2,3)] .
  have lens: "length a = length x + length y + 2" "length b = length x + length y + 2" by (simp_all add: e(2,3))
  have "p \<le> length x"
  proof (rule ccontr)
    assume "\<not> p \<le> length x"
    then have "take p a ! length x = c" "take p b ! length x = d" using at by auto
    then show False using walked_prefix(3) [OF w] e(1) by simp
  qed
  then have p: "p = length x" using most by simp
  have "s \<le> length y"
  proof (rule ccontr)
    assume "\<not> s \<le> length y"
    then have s: "length a - s \<le> length x + 1" "length b - s \<le> length x + 1" "s \<le> length a" "s \<le> length b"
      using lens walked_suffix(1,2) [OF w] by auto
    then have "d = drop (length a - s) a ! (length x + 1 - (length a - s))" using at lens by auto
    also have "\<dots> = drop (length b - s) b ! (length x + 1 - (length a - s))" by (simp only: walked_suffix(3) [OF w])
    also have "\<dots> = c" using at lens s by auto
    finally show False using e(1) by simp
  qed
  then have "s = length y" using most p by simp
  then show "length a - p - s = 2 \<and> length b - p - s = 2 \<and> a ! p = b ! (p + 1) \<and> a ! (p + 1) = b ! p"
    using p at lens by simp
qed

subsection \<open>The test\<close>

text \<open>What an alignment looks for, by the difference of the lengths.\<close>

fun edit_of :: "edit_diff \<Rightarrow> 'a list \<Rightarrow> 'a list \<Rightarrow> bool" where
  "edit_of SameLength a b = ((\<exists>x y c d. c \<noteq> d \<and> a = x @ [c] @ y \<and> b = x @ [d] @ y) \<or>
     (\<exists>x y c d. c \<noteq> d \<and> a = x @ [c, d] @ y \<and> b = x @ [d, c] @ y))"
| "edit_of OneMore a b = (\<exists>x y d. a = x @ y \<and> b = x @ [d] @ y)"
| "edit_of OneLess a b = (\<exists>x y c. a = x @ [c] @ y \<and> b = x @ y)"

lemma try_alignment_walked:
  assumes K: "K \<le> length window" and ab: "a = map (normalize_char cs) literal" "b = map (normalize_char cs) (take K window)"
  shows "\<exists>p s. walked a b p s \<and> try_alignment cs literal window K diff =
    (diff = SameLength \<and> length a - p - s = 1 \<and> length b - p - s = 1 \<or>
     diff = OneMore \<and> length a - p - s = 0 \<and> length b - p - s = 1 \<or>
     diff = OneLess \<and> length a - p - s = 1 \<and> length b - p - s = 0 \<or>
     diff = SameLength \<and> length a - p - s = 2 \<and> length b - p - s = 2 \<and> a ! p = b ! (p + 1) \<and> a ! (p + 1) = b ! p)"
proof -
  have lens: "length a = length literal" "length b = K" using K by (simp_all add: ab)
  have at: "equal_codepoint cs (literal ! i) (window ! j) = (a ! i = b ! j)" if "i < length a" "j < length b" for i j
    using that lens by (simp add: ab equal_codepoint_def)
  define p where "p = common_prefix (\<lambda>p. equal_codepoint cs (literal ! p) (window ! p)) 0 (min (length literal) K)"
  have p: "p = common_prefix (\<lambda>i. a ! i = b ! i) 0 (min (length a) (length b))"
    unfolding p_def lens [symmetric] by (rule common_prefix_cong) (use at in simp)
  define s where "s = common_prefix (\<lambda>sfx. equal_codepoint cs (literal ! (length literal - 1 - sfx)) (window ! (K - 1 - sfx))) 0
    (min (length literal - p) (K - p))"
  have "s = common_prefix (\<lambda>i. a ! (length a - 1 - i) = b ! (length b - 1 - i)) 0 (min (length a - p) (length b - p))"
    unfolding s_def lens [symmetric] by (rule common_prefix_cong, rule at) auto
  then have w: "walked a b p s" using p unfolding walked_def by blast
  have two: "(length a - p - s = 2 \<and> length b - p - s = 2 \<and> 2 \<le> length literal \<and>
      equal_codepoint cs (literal ! p) (window ! (p + 1)) \<and> equal_codepoint cs (literal ! (p + 1)) (window ! p)) =
    (length a - p - s = 2 \<and> length b - p - s = 2 \<and> a ! p = b ! (p + 1) \<and> a ! (p + 1) = b ! p)"
    using at [of p "p + 1"] at [of "p + 1" p] lens by auto
  have "try_alignment cs literal window K diff =
    (diff = SameLength \<and> length a - p - s = 1 \<and> length b - p - s = 1 \<or>
     diff = OneMore \<and> length a - p - s = 0 \<and> length b - p - s = 1 \<or>
     diff = OneLess \<and> length a - p - s = 1 \<and> length b - p - s = 0 \<or>
     diff = SameLength \<and> length a - p - s = 2 \<and> length b - p - s = 2 \<and> 2 \<le> length literal \<and>
       equal_codepoint cs (literal ! p) (window ! (p + 1)) \<and> equal_codepoint cs (literal ! (p + 1)) (window ! p))"
    unfolding lens try_alignment_def Let_def p_def [symmetric] s_def [symmetric] using K
    by (simp only: if_not_P not_less simp_thms)
  then show ?thesis unfolding two using w by blast
qed

lemma try_alignment_iff:
  "try_alignment cs literal window K diff \<longleftrightarrow> K \<le> length window \<and>
     edit_of diff (map (normalize_char cs) literal) (map (normalize_char cs) (take K window))"
proof (cases "K \<le> length window")
  case True
  obtain p s where w: "walked (map (normalize_char cs) literal) (map (normalize_char cs) (take K window)) p s" and
    t: "try_alignment cs literal window K diff =
      (diff = SameLength \<and> length (map (normalize_char cs) literal) - p - s = 1 \<and> length (map (normalize_char cs) (take K window)) - p - s = 1 \<or>
       diff = OneMore \<and> length (map (normalize_char cs) literal) - p - s = 0 \<and> length (map (normalize_char cs) (take K window)) - p - s = 1 \<or>
       diff = OneLess \<and> length (map (normalize_char cs) literal) - p - s = 1 \<and> length (map (normalize_char cs) (take K window)) - p - s = 0 \<or>
       diff = SameLength \<and> length (map (normalize_char cs) literal) - p - s = 2 \<and> length (map (normalize_char cs) (take K window)) - p - s = 2 \<and>
         map (normalize_char cs) literal ! p = map (normalize_char cs) (take K window) ! (p + 1) \<and>
         map (normalize_char cs) literal ! (p + 1) = map (normalize_char cs) (take K window) ! p)"
    using try_alignment_walked [OF True refl refl, of cs literal diff] by blast
  show ?thesis
    unfolding t walked_substituted [OF w] walked_inserted [OF w] walked_removed [OF w] walked_swapped [OF w]
    using True by (cases diff) (simp_all only: edit_of.simps edit_diff.distinct simp_thms)
qed (simp add: try_alignment_def)

lemma edit_of_length:
  "edit_of SameLength a b \<Longrightarrow> length b = length a" "edit_of OneMore a b \<Longrightarrow> length b = length a + 1"
  "edit_of OneLess a b \<Longrightarrow> length b + 1 = length a"
  by auto

lemma one_edit_of: "one_edit a b \<longleftrightarrow> (\<exists>diff. edit_of diff a b)"
proof
  show "one_edit a b \<Longrightarrow> \<exists>diff. edit_of diff a b"
  proof (induction rule: one_edit.induct)
    case (substituted c d x y)
    then show ?case by (intro exI [of _ SameLength]) auto
  next
    case (inserted x y d)
    then show ?case by (intro exI [of _ OneMore]) auto
  next
    case (removed x c y)
    then show ?case by (intro exI [of _ OneLess]) auto
  next
    case (swapped c d x y)
    then have "edit_of SameLength (x @ [c, d] @ y) (x @ [d, c] @ y)" unfolding edit_of.simps by blast
    then show ?case by blast
  qed
  assume "\<exists>diff. edit_of diff a b"
  then obtain diff where "edit_of diff a b" by blast
  then show "one_edit a b"
    by (cases diff) (auto intro: one_edit.intros [simplified])
qed

declare edit_of.simps [simp del]

lemma single_edit_iff:
  "literal_has_single_edit_strict_match literal window cs \<longleftrightarrow> literal \<noteq> [] \<and>
     (\<exists>k \<le> length window. one_edit (map (normalize_char cs) literal) (map (normalize_char cs) (take k window)))"
proof -
  let ?at = "\<lambda>k diff. edit_of diff (map (normalize_char cs) literal) (map (normalize_char cs) (take k window))"
  have len: "diff = SameLength \<and> k = length literal \<or> diff = OneMore \<and> k = length literal + 1 \<or>
      diff = OneLess \<and> k = length literal - 1" if le: "k \<le> length window" and at: "?at k diff" for k diff
  proof (cases diff)
    case SameLength
    then show ?thesis using edit_of_length(1) at le by force
  next
    case OneMore
    then show ?thesis using edit_of_length(2) at le by force
  next
    case OneLess
    then show ?thesis using edit_of_length(3) at le by force
  qed
  have "(\<exists>k \<le> length window. one_edit (map (normalize_char cs) literal) (map (normalize_char cs) (take k window))) \<longleftrightarrow>
      length literal \<le> length window \<and> ?at (length literal) SameLength \<or>
      length literal + 1 \<le> length window \<and> ?at (length literal + 1) OneMore \<or>
      length literal - 1 \<le> length window \<and> ?at (length literal - 1) OneLess"
    unfolding one_edit_of by (metis len)
  then show ?thesis
    unfolding literal_has_single_edit_strict_match_def Let_def try_alignment_iff by (cases literal) auto
qed

end
