(* ===== verification/FuzzyProps.thy ===== *)
theory FuzzyProps
  imports FuzzyCandidates FuzzySingle "HOL-Library.Code_Target_Nat"
begin

text \<open>
  What the fuzzy matcher promises: its candidates are the undominated ones of the cheapest edit
  scripts, its cache never changes an answer, and its linear test accepts exactly the windows that
  begin with the literal after one edit.
\<close>

subsection \<open>Costs without wrap-around\<close>

lemma fuzzy_cost_rank:
  assumes "raw < 2 ^ 28" and "n < 2 ^ 26"
  shows "primaryRankCost (make_fuzzy_recovery_cost n raw) = (raw * 5 + max n 1 - 1) div max n 1"
proof -
  let ?d = "max n 1"
  have d: "?d < 2 ^ 26" "0 < ?d" using assms(2) by auto
  have small: "raw * 5 + ?d \<le> u32_max" using assms d by (simp add: u32_max_def)
  then have "u32 (raw * 5) = raw * 5" "u32 ?d = ?d" "u32 (raw * 5 + ?d) = raw * 5 + ?d" using d by (auto simp: u32_max_def)
  moreover have "u32 (raw * 5 + ?d + u32_max) = raw * 5 + ?d - 1"
    using small d by (simp add: u32_def u32_max_def mod_if)
  ultimately show ?thesis
    by (simp add: make_fuzzy_recovery_cost_def make_recovery_cost_def ceil_div_def kReferenceLiteralLength_def)
qed

lemma fuzzy_cost_mono:
  assumes "raw \<le> raw'" and "raw' < 2 ^ 28" and "n < 2 ^ 26"
  shows "primaryRankCost (make_fuzzy_recovery_cost n raw) \<le> primaryRankCost (make_fuzzy_recovery_cost n raw')"
  using assms by (simp add: fuzzy_cost_rank div_le_mono)

lemma script_candidate_costs:
  assumes "small_texts L I" and "es \<in> last_scripts sub cs L I k" and "k \<le> length (codepoints I)"
  shows "rawWeightedCost (script_candidate wordLike L I k es) = script_weight es +
      (if wordLike \<and> k < length (codepoints I) then 4 * (length (codepoints I) - k) else 0)"
    "rawWeightedCost (script_candidate wordLike L I k es) < 2 ^ 28"
    "cost (script_candidate wordLike L I k es) =
      make_fuzzy_recovery_cost (length (codepoints L)) (rawWeightedCost (script_candidate wordLike L I k es))"
proof -
  let ?n = "length (codepoints L)" and ?m = "length (codepoints I)"
  have "script_weight es \<le> 4 * ?n + 4 * k"
    using assms(2) script_bounds [of sub cs "codepoints L" "codepoints I" es ?n k] by (simp add: scripts_def)
  then have "script_weight es + 4 * (?m - k) < 2 ^ 28" using assms(1,3) by (simp add: small_texts_def)
  moreover have "(2::nat) ^ 28 \<le> u32_max" by (simp add: u32_max_def)
  ultimately have w: "u32 (script_weight es + u32 (u32 (?m - k) * 4)) = script_weight es + 4 * (?m - k)"
    "script_weight es + 4 * (?m - k) < 2 ^ 28" by (auto simp: mult.commute)
  then show "rawWeightedCost (script_candidate wordLike L I k es) = script_weight es +
      (if wordLike \<and> k < ?m then 4 * (?m - k) else 0)"
    "rawWeightedCost (script_candidate wordLike L I k es) < 2 ^ 28"
    "cost (script_candidate wordLike L I k es) =
      make_fuzzy_recovery_cost ?n (rawWeightedCost (script_candidate wordLike L I k es))"
    by (auto simp: script_candidate_def script_summary_def charge_trailing_def Let_def kDeletionCost_def)
qed

lemma scripts_sub: "scripts False cs lit inp i j \<subseteq> scripts True cs lit inp i j"
proof -
  have "aligns sub cs lit inp es i j \<Longrightarrow> aligns True cs lit inp es i j" for sub es
    by (induction sub cs lit inp es i j rule: aligns.induct) auto
  then show ?thesis by (auto simp: scripts_def)
qed

subsection \<open>Candidates\<close>

text \<open>
  C33: the candidates of a fuzzy match. For texts of less than 2^26 bytes together, the table walk never
  leaves its grid, and the result is sorted by rank, has no duplicates and no candidate that
  another one dominates; every candidate is the summary of a script of edits, at least one, that
  turns some code points of the input into the literal; and for every script there is a candidate
  that ranks no worse and costs no more, unless the literal stands there as it is.
\<close>

theorem fuzzy_candidates_correct:
  assumes "sorts_candidates srt" and "length literal + length input < 2 ^ 26"
    and L: "L = decode_text literal" and I: "I = decode_text input"
    and wl: "wl = (is_word_like_terminal literal \<and> is_word_like_terminal input)"
  shows "\<exists>r. compute_pruned_literal_fuzzy_candidates srt literal input cs = Some r \<and> distinct r \<and>
    sorted_wrt (\<lambda>a b. primaryRankCost (cost a) \<le> primaryRankCost (cost b)) r \<and>
    (\<forall>a \<in> set r. \<forall>b \<in> set r. \<not> dominates_candidate a b) \<and>
    (\<forall>c \<in> set r. \<exists>k es. 0 < k \<and> k \<le> length (codepoints I) \<and> es \<in> last_scripts True cs L I k \<and>
       script_edits es \<noteq> 0 \<and> c = script_candidate wl L I k es) \<and>
    (\<forall>k es. 0 < k \<and> k \<le> length (codepoints I) \<and> es \<in> last_scripts True cs L I k \<and>
       (\<forall>fs \<in> last_scripts True cs L I k. script_edits fs \<noteq> 0) \<longrightarrow>
       (\<exists>c \<in> set r. rawWeightedCost c \<le> rawWeightedCost (script_candidate wl L I k es) \<and>
          primaryRankCost (cost c) \<le> primaryRankCost (cost (script_candidate wl L I k es))))"
proof -
  have small: "small_texts L I"
    using assms(2) decode_text_lengths(2) [of literal] decode_text_lengths(2) [of input] by (simp add: small_texts_def L I)
  define ks where "ks = [1 ..< length (codepoints I) + 1]"
  have ks: "set ks = {1 .. length (codepoints I)}" "\<forall>k \<in> set ks. k \<le> length (codepoints I)"
    by (auto simp: ks_def)
  obtain cands where cands: "collect_from (fill_table cs (codepoints L) (codepoints I)) wl L I ks [] = Some cands"
      "distinct cands" "\<forall>c \<in> set cands. \<exists>k \<in> set ks. \<exists>sub. of_lane wl cs L I sub k c"
      "\<forall>k \<in> set ks. \<forall>sub. operations (last_cell sub cs L I k) \<noteq> 0 \<longrightarrow> (\<exists>c \<in> set cands. of_lane wl cs L I sub k c)"
    using collected [OF small ks(2), of "[]" cs wl] by auto
  define r where "r = prune_dominated_candidates srt cands"
  have r: "mset r = mset (filter (\<lambda>c. \<not> (\<exists>o' \<in> set cands. dominates_candidate o' c)) cands)"
      "sorted_wrt (\<lambda>a b. \<not> is_better_candidate b a) r"
    using pruned [OF assms(1), of cands] by (simp_all add: r_def)
  have set_r: "set r = {c \<in> set cands. \<not> (\<exists>o' \<in> set cands. dominates_candidate o' c)}"
    using r(1) by (metis set_filter set_mset_mset)
  have "compute_pruned_literal_fuzzy_candidates srt literal input cs = Some r"
    using cands(1) by (simp add: compute_pruned_literal_fuzzy_candidates_def Let_def r_def L I wl ks_def)
  moreover have "distinct r" using mset_eq_imp_distinct_iff [OF r(1)] cands(2) by simp
  moreover have "sorted_wrt (\<lambda>a b. primaryRankCost (cost a) \<le> primaryRankCost (cost b)) r"
    using r(2) by (simp add: is_better_candidate_def not_less)
  moreover have "\<forall>a \<in> set r. \<forall>b \<in> set r. \<not> dominates_candidate a b" using set_r by blast
  moreover have "\<exists>k es. 0 < k \<and> k \<le> length (codepoints I) \<and> es \<in> last_scripts True cs L I k \<and>
      script_edits es \<noteq> 0 \<and> c = script_candidate wl L I k es" if cr: "c \<in> set r" for c
  proof -
    have "c \<in> set cands" using cr set_r by blast
    with cands(3) obtain k sub where k: "k \<in> set ks" "of_lane wl cs L I sub k c" by blast
    then obtain es where es: "operations (last_cell sub cs L I k) \<noteq> 0" "es \<in> last_scripts sub cs L I k"
        "script_cost es = cell_cost (last_cell sub cs L I k)" "c = script_candidate wl L I k es" unfolding of_lane_def by blast
    have "es \<in> last_scripts True cs L I k" using es(2) subsetD [OF scripts_sub] by (cases sub) simp_all
    moreover have "script_edits es \<noteq> 0" using es(1,3) by simp
    moreover have "0 < k \<and> k \<le> length (codepoints I)" using k(1) ks(1) by simp
    ultimately show ?thesis using es(4) by blast
  qed
  moreover have "\<exists>c \<in> set r. rawWeightedCost c \<le> rawWeightedCost (script_candidate wl L I k es) \<and>
      primaryRankCost (cost c) \<le> primaryRankCost (cost (script_candidate wl L I k es))"
    if k: "0 < k" "k \<le> length (codepoints I)" and es: "es \<in> last_scripts True cs L I k"
      and edited: "\<forall>fs \<in> last_scripts True cs L I k. script_edits fs \<noteq> 0" for k es
  proof -
    have s: "4 * (length (codepoints L) + k) < 2 ^ 29" using small k by (simp add: small_texts_def)
    obtain fs where "fs \<in> last_scripts True cs L I k" "script_cost fs = cell_cost (last_cell True cs L I k)"
      using picksD [OF cell_optimal [OF s] scripts_nonempty] by blast
    then have "operations (last_cell True cs L I k) \<noteq> 0" using edited by auto
    moreover have "k \<in> set ks" using k ks(1) by simp
    ultimately obtain c where c: "c \<in> set cands" "of_lane wl cs L I True k c" using cands(4) by blast
    then obtain gs where gs: "gs \<in> last_scripts True cs L I k" "script_cost gs = cell_cost (last_cell True cs L I k)"
        "c = script_candidate wl L I k gs" by (auto simp: of_lane_def)
    have "script_weight gs \<le> script_weight es" using cell_least [OF s es] gs(2) by (auto simp: cheaper_def)
    then have raw: "rawWeightedCost c \<le> rawWeightedCost (script_candidate wl L I k es)"
      using script_candidate_costs(1) [OF small _ k(2)] gs es by simp
    have rank: "primaryRankCost (cost c) \<le> primaryRankCost (cost (script_candidate wl L I k es))"
      using fuzzy_cost_mono [OF raw script_candidate_costs(2) [OF small es k(2)]] small
        script_candidate_costs(3) [OF small es k(2)] script_candidate_costs(3) [OF small gs(1) k(2)] gs(3)
      by (simp add: small_texts_def)
    obtain c' where "c' \<in> set cands" "c' = c \<or> dominates_candidate c' c" "\<not> (\<exists>o' \<in> set cands. dominates_candidate o' c')"
      using undominated_below [OF c(1)] by blast
    then show ?thesis using raw rank set_r
      by (intro bexI [of _ c']) (auto simp: dominates_candidate_def Let_def split: if_splits)
  qed
  ultimately show ?thesis by blast
qed

lemma sort_key_sorts: "sorts_candidates (sort_key (\<lambda>c. primaryRankCost (cost c)))"
proof -
  have "sorted_wrt (\<lambda>a b. \<not> is_better_candidate b a) (sort_key (\<lambda>c. primaryRankCost (cost c)) xs)" for xs
    using sorted_sort_key [of "\<lambda>c. primaryRankCost (cost c)" xs]
    by (simp add: sorted_map is_better_candidate_def not_less)
  then show ?thesis by (simp add: sorts_candidates_def)
qed

text \<open>The keyword \<open>entity\<close> against the typed \<open>entiyt x\<close>.\<close>

lemma fuzzy_candidates_correct_witness:
  "\<exists>r. compute_pruned_literal_fuzzy_candidates (sort_key (\<lambda>c. primaryRankCost (cost c))) ''entity'' ''entiyt x'' True = Some r \<and>
    distinct r \<and> (\<forall>a \<in> set r. \<forall>b \<in> set r. \<not> dominates_candidate a b)"
  using fuzzy_candidates_correct [OF sort_key_sorts _ refl refl refl, of "''entity''" "''entiyt x''" True] by auto

subsection \<open>The cache\<close>

text \<open>A sequence of lookups, and what each would compute without the cache.\<close>

fun run_lookups :: "(fuzzy_candidate list \<Rightarrow> fuzzy_candidate list) \<Rightarrow> (nat \<Rightarrow> char) \<Rightarrow>
    (string_view \<times> string_view \<times> bool) list \<Rightarrow> fuzzy_cache \<Rightarrow> (fuzzy_candidate list list \<times> fuzzy_cache) option" where
  "run_lookups srt mem [] c = Some ([], c)"
| "run_lookups srt mem ((l, i, cs) # qs) c = (case find_literal_fuzzy_candidates_view srt mem l i cs c of
     None \<Rightarrow> None
   | Some (r, c') \<Rightarrow> map_option (\<lambda>(rs, c''). (r # rs, c'')) (run_lookups srt mem qs c'))"

definition uncached :: "(fuzzy_candidate list \<Rightarrow> fuzzy_candidate list) \<Rightarrow> (nat \<Rightarrow> char) \<Rightarrow>
    string_view \<times> string_view \<times> bool \<Rightarrow> fuzzy_candidate list option" where
  "uncached srt mem q = (case q of (l, i, cs) \<Rightarrow> if viewSize l = 0 \<or> viewSize i = 0 then Some []
     else compute_on_miss srt (read_view mem l) (read_view mem i) cs)"

definition entry_key :: "cache_entry \<Rightarrow> string_view \<times> string_view \<times> bool" where
  "entry_key e = (\<lparr>viewData = literalData e, viewSize = literalSize e\<rparr>,
     \<lparr>viewData = inputData e, viewSize = inputSize' e\<rparr>, entryCaseSensitive e)"

definition cache_ok :: "(fuzzy_candidate list \<Rightarrow> fuzzy_candidate list) \<Rightarrow> (nat \<Rightarrow> char) \<Rightarrow> fuzzy_cache \<Rightarrow> bool" where
  "cache_ok srt mem c \<longleftrightarrow>
     (\<forall>i. generation (entries c i) \<noteq> 0 \<longrightarrow> uncached srt mem (entry_key (entries c i)) = Some (resultData (entries c i))) \<and>
     distinct (liveSlots c) \<and> set (liveSlots c) = {i. generation (entries c i) \<noteq> 0} \<and> set (liveSlots c) \<subseteq> {..< kSlotCount}"

lemma slot_in_range: "fuzzy_cache_slot_index l i cs < kSlotCount"
proof -
  have "x AND (4095 :: 64 word) \<le> 4095" for x by (rule word_and_le1)
  then have "unat (x AND (4095 :: 64 word)) \<le> unat (4095 :: 64 word)" for x by (simp only: word_le_nat_alt)
  then have "unat (x AND (4095 :: 64 word)) < 4096" for x by (rule le_less_trans) simp
  then show ?thesis by (simp add: fuzzy_cache_slot_index_def Let_def kSlotCount_def)
qed

lemma new_cache_ok: "cache_ok srt mem (new_fuzzy_cache raw)"
  by (simp add: cache_ok_def new_fuzzy_cache_def)

lemma view_eq: "viewData v = a \<Longrightarrow> viewSize v = b \<Longrightarrow> \<lparr>viewData = a, viewSize = b\<rparr> = (v :: string_view)"
  by (cases v) simp

lemma stored_ok:
  assumes ok: "cache_ok srt mem c" and i: "i < kSlotCount" and fresh: "uncached srt mem (l, inp, cs) = Some r"
  shows "cache_ok srt mem (store_pruned_into_slot c i l inp cs r)"
    "resultData (entries (store_pruned_into_slot c i l inp cs r) i) = r"
proof -
  let ?c = "store_pruned_into_slot c i l inp cs r"
  show res: "resultData (entries ?c i) = r"
    by (simp add: store_pruned_into_slot_def Let_def)
  have other: "entries ?c j = entries c j" if "j \<noteq> i" for j
    using that by (simp add: store_pruned_into_slot_def Let_def mark_slot_live_def)
  have key: "generation (entries ?c i) = 1" "entry_key (entries ?c i) = (l, inp, cs)"
    by (simp_all add: store_pruned_into_slot_def Let_def entry_key_def)
  have live: "liveSlots ?c = (if generation (entries c i) \<noteq> 0 then liveSlots c else liveSlots c @ [i])"
    by (simp add: store_pruned_into_slot_def Let_def mark_slot_live_def)
  have was: "distinct (liveSlots c)" "set (liveSlots c) = {i. generation (entries c i) \<noteq> 0}" "set (liveSlots c) \<subseteq> {..< kSlotCount}"
    using ok unfolding cache_ok_def by blast+
  have "distinct (liveSlots ?c)" "set (liveSlots ?c) \<subseteq> {..< kSlotCount}" using was i by (auto simp: live)
  moreover have "set (liveSlots ?c) = {j. generation (entries ?c j) \<noteq> 0}"
  proof (rule set_eqI)
    fix j
    show "j \<in> set (liveSlots ?c) \<longleftrightarrow> j \<in> {j. generation (entries ?c j) \<noteq> 0}"
      using was(2) key(1) other [of j] by (cases "j = i") (auto simp: live)
  qed
  moreover have "uncached srt mem (entry_key (entries ?c j)) = Some (resultData (entries ?c j))"
    if "generation (entries ?c j) \<noteq> 0" for j
    using that ok key(2) fresh res other [of j] by (cases "j = i") (auto simp: cache_ok_def)
  ultimately show "cache_ok srt mem ?c" by (simp add: cache_ok_def)
qed

lemma lookup_fresh:
  assumes ok: "cache_ok srt mem c" and fresh: "uncached srt mem (l, i, cs) = Some r"
  shows "\<exists>c'. find_literal_fuzzy_candidates_view srt mem l i cs c = Some (r, c') \<and> cache_ok srt mem c'"
proof (cases "viewSize l = 0 \<or> viewSize i = 0")
  case True
  then show ?thesis using assms by (simp add: find_literal_fuzzy_candidates_view_def uncached_def)
next
  case False
  let ?i = "fuzzy_cache_slot_index l i cs"
  let ?e = "entries c ?i"
  let ?hit = "generation ?e \<noteq> 0 \<and> literalData ?e = viewData l \<and> literalSize ?e = viewSize l \<and>
    inputData ?e = viewData i \<and> inputSize' ?e = viewSize i \<and> entryCaseSensitive ?e = cs"
  show ?thesis
  proof (cases ?hit)
    case True
    then have "entry_key ?e = (l, i, cs)" by (simp add: entry_key_def view_eq)
    moreover have "uncached srt mem (entry_key ?e) = Some (resultData ?e)" using ok True by (simp add: cache_ok_def)
    ultimately have "resultData ?e = r" using fresh by simp
    then show ?thesis using ok False True by (simp add: find_literal_fuzzy_candidates_view_def Let_def)
  next
    case miss: False
    have "compute_on_miss srt (read_view mem l) (read_view mem i) cs = Some r" using fresh False by (simp add: uncached_def)
    then have "find_literal_fuzzy_candidates_view srt mem l i cs c =
        Some (resultData (entries (store_pruned_into_slot c ?i l i cs r) ?i), store_pruned_into_slot c ?i l i cs r)"
      unfolding find_literal_fuzzy_candidates_view_def Let_def if_not_P [OF False] if_not_P [OF miss] by simp
    then show ?thesis using stored_ok [OF ok slot_in_range [of l i cs] fresh] by simp
  qed
qed

lemma lookups_fresh:
  assumes "cache_ok srt mem c" and "\<forall>q \<in> set qs. \<exists>r. uncached srt mem q = Some r"
  shows "\<exists>rs c'. run_lookups srt mem qs c = Some (rs, c') \<and> map Some rs = map (uncached srt mem) qs \<and> cache_ok srt mem c'"
  using assms
proof (induction qs arbitrary: c)
  case (Cons q qs)
  obtain l i cs where q: "q = (l, i, cs)" by (rule prod_cases3)
  obtain r where r: "uncached srt mem q = Some r" using Cons.prems(2) by auto
  obtain c1 where c1: "find_literal_fuzzy_candidates_view srt mem l i cs c = Some (r, c1)" "cache_ok srt mem c1"
    using lookup_fresh [OF Cons.prems(1) r [unfolded q]] by blast
  obtain rs c2 where "run_lookups srt mem qs c1 = Some (rs, c2)" "map Some rs = map (uncached srt mem) qs" "cache_ok srt mem c2"
    using Cons.IH [OF c1(2)] Cons.prems(2) by auto
  then show ?case using c1(1) r by (simp add: q)
qed simp

lemma uncached_computes:
  assumes "viewSize l + viewSize i < 2 ^ 26"
  shows "\<exists>r. uncached srt mem (l, i, cs) = Some r"
  using candidates_computed [of "read_view mem l" "read_view mem i" srt cs] assms
  by (auto simp: uncached_def compute_on_miss_def read_view_def)

text \<open>
  C34: the cache never changes an answer. Any sequence of lookups in a new cache, whatever its
  uninitialised slots hold, gives for each what a fresh computation gives, and afterwards the slots
  the destructor frees are exactly those in use, each once.
\<close>

theorem fuzzy_cache_transparent:
  assumes "\<forall>(l, i, cs) \<in> set qs. viewSize l + viewSize i < 2 ^ 26"
  shows "\<exists>rs c. run_lookups srt mem qs (new_fuzzy_cache raw) = Some (rs, c) \<and> map Some rs = map (uncached srt mem) qs \<and>
    distinct (liveSlots c) \<and> set (liveSlots c) = {i. generation (entries c i) \<noteq> 0} \<and> set (liveSlots c) \<subseteq> {..< kSlotCount}"
proof -
  have "\<forall>q \<in> set qs. \<exists>r. uncached srt mem q = Some r"
  proof
    fix q
    assume "q \<in> set qs"
    then show "\<exists>r. uncached srt mem q = Some r" using assms uncached_computes by (cases q rule: prod_cases3) auto
  qed
  from lookups_fresh [OF new_cache_ok this] show ?thesis unfolding cache_ok_def by blast
qed

lemma fuzzy_cache_transparent_witness:
  "\<exists>rs c. run_lookups (sort_key (\<lambda>c. primaryRankCost (cost c))) (\<lambda>i. ''ifi'' ! (i mod 3))
      [(\<lparr>viewData = 0, viewSize = 2\<rparr>, \<lparr>viewData = 1, viewSize = 2\<rparr>, True),
       (\<lparr>viewData = 0, viewSize = 2\<rparr>, \<lparr>viewData = 1, viewSize = 2\<rparr>, True)]
      (new_fuzzy_cache (\<lambda>_. \<lparr>literalData = 7, literalSize = 7, inputData = 7, inputSize' = 7, resultData = [], generation = 7,
         entryCaseSensitive = True\<rparr>)) = Some (rs, c) \<and> length rs = 2"
proof -
  have "length rs = length qs" if "map Some rs = map f qs" for rs :: "fuzzy_candidate list list" and f and qs :: "(string_view \<times> string_view \<times> bool) list"
    using arg_cong [OF that, of length] by simp
  then show ?thesis
    using fuzzy_cache_transparent [of "[(\<lparr>viewData = 0, viewSize = 2\<rparr>, \<lparr>viewData = 1, viewSize = 2\<rparr>, True),
       (\<lparr>viewData = 0, viewSize = 2\<rparr>, \<lparr>viewData = 1, viewSize = 2\<rparr>, True)]"] by fastforce
qed

subsection \<open>A single edit\<close>

text \<open>
  C35: the linear test. It accepts a window exactly when the literal is not empty and some prefix of
  the window is the literal after one substitution, insertion, deletion or exchange of neighbours
  (upper and lower case being equal unless \<open>cs\<close>).
\<close>

theorem single_edit_correct:
  "literal_has_single_edit_strict_match literal window cs =
     (literal \<noteq> [] \<and> (\<exists>k \<le> length window. one_edit (map (normalize_char cs) literal) (map (normalize_char cs) (take k window))))"
  by (rule single_edit_iff)

end
