(* ===== verification/Ast.thy ===== *)
theory Ast
  imports Cst
begin

text \<open>
  Syntax trees (\<open>core/syntax-tree/AstNode.hpp\<close>, \<open>AstArena.hpp\<close>, \<open>AstUtils.cpp\<close>). An arena creates the nodes of a
  document and numbers them; a node is a pointer to its memory, here its number. The links between
  nodes are those of the code: the container, the first and the last child and the next sibling.
\<close>

subsection \<open>The arena\<close>

record ast_node =
  container :: "nat option"
  firstChild :: "nat option"
  lastChild :: "nat option"
  nextSibling :: "nat option"
  symbolId :: nat
  cstNodeId :: nat

record ast_arena =
  chunks :: "(nat \<rightharpoonup> nat) list"
  count :: nat
  memory :: "nat \<Rightarrow> ast_node"

definition new_node :: ast_node where
  "new_node = \<lparr>container = None, firstChild = None, lastChild = None, nextSibling = None, symbolId = kNoNode, cstNodeId = kNoNode\<rparr>"

definition new_arena :: "(nat \<Rightarrow> ast_node) \<Rightarrow> ast_arena" where
  "new_arena raw = \<lparr>chunks = [], count = 0, memory = raw\<rparr>"

definition ast_chunk_shift :: nat where
  "ast_chunk_shift = 12"

definition ensureChunkCapacity :: "ast_arena \<Rightarrow> ast_arena" where
  "ensureChunkCapacity a =
     (if drop_bit ast_chunk_shift (count a) = length (chunks a) then a\<lparr>chunks := chunks a @ [\<lambda>_. None]\<rparr> else a)"

definition storeNode :: "nat \<Rightarrow> ast_arena \<Rightarrow> ast_arena" where
  "storeNode node a =
     (let k = drop_bit ast_chunk_shift (count a) in
      a\<lparr>chunks := (chunks a)[k := (chunks a ! k)(take_bit ast_chunk_shift (count a) \<mapsto> node)], count := count a + 1\<rparr>)"

definition create :: "ast_arena \<Rightarrow> nat \<times> ast_arena" where
  "create a =
     (let a1 = ensureChunkCapacity a; nodeId = count a1; p = nodeId;
          a2 = a1\<lparr>memory := (memory a1)(p := new_node\<lparr>symbolId := nodeId\<rparr>)\<rparr> in
      (p, storeNode p a2))"

definition getNode :: "ast_arena \<Rightarrow> nat \<Rightarrow> nat option" where
  "getNode a nodeId = (if nodeId \<ge> count a then None
     else (chunks a ! drop_bit ast_chunk_shift nodeId) (take_bit ast_chunk_shift nodeId))"

text \<open>The nodes \<open>destroyAll\<close> destroys, in this order.\<close>

fun destroyed :: "ast_arena \<Rightarrow> nat \<Rightarrow> nat option list" where
  "destroyed a 0 = []"
| "destroyed a (Suc i) = (chunks a ! drop_bit ast_chunk_shift i) (take_bit ast_chunk_shift i) # destroyed a i"

definition destroyAll :: "ast_arena \<Rightarrow> nat option list \<times> ast_arena" where
  "destroyAll a = (destroyed a (count a), a\<lparr>count := 0\<rparr>)"

definition setCstNode :: "nat \<Rightarrow> nat \<Rightarrow> ast_arena \<Rightarrow> ast_arena option" where
  "setCstNode n cst a = (if cstNodeId (memory a n) \<noteq> kNoNode then None
     else Some (a\<lparr>memory := (memory a)(n := memory a n\<lparr>cstNodeId := cst\<rparr>)\<rparr>))"

definition hasCstNode :: "ast_arena \<Rightarrow> nat \<Rightarrow> bool" where
  "hasCstNode a n \<longleftrightarrow> cstNodeId (memory a n) \<noteq> kNoNode"

text \<open>\<open>None\<close> is a failed assertion: the node already has a container.\<close>

definition setContainer :: "nat \<Rightarrow> nat \<Rightarrow> ast_arena \<Rightarrow> ast_arena option" where
  "setContainer n p a =
     (if container (memory a n) \<noteq> None then None
      else let m1 = (memory a)(n := memory a n\<lparr>container := Some p\<rparr>);
          m2 = (case lastChild (m1 p) of
            None \<Rightarrow> m1(p := m1 p\<lparr>firstChild := Some n\<rparr>)
          | Some l \<Rightarrow> m1(l := m1 l\<lparr>nextSibling := Some n\<rparr>));
          m3 = m2(p := m2 p\<lparr>lastChild := Some n\<rparr>) in
        Some (a\<lparr>memory := m3\<rparr>))"

subsection \<open>Walking the tree\<close>

text \<open>A loop that never ends is \<open>None\<close>.\<close>

partial_function (option) siblings_from :: "ast_arena \<Rightarrow> nat option \<Rightarrow> nat list option" where
  "siblings_from a cur = (case cur of None \<Rightarrow> Some []
     | Some n \<Rightarrow> Option.bind (siblings_from a (nextSibling (memory a n))) (\<lambda>ns. Some (n # ns)))"

definition getContent :: "ast_arena \<Rightarrow> nat \<Rightarrow> nat list option" where
  "getContent a n = siblings_from a (firstChild (memory a n))"

text \<open>The stack of \<open>DescendantIterator\<close>, its top first.\<close>

definition descend :: "ast_arena \<Rightarrow> nat \<Rightarrow> nat list \<Rightarrow> nat list" where
  "descend a cur stack =
     (let s1 = (case nextSibling (memory a cur) of None \<Rightarrow> stack | Some s \<Rightarrow> s # stack) in
      case firstChild (memory a cur) of None \<Rightarrow> s1 | Some c \<Rightarrow> c # s1)"

partial_function (option) descendants_from :: "ast_arena \<Rightarrow> nat list \<Rightarrow> nat list option" where
  "descendants_from a stack = (case stack of [] \<Rightarrow> Some []
     | n # rest \<Rightarrow> Option.bind (descendants_from a (descend a n rest)) (\<lambda>ns. Some (n # ns)))"

definition getAllContent :: "ast_arena \<Rightarrow> nat \<Rightarrow> nat list option" where
  "getAllContent a n = descendants_from a (case firstChild (memory a n) of None \<Rightarrow> [] | Some c \<Rightarrow> [c])"

text \<open>The nearest ancestor, the node itself included, that \<open>is\<close> accepts.\<close>

partial_function (option) getContainerOf :: "ast_arena \<Rightarrow> (nat \<Rightarrow> bool) \<Rightarrow> nat \<Rightarrow> nat option option" where
  "getContainerOf a is_type n = (if is_type n then Some (Some n)
     else case container (memory a n) of None \<Rightarrow> Some None | Some p \<Rightarrow> getContainerOf a is_type p)"

text \<open>
  \<open>rng\<close> are the ranges of the CST nodes. \<open>here\<close> tells the call for one node from its loop over the
  children that are left.
\<close>

partial_function (option) search_at :: "ast_arena \<Rightarrow> (nat \<Rightarrow> nat \<times> nat) \<Rightarrow> nat \<Rightarrow> bool \<Rightarrow> nat option \<Rightarrow> nat option option" where
  "search_at a rng offs here cur = (case cur of
     None \<Rightarrow> Some None
   | Some n \<Rightarrow>
     if here then
       if \<not> hasCstNode a n then Some None
       else if offs < fst (rng (cstNodeId (memory a n))) \<or> snd (rng (cstNodeId (memory a n))) < offs then Some None
       else Option.bind (search_at a rng offs False (firstChild (memory a n)))
         (\<lambda>r. Some (case r of None \<Rightarrow> Some n | Some m \<Rightarrow> Some m))
     else Option.bind (search_at a rng offs True (Some n))
         (\<lambda>r. case r of Some m \<Rightarrow> Some (Some m) | None \<Rightarrow> search_at a rng offs False (nextSibling (memory a n))))"

definition find_ast_node_at_offset :: "ast_arena \<Rightarrow> (nat \<Rightarrow> nat \<times> nat) \<Rightarrow> nat \<Rightarrow> nat \<Rightarrow> nat option option" where
  "find_ast_node_at_offset a rng n offs = search_at a rng offs True (Some n)"

end
