(* ===== verification/AstTree.thy ===== *)
theory AstTree
  imports Ast "HOL-Library.Code_Target_Nat"
begin

text \<open>
  Arenas against ordered forests: the specification is the list of the children of every node, in
  the order they were attached. The links lay it out, so the iterators walk it in order, and they
  return because no node is attached below itself.
\<close>

subsection \<open>The specification\<close>

datatype tree_op = Create | Attach nat nat | Source nat nat

text \<open>The number of nodes, their children, and their CST nodes.\<close>

type_synonym forest = "nat \<times> (nat \<Rightarrow> nat list) \<times> (nat \<rightharpoonup> nat)"

fun forest_step :: "tree_op \<Rightarrow> forest \<Rightarrow> forest" where
  "forest_step Create (n, kids, src) = (n + 1, kids, src)"
| "forest_step (Attach c p) (n, kids, src) = (n, kids(p := kids p @ [c]), src)"
| "forest_step (Source x k) (n, kids, src) = (n, kids, src(x \<mapsto> k))"

definition up :: "(nat \<Rightarrow> nat list) \<Rightarrow> (nat \<times> nat) set" where
  "up kids = {(c, p). c \<in> set (kids p)}"

text \<open>A node is attached once, and not to itself or a node below it; it gets one valid CST node.\<close>

fun attachable :: "tree_op \<Rightarrow> forest \<Rightarrow> bool" where
  "attachable Create (n, kids, src) = True"
| "attachable (Attach c p) (n, kids, src) = (c < n \<and> p < n \<and> (\<forall>q < n. c \<notin> set (kids q)) \<and> (p, c) \<notin> (up kids)\<^sup>*)"
| "attachable (Source x k) (n, kids, src) = (x < n \<and> src x = None \<and> k \<noteq> kNoNode)"

fun attachables :: "tree_op list \<Rightarrow> forest \<Rightarrow> bool" where
  "attachables [] f = True"
| "attachables (x # xs) f = (attachable x f \<and> attachables xs (forest_step x f))"

fun tree_step :: "tree_op \<Rightarrow> ast_arena \<Rightarrow> ast_arena option" where
  "tree_step Create a = Some (snd (create a))"
| "tree_step (Attach c p) a = setContainer c p a"
| "tree_step (Source x k) a = setCstNode x k a"

fun tree_run :: "tree_op list \<Rightarrow> ast_arena \<Rightarrow> ast_arena option" where
  "tree_run [] a = Some a"
| "tree_run (x # xs) a = (case tree_step x a of None \<Rightarrow> None | Some a' \<Rightarrow> tree_run xs a')"

text \<open>The nodes of some trees, each before the ones below it.\<close>

inductive preorder :: "(nat \<Rightarrow> nat list) \<Rightarrow> nat list \<Rightarrow> nat list \<Rightarrow> bool" for kids where
  none: "preorder kids [] []"
| node: "preorder kids (kids n) xs \<Longrightarrow> preorder kids ns ys \<Longrightarrow> preorder kids (n # ns) (n # xs @ ys)"

subsection \<open>What the links say\<close>

fun chained :: "(nat \<Rightarrow> ast_node) \<Rightarrow> nat list \<Rightarrow> bool" where
  "chained m [] = True"
| "chained m (x # xs) = (nextSibling (m x) = (case xs of [] \<Rightarrow> None | y # _ \<Rightarrow> Some y) \<and> chained m xs)"

definition first_of :: "'a list \<Rightarrow> 'a option" where
  "first_of xs = (case xs of [] \<Rightarrow> None | x # _ \<Rightarrow> Some x)"

definition last_of :: "'a list \<Rightarrow> 'a option" where
  "last_of xs = (if xs = [] then None else Some (last xs))"

definition laid_out :: "(nat \<Rightarrow> nat list) \<Rightarrow> ast_arena \<Rightarrow> bool" where
  "laid_out kids a \<longleftrightarrow>
     (\<forall>p < count a. firstChild (memory a p) = first_of (kids p) \<and> lastChild (memory a p) = last_of (kids p) \<and>
        chained (memory a) (kids p) \<and> distinct (kids p) \<and> set (kids p) \<subseteq> {..< count a}) \<and>
     (\<forall>p \<ge> count a. kids p = []) \<and>
     (\<forall>c < count a. \<forall>p. container (memory a c) = Some p \<longleftrightarrow> c \<in> set (kids p)) \<and>
     (\<forall>c < count a. container (memory a c) = None \<longrightarrow> nextSibling (memory a c) = None) \<and>
     acyclic (up kids)"

lemma laid_outD:
  assumes "laid_out kids a"
  shows "p < count a \<Longrightarrow> firstChild (memory a p) = first_of (kids p)"
    "p < count a \<Longrightarrow> lastChild (memory a p) = last_of (kids p)"
    "p < count a \<Longrightarrow> chained (memory a) (kids p)"
    "distinct (kids p)" "set (kids p) \<subseteq> {..< count a}"
    "c < count a \<Longrightarrow> container (memory a c) = Some p \<longleftrightarrow> c \<in> set (kids p)"
    "c < count a \<Longrightarrow> container (memory a c) = None \<Longrightarrow> nextSibling (memory a c) = None"
    "count a \<le> p \<Longrightarrow> kids p = []" "acyclic (up kids)"
proof -
  show "distinct (kids p)" "set (kids p) \<subseteq> {..< count a}"
    using assms unfolding laid_out_def by (cases "p < count a"; simp)+
qed (use assms in \<open>simp_all add: laid_out_def\<close>)

lemma laid_outI:
  assumes "\<And>p. p < count a \<Longrightarrow> firstChild (memory a p) = first_of (kids p)"
    and "\<And>p. p < count a \<Longrightarrow> lastChild (memory a p) = last_of (kids p)"
    and "\<And>p. p < count a \<Longrightarrow> chained (memory a) (kids p)"
    and "\<And>p. p < count a \<Longrightarrow> distinct (kids p)" and "\<And>p. p < count a \<Longrightarrow> set (kids p) \<subseteq> {..< count a}"
    and "\<And>p. count a \<le> p \<Longrightarrow> kids p = []"
    and "\<And>c p. c < count a \<Longrightarrow> container (memory a c) = Some p \<longleftrightarrow> c \<in> set (kids p)"
    and "\<And>c. c < count a \<Longrightarrow> container (memory a c) = None \<Longrightarrow> nextSibling (memory a c) = None"
    and "acyclic (up kids)"
  shows "laid_out kids a"
  unfolding laid_out_def using assms by blast

lemma up_below:
  assumes "laid_out kids a"
  shows "up kids \<subseteq> {..< count a} \<times> {..< count a}"
proof
  fix e
  assume "e \<in> up kids"
  then obtain c p where e: "e = (c, p)" "c \<in> set (kids p)" by (auto simp: up_def)
  then have "p < count a" using laid_outD(8) [OF assms, of p] by (cases "p < count a") auto
  then show "e \<in> {..< count a} \<times> {..< count a}" using e laid_outD(5) [OF assms, of p] by auto
qed

lemma up_wf: "laid_out kids a \<Longrightarrow> wf (up kids)"
  using up_below laid_outD(9) by (meson finite_SigmaI finite_lessThan finite_subset finite_acyclic_wf)

lemma up_wf_converse: "laid_out kids a \<Longrightarrow> wf ((up kids)\<inverse>)"
  using up_below laid_outD(9) by (meson finite_SigmaI finite_lessThan finite_subset finite_acyclic_wf_converse)

lemma chained_cong: "(\<And>x. x \<in> set xs \<Longrightarrow> nextSibling (m x) = nextSibling (m' x)) \<Longrightarrow> chained m xs = chained m' xs"
  by (induction xs) auto

lemma chained_append:
  "chained m xs \<Longrightarrow> distinct (xs @ [c]) \<Longrightarrow> nextSibling (m c) = None \<Longrightarrow> xs \<noteq> [] \<Longrightarrow>
    chained (m(last xs := m (last xs)\<lparr>nextSibling := Some c\<rparr>)) (xs @ [c])"
proof (induction xs)
  case (Cons x xs)
  show ?case
  proof (cases xs)
    case (Cons y ys)
    then have "x \<noteq> last xs" using Cons.prems(2) by auto
    then show ?thesis using Cons.IH Cons.prems Cons by auto
  qed (use Cons.prems in auto)
qed simp

lemma last_of_append [simp]: "last_of (xs @ [c]) = Some c"
  by (simp add: last_of_def)

lemma first_of_append: "first_of (xs @ [c]) = (if xs = [] then Some c else first_of xs)"
  by (cases xs) (simp_all add: first_of_def)

subsection \<open>Creating and attaching\<close>

lemma ensureChunkCapacity_simps [simp]:
  "count (ensureChunkCapacity a) = count a" "memory (ensureChunkCapacity a) = memory a"
  by (simp_all add: ensureChunkCapacity_def)

lemma storeNode_simps [simp]: "count (storeNode n a) = count a + 1" "memory (storeNode n a) = memory a"
  by (simp_all add: storeNode_def Let_def)

lemma create_simps:
  "fst (create a) = count a" "count (snd (create a)) = count a + 1"
  "memory (snd (create a)) = (memory a)(count a := new_node\<lparr>symbolId := count a\<rparr>)"
  by (simp_all add: create_def Let_def)

lemma create_laid_out:
  assumes "laid_out kids a"
  shows "laid_out kids (snd (create a))"
proof -
  have old: "x < count a" if "x \<in> set (kids p)" for x p using laid_outD(5) [OF assms, of p] that by auto
  have fresh: "count a \<notin> set (kids p)" for p using old by fastforce
  have none: "kids (count a) = []" using laid_outD(8) [OF assms] by simp
  have "chained ((memory a)(count a := new_node\<lparr>symbolId := count a\<rparr>)) (kids p)" if "p < count a" for p
  proof -
    have "chained ((memory a)(count a := new_node\<lparr>symbolId := count a\<rparr>)) (kids p) = chained (memory a) (kids p)"
      by (rule chained_cong) (use old in fastforce)
    then show ?thesis using laid_outD(3) [OF assms that] by simp
  qed
  then show ?thesis
    by (intro laid_outI; (unfold create_simps)?)
      (use laid_outD [OF assms] none old fresh in
        \<open>auto simp: less_Suc_eq new_node_def first_of_def last_of_def dest: less_imp_neq\<close>)
qed

lemma setContainer_links:
  assumes l: "laid_out kids a" and c: "c < count a" "container (memory a c) = None" and p: "p < count a" "p \<noteq> c"
  shows "\<exists>a'. setContainer c p a = Some a' \<and> count a' = count a \<and> chunks a' = chunks a \<and>
    (\<forall>x. container (memory a' x) = (if x = c then Some p else container (memory a x))) \<and>
    (\<forall>x. firstChild (memory a' x) = (if x = p \<and> kids p = [] then Some c else firstChild (memory a x))) \<and>
    (\<forall>x. lastChild (memory a' x) = (if x = p then Some c else lastChild (memory a x))) \<and>
    (\<forall>x. nextSibling (memory a' x) = (if kids p \<noteq> [] \<and> x = last (kids p) then Some c else nextSibling (memory a x))) \<and>
    (\<forall>x. symbolId (memory a' x) = symbolId (memory a x)) \<and> (\<forall>x. cstNodeId (memory a' x) = cstNodeId (memory a x))"
proof (cases "kids p = []")
  case True
  then have "lastChild (memory a p) = None" using laid_outD(2) [OF l p(1)] by (simp add: last_of_def)
  then show ?thesis using True c p by (simp add: setContainer_def Let_def)
next
  case False
  then have "lastChild (memory a p) = Some (last (kids p))" using laid_outD(2) [OF l p(1)] by (simp add: last_of_def)
  moreover have "last (kids p) \<in> set (kids p)" using False by simp
  then have "last (kids p) \<noteq> c" using laid_outD(6) [OF l c(1), of p] c(2) by auto
  moreover have "last (kids p) \<noteq> p"
  proof
    assume "last (kids p) = p"
    then have "(p, p) \<in> up kids" using \<open>last (kids p) \<in> set (kids p)\<close> by (simp add: up_def)
    then show False using laid_outD(9) [OF l] unfolding acyclic_def by blast
  qed
  ultimately show ?thesis using False c p by (simp add: setContainer_def Let_def)
qed

lemma setContainer_laid_out:
  assumes l: "laid_out kids a" and c: "c < count a" "\<forall>q < count a. c \<notin> set (kids q)" and p: "p < count a"
    and above: "(p, c) \<notin> (up kids)\<^sup>*"
  shows "\<exists>a'. setContainer c p a = Some a' \<and> laid_out (kids(p := kids p @ [c])) a' \<and> count a' = count a \<and> chunks a' = chunks a \<and>
    (\<forall>x. symbolId (memory a' x) = symbolId (memory a x))"
proof -
  have notin: "c \<notin> set (kids q)" for q using c(2) laid_outD(8) [OF l, of q] by (cases "q < count a") auto
  have nc: "container (memory a c) = None"
    using laid_outD(6) [OF l c(1)] notin by (cases "container (memory a c)") auto
  have "p \<noteq> c" using above by auto
  from setContainer_links [OF l c(1) nc p this] obtain a' where a': "setContainer c p a = Some a'" "count a' = count a" "chunks a' = chunks a"
      and con: "\<And>x. container (memory a' x) = (if x = c then Some p else container (memory a x))"
      and fir: "\<And>x. firstChild (memory a' x) = (if x = p \<and> kids p = [] then Some c else firstChild (memory a x))"
      and las: "\<And>x. lastChild (memory a' x) = (if x = p then Some c else lastChild (memory a x))"
      and nex: "\<And>x. nextSibling (memory a' x) = (if kids p \<noteq> [] \<and> x = last (kids p) then Some c else nextSibling (memory a x))"
      and sym: "\<forall>x. symbolId (memory a' x) = symbolId (memory a x)" by blast
  let ?kids = "kids(p := kids p @ [c])"
  have lone: "nextSibling (memory a c) = None" using laid_outD(7) [OF l c(1) nc] .
  have mine: "kids q \<noteq> [] \<Longrightarrow> last (kids p) \<in> set (kids q) \<Longrightarrow> kids p \<noteq> [] \<Longrightarrow> q = p" for q
  proof -
    assume "last (kids p) \<in> set (kids q)" "kids p \<noteq> []"
    moreover have "last (kids p) \<in> set (kids p)" "last (kids p) < count a"
      using \<open>kids p \<noteq> []\<close> subsetD [OF laid_outD(5) [OF l, of p] last_in_set] by simp_all
    ultimately have "container (memory a (last (kids p))) = Some q" "container (memory a (last (kids p))) = Some p"
      using laid_outD(6) [OF l, of "last (kids p)"] by blast+
    then show "q = p" by simp
  qed
  have chain: "chained (memory a') (?kids q)" if q: "q < count a" for q
  proof (cases "q = p")
    case True
    have "distinct (kids p @ [c])" using laid_outD(4) [OF l] notin by simp
    then have "chained ((memory a)(last (kids p) := memory a (last (kids p))\<lparr>nextSibling := Some c\<rparr>)) (kids p @ [c])" if "kids p \<noteq> []"
      using chained_append [OF laid_outD(3) [OF l p]] lone that by blast
    moreover have "chained (memory a') (kids p @ [c]) =
        chained ((memory a)(last (kids p) := memory a (last (kids p))\<lparr>nextSibling := Some c\<rparr>)) (kids p @ [c])" if "kids p \<noteq> []"
      by (rule chained_cong) (use nex that in auto)
    ultimately show ?thesis using True nex lone by (cases "kids p = []") auto
  next
    case False
    have "chained (memory a') (kids q) = chained (memory a) (kids q)"
      by (rule chained_cong) (use nex mine [of q] False in force)
    then show ?thesis using False laid_outD(3) [OF l q] by simp
  qed
  have "up ?kids = insert (c, p) (up kids)" by (auto simp: up_def split: if_splits)
  then have acyc: "acyclic (up ?kids)" using laid_outD(9) [OF l] above by (simp add: acyclic_insert)
  have cont: "container (memory a' x) = Some q \<longleftrightarrow> x \<in> set (?kids q)" if "x < count a" for x q
    using laid_outD(6) [OF l that, of q] con [of x] notin [of q] nc by auto
  have single: "nextSibling (memory a' x) = None" if "x < count a" "container (memory a' x) = None" for x
  proof -
    have "x \<noteq> c" "container (memory a x) = None" using con [of x] that(2) by (auto split: if_splits)
    moreover have "x \<noteq> last (kids p)" if "kids p \<noteq> []"
      using laid_outD(6) [OF l \<open>x < count a\<close>, of p] \<open>container (memory a x) = None\<close> that by (metis last_in_set option.distinct(1))
    ultimately show ?thesis using nex [of x] laid_outD(7) [OF l that(1)] by auto
  qed
  have "laid_out ?kids a'"
  proof (rule laid_outI; (unfold a'(2))?)
    fix q
    assume q: "q < count a"
    show "firstChild (memory a' q) = first_of (?kids q)"
      using fir [of q] laid_outD(1) [OF l q] by (auto simp: first_of_append) (simp add: first_of_def)
    show "lastChild (memory a' q) = last_of (?kids q)" using las [of q] laid_outD(2) [OF l q] by simp
    show "chained (memory a') (?kids q)" by (rule chain [OF q])
    show "distinct (?kids q)" using laid_outD(4) [OF l] notin by simp
    show "set (?kids q) \<subseteq> {..< count a}" using laid_outD(5) [OF l, of q] c(1) by auto
  next
    fix q
    assume "count a \<le> q"
    then show "?kids q = []" using laid_outD(8) [OF l] p by auto
  qed (fact cont single acyc)+
  then show ?thesis using a' sym by blast
qed

subsection \<open>Walking\<close>

lemma siblings_walk: "chained (memory a) xs \<Longrightarrow> siblings_from a (first_of xs) = Some xs"
proof (induction xs)
  case Nil
  show ?case by (subst siblings_from.simps) (simp add: first_of_def)
next
  case (Cons x xs)
  then have "siblings_from a (nextSibling (memory a x)) = Some xs" by (simp add: first_of_def)
  then show ?case by (subst siblings_from.simps) (simp add: first_of_def)
qed

lemma getContent_kids: "laid_out kids a \<Longrightarrow> n < count a \<Longrightarrow> getContent a n = Some (kids n)"
  unfolding getContent_def using laid_outD(1,3) siblings_walk by fastforce

lemma descend_stack:
  assumes "laid_out kids a" and "n < count a" and "chained (memory a) (n # ns)"
  shows "descend a n stack = (case first_of (kids n) of None \<Rightarrow> [] | Some c \<Rightarrow> [c]) @ (case first_of ns of None \<Rightarrow> [] | Some s \<Rightarrow> [s]) @ stack"
  using assms(3) laid_outD(1) [OF assms(1,2)] by (auto simp: descend_def Let_def first_of_def split: list.splits)

lemma descendants_walk:
  assumes l: "laid_out kids a"
  shows "preorder kids ns xs \<Longrightarrow> set ns \<subseteq> {..< count a} \<Longrightarrow> chained (memory a) ns \<Longrightarrow> descendants_from a stack = Some out \<Longrightarrow>
    descendants_from a ((case first_of ns of None \<Rightarrow> [] | Some n \<Rightarrow> [n]) @ stack) = Some (xs @ out)"
proof (induction arbitrary: stack out rule: preorder.induct)
  case none
  then show ?case by (simp add: first_of_def)
next
  case (node n xs ns ys)
  have n: "n < count a" using node.prems(1) by simp
  have "descendants_from a ((case first_of ns of None \<Rightarrow> [] | Some n \<Rightarrow> [n]) @ stack) = Some (ys @ out)"
    using node.IH(2) node.prems by simp
  from node.IH(1) [OF laid_outD(5) [OF l] laid_outD(3) [OF l n] this]
  have "descendants_from a (descend a n stack) = Some (xs @ ys @ out)"
    unfolding descend_stack [OF l n node.prems(2)] .
  then show ?case by (subst descendants_from.simps) (simp add: first_of_def)
qed

lemma preorder_exists_list: "\<forall>n \<in> set ns. \<exists>xs. preorder kids (kids n) xs \<Longrightarrow> \<exists>xs. preorder kids ns xs"
  by (induction ns) (auto intro: preorder.intros)

lemma preorder_exists: "wf (up kids) \<Longrightarrow> \<exists>xs. preorder kids (kids n) xs"
proof (induction n rule: wf_induct_rule)
  case (less n)
  then show ?case by (intro preorder_exists_list) (auto simp: up_def)
qed

lemma getAllContent_preorder:
  assumes l: "laid_out kids a" and n: "n < count a" and "preorder kids (kids n) xs"
  shows "getAllContent a n = Some xs"
proof -
  have "descendants_from a [] = Some []" by (subst descendants_from.simps) simp
  from descendants_walk [OF l assms(3) laid_outD(5) [OF l] laid_outD(3) [OF l n] this]
  show ?thesis by (simp add: getAllContent_def laid_outD(1) [OF l n])
qed

subsection \<open>Every node once\<close>

lemma up_star_down: "(d, n) \<in> (up kids)\<^sup>* \<longleftrightarrow> d = n \<or> (\<exists>k \<in> set (kids n). (d, k) \<in> (up kids)\<^sup>*)"
  unfolding up_def by (subst rtrancl_unfold) auto

lemma preorder_set: "preorder kids ns xs \<Longrightarrow> set xs = {d. \<exists>n \<in> set ns. (d, n) \<in> (up kids)\<^sup>*}"
proof (induction rule: preorder.induct)
  case (node n xs ns ys)
  then show ?case using up_star_down [of _ n kids] by auto
qed simp

lemma parent_unique:
  assumes l: "laid_out kids a" and "(c, p) \<in> up kids" and "(c, q) \<in> up kids"
  shows "p = q"
proof -
  have "c < count a" using up_below [OF l] assms(2) by auto
  then have "container (memory a c) = Some p" "container (memory a c) = Some q"
    using laid_outD(6) [OF l] assms(2,3) by (simp_all add: up_def)
  then show ?thesis by simp
qed

lemma above_comparable:
  assumes l: "laid_out kids a" and "(d, x) \<in> (up kids)\<^sup>*" and "(d, y) \<in> (up kids)\<^sup>*"
  shows "(x, y) \<in> (up kids)\<^sup>* \<or> (y, x) \<in> (up kids)\<^sup>*"
  using assms(2,3)
proof (induction rule: rtrancl_induct)
  case (step x x')
  from step.IH [OF step.prems] show ?case
  proof
    assume "(x, y) \<in> (up kids)\<^sup>*"
    then show ?thesis
    proof (cases rule: converse_rtranclE)
      case base
      then show ?thesis using step.hyps(2) by blast
    next
      case (step z)
      then show ?thesis using parent_unique [OF l step(1)] \<open>(x, x') \<in> up kids\<close> by blast
    qed
  next
    assume "(y, x) \<in> (up kids)\<^sup>*"
    then show ?thesis using step.hyps(2) by (blast intro: rtrancl_into_rtrancl)
  qed
qed blast

lemma kids_apart:
  assumes l: "laid_out kids a" and "x \<in> set (kids n)" and "y \<in> set (kids n)" and "(x, y) \<in> (up kids)\<^sup>*"
  shows "x = y"
proof (rule ccontr)
  assume "x \<noteq> y"
  with assms(4) obtain z where z: "(x, z) \<in> up kids" "(z, y) \<in> (up kids)\<^sup>*" by (metis converse_rtranclE)
  have "(x, n) \<in> up kids" "(y, n) \<in> up kids" using assms by (auto simp: up_def)
  then have "z = n" using parent_unique [OF l z(1)] by blast
  then have "(n, n) \<in> (up kids)\<^sup>+" using z(2) \<open>(y, n) \<in> up kids\<close> by (meson rtrancl_into_trancl1)
  then show False using laid_outD(9) [OF l] unfolding acyclic_def by blast
qed

lemma preorder_distinct:
  assumes l: "laid_out kids a"
  shows "preorder kids ns xs \<Longrightarrow> distinct ns \<Longrightarrow> \<forall>x \<in> set ns. \<forall>y \<in> set ns. (x, y) \<in> (up kids)\<^sup>* \<longrightarrow> x = y \<Longrightarrow> distinct xs"
proof (induction rule: preorder.induct)
  case (node n xs ns ys)
  have "distinct xs" using node.IH(1) laid_outD(4) [OF l] kids_apart [OF l] by blast
  moreover have "distinct ys" using node.IH(2) node.prems by simp
  moreover have "n \<notin> set xs"
  proof
    assume "n \<in> set xs"
    then obtain k where "k \<in> set (kids n)" "(n, k) \<in> (up kids)\<^sup>*" using preorder_set [OF node.hyps(1)] by blast
    then have "(n, n) \<in> (up kids)\<^sup>+" unfolding up_def by (meson case_prodI mem_Collect_eq rtrancl_into_trancl1)
    then show False using laid_outD(9) [OF l] unfolding acyclic_def by blast
  qed
  moreover have apart: "d \<notin> set ys" if "(d, n) \<in> (up kids)\<^sup>*" for d
  proof
    assume "d \<in> set ys"
    then obtain m where m: "m \<in> set ns" "(d, m) \<in> (up kids)\<^sup>*" using preorder_set [OF node.hyps(2)] by blast
    then have "(n, m) \<in> (up kids)\<^sup>* \<or> (m, n) \<in> (up kids)\<^sup>*" using above_comparable [OF l that] by blast
    then show False using node.prems m(1) by auto
  qed
  moreover have "set xs \<subseteq> {d. (d, n) \<in> (up kids)\<^sup>*}"
    unfolding preorder_set [OF node.hyps(1)] using up_star_down [of _ n kids] by auto
  ultimately show ?case by auto
qed simp

lemma getAllContent_once:
  assumes l: "laid_out kids a" and n: "n < count a"
  shows "\<exists>xs. getAllContent a n = Some xs \<and> preorder kids (kids n) xs \<and> distinct xs \<and> set xs = {d. (d, n) \<in> (up kids)\<^sup>+}"
proof -
  obtain xs where xs: "preorder kids (kids n) xs" using preorder_exists [OF up_wf [OF l]] by blast
  have "preorder kids [n] (n # xs @ [])" by (intro preorder.intros xs)
  from preorder_distinct [OF l this] have "distinct xs" by simp
  moreover have "set xs = {d. (d, n) \<in> (up kids)\<^sup>+}"
    unfolding preorder_set [OF xs] by (auto simp: up_def trancl_unfold_right relcomp_unfold)
  ultimately show ?thesis using getAllContent_preorder [OF l n xs] xs by blast
qed

subsection \<open>Numbering\<close>

definition numbered :: "ast_arena \<Rightarrow> bool" where
  "numbered a \<longleftrightarrow> length (chunks a) = (count a + 4095) div 4096 \<and>
     (\<forall>i < count a. (chunks a ! (i div 4096)) (i mod 4096) = Some i \<and> symbolId (memory a i) = i)"

lemma chunk_bits: "drop_bit ast_chunk_shift (x :: nat) = x div 4096" "take_bit ast_chunk_shift (x :: nat) = x mod 4096"
  by (simp_all add: ast_chunk_shift_def drop_bit_eq_div take_bit_eq_mod)

lemma create_numbered:
  assumes "numbered a"
  shows "numbered (snd (create a))"
proof -
  let ?c = "count a"
  define cs where "cs = (if ?c div 4096 = length (chunks a) then chunks a @ [\<lambda>_. None] else chunks a)"
  have len: "length (chunks a) = (?c + 4095) div 4096" using assms by (simp add: numbered_def)
  have cs: "length cs = (?c + 1 + 4095) div 4096" "?c div 4096 < length cs"
    using len by (auto simp: cs_def)
  have old: "(cs ! (i div 4096)) (i mod 4096) = Some i" if "i < ?c" for i
  proof -
    have "(i + 4096) div 4096 \<le> (?c + 4095) div 4096" using that by (intro div_le_mono) simp
    then have "i div 4096 < length (chunks a)" using len by simp
    then show ?thesis using assms that by (simp add: numbered_def cs_def nth_append)
  qed
  have chunks: "chunks (snd (create a)) = cs[?c div 4096 := (cs ! (?c div 4096))(?c mod 4096 \<mapsto> ?c)]"
    by (simp add: create_def Let_def storeNode_def ensureChunkCapacity_def chunk_bits cs_def)
  have "(chunks (snd (create a)) ! (i div 4096)) (i mod 4096) = Some i" if "i < ?c + 1" for i
  proof (cases "i = ?c")
    case False
    then have "i div 4096 \<noteq> ?c div 4096 \<or> i mod 4096 \<noteq> ?c mod 4096" by (metis div_mult_mod_eq)
    then show ?thesis using old [of i] that False cs(2) unfolding chunks by (cases "i div 4096 = ?c div 4096") auto
  qed (use cs(2) in \<open>simp add: chunks\<close>)
  moreover have "symbolId (memory (snd (create a)) i) = i" if "i < ?c + 1" for i
    using assms that by (auto simp: create_simps numbered_def new_node_def)
  ultimately show ?thesis using cs(1) unfolding numbered_def create_simps chunks by simp
qed

lemma numbered_cong:
  "numbered a \<Longrightarrow> count a' = count a \<Longrightarrow> chunks a' = chunks a \<Longrightarrow> (\<forall>x. symbolId (memory a' x) = symbolId (memory a x)) \<Longrightarrow> numbered a'"
  by (simp add: numbered_def)

lemma getNode_numbered: "numbered a \<Longrightarrow> getNode a i = (if i < count a then Some i else None)"
  by (simp add: getNode_def numbered_def chunk_bits)

lemma destroyed_numbered: "numbered a \<Longrightarrow> n \<le> count a \<Longrightarrow> destroyed a n = map Some (rev [0 ..< n])"
  by (induction n) (simp_all add: numbered_def chunk_bits)

subsection \<open>Runs\<close>

definition implements_forest :: "ast_arena \<Rightarrow> forest \<Rightarrow> bool" where
  "implements_forest a f \<longleftrightarrow> (case f of (n, kids, src) \<Rightarrow> count a = n \<and> laid_out kids a \<and> numbered a \<and>
     (\<forall>x < n. cstNodeId (memory a x) = (case src x of None \<Rightarrow> kNoNode | Some k \<Rightarrow> k)) \<and> dom src \<subseteq> {..< n} \<and> kNoNode \<notin> ran src)"

lemma new_implements: "implements_forest (new_arena raw) (0, \<lambda>_. [], \<lambda>_. None)"
  by (simp add: implements_forest_def new_arena_def laid_out_def numbered_def up_def acyclic_def)

lemma source_laid_out: "laid_out kids (a\<lparr>memory := (memory a)(x := memory a x\<lparr>cstNodeId := k\<rparr>)\<rparr>) = laid_out kids a"
proof -
  define m where "m = (memory a)(x := memory a x\<lparr>cstNodeId := k\<rparr>)"
  have "chained m xs = chained (memory a) xs" for xs by (rule chained_cong) (simp add: m_def)
  moreover have "container (m y) = container (memory a y)" "firstChild (m y) = firstChild (memory a y)"
    "lastChild (m y) = lastChild (memory a y)" "nextSibling (m y) = nextSibling (memory a y)" for y by (simp_all add: m_def)
  ultimately show ?thesis unfolding m_def [symmetric] by (simp add: laid_out_def)
qed

lemma tree_step_implements:
  assumes a: "implements_forest a f" and ok: "attachable x f"
  shows "\<exists>a'. tree_step x a = Some a' \<and> implements_forest a' (forest_step x f)"
proof -
  obtain n kids src where f: "f = (n, kids, src)" by (rule prod_cases3)
  have i: "count a = n" "laid_out kids a" "numbered a" "\<forall>x < n. cstNodeId (memory a x) = (case src x of None \<Rightarrow> kNoNode | Some k \<Rightarrow> k)"
    "dom src \<subseteq> {..< n}" "kNoNode \<notin> ran src"
    using a by (simp_all add: f implements_forest_def)
  show ?thesis
  proof (cases x)
    case Create
    have "src n = None" using i(5) by (auto simp: domIff)
    then have "implements_forest (snd (create a)) (n + 1, kids, src)"
      using i create_laid_out [OF i(2)] create_numbered [OF i(3)]
      by (auto simp: implements_forest_def create_simps new_node_def less_Suc_eq)
    then show ?thesis using Create f by simp
  next
    case (Attach c p)
    then have ok': "c < count a" "p < count a" "\<forall>q < count a. c \<notin> set (kids q)" "(p, c) \<notin> (up kids)\<^sup>*"
      using ok f i(1) by simp_all
    have "p \<noteq> c" using ok'(4) by auto
    have "container (memory a c) = None" using laid_outD(6) [OF i(2) ok'(1)] ok'(3) laid_outD(8) [OF i(2)]
      by (metis empty_iff list.set(1) not_le not_None_eq)
    from setContainer_links [OF i(2) ok'(1) this ok'(2) \<open>p \<noteq> c\<close>] obtain a' where a': "setContainer c p a = Some a'"
        "\<forall>x. cstNodeId (memory a' x) = cstNodeId (memory a x)" by blast
    moreover have "laid_out (kids(p := kids p @ [c])) a'" "count a' = n" "numbered a'"
      using setContainer_laid_out [OF i(2) ok'(1,3,2,4)] a'(1) i(1) numbered_cong [OF i(3)] by auto
    ultimately show ?thesis using i Attach f by (simp add: implements_forest_def)
  next
    case (Source y k)
    let ?a = "a\<lparr>memory := (memory a)(y := memory a y\<lparr>cstNodeId := k\<rparr>)\<rparr>"
    have y: "y < n" "src y = None" "k \<noteq> kNoNode" using ok Source f by simp_all
    then have "setCstNode y k a = Some ?a" using i(4) by (simp add: setCstNode_def)
    moreover have "numbered ?a" by (rule numbered_cong [OF i(3)]) simp_all
    moreover have "kNoNode \<notin> ran (src(y \<mapsto> k))" using i(6) y by (auto simp: ran_def)
    ultimately show ?thesis using i y Source f by (simp add: implements_forest_def source_laid_out)
  qed
qed

lemma tree_run_implements:
  "implements_forest a f \<Longrightarrow> attachables xs f \<Longrightarrow> \<exists>a'. tree_run xs a = Some a' \<and> implements_forest a' (fold forest_step xs f)"
proof (induction xs arbitrary: a f)
  case (Cons x xs)
  obtain a1 where "tree_step x a = Some a1" "implements_forest a1 (forest_step x f)"
    using tree_step_implements [OF Cons.prems(1), of x] Cons.prems(2) by auto
  then show ?case using Cons.IH [of a1 "forest_step x f"] Cons.prems(2) by simp
qed simp

subsection \<open>Looking up an offset\<close>

text \<open>\<open>covers\<close>: the CST node of \<open>n\<close> contains the offset.\<close>

definition covers :: "ast_arena \<Rightarrow> (nat \<Rightarrow> nat \<times> nat) \<Rightarrow> nat \<Rightarrow> nat \<Rightarrow> bool" where
  "covers a rng offs n \<longleftrightarrow> hasCstNode a n \<and> fst (rng (cstNodeId (memory a n))) \<le> offs \<and> offs \<le> snd (rng (cstNodeId (memory a n)))"

lemma find_at_none: "search_at a rng offs here None = Some None"
  by (subst search_at.simps) simp

lemma find_at_here: "search_at a rng offs True (Some n) = (if \<not> covers a rng offs n then Some None
    else Option.bind (search_at a rng offs False (firstChild (memory a n))) (\<lambda>r. Some (case r of None \<Rightarrow> Some n | Some m \<Rightarrow> Some m)))"
  by (subst search_at.simps) (auto simp: covers_def)

lemma find_at_rest: "search_at a rng offs False (Some n) = Option.bind (search_at a rng offs True (Some n))
    (\<lambda>r. case r of Some m \<Rightarrow> Some (Some m) | None \<Rightarrow> search_at a rng offs False (nextSibling (memory a n)))"
  by (subst search_at.simps) simp

definition innermost :: "(nat \<Rightarrow> nat list) \<Rightarrow> (nat \<Rightarrow> bool) \<Rightarrow> nat \<Rightarrow> nat \<Rightarrow> bool" where
  "innermost kids P n m \<longleftrightarrow> (m, n) \<in> (up kids)\<^sup>* \<and> (\<forall>q. (m, q) \<in> (up kids)\<^sup>* \<and> (q, n) \<in> (up kids)\<^sup>* \<longrightarrow> P q) \<and> (\<forall>k \<in> set (kids m). \<not> P k)"

lemma innermost_kid:
  assumes l: "laid_out kids a" and k: "k \<in> set (kids n)" and "P n" and i: "innermost kids P k m"
  shows "innermost kids P n m"
proof -
  have kn: "(k, n) \<in> up kids" using k by (simp add: up_def)
  have "P q" if q: "(m, q) \<in> (up kids)\<^sup>*" "(q, n) \<in> (up kids)\<^sup>*" for q
  proof -
    have "(q, k) \<in> (up kids)\<^sup>* \<or> (k, q) \<in> (up kids)\<^sup>*"
      using above_comparable [OF l q(1)] i unfolding innermost_def by blast
    then show ?thesis
    proof
      assume "(k, q) \<in> (up kids)\<^sup>*"
      then show ?thesis
      proof (cases rule: converse_rtranclE)
        case base
        then show ?thesis using i q(1) unfolding innermost_def by blast
      next
        case (step z)
        then have "z = n" using parent_unique [OF l _ kn] by blast
        then have "(n, q) \<in> (up kids)\<^sup>*" using step by simp
        then have "q = n" using q(2) laid_outD(9) [OF l] by (meson acyclic_impl_antisym_rtrancl antisymD)
        then show ?thesis using assms(3) by simp
      qed
    qed (use i q(1) in \<open>unfold innermost_def, blast\<close>)
  qed
  moreover have "(m, n) \<in> (up kids)\<^sup>*" using i kn unfolding innermost_def by (meson rtrancl_into_rtrancl)
  ultimately show ?thesis using i unfolding innermost_def by blast
qed

lemma find_children:
  assumes "chained (memory a) ns"
    and "\<forall>k \<in> set ns. \<exists>r. search_at a rng offs True (Some k) = Some r \<and> (r = None \<longleftrightarrow> \<not> P k) \<and> (\<forall>m. r = Some m \<longrightarrow> Q k m)"
  shows "\<exists>r. search_at a rng offs False (first_of ns) = Some r \<and> (r = None \<longleftrightarrow> (\<forall>k \<in> set ns. \<not> P k)) \<and> (\<forall>m. r = Some m \<longrightarrow> (\<exists>k \<in> set ns. Q k m))"
  using assms
proof (induction ns)
  case Nil
  then show ?case by (simp add: first_of_def find_at_none)
next
  case (Cons x xs)
  obtain r where r: "search_at a rng offs True (Some x) = Some r" "r = None \<longleftrightarrow> \<not> P x" "\<forall>m. r = Some m \<longrightarrow> Q x m"
    using Cons.prems(2) by auto
  have next_: "nextSibling (memory a x) = first_of xs" using Cons.prems(1) by (simp add: first_of_def)
  obtain r' where r': "search_at a rng offs False (first_of xs) = Some r'" "r' = None \<longleftrightarrow> (\<forall>k \<in> set xs. \<not> P k)"
      "\<forall>m. r' = Some m \<longrightarrow> (\<exists>k \<in> set xs. Q k m)"
    using Cons.IH Cons.prems by auto
  show ?case
  proof (cases r)
    case None
    have "search_at a rng offs False (first_of (x # xs)) = Some r'"
      using r(1) r'(1) None next_ by (simp add: first_of_def find_at_rest)
    then show ?thesis using r' r(2) None by auto
  next
    case (Some m)
    have "search_at a rng offs False (first_of (x # xs)) = Some (Some m)"
      using r(1) Some by (simp add: first_of_def find_at_rest)
    then show ?thesis using r(2,3) Some by auto
  qed
qed

lemma find_innermost:
  assumes l: "laid_out kids a" and "n < count a"
  shows "\<exists>r. search_at a rng offs True (Some n) = Some r \<and> (r = None \<longleftrightarrow> \<not> covers a rng offs n) \<and>
    (\<forall>m. r = Some m \<longrightarrow> innermost kids (covers a rng offs) n m)"
  using assms(2)
proof (induction n rule: wf_induct_rule [OF up_wf [OF l]])
  case (1 n)
  let ?P = "covers a rng offs"
  show ?case
  proof (cases "?P n")
    case True
    have "\<forall>k \<in> set (kids n). \<exists>r. search_at a rng offs True (Some k) = Some r \<and> (r = None \<longleftrightarrow> \<not> ?P k) \<and>
        (\<forall>m. r = Some m \<longrightarrow> innermost kids ?P k m)"
      using 1(1) laid_outD(5) [OF l, of n] by (auto simp: up_def)
    from find_children [OF laid_outD(3) [OF l 1(2)] this] obtain r where r: "search_at a rng offs False (first_of (kids n)) = Some r"
        "r = None \<longleftrightarrow> (\<forall>k \<in> set (kids n). \<not> ?P k)" "\<forall>m. r = Some m \<longrightarrow> (\<exists>k \<in> set (kids n). innermost kids ?P k m)" by blast
    have at: "search_at a rng offs True (Some n) = Some (case r of None \<Rightarrow> Some n | Some m \<Rightarrow> Some m)"
      using r(1) True laid_outD(1) [OF l 1(2)] by (simp add: find_at_here)
    show ?thesis
    proof (cases r)
      case None
      have "q = n" if "(n, q) \<in> (up kids)\<^sup>*" "(q, n) \<in> (up kids)\<^sup>*" for q
        using that laid_outD(9) [OF l] by (meson acyclic_impl_antisym_rtrancl antisymD)
      then have "innermost kids ?P n n" using r(2) None True unfolding innermost_def by blast
      then show ?thesis using at None True by simp
    next
      case (Some m)
      then obtain k where "k \<in> set (kids n)" "innermost kids ?P k m" using r(3) by blast
      then have "innermost kids ?P n m" using innermost_kid [where P = ?P, OF l] True by blast
      then show ?thesis using at Some True by simp
    qed
  qed (simp add: find_at_here)
qed

subsection \<open>Properties\<close>

text \<open>
  C37: an arena holds the forest its operations describe. When every node is attached once and
  never below itself, no assertion fails; the ids lead back to the nodes and every node is destroyed once, the last created first; the
  children of a node come in the order they were attached, and its descendants come each once, in preorder.
\<close>

theorem arena_holds_forest:
  assumes "attachables ops (0, \<lambda>_. [], \<lambda>_. None)" and "fold forest_step ops (0, \<lambda>_. [], \<lambda>_. None) = (n, kids, src)"
  shows "\<exists>a. tree_run ops (new_arena raw) = Some a \<and> fst (destroyAll a) = map Some (rev [0 ..< n]) \<and>
    (\<forall>i. getNode a i = (if i < n then Some i else None)) \<and>
    (\<forall>p < n. getContent a p = Some (kids p) \<and> (\<forall>q. (container (memory a p) = Some q) = (p \<in> set (kids q))) \<and>
      (\<exists>xs. getAllContent a p = Some xs \<and> preorder kids (kids p) xs \<and> distinct xs \<and> set xs = {d. (d, p) \<in> (up kids)\<^sup>+}))"
proof -
  obtain a where a: "tree_run ops (new_arena raw) = Some a" "implements_forest a (n, kids, src)"
    using tree_run_implements [OF new_implements assms(1)] assms(2) by auto
  then have i: "count a = n" "laid_out kids a" "numbered a" by (simp_all add: implements_forest_def)
  have "fst (destroyAll a) = map Some (rev [0 ..< n])"
    using destroyed_numbered [OF i(3)] i(1) by (simp add: destroyAll_def)
  then show ?thesis
    using a(1) getNode_numbered [OF i(3)] getContent_kids [OF i(2)] getAllContent_once [OF i(2)] laid_outD(6) [OF i(2)] i(1) by blast
qed

lemma arena_holds_forest_witness:
  "\<exists>a xs. tree_run [Create, Create, Create, Attach 1 0, Attach 2 1] (new_arena (\<lambda>_. new_node)) = Some a \<and>
    getAllContent a 0 = Some xs \<and> distinct xs"
proof -
  have "up (\<lambda>_. []) = {}" "up ((\<lambda>_. [])(0 := [Suc 0])) = {(Suc 0, 0)}" by (auto simp: up_def)
  moreover have "x = y \<or> (x, y) = (Suc 0, 0)" if "(x, y) \<in> {(Suc 0, 0)}\<^sup>*" for x y
    using that by (induction rule: rtrancl_induct) auto
  then have "(Suc 0, 2) \<notin> {(Suc 0, 0 :: nat)}\<^sup>*" by fastforce
  ultimately have "attachables [Create, Create, Create, Attach 1 0, Attach 2 1] (0, \<lambda>_. [], \<lambda>_. None)"
    by (simp add: less_Suc_eq)
  moreover have "fold forest_step [Create, Create, Create, Attach 1 0, Attach 2 1] (0, \<lambda>_. [], \<lambda>_. None) =
      (3, (\<lambda>_. [])(0 := [1], 1 := [2]), \<lambda>_. None)" by simp
  moreover have "(0 :: nat) < 3" by simp
  ultimately show ?thesis using arena_holds_forest [where raw = "\<lambda>_. new_node"] by blast
qed

text \<open>
  The node at an offset. The search returns for every node, finds nothing exactly when the node's
  own text does not contain the offset, and otherwise a descendant that contains it with all the nodes above
  it, and whose children do not.
\<close>

theorem find_ast_node_innermost:
  assumes "attachables ops (0, \<lambda>_. [], \<lambda>_. None)" and "fold forest_step ops (0, \<lambda>_. [], \<lambda>_. None) = (n, kids, src)"
    and "x < n"
  shows "\<exists>a r. tree_run ops (new_arena raw) = Some a \<and> find_ast_node_at_offset a rng x offs = Some r \<and>
    (r = None) = (\<not> covers a rng offs x) \<and>
    (\<forall>m. r = Some m \<longrightarrow> innermost kids (covers a rng offs) x m)"
proof -
  obtain a where a: "tree_run ops (new_arena raw) = Some a" "implements_forest a (n, kids, src)"
    using tree_run_implements [OF new_implements assms(1)] assms(2) by auto
  then have "x < count a" "laid_out kids a" using assms(3) by (simp_all add: implements_forest_def)
  from find_innermost [OF this(2,1), of rng offs] show ?thesis
    using a(1) unfolding find_ast_node_at_offset_def by blast
qed

lemma find_ast_node_innermost_witness:
  "\<exists>a r. tree_run [Create, Create, Source 0 0, Source 1 1, Attach 1 0] (new_arena (\<lambda>_. new_node)) = Some a \<and>
    find_ast_node_at_offset a (\<lambda>k. if k = 0 then (0, 9) else (2, 4)) 0 3 = Some r"
proof -
  have "up (\<lambda>_. []) = {}" by (simp add: up_def)
  then have "attachables [Create, Create, Source 0 0, Source 1 1, Attach 1 0] (0, \<lambda>_. [], \<lambda>_. None)"
    by (simp add: kNoNode_def u32_max_def)
  moreover have "fold forest_step [Create, Create, Source 0 0, Source 1 1, Attach 1 0] (0, \<lambda>_. [], \<lambda>_. None) =
      (2, (\<lambda>_. [])(0 := [1]), [0 \<mapsto> 0, 1 \<mapsto> 1])" by simp
  moreover have "(0 :: nat) < 2" by simp
  ultimately show ?thesis using find_ast_node_innermost [where raw = "\<lambda>_. new_node"] by blast
qed

end
