(* ===== verification/Reflection.thy ===== *)
theory Reflection
  imports IndexMgr
begin

text \<open>
  The registry of AST types (\<open>core/syntax-tree/AstReflection.cpp\<close>, \<open>AstReflection.hpp\<close>): the types
  that were registered and, for each, its supertypes and its subtypes, kept transitively closed by
  every registration. A \<open>std::type_index\<close> is a number; those of \<open>void\<close> and \<open>AstNode\<close> are fixed. An
  unordered set is the list of its elements in some order, without duplicates.
\<close>

subsection \<open>The registry\<close>

definition invalid_type :: nat where
  "invalid_type = 0"

definition ast_node_type :: nat where
  "ast_node_type = 1"

record ast_reflection =
  types :: "nat list"
  supertypesByType :: "nat \<rightharpoonup> nat list"
  subtypesByType :: "nat \<rightharpoonup> nat list"

definition new_reflection :: ast_reflection where
  "new_reflection = \<lparr>types = [], supertypesByType = (\<lambda>_. None), subtypesByType = (\<lambda>_. None)\<rparr>"

text \<open>\<open>operator[]\<close> of the two maps reads an empty set where there is none.\<close>

definition type_set :: "(nat \<rightharpoonup> nat list) \<Rightarrow> nat \<Rightarrow> nat list" where
  "type_set f x = (case f x of None \<Rightarrow> [] | Some l \<Rightarrow> l)"

definition registerTypeInternal :: "nat \<Rightarrow> ast_reflection \<Rightarrow> ast_reflection" where
  "registerTypeInternal t r =
     (if t = invalid_type then r
      else r\<lparr>types := List.insert t (types r),
             subtypesByType := (subtypesByType r)(t \<mapsto> List.insert t (type_set (subtypesByType r) t))\<rparr>)"

text \<open>
  The two loops of \<open>registerSubtype\<close>. The outer one iterates over the live set of the subtypes of \<open>s\<close>: an insertion
  into that set would invalidate the iteration, and is \<open>None\<close> here.
\<close>

definition link_supertype :: "nat \<Rightarrow> nat \<Rightarrow> nat \<Rightarrow> ast_reflection \<Rightarrow> ast_reflection option" where
  "link_supertype s knownSubtype knownSupertype r =
     (if knownSubtype = knownSupertype then Some r
      else let supertypes = type_set (supertypesByType r) knownSubtype in
        if knownSupertype \<in> set supertypes then Some r
        else if knownSupertype = s \<and> knownSubtype \<notin> set (type_set (subtypesByType r) s) then None
        else Some (r\<lparr>supertypesByType := (supertypesByType r)(knownSubtype \<mapsto> supertypes @ [knownSupertype]),
                     subtypesByType := (subtypesByType r)(knownSupertype \<mapsto>
                       List.insert knownSubtype (type_set (subtypesByType r) knownSupertype))\<rparr>))"

fun link_supertypes :: "nat \<Rightarrow> nat \<Rightarrow> nat list \<Rightarrow> ast_reflection \<Rightarrow> ast_reflection option" where
  "link_supertypes s x [] r = Some r"
| "link_supertypes s x (y # ys) r =
     (case link_supertype s x y r of None \<Rightarrow> None | Some r' \<Rightarrow> link_supertypes s x ys r')"

fun link_subtypes :: "nat \<Rightarrow> nat list \<Rightarrow> nat list \<Rightarrow> ast_reflection \<Rightarrow> ast_reflection option" where
  "link_subtypes s [] allSupertypes r = Some r"
| "link_subtypes s (x # xs) allSupertypes r =
     (case link_supertypes s x allSupertypes
        (r\<lparr>supertypesByType := (supertypesByType r)(x \<mapsto> type_set (supertypesByType r) x)\<rparr>) of
        None \<Rightarrow> None
      | Some r' \<Rightarrow> link_subtypes s xs allSupertypes r')"

text \<open>\<open>at\<close> throws for a type without a set: \<open>None\<close>.\<close>

definition registerSubtype :: "nat \<Rightarrow> nat \<Rightarrow> ast_reflection \<Rightarrow> ast_reflection option" where
  "registerSubtype subtype supertype r =
     (let r1 = registerTypeInternal supertype (registerTypeInternal subtype r) in
      if subtype = invalid_type \<or> supertype = invalid_type \<or> subtype = supertype then Some r1
      else case subtypesByType r1 subtype of
        None \<Rightarrow> None
      | Some allSubtypes \<Rightarrow>
          link_subtypes subtype allSubtypes (supertype # type_set (supertypesByType r1) supertype) r1)"

definition registerType :: "nat \<Rightarrow> ast_reflection \<Rightarrow> ast_reflection option" where
  "registerType t r =
     (if t = invalid_type then Some r
      else if t = ast_node_type then Some (registerTypeInternal t r)
      else registerSubtype t ast_node_type r)"

definition isSubtype :: "ast_reflection \<Rightarrow> nat \<Rightarrow> nat \<Rightarrow> bool" where
  "isSubtype r subtype supertype =
     (if subtype = supertype then True
      else case supertypesByType r subtype of None \<Rightarrow> False | Some l \<Rightarrow> supertype \<in> set l)"

text \<open>\<open>dynamic\<close> is \<open>typeid(node)\<close>.\<close>

definition isInstance :: "ast_reflection \<Rightarrow> nat \<Rightarrow> nat \<Rightarrow> bool" where
  "isInstance r dynamic t = isSubtype r dynamic t"

definition isKnown :: "ast_reflection \<Rightarrow> nat \<Rightarrow> bool" where
  "isKnown r t \<longleftrightarrow> t \<in> set (types r)"

definition getAllSubTypes :: "ast_reflection \<Rightarrow> nat \<Rightarrow> nat list" where
  "getAllSubTypes r t = (if t = invalid_type \<or> t \<notin> set (types r) then [] else type_set (subtypesByType r) t)"

abbreviation assignable :: "ast_reflection \<Rightarrow> nat \<Rightarrow> nat \<Rightarrow> bool" where
  "assignable r \<equiv> type_is_assignable invalid_type (isSubtype r)"

subsection \<open>The invariant\<close>

text \<open>
  \<open>E\<close> are the declared edges: the supertypes of a type are the other types it reaches, and the
  subtypes of a registered type are itself and those that reach it.
\<close>

definition reflects :: "nat set \<Rightarrow> (nat \<times> nat) set \<Rightarrow> ast_reflection \<Rightarrow> bool" where
  "reflects T E r \<longleftrightarrow> set (types r) = T \<and> invalid_type \<notin> T \<and> E \<subseteq> T \<times> T \<and>
     (\<forall>x y. y \<in> set (type_set (supertypesByType r) x) \<longleftrightarrow> (x, y) \<in> E\<^sup>+ \<and> x \<noteq> y) \<and>
     (\<forall>x y. x \<in> set (type_set (subtypesByType r) y) \<longleftrightarrow> (x, y) \<in> E\<^sup>+ \<and> x \<noteq> y \<or> x = y \<and> y \<in> T)"

lemma type_set_upd [simp]: "type_set (f(x \<mapsto> l)) y = (if y = x then l else type_set f y)"
  by (simp add: type_set_def)

lemma reflectsD:
  assumes "reflects T E r"
  shows "set (types r) = T" "invalid_type \<notin> T" "E \<subseteq> T \<times> T"
    "y \<in> set (type_set (supertypesByType r) x) \<longleftrightarrow> (x, y) \<in> E\<^sup>+ \<and> x \<noteq> y"
    "x \<in> set (type_set (subtypesByType r) y) \<longleftrightarrow> (x, y) \<in> E\<^sup>+ \<and> x \<noteq> y \<or> x = y \<and> y \<in> T"
  using assms unfolding reflects_def by blast+

lemma new_reflects: "reflects {} {} new_reflection"
  by (simp add: reflects_def new_reflection_def type_set_def)

lemma registerTypeInternal_reflects:
  "reflects T E r \<Longrightarrow> reflects (if t = invalid_type then T else insert t T) E (registerTypeInternal t r)"
  by (auto simp: reflects_def registerTypeInternal_def)

lemma registered_subtypes: "t \<noteq> invalid_type \<Longrightarrow> subtypesByType (registerTypeInternal t r) t \<noteq> None"
  by (simp add: registerTypeInternal_def)

lemma isSubtype_reach:
  assumes "reflects T E r"
  shows "isSubtype r a b = ((a, b) \<in> E\<^sup>*)"
proof -
  have "(case supertypesByType r a of None \<Rightarrow> False | Some l \<Rightarrow> b \<in> set l) = (b \<in> set (type_set (supertypesByType r) a))"
    by (simp add: type_set_def split: option.splits)
  then show ?thesis unfolding isSubtype_def reflectsD(4) [OF assms] rtrancl_eq_or_trancl by simp
qed

text \<open>While the loops run: the pairs \<open>P\<close> have been added to what \<open>E\<close> gives.\<close>

definition linking :: "nat set \<Rightarrow> (nat \<times> nat) set \<Rightarrow> (nat \<times> nat) set \<Rightarrow> ast_reflection \<Rightarrow> bool" where
  "linking T R P r \<longleftrightarrow> set (types r) = T \<and>
     (\<forall>x y. y \<in> set (type_set (supertypesByType r) x) \<longleftrightarrow> (x, y) \<in> R \<union> P \<and> x \<noteq> y) \<and>
     (\<forall>x y. x \<in> set (type_set (subtypesByType r) y) \<longleftrightarrow> (x, y) \<in> R \<union> P \<and> x \<noteq> y \<or> x = y \<and> y \<in> T)"

lemma link_supertype_linking:
  assumes "linking T R P r" and "(x, s) \<in> R \<or> x = s \<and> s \<in> T"
  shows "\<exists>r'. link_supertype s x y r = Some r' \<and> linking T R (insert (x, y) P) r'"
proof (cases "x = y \<or> y \<in> set (type_set (supertypesByType r) x)")
  case True
  then show ?thesis using assms(1) by (auto simp: link_supertype_def linking_def)
next
  case False
  then have "\<not> (y = s \<and> x \<notin> set (type_set (subtypesByType r) s))"
    using assms by (auto simp: linking_def)
  with False show ?thesis
    using assms(1) by (auto simp: link_supertype_def linking_def Let_def)
qed

lemma link_supertypes_linking:
  assumes "linking T R P r" and "(x, s) \<in> R \<or> x = s \<and> s \<in> T"
  shows "\<exists>r'. link_supertypes s x ys r = Some r' \<and> linking T R (P \<union> {x} \<times> set ys) r'"
  using assms(1)
proof (induction ys arbitrary: r P)
  case (Cons y ys)
  obtain r1 where "link_supertype s x y r = Some r1" "linking T R (insert (x, y) P) r1"
    using link_supertype_linking [OF Cons.prems assms(2)] by blast
  moreover have "insert (x, y) P \<union> {x} \<times> set ys = P \<union> {x} \<times> set (y # ys)" by auto
  ultimately show ?case using Cons.IH [of "insert (x, y) P" r1] by simp
qed simp

lemma link_subtypes_linking:
  assumes "linking T R P r" and "\<forall>x \<in> set xs. (x, s) \<in> R \<or> x = s \<and> s \<in> T"
  shows "\<exists>r'. link_subtypes s xs ys r = Some r' \<and> linking T R (P \<union> set xs \<times> set ys) r'"
  using assms
proof (induction xs arbitrary: r P)
  case (Cons x xs)
  have "linking T R P (r\<lparr>supertypesByType := (supertypesByType r)(x \<mapsto> type_set (supertypesByType r) x)\<rparr>)"
    using Cons.prems(1) by (auto simp: linking_def)
  moreover have "(x, s) \<in> R \<or> x = s \<and> s \<in> T" using Cons.prems(2) by simp
  ultimately obtain r1 where
    "link_supertypes s x ys (r\<lparr>supertypesByType := (supertypesByType r)(x \<mapsto> type_set (supertypesByType r) x)\<rparr>) = Some r1"
    "linking T R (P \<union> {x} \<times> set ys) r1"
    using link_supertypes_linking by blast
  moreover have "P \<union> {x} \<times> set ys \<union> set xs \<times> set ys = P \<union> set (x # xs) \<times> set ys" by auto
  ultimately show ?case using Cons.IH [of "P \<union> {x} \<times> set ys" r1] Cons.prems(2) by simp
qed simp

lemma registerSubtype_reflects:
  assumes "reflects T E r"
  shows "\<exists>r'. registerSubtype s t r = Some r' \<and>
    reflects (T \<union> ({s, t} - {invalid_type})) (if s = invalid_type \<or> t = invalid_type \<or> s = t then E else insert (s, t) E) r'"
proof -
  let ?r = "registerTypeInternal t (registerTypeInternal s r)" and ?T = "T \<union> ({s, t} - {invalid_type})"
  have "(if t = invalid_type then (if s = invalid_type then T else insert s T)
      else insert t (if s = invalid_type then T else insert s T)) = ?T" by auto
  then have r: "reflects ?T E ?r"
    using registerTypeInternal_reflects [OF registerTypeInternal_reflects [OF assms], of t s] by simp
  show ?thesis
  proof (cases "s = invalid_type \<or> t = invalid_type \<or> s = t")
    case True
    then show ?thesis using r by (simp add: registerSubtype_def)
  next
    case False
    then obtain xs where xs: "subtypesByType ?r s = Some xs"
      by (auto simp: registerTypeInternal_def)
    let ?ys = "t # type_set (supertypesByType ?r) t"
    have sub: "set xs = {x. (x, s) \<in> E\<^sup>*}"
    proof -
      have "set xs = set (type_set (subtypesByType ?r) s)" by (simp add: type_set_def xs)
      moreover have "s \<in> ?T" using False by simp
      ultimately show ?thesis using reflectsD(5) [OF r, of _ s] by (simp only: rtrancl_eq_or_trancl) blast
    qed
    have sup: "set ?ys = {y. (t, y) \<in> E\<^sup>*}"
      using reflectsD(4) [OF r, of _ t] by (simp only: rtrancl_eq_or_trancl list.set) blast
    have "linking ?T (E\<^sup>+) {} ?r" using r by (simp add: reflects_def linking_def)
    moreover have "\<forall>x \<in> set xs. (x, s) \<in> E\<^sup>+ \<or> x = s \<and> s \<in> ?T"
      using sub False by (auto simp: rtrancl_eq_or_trancl)
    ultimately obtain r' where r': "link_subtypes s xs ?ys ?r = Some r'" "linking ?T (E\<^sup>+) (set xs \<times> set ?ys) r'"
      using link_subtypes_linking [of ?T "E\<^sup>+" "{}" ?r xs s ?ys] by auto
    have "E\<^sup>+ \<union> set xs \<times> set ?ys = (insert (s, t) E)\<^sup>+"
      unfolding sub sup trancl_insert by auto
    then have "reflects ?T (insert (s, t) E) r'"
      using r' r False by (auto simp: reflects_def linking_def)
    then show ?thesis using r'(1) xs False by (simp add: registerSubtype_def Let_def)
  qed
qed

subsection \<open>Registrations\<close>

datatype registration = RegisterType nat | RegisterSubtype nat nat

fun perform_registration :: "registration \<Rightarrow> ast_reflection \<Rightarrow> ast_reflection option" where
  "perform_registration (RegisterType t) r = registerType t r"
| "perform_registration (RegisterSubtype s t) r = registerSubtype s t r"

fun register_all :: "registration list \<Rightarrow> ast_reflection \<Rightarrow> ast_reflection option" where
  "register_all [] r = Some r"
| "register_all (p # ps) r = (case perform_registration p r of None \<Rightarrow> None | Some r' \<Rightarrow> register_all ps r')"

text \<open>What a registration says: a type, and an edge between two types.\<close>

fun registered_types :: "registration \<Rightarrow> nat set" where
  "registered_types (RegisterType t) = (if t = invalid_type then {} else {t, ast_node_type})"
| "registered_types (RegisterSubtype s t) = {s, t} - {invalid_type}"

fun registered_edge :: "registration \<Rightarrow> (nat \<times> nat) set" where
  "registered_edge (RegisterType t) = (if t = invalid_type \<or> t = ast_node_type then {} else {(t, ast_node_type)})"
| "registered_edge (RegisterSubtype s t) = (if s = invalid_type \<or> t = invalid_type \<or> s = t then {} else {(s, t)})"

lemma perform_reflects:
  assumes "reflects T E r"
  shows "\<exists>r'. perform_registration p r = Some r' \<and> reflects (T \<union> registered_types p) (E \<union> registered_edge p) r'"
proof (cases p)
  case (RegisterType t)
  consider "t = invalid_type" | "t = ast_node_type" | "t \<noteq> invalid_type" "t \<noteq> ast_node_type" by blast
  then show ?thesis
  proof cases
    case 2
    moreover have "ast_node_type \<noteq> invalid_type" by (simp add: invalid_type_def ast_node_type_def)
    ultimately show ?thesis using registerTypeInternal_reflects [OF assms, of t] RegisterType by (simp add: registerType_def)
  next
    case 3
    moreover have "ast_node_type \<noteq> invalid_type" by (simp add: invalid_type_def ast_node_type_def)
    moreover have "{t, ast_node_type} - {invalid_type} = {t, ast_node_type}" using calculation by auto
    ultimately show ?thesis using registerSubtype_reflects [OF assms, of t ast_node_type] RegisterType
      by (simp add: registerType_def)
  qed (use assms RegisterType in \<open>simp add: registerType_def\<close>)
next
  case (RegisterSubtype s t)
  then show ?thesis using registerSubtype_reflects [OF assms, of s t] by (cases "s = invalid_type \<or> t = invalid_type \<or> s = t") auto
qed

lemma register_all_reflects:
  "reflects T E r \<Longrightarrow> \<exists>r'. register_all ps r = Some r' \<and>
    reflects (T \<union> \<Union> (registered_types ` set ps)) (E \<union> \<Union> (registered_edge ` set ps)) r'"
proof (induction ps arbitrary: T E r)
  case (Cons p ps)
  obtain r1 where "perform_registration p r = Some r1" "reflects (T \<union> registered_types p) (E \<union> registered_edge p) r1"
    using perform_reflects [OF Cons.prems] by blast
  then show ?case using Cons.IH [of "T \<union> registered_types p" "E \<union> registered_edge p" r1] by (simp add: Un_assoc)
qed simp

text \<open>
  Reflection answers for the declared hierarchy. Any registrations succeed, in any order and
  with cycles too, without changing a set that is being iterated; then one type is a
  subtype of another exactly when the declared edges lead from the one to the other, and the
  subtypes of a registered type are the types that lead to it.
\<close>

theorem reflection_closure:
  "\<exists>r. register_all ps new_reflection = Some r \<and>
    (\<forall>a b. isSubtype r a b = ((a, b) \<in> (\<Union> (registered_edge ` set ps))\<^sup>*)) \<and>
    (\<forall>t. isKnown r t = (t \<in> \<Union> (registered_types ` set ps))) \<and>
    (\<forall>a t. (a \<in> set (getAllSubTypes r t)) =
      (t \<in> \<Union> (registered_types ` set ps) \<and> (a, t) \<in> (\<Union> (registered_edge ` set ps))\<^sup>*))"
proof -
  let ?T = "\<Union> (registered_types ` set ps)" and ?E = "\<Union> (registered_edge ` set ps)"
  obtain r where r: "register_all ps new_reflection = Some r" "reflects ?T ?E r"
    using register_all_reflects [OF new_reflects, of ps] by (simp only: Un_empty_left) blast
  have "isSubtype r a b = ((a, b) \<in> ?E\<^sup>*)" for a b by (rule isSubtype_reach [OF r(2)])
  moreover have "isKnown r t = (t \<in> ?T)" for t by (simp only: isKnown_def reflectsD(1) [OF r(2)])
  moreover have "(a \<in> set (getAllSubTypes r t)) = (t \<in> ?T \<and> (a, t) \<in> ?E\<^sup>*)" for a t
  proof (cases "t \<in> ?T")
    case True
    then have "t \<noteq> invalid_type" using reflectsD(2) [OF r(2)] by blast
    then have "getAllSubTypes r t = type_set (subtypesByType r) t"
      using True by (simp only: getAllSubTypes_def reflectsD(1) [OF r(2)]) simp
    then show ?thesis using True reflectsD(5) [OF r(2), of a t] by (simp only: rtrancl_eq_or_trancl) blast
  next
    case False
    then have "getAllSubTypes r t = []" by (simp only: getAllSubTypes_def reflectsD(1) [OF r(2)]) simp
    then show ?thesis using False by simp
  qed
  ultimately show ?thesis using r(1) by blast
qed

text \<open>What the rest of the program gets: assignability is a preorder on the types other than \<open>void\<close>.\<close>

lemma assignable_trans:
  assumes "register_all ps new_reflection = Some r" and "assignable r a b" and "assignable r b c"
  shows "assignable r a c"
proof -
  obtain r' where "register_all ps new_reflection = Some r'"
      "reflects (\<Union> (registered_types ` set ps)) (\<Union> (registered_edge ` set ps)) r'"
    using register_all_reflects [OF new_reflects, of ps] by (simp only: Un_empty_left) blast
  then have r: "reflects (\<Union> (registered_types ` set ps)) (\<Union> (registered_edge ` set ps)) r" using assms(1) by simp
  show ?thesis using assms(2,3) unfolding type_is_assignable_def isSubtype_reach [OF r] by (auto split: if_splits)
qed

end
