(* ===== verification/ReflectionBoot.thy ===== *)
theory ReflectionBoot
  imports Reflection "HOL-Library.Monad_Syntax"
begin

text \<open>
  Filling the registry from a grammar (\<open>core/parser/AstReflectionBootstrap.hpp\<close>). The walk over the
  rules announces the types they produce, with the type expected where they are used, and the
  assignments; in the end, edges are added from every produced type to the reference targets and to the
  mixin \<open>NamedAstNode\<close> that C++ says it derives from. \<open>derives\<close> is \<open>dynamic_cast\<close> on probes, \<open>constructible\<close>
  says which types have one.
\<close>

subsection \<open>The state\<close>

record type_info =
  info_type :: nat
  info_isInstance :: "(nat \<Rightarrow> bool) option"
  info_probe :: bool

definition ast_node_type_info :: "(nat \<Rightarrow> nat \<Rightarrow> bool) \<Rightarrow> (nat \<Rightarrow> bool) \<Rightarrow> nat \<Rightarrow> type_info" where
  "ast_node_type_info derives constructible t =
     \<lparr>info_type = t, info_isInstance = Some (\<lambda>p. derives p t), info_probe = constructible t\<rparr>"

definition named_ast_node_type :: nat where
  "named_ast_node_type = 2"

record bootstrap_state =
  reflection :: ast_reflection
  visited :: "(nat \<times> nat) list"
  producedTypesByType :: "(nat \<times> type_info) list"
  referenceAssignments :: "type_info list"
  knownTypes :: "nat list"
  directSubtypeEdges :: "(nat \<times> nat) list"
  finalized :: bool

definition new_bootstrap :: bootstrap_state where
  "new_bootstrap = \<lparr>reflection = new_reflection, visited = [], producedTypesByType = [], referenceAssignments = [],
     knownTypes = [], directSubtypeEdges = [], finalized = False\<rparr>"

definition beginVisit :: "nat \<Rightarrow> nat option \<Rightarrow> bootstrap_state \<Rightarrow> bool \<times> bootstrap_state" where
  "beginVisit elementId expectedType b =
     (let k = (elementId, case expectedType of None \<Rightarrow> invalid_type | Some t \<Rightarrow> t) in
      (k \<notin> set (visited b), b\<lparr>visited := List.insert k (visited b)\<rparr>))"

definition registerKnownType :: "nat \<Rightarrow> bootstrap_state \<Rightarrow> bootstrap_state option" where
  "registerKnownType t b =
     (if t = invalid_type \<or> t \<in> set (knownTypes b) then Some b
      else map_option (\<lambda>r. b\<lparr>knownTypes := knownTypes b @ [t], reflection := r\<rparr>) (registerType t (reflection b)))"

definition addDirectSubtypeEdge :: "nat \<Rightarrow> nat \<Rightarrow> bootstrap_state \<Rightarrow> bootstrap_state option" where
  "addDirectSubtypeEdge subtype supertype b =
     (if subtype = invalid_type \<or> supertype = invalid_type \<or> subtype = supertype then
        do { b1 \<leftarrow> registerKnownType subtype b; registerKnownType supertype b1 }
      else if (subtype, supertype) \<in> set (directSubtypeEdges b) then Some b
      else do {
        b1 \<leftarrow> registerKnownType subtype (b\<lparr>directSubtypeEdges := directSubtypeEdges b @ [(subtype, supertype)]\<rparr>);
        b2 \<leftarrow> registerKnownType supertype b1;
        r \<leftarrow> registerSubtype subtype supertype (reflection b2);
        Some (b2\<lparr>reflection := r\<rparr>) })"

definition registerProducedType :: "type_info \<Rightarrow> nat option \<Rightarrow> bootstrap_state \<Rightarrow> bootstrap_state option" where
  "registerProducedType typeInfo expectedType b =
     (if info_type typeInfo = invalid_type then Some b
      else do {
        b1 \<leftarrow> registerKnownType (info_type typeInfo) b;
        let b2 = (if map_of (producedTypesByType b1) (info_type typeInfo) \<noteq> None then b1
          else b1\<lparr>producedTypesByType := producedTypesByType b1 @ [(info_type typeInfo, typeInfo)]\<rparr>);
        case expectedType of
          None \<Rightarrow> Some b2
        | Some e \<Rightarrow> if e \<noteq> invalid_type \<and> info_type typeInfo \<noteq> e then addDirectSubtypeEdge (info_type typeInfo) e b2 else Some b2 })"

definition registerAssignment :: "type_info option \<Rightarrow> type_info option \<Rightarrow> bootstrap_state \<Rightarrow> bootstrap_state option" where
  "registerAssignment assignedAstType referenceTargetType b = do {
     b1 \<leftarrow> (case assignedAstType of
        Some ti \<Rightarrow> if info_type ti \<noteq> invalid_type then registerKnownType (info_type ti) b else Some b
      | None \<Rightarrow> Some b);
     (case referenceTargetType of
        Some ti \<Rightarrow> if info_type ti \<noteq> invalid_type
          then map_option (\<lambda>b2. b2\<lparr>referenceAssignments := referenceAssignments b2 @ [ti]\<rparr>) (registerKnownType (info_type ti) b1)
          else Some b1
      | None \<Rightarrow> Some b1) }"

fun add_edges :: "nat \<Rightarrow> (nat \<Rightarrow> bool) \<Rightarrow> (nat \<times> type_info) list \<Rightarrow> bootstrap_state \<Rightarrow> bootstrap_state option" where
  "add_edges target instanceOf [] b = Some b"
| "add_edges target instanceOf ((producedType, typeInfo) # ps) b =
     (if \<not> info_probe typeInfo then add_edges target instanceOf ps b
      else if instanceOf (info_type typeInfo)
        then do { b1 \<leftarrow> addDirectSubtypeEdge producedType target b; add_edges target instanceOf ps b1 }
        else add_edges target instanceOf ps b)"

fun finalizeReferenceInducedEdges :: "type_info list \<Rightarrow> bootstrap_state \<Rightarrow> bootstrap_state option" where
  "finalizeReferenceInducedEdges [] b = Some b"
| "finalizeReferenceInducedEdges (ti # tis) b =
     (if info_type ti = invalid_type then finalizeReferenceInducedEdges tis b
      else case info_isInstance ti of
        None \<Rightarrow> finalizeReferenceInducedEdges tis b
      | Some instanceOf \<Rightarrow> do {
          b1 \<leftarrow> add_edges (info_type ti) instanceOf
            (filter (\<lambda>(producedType, _). producedType \<noteq> info_type ti) (producedTypesByType b)) b;
          finalizeReferenceInducedEdges tis b1 })"

definition finalizeNamedMixinEdges :: "(nat \<Rightarrow> nat \<Rightarrow> bool) \<Rightarrow> bootstrap_state \<Rightarrow> bootstrap_state option" where
  "finalizeNamedMixinEdges derives b =
     add_edges named_ast_node_type (\<lambda>p. derives p named_ast_node_type) (producedTypesByType b) b"

definition finalize :: "(nat \<Rightarrow> nat \<Rightarrow> bool) \<Rightarrow> bootstrap_state \<Rightarrow> bootstrap_state option" where
  "finalize derives b =
     (if finalized b then Some b
      else do {
        b1 \<leftarrow> finalizeReferenceInducedEdges (referenceAssignments b) (b\<lparr>finalized := True\<rparr>);
        finalizeNamedMixinEdges derives b1 })"

subsection \<open>The invariant\<close>

definition roots :: "nat set \<Rightarrow> (nat \<times> nat) set" where
  "roots K = {(t, ast_node_type) | t. t \<in> K \<and> t \<noteq> ast_node_type}"

definition with_root :: "nat set \<Rightarrow> nat set" where
  "with_root K = (if K = {} then {} else insert ast_node_type K)"

definition boot_ok :: "nat set \<Rightarrow> (nat \<times> nat) set \<Rightarrow> ast_reflection \<Rightarrow> bool" where
  "boot_ok K D r \<longleftrightarrow> invalid_type \<notin> K \<and> D \<subseteq> K \<times> K \<and> reflects (with_root K) (roots K \<union> D) r"

abbreviation booted :: "bootstrap_state \<Rightarrow> bool" where
  "booted b \<equiv> boot_ok (set (knownTypes b)) (set (directSubtypeEdges b)) (reflection b)"

lemma new_booted: "booted new_bootstrap"
  by (simp add: new_bootstrap_def boot_ok_def with_root_def roots_def new_reflects)

lemma registerType_ok:
  assumes "boot_ok K D r" and "t \<noteq> invalid_type"
  shows "\<exists>r'. registerType t r = Some r' \<and> boot_ok (insert t K) D r'"
proof -
  have "with_root K \<union> registered_types (RegisterType t) = with_root (insert t K)"
    using assms(2) by (auto simp: with_root_def)
  moreover have "roots K \<union> D \<union> registered_edge (RegisterType t) = roots (insert t K) \<union> D"
    using assms(2) by (auto simp: roots_def)
  moreover obtain r' where r': "registerType t r = Some r'"
      "reflects (with_root K \<union> registered_types (RegisterType t)) (roots K \<union> D \<union> registered_edge (RegisterType t)) r'"
    using perform_reflects [of "with_root K" "roots K \<union> D" r "RegisterType t"] assms(1) by (auto simp: boot_ok_def)
  ultimately have "reflects (with_root (insert t K)) (roots (insert t K) \<union> D) r'" by simp
  moreover have "invalid_type \<notin> insert t K" "D \<subseteq> insert t K \<times> insert t K" using assms by (auto simp: boot_ok_def)
  ultimately show ?thesis using r'(1) unfolding boot_ok_def by blast
qed

lemma registerSubtype_ok:
  assumes "boot_ok K D r" and "s \<in> K" and "t \<in> K" and "s \<noteq> t"
  shows "\<exists>r'. registerSubtype s t r = Some r' \<and> boot_ok K (insert (s, t) D) r'"
proof -
  have v: "s \<noteq> invalid_type" "t \<noteq> invalid_type" using assms by (auto simp: boot_ok_def)
  have "with_root K \<union> registered_types (RegisterSubtype s t) = with_root K"
    using assms(2,3) v by (auto simp: with_root_def)
  moreover have "roots K \<union> D \<union> registered_edge (RegisterSubtype s t) = roots K \<union> insert (s, t) D"
    using assms(4) v by auto
  moreover obtain r' where r': "registerSubtype s t r = Some r'"
      "reflects (with_root K \<union> registered_types (RegisterSubtype s t)) (roots K \<union> D \<union> registered_edge (RegisterSubtype s t)) r'"
    using perform_reflects [of "with_root K" "roots K \<union> D" r "RegisterSubtype s t"] assms(1) by (auto simp: boot_ok_def)
  ultimately have "reflects (with_root K) (roots K \<union> insert (s, t) D) r'" by simp
  then show ?thesis using r'(1) assms unfolding boot_ok_def by blast
qed

lemma registerKnownType_ok:
  assumes "boot_ok (set (knownTypes b)) D (reflection b)"
  shows "\<exists>ks r. registerKnownType t b = Some (b\<lparr>knownTypes := ks, reflection := r\<rparr>) \<and>
    set ks = set (knownTypes b) \<union> ({t} - {invalid_type}) \<and> boot_ok (set ks) D r"
proof (cases "t = invalid_type \<or> t \<in> set (knownTypes b)")
  case True
  then show ?thesis using assms
    by (intro exI [of _ "knownTypes b"] exI [of _ "reflection b"]) (auto simp: registerKnownType_def)
next
  case False
  obtain r where "registerType t (reflection b) = Some r" "boot_ok (insert t (set (knownTypes b))) D r"
    using registerType_ok [OF assms] False by blast
  then show ?thesis using False
    by (intro exI [of _ "knownTypes b @ [t]"] exI [of _ r]) (auto simp: registerKnownType_def)
qed

definition proper_edge :: "nat \<Rightarrow> nat \<Rightarrow> (nat \<times> nat) set" where
  "proper_edge s t = (if s = invalid_type \<or> t = invalid_type \<or> s = t then {} else {(s, t)})"

lemma addDirectSubtypeEdge_ok:
  assumes "booted b"
  shows "\<exists>ks es r. addDirectSubtypeEdge s t b = Some (b\<lparr>knownTypes := ks, directSubtypeEdges := es, reflection := r\<rparr>) \<and>
    set ks = set (knownTypes b) \<union> ({s, t} - {invalid_type}) \<and> set es = set (directSubtypeEdges b) \<union> proper_edge s t \<and>
    boot_ok (set ks) (set es) r"
proof -
  let ?D = "set (directSubtypeEdges b)"
  consider (none) "s = invalid_type \<or> t = invalid_type \<or> s = t"
    | (old) "\<not> (s = invalid_type \<or> t = invalid_type \<or> s = t)" "(s, t) \<in> ?D"
    | (new) "\<not> (s = invalid_type \<or> t = invalid_type \<or> s = t)" "(s, t) \<notin> ?D" by blast
  then show ?thesis
  proof cases
    case none
    obtain ks1 r1 where 1: "registerKnownType s b = Some (b\<lparr>knownTypes := ks1, reflection := r1\<rparr>)"
        "set ks1 = set (knownTypes b) \<union> ({s} - {invalid_type})" "boot_ok (set ks1) ?D r1"
      using registerKnownType_ok [OF assms] by blast
    obtain ks2 r2 where 2: "registerKnownType t (b\<lparr>knownTypes := ks1, reflection := r1\<rparr>) = Some (b\<lparr>knownTypes := ks2, reflection := r2\<rparr>)"
        "set ks2 = set ks1 \<union> ({t} - {invalid_type})" "boot_ok (set ks2) ?D r2"
      using registerKnownType_ok [of "b\<lparr>knownTypes := ks1, reflection := r1\<rparr>" ?D t] 1(3) by auto
    have "set ks2 = set (knownTypes b) \<union> ({s, t} - {invalid_type})" using 1(2) 2(2) by auto
    then show ?thesis using none 1(1) 2(1,3)
      by (intro exI [of _ ks2] exI [of _ "directSubtypeEdges b"] exI [of _ r2])
        (simp add: addDirectSubtypeEdge_def proper_edge_def)
  next
    case old
    then have "s \<in> set (knownTypes b)" "t \<in> set (knownTypes b)" using assms by (auto simp: boot_ok_def)
    then show ?thesis using old assms
      by (intro exI [of _ "knownTypes b"] exI [of _ "directSubtypeEdges b"] exI [of _ "reflection b"])
        (auto simp: addDirectSubtypeEdge_def proper_edge_def)
  next
    case new
    let ?b = "b\<lparr>directSubtypeEdges := directSubtypeEdges b @ [(s, t)]\<rparr>"
    obtain ks1 r1 where 1: "registerKnownType s ?b = Some (?b\<lparr>knownTypes := ks1, reflection := r1\<rparr>)"
        "set ks1 = set (knownTypes b) \<union> ({s} - {invalid_type})" "boot_ok (set ks1) ?D r1"
      using registerKnownType_ok [of ?b ?D s] assms by auto
    obtain ks2 r2 where 2: "registerKnownType t (?b\<lparr>knownTypes := ks1, reflection := r1\<rparr>) = Some (?b\<lparr>knownTypes := ks2, reflection := r2\<rparr>)"
        "set ks2 = set ks1 \<union> ({t} - {invalid_type})" "boot_ok (set ks2) ?D r2"
      using registerKnownType_ok [of "?b\<lparr>knownTypes := ks1, reflection := r1\<rparr>" ?D t] 1(3) by auto
    have ks2: "set ks2 = set (knownTypes b) \<union> ({s, t} - {invalid_type})" using 1(2) 2(2) by auto
    obtain r3 where 3: "registerSubtype s t r2 = Some r3" "boot_ok (set ks2) (insert (s, t) ?D) r3"
      using registerSubtype_ok [OF 2(3), of s t] new(1) ks2 by auto
    show ?thesis using new 1(1) 2(1) 3 ks2
      by (intro exI [of _ ks2] exI [of _ "directSubtypeEdges b @ [(s, t)]"] exI [of _ r3])
        (simp add: addDirectSubtypeEdge_def proper_edge_def)
  qed
qed

subsection \<open>A whole bootstrap\<close>

text \<open>What the walk over the grammar announces.\<close>

datatype boot_event = Produced nat "nat option" | Assigned "nat option" "nat option"

fun perform_event :: "(nat \<Rightarrow> nat \<Rightarrow> bool) \<Rightarrow> (nat \<Rightarrow> bool) \<Rightarrow> boot_event \<Rightarrow> bootstrap_state \<Rightarrow> bootstrap_state option" where
  "perform_event derives constructible (Produced t e) b = registerProducedType (ast_node_type_info derives constructible t) e b"
| "perform_event derives constructible (Assigned a t) b =
     registerAssignment (map_option (ast_node_type_info derives constructible) a)
       (map_option (ast_node_type_info derives constructible) t) b"

fun perform_events :: "(nat \<Rightarrow> nat \<Rightarrow> bool) \<Rightarrow> (nat \<Rightarrow> bool) \<Rightarrow> boot_event list \<Rightarrow> bootstrap_state \<Rightarrow> bootstrap_state option" where
  "perform_events derives constructible [] b = Some b"
| "perform_events derives constructible (e # es) b =
     (case perform_event derives constructible e b of None \<Rightarrow> None | Some b' \<Rightarrow> perform_events derives constructible es b')"

definition bootstrapAstReflection :: "(nat \<Rightarrow> nat \<Rightarrow> bool) \<Rightarrow> (nat \<Rightarrow> bool) \<Rightarrow> boot_event list \<Rightarrow> bootstrap_state option" where
  "bootstrapAstReflection derives constructible es =
     do { b \<leftarrow> perform_events derives constructible es new_bootstrap; finalize derives b }"

text \<open>The types and edges the events stand for.\<close>

fun event_produced :: "boot_event \<Rightarrow> nat set" where
  "event_produced (Produced t e) = {t} - {invalid_type}"
| "event_produced (Assigned a t) = {}"

fun event_targets :: "boot_event \<Rightarrow> nat set" where
  "event_targets (Produced t e) = {}"
| "event_targets (Assigned a t) = set_option t - {invalid_type}"

fun event_edges :: "boot_event \<Rightarrow> (nat \<times> nat) set" where
  "event_edges (Produced t (Some e)) = proper_edge t e"
| "event_edges _ = {}"

fun event_types :: "boot_event \<Rightarrow> nat set" where
  "event_types (Produced t e) = ({t} \<union> (if t = invalid_type then {} else set_option e)) - {invalid_type}"
| "event_types (Assigned a t) = (set_option a \<union> set_option t) - {invalid_type}"

definition cxx_edges :: "(nat \<Rightarrow> nat \<Rightarrow> bool) \<Rightarrow> (nat \<Rightarrow> bool) \<Rightarrow> nat set \<Rightarrow> nat set \<Rightarrow> (nat \<times> nat) set" where
  "cxx_edges derives constructible P S = {(p, t). p \<in> P \<and> constructible p \<and> t \<in> S \<and> derives p t \<and> p \<noteq> t}"

definition announced_by :: "(nat \<Rightarrow> nat \<Rightarrow> bool) \<Rightarrow> (nat \<Rightarrow> bool) \<Rightarrow> boot_event list \<Rightarrow> bootstrap_state \<Rightarrow> bool" where
  "announced_by derives constructible es b \<longleftrightarrow> booted b \<and> \<not> finalized b \<and>
     set (directSubtypeEdges b) = \<Union> (event_edges ` set es) \<and> set (knownTypes b) = \<Union> (event_types ` set es) \<and>
     set (producedTypesByType b) = (\<lambda>p. (p, ast_node_type_info derives constructible p)) ` \<Union> (event_produced ` set es) \<and>
     set (referenceAssignments b) = ast_node_type_info derives constructible ` \<Union> (event_targets ` set es)"

lemma info_simps [simp]:
  "info_type (ast_node_type_info derives constructible t) = t"
  "info_probe (ast_node_type_info derives constructible t) = constructible t"
  "info_isInstance (ast_node_type_info derives constructible t) = Some (\<lambda>p. derives p t)"
  by (simp_all add: ast_node_type_info_def)

lemma known_invalid: "set ks \<union> ({t} - {invalid_type}) = (if t = invalid_type then set ks else insert t (set ks))"
  by auto

lemma produced_announced:
  assumes "announced_by derives constructible es b"
  shows "\<exists>b'. perform_event derives constructible (Produced t e) b = Some b' \<and>
    announced_by derives constructible (es @ [Produced t e]) b'"
proof (cases "t = invalid_type")
  case True
  then have "event_edges (Produced t e) = {}" by (cases e) (auto simp: proper_edge_def)
  then show ?thesis using assms True by (auto simp: registerProducedType_def announced_by_def)
next
  case False
  let ?i = "ast_node_type_info derives constructible"
  have b: "booted b" using assms unfolding announced_by_def by blast
  obtain ks r where 1: "registerKnownType t b = Some (b\<lparr>knownTypes := ks, reflection := r\<rparr>)"
      "set ks = set (knownTypes b) \<union> ({t} - {invalid_type})" "boot_ok (set ks) (set (directSubtypeEdges b)) r"
    using registerKnownType_ok [OF b] by blast
  define ps where "ps = (if map_of (producedTypesByType b) t \<noteq> None then producedTypesByType b
    else producedTypesByType b @ [(t, ?i t)])"
  define b2 where "b2 = b\<lparr>knownTypes := ks, reflection := r, producedTypesByType := ps\<rparr>"
  have "map_of (producedTypesByType b) t \<noteq> None \<longleftrightarrow> t \<in> \<Union> (event_produced ` set es)"
    using assms by (simp add: announced_by_def map_of_eq_None_iff image_image)
  then have ps: "set ps = (\<lambda>p. (p, ?i p)) ` (\<Union> (event_produced ` set es) \<union> {t})"
    using assms by (auto simp: ps_def announced_by_def)
  have step: "perform_event derives constructible (Produced t e) b = (case e of None \<Rightarrow> Some b2
      | Some x \<Rightarrow> if x \<noteq> invalid_type \<and> t \<noteq> x then addDirectSubtypeEdge t x b2 else Some b2)"
    using False 1(1) by (auto simp: registerProducedType_def Let_def b2_def ps_def split: option.splits)
  have b2: "booted b2" "set (knownTypes b2) = \<Union> (event_types ` set es) \<union> {t}"
    "set (directSubtypeEdges b2) = \<Union> (event_edges ` set es)" "set (producedTypesByType b2) = (\<lambda>p. (p, ?i p)) ` (\<Union> (event_produced ` set es) \<union> {t})"
    "set (referenceAssignments b2) = ?i ` \<Union> (event_targets ` set es)" "\<not> finalized b2"
    using 1(2,3) ps assms False by (auto simp: b2_def announced_by_def)
  show ?thesis
  proof (cases e)
    case None
    then show ?thesis using step b2 False by (auto simp: announced_by_def)
  next
    case (Some x)
    obtain ks es' r' where 2: "addDirectSubtypeEdge t x b2 = Some (b2\<lparr>knownTypes := ks, directSubtypeEdges := es', reflection := r'\<rparr>)"
        "set ks = set (knownTypes b2) \<union> ({t, x} - {invalid_type})" "set es' = set (directSubtypeEdges b2) \<union> proper_edge t x"
        "boot_ok (set ks) (set es') r'"
      using addDirectSubtypeEdge_ok [OF b2(1), of t x] by blast
    show ?thesis
    proof (cases "x \<noteq> invalid_type \<and> t \<noteq> x")
      case True
      then have "perform_event derives constructible (Produced t e) b = Some (b2\<lparr>knownTypes := ks, directSubtypeEdges := es', reflection := r'\<rparr>)"
        using step Some 2(1) by simp
      moreover have "announced_by derives constructible (es @ [Produced t e]) (b2\<lparr>knownTypes := ks, directSubtypeEdges := es', reflection := r'\<rparr>)"
        using b2 2(2,3,4) False Some by (auto simp: announced_by_def)
      ultimately show ?thesis by blast
    next
      case same: False
      then have "perform_event derives constructible (Produced t e) b = Some b2" using step Some by auto
      moreover have "proper_edge t x = {}" using same by (auto simp: proper_edge_def)
      ultimately show ?thesis using b2 same False Some by (auto simp: announced_by_def)
    qed
  qed
qed

lemma assigned_announced:
  assumes "announced_by derives constructible es b"
  shows "\<exists>b'. perform_event derives constructible (Assigned a t) b = Some b' \<and>
    announced_by derives constructible (es @ [Assigned a t]) b'"
proof -
  let ?i = "ast_node_type_info derives constructible" and ?D = "set (directSubtypeEdges b)"
  have b: "booted b" using assms unfolding announced_by_def by blast
  obtain ks1 r1 where 1: "(case map_option ?i a of
        Some ti \<Rightarrow> if info_type ti \<noteq> invalid_type then registerKnownType (info_type ti) b else Some b
      | None \<Rightarrow> Some b) = Some (b\<lparr>knownTypes := ks1, reflection := r1\<rparr>)"
      "set ks1 = set (knownTypes b) \<union> (set_option a - {invalid_type})" "boot_ok (set ks1) ?D r1"
  proof (cases "a = None \<or> a = Some invalid_type")
    case True
    then show thesis using b by (intro that [of "reflection b" "knownTypes b"]) auto
  next
    case False
    then obtain x where "a = Some x" "x \<noteq> invalid_type" by auto
    then show thesis using registerKnownType_ok [OF b, of x] that by auto
  qed
  define b1 where "b1 = b\<lparr>knownTypes := ks1, reflection := r1\<rparr>"
  have b1: "boot_ok (set (knownTypes b1)) ?D (reflection b1)" using 1(3) by (simp add: b1_def)
  show ?thesis
  proof (cases "t = None \<or> t = Some invalid_type")
    case True
    then have "perform_event derives constructible (Assigned a t) b = Some b1"
      using 1(1) by (auto simp: registerAssignment_def b1_def)
    moreover have "announced_by derives constructible (es @ [Assigned a t]) b1"
      using assms 1(2,3) True by (auto simp: announced_by_def b1_def)
    ultimately show ?thesis by blast
  next
    case False
    then obtain x where x: "t = Some x" "x \<noteq> invalid_type" by auto
    obtain ks2 r2 where 2: "registerKnownType x b1 = Some (b1\<lparr>knownTypes := ks2, reflection := r2\<rparr>)"
        "set ks2 = set (knownTypes b1) \<union> ({x} - {invalid_type})" "boot_ok (set ks2) ?D r2"
      using registerKnownType_ok [OF b1] by blast
    let ?b = "b1\<lparr>knownTypes := ks2, reflection := r2, referenceAssignments := referenceAssignments b @ [?i x]\<rparr>"
    have "perform_event derives constructible (Assigned a t) b = Some ?b"
      using 1(1) 2(1) x by (simp add: registerAssignment_def b1_def)
    moreover have "announced_by derives constructible (es @ [Assigned a t]) ?b"
      using assms 1(2) 2(2,3) x by (auto simp: announced_by_def b1_def)
    ultimately show ?thesis by blast
  qed
qed

lemma events_announced:
  "announced_by derives constructible es b \<Longrightarrow> \<exists>b'. perform_events derives constructible fs b = Some b' \<and>
    announced_by derives constructible (es @ fs) b'"
proof (induction fs arbitrary: es b)
  case (Cons f fs)
  obtain b1 where b1: "perform_event derives constructible f b = Some b1" "announced_by derives constructible (es @ [f]) b1"
    using produced_announced [OF Cons.prems] assigned_announced [OF Cons.prems] by (cases f) blast+
  then show ?case using Cons.IH [OF b1(2)] by simp
qed simp

subsection \<open>The edges added at the end\<close>

text \<open>Only the known types, the edges and the registry change.\<close>

definition grown :: "bootstrap_state \<Rightarrow> nat set \<Rightarrow> (nat \<times> nat) set \<Rightarrow> bootstrap_state \<Rightarrow> bool" where
  "grown b K D b' \<longleftrightarrow> booted b' \<and> set (knownTypes b') = set (knownTypes b) \<union> K \<and>
     set (directSubtypeEdges b') = set (directSubtypeEdges b) \<union> D \<and> producedTypesByType b' = producedTypesByType b \<and>
     referenceAssignments b' = referenceAssignments b \<and> finalized b' = finalized b"

lemma edges_grown_trans: "grown b K D b1 \<Longrightarrow> grown b1 K' D' b2 \<Longrightarrow> grown b (K \<union> K') (D \<union> D') b2"
  unfolding grown_def by auto

lemma grown_none: "booted b \<Longrightarrow> grown b {} {} b"
  by (simp add: grown_def)

lemma add_edge_grown:
  assumes "booted b"
  shows "\<exists>b'. addDirectSubtypeEdge s t b = Some b' \<and> grown b ({s, t} - {invalid_type}) (proper_edge s t) b'"
proof -
  obtain ks es r where a: "addDirectSubtypeEdge s t b = Some (b\<lparr>knownTypes := ks, directSubtypeEdges := es, reflection := r\<rparr>)"
      "set ks = set (knownTypes b) \<union> ({s, t} - {invalid_type})" "set es = set (directSubtypeEdges b) \<union> proper_edge s t"
      "boot_ok (set ks) (set es) r"
    using addDirectSubtypeEdge_ok [OF assms] by blast
  then have "grown b ({s, t} - {invalid_type}) (proper_edge s t) (b\<lparr>knownTypes := ks, directSubtypeEdges := es, reflection := r\<rparr>)"
    by (simp add: grown_def)
  then show ?thesis using a(1) by blast
qed

text \<open>\<open>hits\<close>: the produced types the loop connects to \<open>t\<close>.\<close>

definition hits :: "(nat \<Rightarrow> nat \<Rightarrow> bool) \<Rightarrow> (nat \<Rightarrow> bool) \<Rightarrow> nat set \<Rightarrow> nat \<Rightarrow> nat set" where
  "hits derives constructible P t = {p \<in> P. constructible p \<and> derives p t}"

lemma add_edges_grown:
  assumes "booted b" and "\<forall>(p, ti) \<in> set ps. ti = ast_node_type_info derives constructible p" and "t \<noteq> invalid_type"
    and "invalid_type \<notin> fst ` set ps"
  shows "\<exists>b'. add_edges t (\<lambda>p. derives p t) ps b = Some b' \<and>
    grown b (if hits derives constructible (fst ` set ps) t = {} then {} else insert t (hits derives constructible (fst ` set ps) t))
      ((\<lambda>p. (p, t)) ` (hits derives constructible (fst ` set ps) t - {t})) b'"
  using assms
proof (induction ps arbitrary: b)
  case Nil
  then show ?case using grown_none by (simp add: hits_def)
next
  case (Cons q ps)
  obtain p ti where q: "q = (p, ti)" by (cases q)
  then have ti: "ti = ast_node_type_info derives constructible p" using Cons.prems(2) by simp
  have rest: "\<forall>(p, ti) \<in> set ps. ti = ast_node_type_info derives constructible p" "invalid_type \<notin> fst ` set ps" "p \<noteq> invalid_type"
    using Cons.prems(2,4) q by auto
  show ?case
  proof (cases "constructible p \<and> derives p t")
    case True
    obtain b1 where b1: "addDirectSubtypeEdge p t b = Some b1" "grown b ({p, t} - {invalid_type}) (proper_edge p t) b1"
      using add_edge_grown [OF Cons.prems(1)] by blast
    then have "booted b1" unfolding grown_def by blast
    from Cons.IH [OF this rest(1) Cons.prems(3) rest(2)] obtain b2 where b2: "add_edges t (\<lambda>p. derives p t) ps b1 = Some b2"
        "grown b1 (if hits derives constructible (fst ` set ps) t = {} then {} else insert t (hits derives constructible (fst ` set ps) t))
          ((\<lambda>p. (p, t)) ` (hits derives constructible (fst ` set ps) t - {t})) b2" by blast
    have h: "hits derives constructible (fst ` set (q # ps)) t = insert p (hits derives constructible (fst ` set ps) t)"
      using True q by (auto simp: hits_def)
    have "{p, t} - {invalid_type} \<union> (if hits derives constructible (fst ` set ps) t = {} then {} else insert t (hits derives constructible (fst ` set ps) t)) =
        insert t (insert p (hits derives constructible (fst ` set ps) t))"
      using rest(3) Cons.prems(3) by auto
    moreover have "proper_edge p t \<union> (\<lambda>p. (p, t)) ` (hits derives constructible (fst ` set ps) t - {t}) =
        (\<lambda>p. (p, t)) ` (insert p (hits derives constructible (fst ` set ps) t) - {t})"
      using rest(3) Cons.prems(3) by (auto simp: proper_edge_def)
    ultimately show ?thesis using edges_grown_trans [OF b1(2) b2(2)] b1(1) b2(1) True q ti h by simp
  next
    case False
    then have "hits derives constructible (fst ` set (q # ps)) t = hits derives constructible (fst ` set ps) t"
      using q by (auto simp: hits_def)
    moreover have "add_edges t (\<lambda>p. derives p t) (q # ps) b = add_edges t (\<lambda>p. derives p t) ps b" using False q ti by auto
    ultimately show ?thesis using Cons.IH [OF Cons.prems(1) rest(1) Cons.prems(3) rest(2)] by (simp only:)
  qed
qed

lemma grown_known: "grown b K D b' \<Longrightarrow> K \<subseteq> set (knownTypes b) \<Longrightarrow> grown b {} D b'"
  unfolding grown_def by auto

lemma references_grown:
  assumes "booted b" and "set (producedTypesByType b) = (\<lambda>p. (p, ast_node_type_info derives constructible p)) ` P"
    and "P \<subseteq> set (knownTypes b)" and "\<forall>ti \<in> set tis. \<exists>t \<in> set (knownTypes b). ti = ast_node_type_info derives constructible t"
  shows "\<exists>b'. finalizeReferenceInducedEdges tis b = Some b' \<and>
    grown b {} (cxx_edges derives constructible P (info_type ` set tis)) b'"
  using assms
proof (induction tis arbitrary: b)
  case Nil
  then show ?case using grown_none by (simp add: cxx_edges_def)
next
  case (Cons ti tis)
  obtain t where t: "t \<in> set (knownTypes b)" "ti = ast_node_type_info derives constructible t" using Cons.prems(4) by auto
  have v: "t \<noteq> invalid_type" "invalid_type \<notin> P" using t(1) Cons.prems(1,3) by (auto simp: boot_ok_def)
  let ?ps = "filter (\<lambda>(producedType, _). producedType \<noteq> t) (producedTypesByType b)"
  have ps: "fst ` set ?ps = P - {t}" "\<forall>(p, ti) \<in> set ?ps. ti = ast_node_type_info derives constructible p"
    using Cons.prems(2) by (force, auto)
  have H: "hits derives constructible (P - {t}) t \<subseteq> P" by (auto simp: hits_def)
  obtain b1 where b1: "add_edges t (\<lambda>p. derives p t) ?ps b = Some b1"
      "grown b (if hits derives constructible (P - {t}) t = {} then {} else insert t (hits derives constructible (P - {t}) t))
        ((\<lambda>p. (p, t)) ` (hits derives constructible (P - {t}) t - {t})) b1"
    using add_edges_grown [OF Cons.prems(1) ps(2) v(1)] v(2) unfolding ps(1) by blast
  have g1: "grown b {} ((\<lambda>p. (p, t)) ` (hits derives constructible (P - {t}) t - {t})) b1"
    by (rule grown_known [OF b1(2)]) (use H Cons.prems(3) t(1) in auto)
  then have "booted b1" "set (producedTypesByType b1) = (\<lambda>p. (p, ast_node_type_info derives constructible p)) ` P"
    "P \<subseteq> set (knownTypes b1)" "\<forall>ti \<in> set tis. \<exists>t \<in> set (knownTypes b1). ti = ast_node_type_info derives constructible t"
    using Cons.prems(2-4) unfolding grown_def by auto
  from Cons.IH [OF this] obtain b2 where b2: "finalizeReferenceInducedEdges tis b1 = Some b2"
      "grown b1 {} (cxx_edges derives constructible P (info_type ` set tis)) b2" by blast
  have "(\<lambda>p. (p, t)) ` (hits derives constructible (P - {t}) t - {t}) \<union> cxx_edges derives constructible P (info_type ` set tis) =
      cxx_edges derives constructible P (info_type ` set (ti # tis))"
    using t(2) by (auto simp: hits_def cxx_edges_def)
  then show ?case using edges_grown_trans [OF g1 b2(2)] b1(1) b2(1) t(2) v(1) by simp
qed

lemma finalized_grown:
  assumes "announced_by derives constructible es b"
  defines "P \<equiv> \<Union> (event_produced ` set es)"
  shows "\<exists>b'. finalize derives b = Some b' \<and> booted b' \<and>
    set (knownTypes b') = \<Union> (event_types ` set es) \<union>
      (if hits derives constructible P named_ast_node_type = {} then {} else {named_ast_node_type}) \<and>
    set (directSubtypeEdges b') = \<Union> (event_edges ` set es) \<union>
      cxx_edges derives constructible P (\<Union> (event_targets ` set es) \<union> {named_ast_node_type})"
proof -
  let ?i = "ast_node_type_info derives constructible" and ?T = "\<Union> (event_targets ` set es)"
  define b0 where "b0 = b\<lparr>finalized := True\<rparr>"
  have "booted b" using assms(1) unfolding announced_by_def by blast
  then have "booted b0" by (simp add: b0_def)
  moreover have "set (producedTypesByType b0) = (\<lambda>p. (p, ?i p)) ` P" "set (referenceAssignments b0) = ?i ` ?T"
    "set (knownTypes b0) = \<Union> (event_types ` set es)" "set (directSubtypeEdges b0) = \<Union> (event_edges ` set es)" "\<not> finalized b"
    using assms(1) unfolding announced_by_def P_def b0_def by simp_all
  ultimately have b0: "booted b0" "set (producedTypesByType b0) = (\<lambda>p. (p, ?i p)) ` P" "set (referenceAssignments b0) = ?i ` ?T"
    "set (knownTypes b0) = \<Union> (event_types ` set es)" "set (directSubtypeEdges b0) = \<Union> (event_edges ` set es)" "\<not> finalized b"
    by blast+
  have in_types: "event_produced e \<subseteq> event_types e" "event_targets e \<subseteq> event_types e" for e by (cases e; auto)+
  then have known: "P \<subseteq> set (knownTypes b0)" "?T \<subseteq> set (knownTypes b0)" unfolding P_def b0(4) by blast+
  have "\<forall>ti \<in> set (referenceAssignments b0). \<exists>t \<in> set (knownTypes b0). ti = ?i t" using b0(3) known(2) by auto
  from references_grown [OF b0(1,2) known(1) this] obtain b1 where b1: "finalizeReferenceInducedEdges (referenceAssignments b0) b0 = Some b1"
      "grown b0 {} (cxx_edges derives constructible P (info_type ` set (referenceAssignments b0))) b1" by blast
  have T: "info_type ` set (referenceAssignments b0) = ?T" using b0(3) by (simp add: image_image)
  have v: "named_ast_node_type \<noteq> invalid_type" by (simp add: named_ast_node_type_def invalid_type_def)
  have inv: "invalid_type \<notin> P" using b0(1) known(1) by (auto simp: boot_ok_def)
  have p1: "set (producedTypesByType b1) = (\<lambda>p. (p, ?i p)) ` P" "booted b1" using b1(2) b0(2) unfolding grown_def by auto
  then have fst1: "fst ` set (producedTypesByType b1) = P" "\<forall>(p, ti) \<in> set (producedTypesByType b1). ti = ?i p" by force+
  obtain b2 where b2: "add_edges named_ast_node_type (\<lambda>p. derives p named_ast_node_type) (producedTypesByType b1) b1 = Some b2"
      "grown b1 (if hits derives constructible P named_ast_node_type = {} then {}
         else insert named_ast_node_type (hits derives constructible P named_ast_node_type))
        ((\<lambda>p. (p, named_ast_node_type)) ` (hits derives constructible P named_ast_node_type - {named_ast_node_type})) b2"
    using add_edges_grown [OF p1(2) fst1(2) v] inv unfolding fst1(1) by blast
  have "finalize derives b = Some b2"
    using b0(6) b1(1) b2(1) by (simp add: finalize_def finalizeNamedMixinEdges_def b0_def)
  moreover have "booted b2" using b2(2) unfolding grown_def by blast
  moreover have "hits derives constructible P named_ast_node_type \<subseteq> set (knownTypes b0)"
    using known(1) by (auto simp: hits_def)
  then have "set (knownTypes b2) = \<Union> (event_types ` set es) \<union>
      (if hits derives constructible P named_ast_node_type = {} then {} else {named_ast_node_type})"
    using b1(2) b2(2) b0(4) unfolding grown_def by auto
  moreover have "set (directSubtypeEdges b2) = \<Union> (event_edges ` set es) \<union> (cxx_edges derives constructible P ?T \<union>
      (\<lambda>p. (p, named_ast_node_type)) ` (hits derives constructible P named_ast_node_type - {named_ast_node_type}))"
    using b1(2) b2(2) b0(5) unfolding grown_def T by auto
  moreover have "cxx_edges derives constructible P ?T \<union>
      (\<lambda>p. (p, named_ast_node_type)) ` (hits derives constructible P named_ast_node_type - {named_ast_node_type}) =
      cxx_edges derives constructible P (?T \<union> {named_ast_node_type})"
    by (auto simp: cxx_edges_def hits_def)
  ultimately show ?thesis by simp
qed


end
