(* ===== verification/Scopes.thy ===== *)
theory Scopes
  imports AstTree ReflectionBoot IndexProps
begin

text \<open>
  Scopes: the symbols a document binds to its nodes (\<open>core/workspace/LocalSymbols.cpp\<close>, \<open>Symbol.hpp\<close>),
  their computation from the tree (\<open>core/references/DefaultScopeComputation.cpp\<close>,
  \<open>DefaultNameProvider.cpp\<close>, \<open>workspace/DefaultAstNodeDescriptionProvider.cpp\<close>) and the lookup of a
  reference in the enclosing scopes and in the index (\<open>core/references/DefaultScopeProvider.cpp\<close>). A
  pointer to a description is the description: descriptions do not change once they are stored.
\<close>

subsection \<open>Local symbols\<close>

record named_scope_entries =
  first_entry :: "node_description option"
  duplicates :: "node_description list"

definition no_entries :: named_scope_entries where
  "no_entries = \<lparr>first_entry = None, duplicates = []\<rparr>"

definition add_entry :: "node_description \<Rightarrow> named_scope_entries \<Rightarrow> named_scope_entries" where
  "add_entry e n = (if first_entry n = None then n\<lparr>first_entry := Some e\<rparr> else n\<lparr>duplicates := duplicates n @ [e]\<rparr>)"

type_synonym name_index = "string \<rightharpoonup> named_scope_entries"

definition index_entry :: "node_description \<Rightarrow> name_index \<Rightarrow> name_index" where
  "index_entry d f = f(name d \<mapsto> add_entry d (case f (name d) of None \<Rightarrow> no_entries | Some n \<Rightarrow> n))"

record scope_bucket =
  bucket_type :: nat
  ownedEntries :: "node_description list"
  entriesByName :: name_index

definition store_in :: "node_description \<Rightarrow> scope_bucket \<Rightarrow> scope_bucket" where
  "store_in d b = b\<lparr>ownedEntries := ownedEntries b @ [d], entriesByName := index_entry d (entriesByName b)\<rparr>"

fun into_bucket :: "node_description \<Rightarrow> scope_bucket list \<Rightarrow> scope_bucket list" where
  "into_bucket d [] = [store_in d \<lparr>bucket_type = node_type d, ownedEntries = [], entriesByName = (\<lambda>_. None)\<rparr>]"
| "into_bucket d (b # bs) = (if bucket_type b = node_type d then store_in d b # bs else b # into_bucket d bs)"

record local_symbols =
  byContainer :: "nat \<rightharpoonup> scope_bucket list"
  totalSize :: nat

definition no_symbols :: local_symbols where
  "no_symbols = \<lparr>byContainer = (\<lambda>_. None), totalSize = 0\<rparr>"

definition symbols_emplace :: "nat \<Rightarrow> node_description \<Rightarrow> local_symbols \<Rightarrow> local_symbols" where
  "symbols_emplace c d ls = ls\<lparr>byContainer := (byContainer ls)(c \<mapsto>
     into_bucket d (case byContainer ls c of None \<Rightarrow> [] | Some bs \<Rightarrow> bs)), totalSize := totalSize ls + 1\<rparr>"

definition forContainer :: "local_symbols \<Rightarrow> nat \<Rightarrow> scope_bucket list option" where
  "forContainer ls c = byContainer ls c"

subsection \<open>Names and descriptions\<close>

text \<open>
  What the model takes from the language's node classes: the dynamic type of a node, C++'s
  \<open>dynamic_cast\<close> between types and the field \<open>name\<close> of the mixin.
\<close>

record node_classes =
  class_reflection :: "ast_reflection option"
  class_derives :: "nat \<Rightarrow> nat \<Rightarrow> bool"
  dynamic_type :: "nat \<Rightarrow> nat"
  name_field :: "nat \<Rightarrow> string"

definition is_a :: "node_classes \<Rightarrow> nat \<Rightarrow> nat \<Rightarrow> bool" where
  "is_a L t n = (case class_reflection L of
       Some r \<Rightarrow> if isKnown r t then isSubtype r (dynamic_type L n) t else class_derives L (dynamic_type L n) t
     | None \<Rightarrow> class_derives L (dynamic_type L n) t)"

definition getName :: "node_classes \<Rightarrow> nat \<Rightarrow> string option" where
  "getName L n = (if \<not> is_a L named_ast_node_type n \<or> name_field L n = [] then None else Some (name_field L n))"

definition createDescription :: "node_classes \<Rightarrow> ast_arena \<Rightarrow> nat \<Rightarrow> nat \<Rightarrow> string \<Rightarrow> node_description option" where
  "createDescription L a di n nm = (if nm = [] then None
     else Some \<lparr>name = nm, node_type = dynamic_type L n, documentId = di, symbolId = ast_node.symbolId (memory a n)\<rparr>)"

definition make_description :: "node_classes \<Rightarrow> ast_arena \<Rightarrow> nat \<Rightarrow> nat \<Rightarrow> node_description option" where
  "make_description L a di n = (case getName L n of None \<Rightarrow> None | Some nm \<Rightarrow> createDescription L a di n nm)"

subsection \<open>Computing the symbols\<close>

text \<open>\<open>polls\<close> is the number of polls of the cancellation token that still pass; \<open>None\<close> as a result is the cancellation.\<close>

definition poll_token :: "nat option \<Rightarrow> nat option option" where
  "poll_token polls = (case polls of None \<Rightarrow> Some None | Some 0 \<Rightarrow> None | Some (Suc k) \<Rightarrow> Some (Some k))"

definition addExportedSymbol :: "node_classes \<Rightarrow> ast_arena \<Rightarrow> nat \<Rightarrow> nat \<Rightarrow> node_description list \<Rightarrow> node_description list" where
  "addExportedSymbol L a di n exports = (case make_description L a di n of None \<Rightarrow> exports | Some d \<Rightarrow> exports @ [d])"

fun export_each :: "node_classes \<Rightarrow> ast_arena \<Rightarrow> nat \<Rightarrow> nat list \<Rightarrow> nat option \<Rightarrow> node_description list \<Rightarrow>
    node_description list option" where
  "export_each L a di [] polls exports = Some exports"
| "export_each L a di (n # ns) polls exports =
     (case poll_token polls of None \<Rightarrow> None
      | Some p \<Rightarrow> export_each L a di ns p (addExportedSymbol L a di n exports))"

definition collectExportedSymbols :: "node_classes \<Rightarrow> ast_arena \<Rightarrow> nat \<Rightarrow> nat option \<Rightarrow> nat option \<Rightarrow>
    node_description list option" where
  "collectExportedSymbols L a di ast polls = (case ast of None \<Rightarrow> Some []
     | Some root \<Rightarrow> Option.bind (getContent a root)
         (\<lambda>ns. export_each L a di ns polls (addExportedSymbol L a di root [])))"

definition addLocalSymbol :: "node_classes \<Rightarrow> ast_arena \<Rightarrow> nat \<Rightarrow> nat \<Rightarrow> local_symbols \<Rightarrow> local_symbols option" where
  "addLocalSymbol L a di n ls = (case container (memory a n) of None \<Rightarrow> None
     | Some c \<Rightarrow> (case make_description L a di n of None \<Rightarrow> Some ls | Some d \<Rightarrow> Some (symbols_emplace c d ls)))"

fun bind_each :: "node_classes \<Rightarrow> ast_arena \<Rightarrow> nat \<Rightarrow> nat list \<Rightarrow> nat option \<Rightarrow> local_symbols \<Rightarrow> local_symbols option" where
  "bind_each L a di [] polls ls = Some ls"
| "bind_each L a di (n # ns) polls ls =
     (case poll_token polls of None \<Rightarrow> None
      | Some p \<Rightarrow> Option.bind (addLocalSymbol L a di n ls) (bind_each L a di ns p))"

definition collectLocalSymbols :: "node_classes \<Rightarrow> ast_arena \<Rightarrow> nat \<Rightarrow> nat option \<Rightarrow> nat option \<Rightarrow> local_symbols option" where
  "collectLocalSymbols L a di ast polls = (case ast of None \<Rightarrow> Some no_symbols
     | Some root \<Rightarrow> Option.bind (getAllContent a root) (\<lambda>ns. bind_each L a di ns polls no_symbols))"

subsection \<open>Visiting entries\<close>

text \<open>A visitor says whether to go on and keeps a state; \<open>all_of\<close> stops at the first \<open>false\<close>.\<close>

type_synonym 's visitor = "node_description \<Rightarrow> 's \<Rightarrow> bool \<times> 's"

fun visit_all :: "'s visitor \<Rightarrow> node_description list \<Rightarrow> 's \<Rightarrow> bool \<times> 's" where
  "visit_all v [] s = (True, s)"
| "visit_all v (d # ds) s = (case v d s of (go, s') \<Rightarrow> if go then visit_all v ds s' else (False, s'))"

definition visit_named_entries :: "'s visitor \<Rightarrow> named_scope_entries \<Rightarrow> 's \<Rightarrow> bool \<times> 's" where
  "visit_named_entries v es s = (case first_entry es of None \<Rightarrow> (True, s)
     | Some d \<Rightarrow> (case v d s of (go, s') \<Rightarrow> if \<not> go then (False, s') else visit_all v (duplicates es) s'))"

definition accepts_bucket :: "ast_reflection \<Rightarrow> nat \<Rightarrow> scope_bucket \<Rightarrow> bool" where
  "accepts_bucket r refType b = assignable r (bucket_type b) refType"

fun find_scope_entry :: "ast_reflection \<Rightarrow> scope_bucket list \<Rightarrow> nat \<Rightarrow> string \<Rightarrow> node_description option" where
  "find_scope_entry r [] refType nm = None"
| "find_scope_entry r (b # bs) refType nm = (case entriesByName b nm of
       None \<Rightarrow> find_scope_entry r bs refType nm
     | Some es \<Rightarrow> if \<not> accepts_bucket r refType b then find_scope_entry r bs refType nm else first_entry es)"

fun visit_entries :: "ast_reflection \<Rightarrow> scope_bucket list \<Rightarrow> nat \<Rightarrow> string \<Rightarrow> 's visitor \<Rightarrow> 's \<Rightarrow> bool \<times> 's" where
  "visit_entries r [] refType nm v s = (True, s)"
| "visit_entries r (b # bs) refType nm v s =
     (if nm = [] then
        if \<not> accepts_bucket r refType b then visit_entries r bs refType nm v s
        else (case visit_all v (ownedEntries b) s of (go, s') \<Rightarrow>
          if \<not> go then (False, s') else visit_entries r bs refType nm v s')
      else (case entriesByName b nm of
          None \<Rightarrow> visit_entries r bs refType nm v s
        | Some es \<Rightarrow> if \<not> accepts_bucket r refType b then visit_entries r bs refType nm v s
            else (case visit_named_entries v es s of (go, s') \<Rightarrow>
              if \<not> go then (False, s') else visit_entries r bs refType nm v s')))"

partial_function (option) visit_local_scope_levels ::
  "local_symbols \<Rightarrow> ast_arena \<Rightarrow> nat option \<Rightarrow> (scope_bucket list \<Rightarrow> 's \<Rightarrow> bool \<times> 's) \<Rightarrow> 's \<Rightarrow> (bool \<times> 's) option" where
  "visit_local_scope_levels ls a cur f s = (case cur of None \<Rightarrow> Some (True, s)
     | Some c \<Rightarrow> (case forContainer ls c of
         None \<Rightarrow> visit_local_scope_levels ls a (container (memory a c)) f s
       | Some bs \<Rightarrow> if fst (f bs s) then visit_local_scope_levels ls a (container (memory a c)) f (snd (f bs s))
           else Some (False, snd (f bs s))))"

subsection \<open>The global scope\<close>

record compiled_entries =
  elements :: "node_description list"
  allEntries :: "node_description list"
  globalByName :: name_index

definition compile_entries :: "node_description list \<Rightarrow> compiled_entries" where
  "compile_entries ds = \<lparr>elements = ds, allEntries = ds, globalByName = fold index_entry ds (\<lambda>_. None)\<rparr>"

record scope_state =
  globalScopeCache :: "(nat, compiled_entries) simple_cache"
  scope_index :: index_manager

definition getGlobalEntries :: "ast_reflection \<Rightarrow> nat \<Rightarrow> scope_state \<Rightarrow> cache_error + compiled_entries \<times> scope_state" where
  "getGlobalEntries r refType st =
     (if disposed (globalScopeCache st) then Inl CacheDisposed
      else case simple_look refType (globalScopeCache st) of
        Some w \<Rightarrow> Inr (w, st)
      | None \<Rightarrow>
          let (v, m) = (if refType = invalid_type then (compile_entries [], scope_index st)
              else case allElements (assignable r) (Some refType) [] (scope_index st) of (ds, m) \<Rightarrow> (compile_entries ds, m));
            (w, c) = simple_emplace refType v (globalScopeCache st) in
          Inr (w, \<lparr>globalScopeCache = c, scope_index = m\<rparr>))"

subsection \<open>The scope provider\<close>

record reference_info =
  ref_container :: "nat option"
  referenceText :: string
  referenceType :: nat

datatype scope_error = NoDocument | Disposed

text \<open>
  \<open>ls\<close> are the symbols of the document of the container, \<open>None\<close> when the node has no document:
  \<open>getDocument\<close> throws. The outer \<open>None\<close> is a walk that does not end.
\<close>

definition getScopeEntry :: "ast_reflection \<Rightarrow> local_symbols option \<Rightarrow> ast_arena \<Rightarrow> reference_info \<Rightarrow> scope_state \<Rightarrow>
    (scope_error + node_description option \<times> scope_state) option" where
  "getScopeEntry r doc a ref st =
     (if referenceText ref = [] then Some (Inr (None, st))
      else let global = (case getGlobalEntries r (referenceType ref) st of
            Inl e \<Rightarrow> Inl Disposed
          | Inr (g, st') \<Rightarrow> (case globalByName g (referenceText ref) of
              None \<Rightarrow> Inr (None, st') | Some es \<Rightarrow> Inr (first_entry es, st'))) in
        case ref_container ref of
          None \<Rightarrow> Some global
        | Some c \<Rightarrow> (case doc of
            None \<Rightarrow> Some (Inl NoDocument)
          | Some ls \<Rightarrow> (case visit_local_scope_levels ls a (Some c)
                (\<lambda>bs entry. let e = find_scope_entry r bs (referenceType ref) (referenceText ref) in (e = None, e)) None of
              None \<Rightarrow> None
            | Some (go, entry) \<Rightarrow> if entry \<noteq> None then Some (Inr (entry, st)) else Some global)))"

definition visitScopeEntries :: "ast_reflection \<Rightarrow> local_symbols option \<Rightarrow> ast_arena \<Rightarrow> reference_info \<Rightarrow> 's visitor \<Rightarrow>
    scope_state \<Rightarrow> 's \<Rightarrow> (scope_error + (bool \<times> 's) \<times> scope_state) option" where
  "visitScopeEntries r doc a ref v st s =
     (let global = (\<lambda>s. case getGlobalEntries r (referenceType ref) st of
          Inl e \<Rightarrow> Inl Disposed
        | Inr (g, st') \<Rightarrow> Inr (if referenceText ref = [] then visit_all v (allEntries g) s
            else case globalByName g (referenceText ref) of None \<Rightarrow> (True, s) | Some es \<Rightarrow> visit_named_entries v es s, st')) in
      case ref_container ref of
        None \<Rightarrow> Some (global s)
      | Some c \<Rightarrow> (case doc of
          None \<Rightarrow> Some (Inl NoDocument)
        | Some ls \<Rightarrow> (case visit_local_scope_levels ls a (Some c)
              (\<lambda>bs s. visit_entries r bs (referenceType ref) (referenceText ref) v s) s of
            None \<Rightarrow> None
          | Some (go, s') \<Rightarrow> if \<not> go then Some (Inr ((False, s'), st)) else Some (global s'))))"

end
