(* ===== verification/ScopeProps.thy ===== *)
theory ScopeProps
  imports Scopes
begin

text \<open>
  Scoping against its specification: the entries visible from a node are, container by container from the inside
  to the outside, the named children whose type may stand for the expected one, and then the
  exports of the workspace. The provider finds the first of them and visits them in this order.
\<close>

subsection \<open>Entries by name\<close>

definition entry_of :: "node_description list \<Rightarrow> named_scope_entries option" where
  "entry_of ds = (case ds of [] \<Rightarrow> None | d # ds \<Rightarrow> Some \<lparr>first_entry = Some d, duplicates = ds\<rparr>)"

definition named_in :: "string \<Rightarrow> node_description list \<Rightarrow> node_description list" where
  "named_in nm ds = filter (\<lambda>d. nm = [] \<or> name d = nm) ds"

definition indexed :: "node_description list \<Rightarrow> name_index" where
  "indexed ds = (\<lambda>nm. entry_of (filter (\<lambda>d. name d = nm) ds))"

lemma index_entry_indexed: "index_entry d (indexed ds) = indexed (ds @ [d])"
proof
  fix nm
  show "index_entry d (indexed ds) nm = indexed (ds @ [d]) nm"
    by (cases "filter (\<lambda>x. name x = name d) ds")
      (auto simp: index_entry_def indexed_def entry_of_def no_entries_def add_entry_def)
qed

lemma fold_index_entry: "fold index_entry es (indexed ds) = indexed (ds @ es)"
  by (induction es arbitrary: ds) (simp_all add: index_entry_indexed)

lemma compile_indexed: "compile_entries ds = \<lparr>elements = ds, allEntries = ds, globalByName = indexed ds\<rparr>"
  using fold_index_entry [of ds "[]"] by (simp add: compile_entries_def indexed_def entry_of_def)

subsection \<open>Buckets\<close>

definition types_in_order :: "node_description list \<Rightarrow> nat list" where
  "types_in_order es = fold (\<lambda>d ts. if node_type d \<in> set ts then ts else ts @ [node_type d]) es []"

definition of_type :: "nat \<Rightarrow> node_description list \<Rightarrow> node_description list" where
  "of_type t es = filter (\<lambda>d. node_type d = t) es"

definition bucket_for :: "node_description list \<Rightarrow> nat \<Rightarrow> scope_bucket" where
  "bucket_for es t = \<lparr>bucket_type = t, ownedEntries = of_type t es, entriesByName = indexed (of_type t es)\<rparr>"

lemma types_in_order_snoc: "types_in_order (es @ [d]) =
    (if node_type d \<in> set (types_in_order es) then types_in_order es else types_in_order es @ [node_type d])"
  by (simp add: types_in_order_def)

lemma types_in_order_set: "set (types_in_order es) = node_type ` set es"
  by (induction es rule: rev_induct) (auto simp: types_in_order_snoc, simp add: types_in_order_def)

lemma types_in_order_distinct: "distinct (types_in_order es)"
  by (induction es rule: rev_induct) (auto simp: types_in_order_snoc, simp add: types_in_order_def)

lemma bucket_for_other: "t \<noteq> node_type d \<Longrightarrow> bucket_for (es @ [d]) t = bucket_for es t"
  by (simp add: bucket_for_def of_type_def)

lemma store_bucket: "store_in d (bucket_for es (node_type d)) = bucket_for (es @ [d]) (node_type d)"
  by (simp add: store_in_def bucket_for_def of_type_def index_entry_indexed)

lemma into_buckets:
  assumes "node_type d \<notin> set ts \<Longrightarrow> of_type (node_type d) es = []" and "distinct ts"
  shows "into_bucket d (map (bucket_for es) ts) =
    map (bucket_for (es @ [d])) (if node_type d \<in> set ts then ts else ts @ [node_type d])"
  using assms
proof (induction ts)
  case Nil
  then have "\<lparr>bucket_type = node_type d, ownedEntries = [], entriesByName = (\<lambda>_. None)\<rparr> = bucket_for es (node_type d)"
    by (simp add: bucket_for_def indexed_def entry_of_def)
  then show ?case by (simp add: store_bucket)
next
  case (Cons t ts)
  show ?case
  proof (cases "t = node_type d")
    case True
    then have "map (bucket_for (es @ [d])) ts = map (bucket_for es) ts"
      using Cons.prems(2) by (auto intro: bucket_for_other)
    then show ?thesis using True store_bucket [of d es] by (simp add: bucket_for_def)
  next
    case False
    have "bucket_type (bucket_for es t) = t" by (simp add: bucket_for_def)
    then show ?thesis using False Cons by (simp add: bucket_for_other)
  qed
qed

definition buckets_of :: "node_description list \<Rightarrow> scope_bucket list" where
  "buckets_of es = map (bucket_for es) (types_in_order es)"

lemma into_buckets_of: "into_bucket d (buckets_of es) = buckets_of (es @ [d])"
proof -
  have "of_type (node_type d) es = []" if "node_type d \<notin> set (types_in_order es)"
    using that by (auto simp: types_in_order_set of_type_def filter_empty_conv image_iff)
  from into_buckets [OF this types_in_order_distinct] show ?thesis
    unfolding buckets_of_def types_in_order_snoc by blast
qed

lemma into_no_bucket: "into_bucket d [] = buckets_of [d]"
  using into_buckets_of [of d "[]"] by (simp add: buckets_of_def types_in_order_def)

subsection \<open>What is visible in one container\<close>

definition visible_in :: "ast_reflection \<Rightarrow> nat \<Rightarrow> string \<Rightarrow> node_description list \<Rightarrow> node_description list" where
  "visible_in r refType nm es =
     concat (map (\<lambda>t. if assignable r t refType then named_in nm (of_type t es) else []) (types_in_order es))"

lemma visit_all_append: "visit_all v (xs @ ys) s =
    (if fst (visit_all v xs s) then visit_all v ys (snd (visit_all v xs s)) else (False, snd (visit_all v xs s)))"
  by (induction xs arbitrary: s) (auto split: prod.splits)

lemma visit_all_go: "visit_all v xs s = (go, s') \<Longrightarrow> visit_all v (xs @ ys) s = (if go then visit_all v ys s' else (False, s'))"
  by (simp add: visit_all_append)

lemma visit_named_all: "visit_named_entries v \<lparr>first_entry = Some d, duplicates = ds\<rparr> s = visit_all v (d # ds) s"
  by (auto simp: visit_named_entries_def split: prod.splits)

lemma visit_buckets: "visit_entries r (map (bucket_for es) ts) refType nm v s =
    visit_all v (concat (map (\<lambda>t. if assignable r t refType then named_in nm (of_type t es) else []) ts)) s"
proof (induction ts arbitrary: s)
  case (Cons t ts)
  obtain go s' where v: "visit_all v (named_in nm (of_type t es)) s = (go, s')" by (metis surj_pair)
  have b: "accepts_bucket r refType (bucket_for es t) = assignable r t refType" "ownedEntries (bucket_for es t) = of_type t es"
    "entriesByName (bucket_for es t) = indexed (of_type t es)"
    by (simp_all add: accepts_bucket_def bucket_for_def)
  show ?case
  proof (cases "nm = []")
    case True
    then have "named_in nm (of_type t es) = of_type t es" by (simp add: named_in_def)
    then show ?thesis using Cons.IH v True by (simp add: b visit_all_go)
  next
    case False
    then have n: "named_in nm (of_type t es) = filter (\<lambda>d. name d = nm) (of_type t es)" by (simp add: named_in_def)
    show ?thesis
    proof (cases "named_in nm (of_type t es)")
      case Nil
      then show ?thesis using Cons.IH False n by (simp add: b indexed_def entry_of_def)
    next
      case list: (Cons d ds)
      have "entriesByName (bucket_for es t) nm = Some \<lparr>first_entry = Some d, duplicates = ds\<rparr>"
        using list n by (simp add: b(3) indexed_def entry_of_def)
      moreover have "visit_named_entries v \<lparr>first_entry = Some d, duplicates = ds\<rparr> s = (go, s')"
        using v list by (simp only: visit_named_all)
      ultimately show ?thesis using Cons.IH False v list by (simp add: b(1) visit_all_go del: append_Cons)
    qed
  qed
qed simp

lemma visit_container: "visit_entries r (buckets_of es) refType nm v s = visit_all v (visible_in r refType nm es) s"
  by (simp add: buckets_of_def visit_buckets visible_in_def)

lemma first_of_appended: "first_of (xs @ ys) = (case xs of [] \<Rightarrow> first_of ys | x # _ \<Rightarrow> Some x)"
  by (cases xs) (simp_all add: first_of_def)

lemma find_buckets: "nm \<noteq> [] \<Longrightarrow> find_scope_entry r (map (bucket_for es) ts) refType nm =
    first_of (concat (map (\<lambda>t. if assignable r t refType then named_in nm (of_type t es) else []) ts))"
proof (induction ts)
  case (Cons t ts)
  have b: "accepts_bucket r refType (bucket_for es t) = assignable r t refType"
    "entriesByName (bucket_for es t) nm = entry_of (named_in nm (of_type t es))"
    using Cons.prems by (simp_all add: accepts_bucket_def bucket_for_def indexed_def named_in_def)
  show ?case using Cons by (cases "named_in nm (of_type t es)") (simp_all add: b entry_of_def first_of_appended)
qed (simp add: first_of_def)

lemma find_container: "nm \<noteq> [] \<Longrightarrow> find_scope_entry r (buckets_of es) refType nm = first_of (visible_in r refType nm es)"
  by (simp add: buckets_of_def find_buckets visible_in_def)

subsection \<open>The enclosing containers\<close>

text \<open>A node and its containers, from the inside to the outside.\<close>

inductive enclosing :: "(nat \<Rightarrow> nat list) \<Rightarrow> nat \<Rightarrow> nat list \<Rightarrow> bool" for kids where
  outermost: "(\<forall>q. c \<notin> set (kids q)) \<Longrightarrow> enclosing kids c [c]"
| inside: "c \<in> set (kids q) \<Longrightarrow> enclosing kids q cs \<Longrightarrow> enclosing kids c (c # cs)"

lemma enclosing_exists:
  assumes l: "laid_out kids a"
  shows "\<exists>cs. enclosing kids c cs"
proof (induction c rule: wf_induct_rule [OF up_wf_converse [OF l]])
  case (1 c)
  show ?case
  proof (cases "\<exists>q. c \<in> set (kids q)")
    case True
    then obtain q where q: "c \<in> set (kids q)" by blast
    then obtain cs where "enclosing kids q cs" using 1 by (auto simp: up_def)
    then show ?thesis using q enclosing.inside by blast
  qed (use enclosing.outermost in blast)
qed

lemma enclosing_set: "enclosing kids c cs \<Longrightarrow> q \<in> set cs \<Longrightarrow> (c, q) \<in> (up kids)\<^sup>*"
  by (induction arbitrary: q rule: enclosing.induct) (auto simp: up_def intro: converse_rtrancl_into_rtrancl)

text \<open>\<open>binds ls E\<close>: the symbols of every container are those of \<open>E\<close>.\<close>

definition binds :: "local_symbols \<Rightarrow> (nat \<Rightarrow> node_description list) \<Rightarrow> bool" where
  "binds ls E \<longleftrightarrow> (\<forall>c. forContainer ls c = (if E c = [] then None else Some (buckets_of (E c))))"

lemma visible_nothing: "visible_in r t nm [] = []"
  by (simp add: visible_in_def types_in_order_def)

lemma enclosing_container:
  assumes l: "laid_out kids a" and "c < count a"
  shows "(\<forall>q. c \<notin> set (kids q)) \<Longrightarrow> container (memory a c) = None" "c \<in> set (kids q) \<Longrightarrow> container (memory a c) = Some q"
  using laid_outD(6) [OF assms] by (metis not_None_eq)+

lemma levels_end: "visit_local_scope_levels ls a None f s = Some (True, s)"
  by (subst visit_local_scope_levels.simps) simp

text \<open>\<open>f\<close> at a level is a walk over the entries \<open>V\<close> that are visible there.\<close>

lemma levels_walk:
  assumes l: "laid_out kids a" and b: "binds ls E"
    and f: "\<And>c s. E c \<noteq> [] \<Longrightarrow> f (buckets_of (E c)) s = visit_all v (V (E c)) s" and "V [] = []"
  shows "enclosing kids c cs \<Longrightarrow> c < count a \<Longrightarrow>
    visit_local_scope_levels ls a (Some c) f s = Some (visit_all v (concat (map (\<lambda>q. V (E q)) cs)) s)"
proof (induction arbitrary: s rule: enclosing.induct)
  case (outermost c)
  show ?case using b f [of c s] assms(4) enclosing_container(1) [OF l outermost(2,1)]
    by (subst visit_local_scope_levels.simps) (auto simp: binds_def prod_eq_iff levels_end)
next
  case (inside c q cs)
  have "q < count a" using inside.hyps(1) laid_outD(8) [OF l, of q] by (cases "q < count a") auto
  note rest = inside.IH [OF this]
  show ?case using b f [of c s] assms(4) enclosing_container(2) [OF l inside.prems inside.hyps(1)] rest
    by (subst visit_local_scope_levels.simps) (auto simp: binds_def visit_all_append prod_eq_iff)
qed

lemma levels_find:
  assumes l: "laid_out kids a" and b: "binds ls E" and nm: "nm \<noteq> []"
  shows "enclosing kids c cs \<Longrightarrow> c < count a \<Longrightarrow>
    visit_local_scope_levels ls a (Some c)
      (\<lambda>bs entry. let e = find_scope_entry r bs t nm in (e = None, e)) None =
    Some (first_of (concat (map (\<lambda>q. visible_in r t nm (E q)) cs)) = None, first_of (concat (map (\<lambda>q. visible_in r t nm (E q)) cs)))"
proof (induction rule: enclosing.induct)
  case (outermost c)
  show ?case using b find_container [OF nm] visible_nothing enclosing_container(1) [OF l outermost(2,1)]
    by (subst visit_local_scope_levels.simps) (auto simp: binds_def Let_def first_of_def levels_end split: list.splits)
next
  case (inside c q cs)
  have "q < count a" using inside.hyps(1) laid_outD(8) [OF l, of q] by (cases "q < count a") auto
  note rest = inside.IH [OF this]
  show ?case
  proof (cases "visible_in r t nm (E c)")
    case Nil
    then show ?thesis using b find_container [OF nm] enclosing_container(2) [OF l inside.prems inside.hyps(1)] rest
      by (subst visit_local_scope_levels.simps) (auto simp: binds_def Let_def first_of_def)
  next
    case (Cons d ds)
    then have "E c \<noteq> []" using visible_nothing by force
    then show ?thesis using Cons b find_container [OF nm]
      by (subst visit_local_scope_levels.simps) (auto simp: binds_def Let_def first_of_def)
  qed
qed

subsection \<open>The symbols of a document\<close>

definition described :: "node_classes \<Rightarrow> ast_arena \<Rightarrow> nat \<Rightarrow> nat list \<Rightarrow> node_description list" where
  "described L a di ns = List.map_filter (make_description L a di) ns"

lemma described_simps [simp]:
  "described L a di [] = []"
  "described L a di (n # ns) = (case make_description L a di n of None \<Rightarrow> [] | Some d \<Rightarrow> [d]) @ described L a di ns"
  by (auto simp: described_def map_filter_simps split: option.splits)

definition enough_polls :: "nat option \<Rightarrow> nat \<Rightarrow> bool" where
  "enough_polls polls n \<longleftrightarrow> (case polls of None \<Rightarrow> True | Some k \<Rightarrow> n \<le> k)"

lemma enough_polls_step: "poll_token polls = None \<Longrightarrow> \<not> enough_polls polls (Suc n)"
  "poll_token polls = Some p \<Longrightarrow> enough_polls polls (Suc n) = enough_polls p n"
  by (auto simp: poll_token_def enough_polls_def split: option.splits nat.splits)

lemma exports_described: "export_each L a di ns polls ds =
    (if enough_polls polls (length ns) then Some (ds @ described L a di ns) else None)"
proof (induction ns arbitrary: polls ds)
  case (Cons n ns)
  then show ?case
    using enough_polls_step(1) [of polls "length ns"] enough_polls_step(2) [of polls _ "length ns"]
    by (cases "poll_token polls") (auto simp: addExportedSymbol_def split: option.splits)
qed (simp add: enough_polls_def split: option.splits)

lemma emplace_binds: "binds ls E \<Longrightarrow> binds (symbols_emplace c d ls) (E(c := E c @ [d]))"
  using into_buckets_of [of d "E c"] into_no_bucket [of d]
  by (auto simp: binds_def symbols_emplace_def forContainer_def)

lemma bind_each_binds:
  assumes "\<forall>n \<in> set ns. container (memory a n) \<noteq> None" and "binds ls E"
  shows "if enough_polls polls (length ns)
    then \<exists>ls'. bind_each L a di ns polls ls = Some ls' \<and>
      binds ls' (\<lambda>c. E c @ described L a di (filter (\<lambda>n. container (memory a n) = Some c) ns))
    else bind_each L a di ns polls ls = None"
  using assms
proof (induction ns arbitrary: polls ls E)
  case Nil
  then show ?case by (simp add: enough_polls_def split: option.splits)
next
  case (Cons n ns)
  obtain c where c: "container (memory a n) = Some c" using Cons.prems(1) by auto
  show ?case
  proof (cases "poll_token polls")
    case None
    then show ?thesis using enough_polls_step(1) by simp
  next
    case (Some p)
    define E' where "E' = E(c := E c @ (case make_description L a di n of None \<Rightarrow> [] | Some d \<Rightarrow> [d]))"
    obtain ls1 where ls1: "addLocalSymbol L a di n ls = Some ls1" "binds ls1 E'"
      using c Cons.prems(2) emplace_binds [OF Cons.prems(2), of c]
      by (cases "make_description L a di n") (auto simp: addLocalSymbol_def E'_def)
    have "(\<lambda>q. E' q @ described L a di (filter (\<lambda>n. container (memory a n) = Some q) ns)) =
        (\<lambda>q. E q @ described L a di (filter (\<lambda>n. container (memory a n) = Some q) (n # ns)))"
      using c by (auto simp: E'_def fun_eq_iff)
    then show ?thesis
      using Cons.IH [OF _ ls1(2), of p] Cons.prems(1) ls1(1) Some enough_polls_step(2) [OF Some] by (auto split: if_splits)
  qed
qed

lemma kid_not_below: "laid_out kids a \<Longrightarrow> n \<in> set (kids c) \<Longrightarrow> (c, n) \<notin> (up kids)\<^sup>*"
  using laid_outD(9) [of kids a] unfolding acyclic_def up_def by (metis (mono_tags, lifting) case_prodI mem_Collect_eq rtrancl_into_trancl1)

text \<open>Of a preorder, the children of \<open>c\<close> are together all of them, in order.\<close>

lemma preorder_kids:
  assumes l: "laid_out kids a"
  shows "preorder kids ns xs \<Longrightarrow> \<forall>x \<in> set ns. \<forall>y \<in> set ns. (x, y) \<in> (up kids)\<^sup>* \<longrightarrow> x = y \<Longrightarrow> distinct ns \<Longrightarrow>
    filter (\<lambda>x. x \<in> set (kids c)) xs = (if c \<in> set xs then kids c else filter (\<lambda>x. x \<in> set (kids c)) ns)"
proof (induction rule: preorder.induct)
  case (node n xs ns ys)
  let ?K = "\<lambda>x. x \<in> set (kids c)"
  have xs: "filter ?K xs = (if c \<in> set xs then kids c else filter ?K (kids n))"
    using node.IH(1) kids_apart [OF l] laid_outD(4) [OF l] by blast
  have ys: "filter ?K ys = (if c \<in> set ys then kids c else filter ?K ns)" using node.IH(2) node.prems by simp
  have set_xs: "x \<in> set xs \<Longrightarrow> (x, n) \<in> (up kids)\<^sup>*" for x
    unfolding preorder_set [OF node.hyps(1)] using up_star_down [of x n kids] by auto
  have set_ys: "x \<in> set ys \<Longrightarrow> \<exists>m \<in> set ns. (x, m) \<in> (up kids)\<^sup>*" for x
    unfolding preorder_set [OF node.hyps(2)] by simp
  have kid: "(x, c) \<in> (up kids)\<^sup>*" if "?K x" for x using that by (auto simp: up_def)
  have apart: False if "(x, n) \<in> (up kids)\<^sup>*" "(x, m) \<in> (up kids)\<^sup>*" "m \<in> set ns" for x m
    using above_comparable [OF l that(1,2)] node.prems that(3) by auto
  have kids_n: "filter ?K (kids n) = (if c = n then kids c else [])"
  proof (cases "c = n")
    case False
    then have "\<not> ?K x" if "x \<in> set (kids n)" for x using that parent_unique [OF l, of x c n] by (auto simp: up_def)
    then show ?thesis using False by (simp add: filter_empty_conv)
  qed simp
  consider "c = n" | "c \<noteq> n" "c \<in> set xs" | "c \<noteq> n" "c \<notin> set xs" "c \<in> set ys" | "c \<noteq> n" "c \<notin> set xs" "c \<notin> set ys" by blast
  then show ?case
  proof cases
    case 1
    have "\<not> ?K n" using kid_not_below [OF l, of n c] 1 by auto
    moreover have "c \<notin> set ys" using set_ys apart [of n] 1 by blast
    moreover have "c \<notin> set xs"
    proof
      assume "c \<in> set xs"
      then obtain k where "k \<in> set (kids n)" "(n, k) \<in> (up kids)\<^sup>*" using 1 preorder_set [OF node.hyps(1)] by blast
      then show False using kid_not_below [OF l] by blast
    qed
    moreover have "\<not> ?K m" if "m \<in> set ns" for m using kid [of m] apart [of m m] that 1 by blast
    ultimately show ?thesis using xs ys kids_n 1 by (simp add: filter_empty_conv)
  next
    case 2
    have "\<not> ?K n" using kid_not_below [OF l, of n c] set_xs [OF 2(2)] by auto
    moreover have "c \<notin> set ys" using set_ys apart set_xs [OF 2(2)] by blast
    moreover have "\<not> ?K m" if "m \<in> set ns" for m
      using kid [of m] apart [of m m] that set_xs [OF 2(2)] by (meson rtrancl.rtrancl_refl rtrancl_trans)
    ultimately show ?thesis using xs ys 2 by (simp add: filter_empty_conv)
  next
    case 3
    obtain m where m: "m \<in> set ns" "(c, m) \<in> (up kids)\<^sup>*" using set_ys [OF 3(3)] by blast
    have "\<not> ?K n" using kid [of n] apart [of n m] m by (meson rtrancl.rtrancl_refl rtrancl_trans)
    then show ?thesis using xs ys kids_n 3 by simp
  next
    case 4
    then show ?thesis using xs ys kids_n by simp
  qed
qed simp

lemma local_symbols_bound:
  assumes l: "laid_out kids a" and root: "root < count a"
  shows "\<exists>xs. getAllContent a root = Some xs \<and>
    (if enough_polls polls (length xs)
     then \<exists>ls. collectLocalSymbols L a di (Some root) polls = Some ls \<and>
       binds ls (\<lambda>c. if (c, root) \<in> (up kids)\<^sup>* then described L a di (kids c) else [])
     else collectLocalSymbols L a di (Some root) polls = None)"
proof -
  obtain xs where xs: "getAllContent a root = Some xs" "preorder kids (kids root) xs" "set xs = {d. (d, root) \<in> (up kids)\<^sup>+}"
    using getAllContent_once [OF l root] by blast
  have below: "x < count a" if "x \<in> set xs" for x
  proof -
    have "(x, root) \<in> (up kids)\<^sup>+" using that xs(3) by simp
    then obtain y where "(x, y) \<in> up kids" by (meson tranclD)
    then show ?thesis using up_below [OF l] by auto
  qed
  have con: "container (memory a x) = Some c \<longleftrightarrow> x \<in> set (kids c)" if "x \<in> set xs" for x c
    using laid_outD(6) [OF l below [OF that]] by simp
  have all: "\<forall>n \<in> set xs. container (memory a n) \<noteq> None"
  proof
    fix x
    assume x: "x \<in> set xs"
    then have "(x, root) \<in> (up kids)\<^sup>+" using xs(3) by simp
    then obtain y where "(x, y) \<in> up kids" by (meson tranclD)
    then show "container (memory a x) \<noteq> None" using con [OF x, of y] by (simp add: up_def)
  qed
  have "filter (\<lambda>n. container (memory a n) = Some c) xs = filter (\<lambda>n. n \<in> set (kids c)) xs" for c
    by (rule filter_cong) (use con in auto)
  also have "filter (\<lambda>n. n \<in> set (kids c)) xs = (if (c, root) \<in> (up kids)\<^sup>* then kids c else [])" for c
  proof -
    have "filter (\<lambda>x. x \<in> set (kids c)) (kids root) = (if c = root then kids c else [])"
    proof (cases "c = root")
      case False
      then have "\<not> x \<in> set (kids c)" if "x \<in> set (kids root)" for x
        using that parent_unique [OF l, of x c root] by (auto simp: up_def)
      then show ?thesis using False by (simp add: filter_empty_conv)
    qed simp
    moreover have "filter (\<lambda>x. x \<in> set (kids c)) xs = (if c \<in> set xs then kids c else filter (\<lambda>x. x \<in> set (kids c)) (kids root))"
      using preorder_kids [OF l xs(2) _ laid_outD(4) [OF l]] kids_apart [OF l] by blast
    ultimately show ?thesis by (simp add: xs(3) rtrancl_eq_or_trancl)
  qed
  finally have kids: "filter (\<lambda>n. container (memory a n) = Some c) xs = (if (c, root) \<in> (up kids)\<^sup>* then kids c else [])" for c .
  have "binds no_symbols (\<lambda>_. [])" by (simp add: binds_def no_symbols_def forContainer_def)
  from bind_each_binds [OF all this, of polls L di] have "if enough_polls polls (length xs)
    then \<exists>ls'. bind_each L a di xs polls no_symbols = Some ls' \<and>
      binds ls' (\<lambda>c. if (c, root) \<in> (up kids)\<^sup>* then described L a di (kids c) else [])
    else bind_each L a di xs polls no_symbols = None"
    unfolding kids by (simp add: if_distrib cong: if_cong)
  then show ?thesis using xs(1) by (simp add: collectLocalSymbols_def)
qed

text \<open>
  C38: the symbols of a document. The exports are the named ones of the root and its children, in order; the local symbols
  of a node of the tree are its named children, in the order they were attached; and the computation stops with the
  cancellation exactly when a poll of the token fails.
\<close>

theorem scopes_computed:
  assumes "attachables ops (0, \<lambda>_. [], \<lambda>_. None)" and "fold forest_step ops (0, \<lambda>_. [], \<lambda>_. None) = (n, kids, src)"
    and "root < n"
  shows "\<exists>a xs. tree_run ops (new_arena raw) = Some a \<and> getAllContent a root = Some xs \<and>
    collectExportedSymbols L a di (Some root) polls =
      (if enough_polls polls (length (kids root)) then Some (described L a di (root # kids root)) else None) \<and>
    (if enough_polls polls (length xs)
     then \<exists>ls. collectLocalSymbols L a di (Some root) polls = Some ls \<and>
       binds ls (\<lambda>c. if (c, root) \<in> (up kids)\<^sup>* then described L a di (kids c) else [])
     else collectLocalSymbols L a di (Some root) polls = None)"
proof -
  obtain a where a: "tree_run ops (new_arena raw) = Some a" "implements_forest a (n, kids, src)"
    using tree_run_implements [OF new_implements assms(1)] assms(2) by auto
  then have l: "laid_out kids a" "root < count a" using assms(3) by (simp_all add: implements_forest_def)
  have "collectExportedSymbols L a di (Some root) polls =
      (if enough_polls polls (length (kids root)) then Some (described L a di (root # kids root)) else None)"
    using getContent_kids [OF l] by (simp add: collectExportedSymbols_def exports_described addExportedSymbol_def split: option.splits)
  then show ?thesis using local_symbols_bound [OF l, of polls L di] a(1) by blast
qed

text \<open>A root with one child, both of a class that has names.\<close>

definition small_classes :: node_classes where
  "small_classes = \<lparr>class_reflection = None, class_derives = (\<lambda>_ t. t = named_ast_node_type), dynamic_type = (\<lambda>_. 5),
     name_field = (\<lambda>n. if n = 1 then ''x'' else [])\<rparr>"

lemma small_tree:
  "attachables [Create, Create, Attach 1 0] (0, \<lambda>_. [], \<lambda>_. None)"
  "fold forest_step [Create, Create, Attach 1 0] (0, \<lambda>_. [], \<lambda>_. None) = (2, (\<lambda>_. [])(0 := [1]), \<lambda>_. None)"
proof -
  have "up (\<lambda>_. []) = {}" by (simp add: up_def)
  then show "attachables [Create, Create, Attach 1 0] (0, \<lambda>_. [], \<lambda>_. None)" by simp
qed simp

lemma scopes_computed_witness:
  "\<exists>a d. tree_run [Create, Create, Attach 1 0] (new_arena (\<lambda>_. new_node)) = Some a \<and>
    collectExportedSymbols small_classes a 3 (Some 0) None = Some [d] \<and> name d = ''x'' \<and> node_type d = 5"
proof -
  have "described small_classes a 3 [0, 1] = [\<lparr>name = ''x'', node_type = 5, documentId = 3, symbolId = ast_node.symbolId (memory a 1)\<rparr>]" for a
    by (simp add: make_description_def getName_def is_a_def small_classes_def createDescription_def)
  moreover have "((\<lambda>_. [])(0 := [1])) 0 = [1 :: nat]" by simp
  moreover have "(0 :: nat) < 2" by simp
  moreover have "enough_polls None k" for k by (simp add: enough_polls_def)
  ultimately show ?thesis
    using scopes_computed [OF small_tree, of 0 "\<lambda>_. new_node" small_classes 3 None] by fastforce
qed

subsection \<open>The global scope\<close>

definition global_elements :: "ast_reflection \<Rightarrow> nat \<Rightarrow> index_manager \<Rightarrow> node_description list" where
  "global_elements r t m = (if t = invalid_type then [] else fst (allElements (assignable r) (Some t) [] m))"

text \<open>The cache is not disposed and holds what the index answers now.\<close>

definition scope_ok :: "ast_reflection \<Rightarrow> scope_state \<Rightarrow> bool" where
  "scope_ok r st \<longleftrightarrow> \<not> disposed (globalScopeCache st) \<and> index_ok (assignable r) (scope_index st) \<and>
     (\<forall>t w. simple_look t (globalScopeCache st) = Some w \<longrightarrow> w = compile_entries (global_elements r t (scope_index st)))"

lemma new_scope_ok: "index_ok (assignable r) m \<Longrightarrow> scope_ok r \<lparr>globalScopeCache = new_simple_cache, scope_index = m\<rparr>"
  by (simp add: scope_ok_def simple_look_def new_simple_cache_def)

lemma elements_kept:
  assumes "index_ok asg m"
  shows "fst (allElements asg t ds (snd (allElements asg u es m))) = fst (allElements asg t ds m)"
proof -
  define k where "k = snd (allElements asg u es m)"
  have one: "index_ok asg k" "exportsByDocument k = exportsByDocument m"
    using allElements [OF assms, of u es] by (simp_all add: k_def)
  have parts: "exports_of k = exports_of m" "typed asg k = typed asg m" "listed ds k = listed ds m"
    using one(2) by (simp_all add: exports_of_def typed_def listed_def fun_eq_iff)
  show ?thesis using allElements(1) [OF one(1), of t ds] allElements(1) [OF assms, of t ds]
    unfolding k_def [symmetric] parts by metis
qed

lemma global_entries:
  assumes "scope_ok r st"
  shows "\<exists>st'. getGlobalEntries r t st = Inr (compile_entries (global_elements r t (scope_index st)), st') \<and> scope_ok r st' \<and>
    exportsByDocument (scope_index st') = exportsByDocument (scope_index st)"
proof (cases "simple_look t (globalScopeCache st)")
  case (Some w)
  then show ?thesis using assms by (simp add: getGlobalEntries_def scope_ok_def)
next
  case None
  let ?asg = "assignable r"
  define m where "m = (if t = invalid_type then scope_index st else snd (allElements ?asg (Some t) [] (scope_index st)))"
  have ok: "\<not> disposed (globalScopeCache st)" "index_ok ?asg (scope_index st)"
    "\<forall>t w. simple_look t (globalScopeCache st) = Some w \<longrightarrow> w = compile_entries (global_elements r t (scope_index st))"
    using assms by (simp_all add: scope_ok_def)
  have m: "index_ok ?asg m" "exportsByDocument m = exportsByDocument (scope_index st)" "global_elements r u m = global_elements r u (scope_index st)" for u
    using allElements [OF ok(2), of "Some t" "[]"] elements_kept [OF ok(2)] ok(2) by (auto simp: m_def global_elements_def)
  define v where "v = compile_entries (global_elements r t (scope_index st))"
  define st' where "st' = \<lparr>globalScopeCache = snd (simple_emplace t v (globalScopeCache st)), scope_index = m\<rparr>"
  have e: "entries (globalScopeCache st) t = None" using None by (simp add: simple_look_def)
  have "getGlobalEntries r t st = Inr (v, st')"
    using ok(1) None e by (auto simp: getGlobalEntries_def simple_emplace_def Let_def v_def st'_def m_def global_elements_def split: prod.splits)
  moreover have "scope_ok r st'"
    using ok m e by (auto simp: scope_ok_def st'_def simple_emplace_def simple_look_def v_def)
  ultimately show ?thesis using m(2) by (auto simp: v_def st'_def)
qed

lemma first_indexed: "nm \<noteq> [] \<Longrightarrow> (case indexed ds nm of None \<Rightarrow> None | Some es \<Rightarrow> first_entry es) = first_of (named_in nm ds)"
  by (cases "filter (\<lambda>d. name d = nm) ds") (auto simp: indexed_def entry_of_def first_of_def named_in_def)

lemma visit_indexed: "nm \<noteq> [] \<Longrightarrow> (case indexed ds nm of None \<Rightarrow> (True, s) | Some es \<Rightarrow> visit_named_entries v es s) = visit_all v (named_in nm ds) s"
  by (cases "filter (\<lambda>d. name d = nm) ds") (auto simp: indexed_def entry_of_def named_in_def visit_named_all)

definition exported_as :: "ast_reflection \<Rightarrow> nat \<Rightarrow> index_manager \<Rightarrow> node_description list" where
  "exported_as r t m = filter (\<lambda>d. assignable r (node_type d) t) (concat (map snd (exportsByDocument m)))"

lemma global_elements_exported:
  assumes "index_ok (assignable r) m"
  shows "global_elements r t m = exported_as r t m"
proof (cases "t = invalid_type")
  case False
  have "distinct (map fst (exportsByDocument m))"
    using index_okD(1) [OF assms] by (auto simp: ordered_def strict_sorted_iff)
  then have "map snd (exportsByDocument m) = map (exports_of m) (map fst (exportsByDocument m))"
    by (auto simp: exports_of_def)
  then show ?thesis using allElements [OF assms, of "Some t" "[]"] False
    by (simp add: global_elements_def exported_as_def typed_def filterDescriptionsByType_def listed_def filter_concat comp_def cong: map_cong)
qed (simp add: global_elements_def exported_as_def type_is_assignable_def)

lemma visit_compiled: "(if nm = [] then visit_all v (allEntries (compile_entries ds)) s
    else case globalByName (compile_entries ds) nm of None \<Rightarrow> (True, s) | Some es \<Rightarrow> visit_named_entries v es s) =
  visit_all v (named_in nm ds) s"
  using visit_indexed [where nm = nm and ds = ds and s = s and v = v] by (simp add: compile_indexed) (simp add: named_in_def)

text \<open>What is visible from the containers \<open>cs\<close>, whose symbols are \<open>E\<close>.\<close>

definition visible_from :: "ast_reflection \<Rightarrow> reference_info \<Rightarrow> (nat \<Rightarrow> node_description list) \<Rightarrow> nat list \<Rightarrow> index_manager \<Rightarrow>
    node_description list" where
  "visible_from r ref E cs m = concat (map (\<lambda>q. visible_in r (referenceType ref) (referenceText ref) (E q)) cs) @
     named_in (referenceText ref) (exported_as r (referenceType ref) m)"

lemma lookup_visible:
  assumes l: "laid_out kids a" and b: "binds ls E" and st: "scope_ok r st"
    and ref: "ref_container ref = Some c" "c < count a" "referenceText ref \<noteq> []" and cs: "enclosing kids c cs"
  shows "\<exists>st'. getScopeEntry r (Some ls) a ref st = Some (Inr (first_of (visible_from r ref E cs (scope_index st)), st')) \<and> scope_ok r st'"
proof -
  let ?here = "concat (map (\<lambda>q. visible_in r (referenceType ref) (referenceText ref) (E q)) cs)"
  obtain st' where g: "getGlobalEntries r (referenceType ref) st = Inr (compile_entries (global_elements r (referenceType ref) (scope_index st)), st')"
      "scope_ok r st'" using global_entries [OF st] by blast
  have global: "global_elements r (referenceType ref) (scope_index st) = exported_as r (referenceType ref) (scope_index st)"
    using st by (intro global_elements_exported) (simp add: scope_ok_def)
  note levels = levels_find [OF l b ref(3) cs ref(2), of r "referenceType ref"]
  show ?thesis
  proof (cases ?here)
    case Nil
    then have "getScopeEntry r (Some ls) a ref st =
        Some (Inr (case indexed (global_elements r (referenceType ref) (scope_index st)) (referenceText ref) of
          None \<Rightarrow> None | Some es \<Rightarrow> first_entry es, st'))"
      using levels [unfolded Nil] g(1) ref(1,3) by (simp add: getScopeEntry_def Let_def compile_indexed first_of_def split: option.splits)
    moreover have "visible_from r ref E cs (scope_index st) = named_in (referenceText ref) (global_elements r (referenceType ref) (scope_index st))"
      unfolding visible_from_def Nil global by simp
    ultimately show ?thesis using first_indexed [OF ref(3)] g(2) by simp
  next
    case (Cons d ds)
    then have "getScopeEntry r (Some ls) a ref st = Some (Inr (Some d, st))"
      using levels g(1) ref(1,3) by (simp add: getScopeEntry_def Let_def first_of_def)
    then show ?thesis using Cons st by (simp add: visible_from_def first_of_def)
  qed
qed

lemma visit_visible:
  assumes l: "laid_out kids a" and b: "binds ls E" and st: "scope_ok r st"
    and ref: "ref_container ref = Some c" "c < count a" and cs: "enclosing kids c cs"
  shows "\<exists>st'. visitScopeEntries r (Some ls) a ref v st s = Some (Inr (visit_all v (visible_from r ref E cs (scope_index st)) s, st')) \<and>
    scope_ok r st'"
proof -
  let ?nm = "referenceText ref" and ?G = "global_elements r (referenceType ref) (scope_index st)"
  let ?here = "concat (map (\<lambda>q. visible_in r (referenceType ref) ?nm (E q)) cs)"
  obtain st' where g: "getGlobalEntries r (referenceType ref) st = Inr (compile_entries ?G, st')" "scope_ok r st'"
    using global_entries [OF st] by blast
  have global: "?G = exported_as r (referenceType ref) (scope_index st)"
    using st by (intro global_elements_exported) (simp add: scope_ok_def)
  have levels: "visit_local_scope_levels ls a (Some c) (\<lambda>bs s. visit_entries r bs (referenceType ref) ?nm v s) s = Some (visit_all v ?here s)"
    by (rule levels_walk [where V = "visible_in r (referenceType ref) ?nm" and f = "\<lambda>bs s. visit_entries r bs (referenceType ref) ?nm v s",
        OF l b _ visible_nothing cs ref(2)]) (simp add: visit_container)
  obtain go s' where here: "visit_all v ?here s = (go, s')" by (metis surj_pair)
  have "visitScopeEntries r (Some ls) a ref v st s = Some (Inr (visit_all v (visible_from r ref E cs (scope_index st)) s, if go then st' else st))"
    using levels here g(1) ref(1)
    by (auto simp: visitScopeEntries_def Let_def visit_compiled visible_from_def global [symmetric] visit_all_append)
  then show ?thesis using g(2) st by auto
qed

subsection \<open>Properties\<close>



lemma symbols_bound_somehow: "bind_each L a di ns polls ls = Some ls' \<Longrightarrow> binds ls E \<Longrightarrow> \<exists>E. binds ls' E"
proof (induction ns arbitrary: polls ls E)
  case (Cons n ns)
  then obtain p ls1 where p: "addLocalSymbol L a di n ls = Some ls1" "bind_each L a di ns p ls1 = Some ls'"
    by (auto split: option.splits bind_splits)
  then have "\<exists>E. binds ls1 E"
    using Cons.prems(2) emplace_binds [OF Cons.prems(2)] by (auto simp: addLocalSymbol_def split: option.splits)
  then show ?case using Cons.IH [OF p(2)] by blast
qed auto

lemma visible_in_typed: "d \<in> set (visible_in r t nm es) \<Longrightarrow> assignable r (node_type d) t \<and> (nm = [] \<or> name d = nm)"
  by (auto simp: visible_in_def named_in_def of_type_def split: if_splits)

lemma levels_keep:
  assumes "visit_local_scope_levels ls a cur f s = Some (go, s')" and "I s"
    and "\<And>c bs s. forContainer ls c = Some bs \<Longrightarrow> I s \<Longrightarrow> I (snd (f bs s))"
  shows "I s'"
proof -
  have "(\<forall>c bs s. forContainer ls c = Some bs \<longrightarrow> I s \<longrightarrow> I (snd (f bs s))) \<longrightarrow> I s \<longrightarrow> I (snd r)"
    if "visit_local_scope_levels ls a cur f s = Some r" for r
    using that
    by (induction rule: visit_local_scope_levels.raw_induct [rotated, consumes 1]) (auto split: option.splits if_splits)
  then show ?thesis using assms by fastforce
qed

lemma visit_all_keeps: "(\<And>d s. d \<in> set ds \<Longrightarrow> I s \<Longrightarrow> I (snd (v d s))) \<Longrightarrow> I s \<Longrightarrow> I (snd (visit_all v ds s))"
proof (induction ds arbitrary: s)
  case (Cons d ds)
  obtain go s' where v: "v d s = (go, s')" by (metis surj_pair)
  then have "I s'" using Cons.prems(1) [of d s] Cons.prems(2) by simp
  then show ?case using Cons v by simp
qed simp

lemma first_of_in: "first_of xs = Some d \<Longrightarrow> d \<in> set xs"
  by (auto simp: first_of_def split: list.splits)

lemma exported_as_typed: "d \<in> set (named_in nm (exported_as r t m)) \<Longrightarrow> assignable r (node_type d) t \<and> (nm = [] \<or> name d = nm)"
  by (auto simp: named_in_def exported_as_def)

text \<open>
  C40: what a reference may be resolved to. Whatever the tree of the reference, an entry that a lookup finds has the name
  that was looked for and a type that may stand for the expected one, so the resolver's unchecked cast of the
  node is sound; and a visitor is shown only such entries.
\<close>

theorem scope_entries_typed:
  assumes "collectLocalSymbols L b di ast polls = Some ls" and "scope_ok r st"
  shows "(getScopeEntry r (Some ls) a ref st = Some (Inr (Some d, st')) \<longrightarrow>
      name d = referenceText ref \<and> assignable r (node_type d) (referenceType ref)) \<and>
    (visitScopeEntries r (Some ls) a ref (\<lambda>d ds. (True, ds @ [d])) st [] = Some (Inr ((go, ds), st')) \<longrightarrow>
      (\<forall>d \<in> set ds. assignable r (node_type d) (referenceType ref) \<and> (referenceText ref = [] \<or> name d = referenceText ref)))"
proof -
  let ?t = "referenceType ref" and ?nm = "referenceText ref"
  let ?G = "global_elements r ?t (scope_index st)"
  have "binds no_symbols (\<lambda>_. [])" by (simp add: binds_def no_symbols_def forContainer_def)
  then obtain E where E: "binds ls E"
    using assms(1) by (auto simp: collectLocalSymbols_def split: option.splits bind_splits dest: symbols_bound_somehow)
  have bs: "bs = buckets_of (E c)" if "forContainer ls c = Some bs" for c bs
    using E that unfolding binds_def by (metis option.distinct(1) option.inject)
  obtain st1 where g: "getGlobalEntries r ?t st = Inr (compile_entries ?G, st1)" using global_entries [OF assms(2)] by blast
  have G: "?G = exported_as r ?t (scope_index st)"
    using assms(2) by (intro global_elements_exported) (simp add: scope_ok_def)
  have fits: "assignable r (node_type d) ?t \<and> (?nm = [] \<or> name d = ?nm)" if "d \<in> set (named_in ?nm ?G)" for d
    using that exported_as_typed unfolding G by blast
  have "name d = ?nm \<and> assignable r (node_type d) ?t" if found: "getScopeEntry r (Some ls) a ref st = Some (Inr (Some d, st'))"
  proof -
    have nm: "?nm \<noteq> []" using found by (auto simp: getScopeEntry_def)
    let ?I = "\<lambda>entry. \<forall>d. entry = Some d \<longrightarrow> name d = ?nm \<and> assignable r (node_type d) ?t"
    have local: "?I e" if "visit_local_scope_levels ls a cur (\<lambda>bs entry. let e = find_scope_entry r bs ?t ?nm in (e = None, e)) None = Some (go, e)"
      for cur go e
    proof (rule levels_keep [where I = ?I, OF that])
      fix c bks and entry :: "node_description option"
      assume "forContainer ls c = Some bks"
      then have "snd (let e = find_scope_entry r bks ?t ?nm in (e = None, e)) = first_of (visible_in r ?t ?nm (E c))"
        unfolding bs [OF \<open>forContainer ls c = Some bks\<close>] by (simp add: Let_def find_container [OF nm])
      moreover have "?I (first_of (visible_in r ?t ?nm (E c)))"
        using nm by (auto dest!: first_of_in visible_in_typed)
      ultimately show "?I (snd (let e = find_scope_entry r bks ?t ?nm in (e = None, e)))" by (simp only:)
    qed simp
    have global: "?I (case indexed ?G ?nm of None \<Rightarrow> None | Some es \<Rightarrow> first_entry es)"
    proof (intro allI impI)
      fix d
      assume "(case indexed ?G ?nm of None \<Rightarrow> None | Some es \<Rightarrow> first_entry es) = Some d"
      then have "d \<in> set (named_in ?nm ?G)" unfolding first_indexed [OF nm] by (rule first_of_in)
      from fits [OF this] nm show "name d = ?nm \<and> assignable r (node_type d) ?t" by blast
    qed
    show ?thesis
    proof (cases "ref_container ref")
      case None
      then have "(case indexed ?G ?nm of None \<Rightarrow> None | Some es \<Rightarrow> first_entry es) = Some d"
        using found nm g by (simp add: getScopeEntry_def Let_def compile_indexed split: option.splits)
      then show ?thesis using global by blast
    next
      case (Some c)
      obtain go0 e where e: "visit_local_scope_levels ls a (Some c)
          (\<lambda>bs entry. let e = find_scope_entry r bs ?t ?nm in (e = None, e)) None = Some (go0, e)"
        using found nm Some by (auto simp: getScopeEntry_def split: option.splits)
      then have "(if e \<noteq> None then e else (case indexed ?G ?nm of None \<Rightarrow> None | Some es \<Rightarrow> first_entry es)) = Some d"
        using found nm g Some by (simp add: getScopeEntry_def Let_def compile_indexed split: option.splits if_splits)
      then show ?thesis using global local [OF e] by (cases e) auto
    qed
  qed
  moreover have "\<forall>d \<in> set ds. assignable r (node_type d) ?t \<and> (?nm = [] \<or> name d = ?nm)"
    if shown: "visitScopeEntries r (Some ls) a ref (\<lambda>d ds. (True, ds @ [d])) st [] = Some (Inr ((go, ds), st'))"
  proof -
    let ?I = "\<lambda>ds. \<forall>d \<in> set ds. assignable r (node_type d) ?t \<and> (?nm = [] \<or> name d = ?nm)"
    let ?v = "\<lambda>d ds. (True, ds @ [d])"
    have local: "?I ds" if "visit_local_scope_levels ls a cur (\<lambda>bs. visit_entries r bs ?t ?nm ?v) [] = Some (go, ds)" for cur go ds
    proof (rule levels_keep [where I = ?I, OF that])
      fix c bks and ds :: "node_description list"
      assume c: "forContainer ls c = Some bks" "?I ds"
      show "?I (snd (visit_entries r bks ?t ?nm ?v ds))"
        unfolding bs [OF c(1)] visit_container
        by (rule visit_all_keeps [where I = ?I]) (use c(2) visible_in_typed [of _ r ?t ?nm "E c"] in auto)
    qed simp
    have global: "?I (snd (visit_all ?v (named_in ?nm ?G) s))" if "?I s" for s
      by (rule visit_all_keeps) (use that fits in auto)
    show ?thesis
    proof (cases "ref_container ref")
      case None
      then have "ds = snd (visit_all ?v (named_in ?nm ?G) [])"
        using shown g by (simp add: visitScopeEntries_def Let_def visit_compiled)
      then show ?thesis using global [of "[]"] by simp
    next
      case (Some c)
      obtain go0 s0 where s0: "visit_local_scope_levels ls a (Some c) (\<lambda>bs. visit_entries r bs ?t ?nm ?v) [] = Some (go0, s0)"
        using shown Some by (auto simp: visitScopeEntries_def Let_def split: option.splits)
      then have "ds = (if go0 then snd (visit_all ?v (named_in ?nm ?G) s0) else s0)"
        using shown g Some by (auto simp: visitScopeEntries_def Let_def visit_compiled split: if_splits)
      then show ?thesis using global [of s0] local [OF s0] by simp
    qed
  qed
  ultimately show ?thesis by blast
qed

lemma scope_entries_typed_witness:
  "\<exists>d st'. getScopeEntry new_reflection (Some no_symbols) (new_arena (\<lambda>_. new_node))
      \<lparr>ref_container = None, referenceText = ''x'', referenceType = 5\<rparr>
      \<lparr>globalScopeCache = new_simple_cache,
        scope_index = updateContent 0 [\<lparr>name = ''x'', node_type = 5, documentId = 0, symbolId = 1\<rparr>] new_index\<rparr> = Some (Inr (Some d, st')) \<and>
    name d = ''x'' \<and> assignable new_reflection (node_type d) 5"
proof -
  let ?st = "\<lparr>globalScopeCache = new_simple_cache,
    scope_index = updateContent 0 [\<lparr>name = ''x'', node_type = 5, documentId = 0, symbolId = 1\<rparr>] new_index\<rparr>"
  let ?ref = "\<lparr>ref_container = None, referenceText = ''x'', referenceType = 5\<rparr>"
  have ok: "scope_ok new_reflection ?st" by (intro new_scope_ok updateContent_ok new_index_ok)
  obtain st' where g: "getGlobalEntries new_reflection 5 ?st =
      Inr (compile_entries (global_elements new_reflection 5 (scope_index ?st)), st')"
    using global_entries [OF ok, of 5] by blast
  have "global_elements new_reflection 5 (scope_index ?st) = [\<lparr>name = ''x'', node_type = 5, documentId = 0, symbolId = 1\<rparr>]"
    using global_elements_exported [of new_reflection "scope_index ?st" 5] ok
    by (simp add: scope_ok_def exported_as_def updateContent_def new_index_def type_is_assignable_def invalid_type_def)
  then have "getScopeEntry new_reflection (Some no_symbols) (new_arena (\<lambda>_. new_node)) ?ref ?st =
      Some (Inr (Some \<lparr>name = ''x'', node_type = 5, documentId = 0, symbolId = 1\<rparr>, st'))"
    using g by (simp add: getScopeEntry_def compile_indexed indexed_def entry_of_def)
  moreover have "collectLocalSymbols small_classes (new_arena (\<lambda>_. new_node)) 3 None None = Some no_symbols"
    by (simp add: collectLocalSymbols_def)
  from scope_entries_typed [OF this ok]
  have "getScopeEntry new_reflection (Some no_symbols) (new_arena (\<lambda>_. new_node)) ?ref ?st = Some (Inr (Some d, st')) \<Longrightarrow>
      name d = referenceText ?ref \<and> assignable new_reflection (node_type d) (referenceType ?ref)" for d by blast
  ultimately show ?thesis by fastforce
qed

end
